(* ===== verification/Prelude.thy ===== *)
theory Prelude
  imports Main "HOL-Library.Word" "HOL-Library.Signed_Division"
begin

text \<open>
  Shared material of the development: the machine types of the source, exceptions as the left
  side of a sum type with a sequencing operator, the C++ conversions between signed and unsigned
  integers, powers of ten, and the theorem collections the component theories add to.

  Conventions used by every component:
  \<^item> a function that may throw returns \<open>exn + 'a\<close>; \<open>Inl e\<close> is the throw of \<open>e\<close>, with the
    message of the source as a string, and \<open>Inl NonTermination\<close> a call that does not return (a
    loop that may run forever is a \<open>partial_function (option)\<close>, read by \<open>returns\<close>); using a null pointer is \<open>Inl NullDereference\<close>, an
    access outside an array \<open>Inl OutOfBounds\<close>, and an operation on signed integers whose result does not
    fit \<open>Inl SignedOverflow\<close>: the behaviour of the source is undefined there;
  \<^item> an object that is mutated is passed as an argument and returned updated;
  \<^item> unsigned machine integers are words; a signed integer whose overflow the source excludes
    is an \<open>int\<close>, and the absence of overflow is proved where it matters;
  \<^item> \<open>x / y\<close> on signed integers truncates towards zero and is written \<open>x sdiv y\<close>.
\<close>

unbundle bit_operations_syntax

section \<open>Types\<close>

type_synonym u8 = "8 word"
type_synonym u16 = "16 word"
type_synonym u32 = "32 word"
type_synonym u64 = "64 word"
type_synonym Blob = "u8 list"

datatype exn =
    OverflowError string
  | RuntimeError string
  | LogicError string
  | DomainError string
  | NullDereference
  | OutOfBounds
  | SignedOverflow
  | NonTermination

type_synonym 'a res = "exn + 'a"

named_theorems res_simps "evaluation of sequenced computations"
named_theorems u64_simps "reading arithmetic on machine words as arithmetic on numbers"

section \<open>Sequencing computations that may throw\<close>

definition bindE :: "'a res \<Rightarrow> ('a \<Rightarrow> 'b res) \<Rightarrow> 'b res" where
  "bindE m f = (case m of Inl e \<Rightarrow> Inl e | Inr x \<Rightarrow> f x)"

definition throwIf :: "bool \<Rightarrow> exn \<Rightarrow> unit res" where
  "throwIf b e = (if b then Inl e else Inr ())"

definition deref :: "'a option \<Rightarrow> 'a res" where
  "deref p = (case p of None \<Rightarrow> Inl NullDereference | Some x \<Rightarrow> Inr x)"

definition returns :: "'a option \<Rightarrow> 'a res" where
  "returns m = (case m of None \<Rightarrow> Inl NonTermination | Some x \<Rightarrow> Inr x)"

lemma returns_simps [simp, res_simps]: "returns None = Inl NonTermination" "returns (Some x) = Inr x"
  by (simp_all add: returns_def)

lemma deref_simps [simp, res_simps]: "deref None = Inl NullDereference" "deref (Some x) = Inr x"
  by (simp_all add: deref_def)

lemma bindE_Inl [simp, res_simps]: "bindE (Inl e) f = Inl e"
  by (simp add: bindE_def)

lemma bindE_Inr [simp, res_simps]: "bindE (Inr x) f = f x"
  by (simp add: bindE_def)

lemma bindE_cong [fundef_cong]:
  "m = m' \<Longrightarrow> (\<And>x. m' = Inr x \<Longrightarrow> f x = f' x) \<Longrightarrow> bindE m f = bindE m' f'"
  by (cases m') (auto simp: bindE_def)

lemma bindE_Inr_right [simp]: "bindE m Inr = m"
  by (cases m) simp_all

lemma bindE_eq_Inr: "bindE m f = Inr y \<longleftrightarrow> (\<exists>x. m = Inr x \<and> f x = Inr y)"
  by (cases m) auto

lemma bindE_eq_InrE [elim]:
  assumes "bindE m f = Inr y"
  obtains x where "m = Inr x" and "f x = Inr y"
  using assms by (auto simp: bindE_eq_Inr)

lemma bindE_eq_Inl: "bindE m f = Inl e \<longleftrightarrow> m = Inl e \<or> (\<exists>x. m = Inr x \<and> f x = Inl e)"
  by (cases m) auto

lemma bindE_assoc: "bindE (bindE m f) g = bindE m (\<lambda>x. bindE (f x) g)"
  by (cases m) auto

text \<open>A range-based \<open>for\<close> loop whose body may throw.\<close>

fun forE :: "('a \<Rightarrow> 's \<Rightarrow> 's res) \<Rightarrow> 'a list \<Rightarrow> 's \<Rightarrow> 's res" where
  "forE f [] s = Inr s"
| "forE f (x # xs) s = bindE (f x s) (forE f xs)"

lemma forE_cong [fundef_cong]:
  "xs = ys \<Longrightarrow> s = t \<Longrightarrow> (\<And>x u. x \<in> set ys \<Longrightarrow> f x u = g x u) \<Longrightarrow> forE f xs s = forE g ys t"
proof (induction xs arbitrary: ys s t)
  case (Cons x xs)
  then show ?case by (auto simp: bindE_def split: sum.split)
qed auto

lemma forE_append: "forE f (xs @ ys) s = bindE (forE f xs s) (forE f ys)"
  by (induction xs arbitrary: s) (auto simp: bindE_def split: sum.splits)

lemma forE_invariant:
  assumes "forE f xs s = Inr s'" and "\<And>x s s'. f x s = Inr s' \<Longrightarrow> P s \<Longrightarrow> P s'" and "P s"
  shows "P s'"
  using assms(1,3) by (induction xs arbitrary: s) (auto dest: assms(2))

lemma bindE_assoc_pair:
  "bindE (bindE m (\<lambda>(x, s). f x s)) g = bindE m (\<lambda>(x, s). bindE (f x s) g)"
  by (cases m) auto

lemma throwIf_True [simp, res_simps]: "throwIf True e = Inl e"
  by (simp add: throwIf_def)

lemma throwIf_False [simp, res_simps]: "throwIf False e = Inr ()"
  by (simp add: throwIf_def)

lemma throwIf_eq_Inr: "throwIf b e = Inr u \<longleftrightarrow> \<not> b"
  by (simp add: throwIf_def)

section \<open>Conversions between integer types\<close>

text \<open>
  \<open>int\<close> to \<open>std::size_t\<close> in a mixed comparison, and \<open>std::size_t\<close> narrowed to \<open>int\<close>.
\<close>

definition int_to_size :: "int \<Rightarrow> nat" where
  "int_to_size i = nat (i mod 2 ^ 64)"

definition size_to_int :: "nat \<Rightarrow> int" where
  "size_to_int n = sint (word_of_nat n :: 32 word)"

text \<open>The negation of an \<open>int64_t\<close>, and a 64-bit magnitude with a sign read as an \<open>int64_t\<close>.\<close>

definition int64_min :: int where
  "int64_min = - 9223372036854775808"

definition neg64 :: "int \<Rightarrow> int res" where
  "neg64 x = (if x = int64_min then Inl SignedOverflow else Inr (- x))"

definition signed64 :: "bool \<Rightarrow> u64 \<Rightarrow> int res" where
  "signed64 negative v = (if negative then neg64 (sint v) else Inr (sint v))"

lemma neg64_small [simp]: "x \<noteq> int64_min \<Longrightarrow> neg64 x = Inr (- x)"
  by (simp add: neg64_def)

lemma small_not_min: "\<bar>x\<bar> \<le> 10 ^ 18 \<Longrightarrow> x \<noteq> int64_min"
  by (auto simp: int64_min_def)

lemma signed64_small: "0 \<le> sint v \<Longrightarrow> signed64 n v = Inr (if n then - sint v else sint v)"
  by (auto simp: signed64_def int64_min_def neg64_def)

definition int_max :: int where
  "int_max = 2 ^ 31 - 1"

lemma int_to_size_nonneg [simp]: "0 \<le> i \<Longrightarrow> i < 2 ^ 64 \<Longrightarrow> int_to_size i = nat i"
  by (simp add: int_to_size_def)

lemma size_to_int_small: "n < 2 ^ 31 \<Longrightarrow> size_to_int n = int n"
  by (simp add: size_to_int_def signed_of_nat signed_take_bit_int_eq_self)

section \<open>Powers of ten\<close>

lemma pow10_pos [simp]: "0 < (10::nat) ^ n"
  by simp

lemma div10_lt: "(0::nat) < n \<Longrightarrow> n div 10 < n"
  by simp

lemma div_pow10_Suc: "n div 10 div 10 ^ k = (n::nat) div 10 ^ Suc k"
  by (simp add: div_mult2_eq)

section \<open>Splitting a word into bytes and joining them\<close>

lemma ucast_and_ff: "ucast (i AND 0xff) = (ucast i :: u8)" for i :: "'a::len word"
proof (rule bit_word_eqI)
  fix n assume "n < LENGTH(8)"
  moreover have "bit (0xff :: 'a word) n" if "n < LENGTH('a)" "n < 8"
  proof -
    have "(0xff :: 'a word) = mask 8" by (simp add: mask_eq_exp_minus_1)
    then show ?thesis using that by (simp only: bit_mask_iff) simp
  qed
  ultimately show "bit (ucast (i AND 0xff) :: u8) n = bit (ucast i :: u8) n"
    by (auto simp: bit_simps dest: bit_imp_le_length)
qed

lemma byte_join:
  "push_bit (k + 8) (drop_bit (k + 8) i) + push_bit k (ucast (ucast (drop_bit k i) :: u8)) = push_bit k (drop_bit k (i::u64))"
proof -
  have "push_bit (k + 8) (drop_bit (k + 8) i) + push_bit k (ucast (ucast (drop_bit k i) :: u8)) =
    push_bit (k + 8) (drop_bit (k + 8) i) OR push_bit k (ucast (ucast (drop_bit k i) :: u8))"
    by (rule disjunctive_add) (auto simp: bit_simps)
  also have "\<dots> = push_bit k (drop_bit k i)"
  proof (rule bit_word_eqI)
    fix n assume "n < LENGTH(64)"
    then show "bit (push_bit (k + 8) (drop_bit (k + 8) i) OR push_bit k (ucast (ucast (drop_bit k i) :: u8))) n
        = bit (push_bit k (drop_bit k i)) n"
      by (cases "n < k + 8") (auto simp: bit_simps)
  qed
  finally show ?thesis .
qed

lemma byte_top: "push_bit 56 (ucast (ucast (drop_bit 56 i) :: u8)) = push_bit 56 (drop_bit 56 (i::u64))"
  by (rule bit_word_eqI) (auto simp: bit_simps)

lemma be64: "push_bit 56 (ucast (ucast (drop_bit 56 i) :: u8))
  + push_bit 48 (ucast (ucast (drop_bit 48 i) :: u8)) + push_bit 40 (ucast (ucast (drop_bit 40 i) :: u8)) 
  + push_bit 32 (ucast (ucast (drop_bit 32 i) :: u8)) + push_bit 24 (ucast (ucast (drop_bit 24 i) :: u8))
  + push_bit 16 (ucast (ucast (drop_bit 16 i) :: u8)) + push_bit 8 (ucast (ucast (drop_bit 8 i) :: u8))
  + ucast (ucast i :: u8) = (i::u64)" (is "?l = i")
  using byte_join[of 0 i] byte_join[of 8 i] byte_join[of 16 i] byte_join[of 24 i] byte_join[of 32 i] byte_join[of 40 i] byte_join[of 48 i]
  by (simp add: byte_top)

lemma ucast_byte: "ucast (drop_bit k (i::'a::len word)) = (ucast (drop_bit k (ucast i :: u64)) :: u8)" if "LENGTH('a) \<le> 64"
  using that by (intro bit_word_eqI) (auto simp: bit_simps dest: bit_imp_le_length)

lemma ucast_via64: "ucast (ucast (i::'a::len word) :: u64) = i" if "LENGTH('a) \<le> 64"
  using that by (intro bit_word_eqI) (auto simp: bit_simps dest: bit_imp_le_length)

lemma be32: "ucast (push_bit 24 (ucast (ucast (drop_bit 24 i) :: u8) :: u64)
  + push_bit 16 (ucast (ucast (drop_bit 16 i) :: u8)) + push_bit 8 (ucast (ucast (drop_bit 8 i) :: u8))
  + ucast (ucast i :: u8)) = (i::u32)" (is "?l = i")
proof -
  let ?j = "ucast i :: u64"
  have top: "push_bit 24 (ucast (ucast (drop_bit 24 ?j) :: u8)) = push_bit 24 (drop_bit 24 ?j)"
    by (rule bit_word_eqI) (auto simp: bit_simps dest: bit_imp_le_length)
  have "?l = ucast ?j"
    using byte_join[of 0 ?j] byte_join[of 8 ?j] byte_join[of 16 ?j] ucast_byte[of 0 i]
    by (simp add: ucast_byte[where i = i] top)
  then show ?thesis by (simp add: ucast_via64)
qed

lemma be16: "ucast (push_bit 8 (ucast (ucast (drop_bit 8 i) :: u8) :: u64)
  + ucast (ucast i :: u8)) = (i::u16)" (is "?l = i")
proof -
  let ?j = "ucast i :: u64"
  have top: "push_bit 8 (ucast (ucast (drop_bit 8 ?j) :: u8)) = push_bit 8 (drop_bit 8 ?j)"
    by (rule bit_word_eqI) (auto simp: bit_simps dest: bit_imp_le_length)
  have "?l = ucast ?j"
    using byte_join[of 0 ?j] ucast_byte[of 0 i]
    by (simp add: ucast_byte[where i = i] top)
  then show ?thesis by (simp add: ucast_via64)
qed

end
