(* ===== verification/Stdmap.thy ===== *)
theory Stdmap
  imports Prelude
begin

text \<open>
  \<open>std::map\<close> as a list of key-value pairs in strictly increasing key order: the operations the
  ledger code uses (\<open>find\<close>, \<open>emplace\<close>, \<open>erase\<close>, \<open>upper_bound\<close>, iteration in key order), what they do
  to the finite map the list stands for (\<open>map_of\<close>), and that they keep the order.
\<close>

type_synonym ('k, 'v) stdmap = "('k \<times> 'v) list"

definition smap_wf :: "('k::linorder, 'v) stdmap \<Rightarrow> bool" where
  "smap_wf m = sorted_wrt (<) (map fst m)"

abbreviation smap_find :: "'k \<Rightarrow> ('k, 'v) stdmap \<Rightarrow> 'v option" where
  "smap_find k m \<equiv> map_of m k"

fun smap_set :: "'k::linorder \<Rightarrow> 'v \<Rightarrow> ('k, 'v) stdmap \<Rightarrow> ('k, 'v) stdmap" where
  "smap_set k v [] = [(k, v)]"
| "smap_set k v ((k', v') # m) =
     (if k < k' then (k, v) # (k', v') # m
      else if k = k' then (k, v) # m
      else (k', v') # smap_set k v m)"

definition smap_erase :: "'k \<Rightarrow> ('k, 'v) stdmap \<Rightarrow> ('k, 'v) stdmap" where
  "smap_erase k m = filter (\<lambda>(k', _). k' \<noteq> k) m"

definition smap_upper_bound :: "'k::linorder \<Rightarrow> ('k, 'v) stdmap \<Rightarrow> ('k, 'v) stdmap" where
  "smap_upper_bound k m = dropWhile (\<lambda>(k', _). k' \<le> k) m"

named_theorems smap_simps "ordered maps as finite maps"

lemma smap_wf_Nil [simp]: "smap_wf []"
  by (simp add: smap_wf_def)

lemma smap_wf_Cons [simp]: "smap_wf ((k, v) # m) \<longleftrightarrow> (\<forall>k' \<in> fst ` set m. k < k') \<and> smap_wf m"
  by (auto simp: smap_wf_def)

lemma smap_wf_distinct: "smap_wf m \<Longrightarrow> distinct (map fst m)"
  by (simp add: smap_wf_def strict_sorted_iff)

lemma smap_find_set [smap_simps]: "smap_find k' (smap_set k v m) = (if k' = k then Some v else smap_find k' m)"
  by (induction k v m rule: smap_set.induct) auto

lemma smap_map_of_set [smap_simps]: "map_of (smap_set k v m) = (map_of m)(k \<mapsto> v)"
  by (auto simp: smap_find_set)

lemma smap_keys_set: "fst ` set (smap_set k v m) = insert k (fst ` set m)"
  by (induction k v m rule: smap_set.induct) auto

lemma smap_wf_set [simp]: "smap_wf m \<Longrightarrow> smap_wf (smap_set k v m)"
  by (induction k v m rule: smap_set.induct) (auto simp: smap_keys_set)

lemma smap_map_of_erase [smap_simps]: "map_of (smap_erase k m) = (map_of m)(k := None)"
  by (induction m) (auto simp: smap_erase_def)

lemma smap_wf_erase [simp]: "smap_wf m \<Longrightarrow> smap_wf (smap_erase k m)"
  by (induction m) (auto simp: smap_erase_def)

lemma smap_find_None: "smap_find k m = None \<longleftrightarrow> k \<notin> fst ` set m"
  by (rule map_of_eq_None_iff)

lemma smap_find_Some: "smap_wf m \<Longrightarrow> smap_find k m = Some v \<longleftrightarrow> (k, v) \<in> set m"
  by (simp add: map_of_eq_Some_iff smap_wf_distinct)

lemma smap_wf_append: "smap_wf (xs @ ys) \<longleftrightarrow> smap_wf xs \<and> smap_wf ys \<and> (\<forall>x \<in> fst ` set xs. \<forall>y \<in> fst ` set ys. x < y)"
  by (auto simp: smap_wf_def sorted_wrt_append)

text \<open>\<open>upper_bound\<close> leaves the entries above the key, in order.\<close>

lemma smap_upper_bound_filter: "smap_wf m \<Longrightarrow> smap_upper_bound k m = filter (\<lambda>(k', _). k < k') m"
proof (induction m)
  case (Cons p m)
  obtain k' v where p: "p = (k', v)" by fastforce
  show ?case
  proof (cases "k' \<le> k")
    case False
    have "filter (\<lambda>(k', _). k < k') m = m" using Cons.prems False unfolding p
      by (auto simp: filter_id_conv)
    then show ?thesis using Cons False by (simp add: smap_upper_bound_def p)
  qed (use Cons in \<open>simp add: smap_upper_bound_def p\<close>)
qed (simp add: smap_upper_bound_def)

lemma smap_wf_filter: "smap_wf m \<Longrightarrow> smap_wf (filter P m)"
  by (induction m) auto

lemma smap_wf_upper_bound [simp]: "smap_wf m \<Longrightarrow> smap_wf (smap_upper_bound k m)"
  by (simp add: smap_upper_bound_filter smap_wf_filter)

text \<open>The least key that satisfies a condition is found by the first match in order.\<close>

lemma smap_first:
  assumes "smap_wf m"
  shows "case find P m of
     None \<Rightarrow> \<forall>p \<in> set m. \<not> P p
   | Some (k, v) \<Rightarrow> (k, v) \<in> set m \<and> P (k, v) \<and> (\<forall>(k', v') \<in> set m. P (k', v') \<longrightarrow> k \<le> k')"
  using assms
proof (induction m)
  case (Cons p m)
  then have lt: "\<forall>(k', _) \<in> set m. fst p < k'" by (cases p) auto
  show ?case
  proof (cases "P p")
    case True
    then show ?thesis using lt by (cases p) (auto intro: less_imp_le)
  next
    case False
    then show ?thesis using Cons by (cases p) (auto split: option.splits)
  qed
qed simp

text \<open>Ordered maps with the same pairs are the same; ordered maps one after the other.\<close>

lemma smap_eqI:
  assumes "smap_wf m" and "smap_wf m'" and "\<And>v. (k, v) \<in> set m \<longleftrightarrow> (k, v) \<in> set m'"
  shows "map_of m k = map_of m' k"
  using assms by (metis (no_types) not_None_eq smap_find_Some)

lemma smap_unique:
  assumes "smap_wf m" and "smap_wf m'" and "set m = set m'"
  shows "m = m'"
proof -
  have "map fst m = map fst m'"
    using assms by (intro strict_sorted_equal) (auto simp: smap_wf_def)
  moreover have "inj_on fst (set m \<union> set m')"
    using assms smap_wf_distinct[of m] by (simp add: distinct_map)
  ultimately show ?thesis by (rule map_inj_on)
qed

lemma smap_set_set: "smap_wf m \<Longrightarrow> set (smap_set k v m) = insert (k, v) {p \<in> set m. fst p \<noteq> k}"
proof -
  assume m: "smap_wf m"
  have "(k', v') \<in> set (smap_set k v m) \<longleftrightarrow> (k', v') \<in> insert (k, v) {p \<in> set m. fst p \<noteq> k}" for k' v'
    using smap_find_Some[OF smap_wf_set[OF m, of k v], of k' v'] smap_find_Some[OF m, of k' v']
    by (auto simp: smap_find_set split: if_splits)
  then show ?thesis by auto
qed

lemma smap_erase_set: "smap_wf m \<Longrightarrow> set (smap_erase k m) = {p \<in> set m. fst p \<noteq> k}"
  by (auto simp: smap_erase_def)

lemma smap_set_same: "smap_wf m \<Longrightarrow> (k, v) \<in> set m \<Longrightarrow> smap_set k v m = m"
proof (rule smap_unique)
  assume m: "smap_wf m" and kv: "(k, v) \<in> set m"
  have "x = (k, v)" if "x \<in> set m" "fst x = k" for x
    using that kv smap_find_Some[OF m] by (metis option.inject prod.collapse)
  then show "set (smap_set k v m) = set m" using kv unfolding smap_set_set[OF m] by blast
qed simp_all

lemma smap_wf_concat:
  assumes "\<And>i. i \<in> set is \<Longrightarrow> smap_wf (f i)" and "sorted_wrt (<) is"
    and "\<And>i j k k'. i \<in> set is \<Longrightarrow> j \<in> set is \<Longrightarrow> i < j \<Longrightarrow> k \<in> fst ` set (f i) \<Longrightarrow> k' \<in> fst ` set (f j) \<Longrightarrow> k < k'"
  shows "smap_wf (concat (map f is))"
  using assms
proof (induction "is")
  case (Cons i "is")
  have "smap_wf (concat (map f is))"
  proof (rule Cons.IH)
    show "k < k'" if "a \<in> set is" "b \<in> set is" "a < b" "k \<in> fst ` set (f a)" "k' \<in> fst ` set (f b)" for a b k k'
      using Cons.prems(3)[of a b k k'] that by simp
  qed (use Cons.prems in auto)
  moreover have "k < k'" if kk: "k \<in> fst ` set (f i)" "k' \<in> fst ` set (concat (map f is))" for k k'
  proof -
    obtain j where "j \<in> set is" "k' \<in> fst ` set (f j)" using kk(2) by auto
    then show ?thesis using Cons.prems(2) Cons.prems(3)[of i j k k'] kk(1) by simp
  qed
  ultimately show ?case using Cons.prems(1) by (simp add: smap_wf_append)
qed simp

end
