(* ===== verification/Serializer.thy ===== *)
theory Serializer
  imports Prelude
begin

text \<open>
  The wire format of the ledger: \<^verbatim>\<open>protocol/Serializer.h\<close> and \<^verbatim>\<open>protocol/impl/Serializer.cpp\<close>.
  \<open>Serializer\<close> appends to a byte vector, \<open>SerialIter\<close> reads a byte range with a cursor.  The
  operations keep the names of the source with the class as a prefix.  The lemmas show that the
  cursor stays inside its range, and that every \<open>get\<close> inverts the matching \<open>add\<close> and leaves the
  cursor behind the bytes it consumed; the contract is the locale \<open>wire_codec\<close>.
\<close>

section \<open>Serializer\<close>

record Serializer =
  mData :: Blob

definition Serializer_empty :: Serializer where
  "Serializer_empty = \<lparr>mData = []\<rparr>"

definition getDataLength :: "Serializer \<Rightarrow> int" where
  "getDataLength s = size_to_int (length (mData s))"

text \<open>Every \<open>add\<close> operation returns the offset at which it started, and appends bytes.\<close>

definition push_bytes :: "Blob \<Rightarrow> Serializer \<Rightarrow> int \<times> Serializer" where
  "push_bytes bs s = (getDataLength s, s\<lparr>mData := mData s @ bs\<rparr>)"

definition Serializer_addZeros :: "nat \<Rightarrow> Serializer \<Rightarrow> int \<times> Serializer" where
  "Serializer_addZeros uBytes s = push_bytes (replicate uBytes 0) s"

definition Serializer_add8 :: "u8 \<Rightarrow> Serializer \<Rightarrow> int \<times> Serializer" where
  "Serializer_add8 byte s = push_bytes [byte] s"

definition Serializer_add16 :: "u16 \<Rightarrow> Serializer \<Rightarrow> int \<times> Serializer" where
  "Serializer_add16 i s = push_bytes [ucast (drop_bit 8 i), ucast (i AND 0xff)] s"

definition Serializer_add32 :: "u32 \<Rightarrow> Serializer \<Rightarrow> int \<times> Serializer" where
  "Serializer_add32 i s = push_bytes
     [ucast (drop_bit 24 i), ucast (drop_bit 16 i AND 0xff),
      ucast (drop_bit 8 i AND 0xff), ucast (i AND 0xff)] s"

definition Serializer_add64 :: "u64 \<Rightarrow> Serializer \<Rightarrow> int \<times> Serializer" where
  "Serializer_add64 i s = push_bytes
     [ucast (drop_bit 56 i), ucast (drop_bit 48 i AND 0xff),
      ucast (drop_bit 40 i AND 0xff), ucast (drop_bit 32 i AND 0xff),
      ucast (drop_bit 24 i AND 0xff), ucast (drop_bit 16 i AND 0xff),
      ucast (drop_bit 8 i AND 0xff), ucast (i AND 0xff)] s"

text \<open>
  A \<open>base_uint<Bits>\<close> is stored as its \<open>Bits / 8\<close> big-endian bytes, and \<open>begin\<close>/\<open>end\<close>
  iterate over them; here it is that list of bytes.
\<close>

definition Serializer_addBitString :: "Blob \<Rightarrow> Serializer \<Rightarrow> int \<times> Serializer" where
  "Serializer_addBitString v s = push_bytes v s"

definition Serializer_addRaw :: "Blob \<Rightarrow> Serializer \<Rightarrow> int \<times> Serializer" where
  "Serializer_addRaw vector s = push_bytes vector s"

definition Serializer_addFieldID :: "int \<Rightarrow> int \<Rightarrow> Serializer \<Rightarrow> int \<times> Serializer" where
  "Serializer_addFieldID type name s =
     (if type < 16 then
        if name < 16 then push_bytes [word_of_int (push_bit 4 type OR name)] s
        else push_bytes [word_of_int (push_bit 4 type), word_of_int name] s
      else if name < 16 then push_bytes [word_of_int name, word_of_int type] s
      else push_bytes [0, word_of_int type, word_of_int name] s)"

subsection \<open>Variable length prefixes\<close>

definition encodeLengthLength :: "int \<Rightarrow> int res" where
  "encodeLengthLength len =
     (if len < 0 then Inl (OverflowError ''len<0'')
      else if len \<le> 192 then Inr 1
      else if len \<le> 12480 then Inr 2
      else if len \<le> 918744 then Inr 3
      else Inl (OverflowError ''len>918744''))"

definition decodeLengthLength :: "int \<Rightarrow> int res" where
  "decodeLengthLength b1 =
     (if b1 < 0 then Inl (OverflowError ''b1<0'')
      else if b1 \<le> 192 then Inr 1
      else if b1 \<le> 240 then Inr 2
      else if b1 \<le> 254 then Inr 3
      else Inl (OverflowError ''b1>254''))"

definition decodeVLLength1 :: "int \<Rightarrow> int res" where
  "decodeVLLength1 b1 =
     (if b1 < 0 then Inl (OverflowError ''b1<0'')
      else if b1 > 254 then Inl (OverflowError ''b1>254'')
      else Inr b1)"

definition decodeVLLength2 :: "int \<Rightarrow> int \<Rightarrow> int res" where
  "decodeVLLength2 b1 b2 =
     (if b1 < 193 then Inl (OverflowError ''b1<193'')
      else if b1 > 240 then Inl (OverflowError ''b1>240'')
      else Inr (193 + (b1 - 193) * 256 + b2))"

definition decodeVLLength3 :: "int \<Rightarrow> int \<Rightarrow> int \<Rightarrow> int res" where
  "decodeVLLength3 b1 b2 b3 =
     (if b1 < 241 then Inl (OverflowError ''b1<241'')
      else if b1 > 254 then Inl (OverflowError ''b1>254'')
      else Inr (12481 + (b1 - 241) * 65536 + b2 * 256 + b3))"

definition addEncoded_bytes :: "int \<Rightarrow> Blob res" where
  "addEncoded_bytes len =
     (if len \<le> 192 then Inr [word_of_int len]
      else if len \<le> 12480 then
        let l = len - 193
        in Inr [word_of_int (193 + drop_bit 8 l mod 256), word_of_int (l AND 0xff)]
      else if len \<le> 918744 then
        let l = len - 12481
        in Inr [word_of_int (241 + drop_bit 16 l mod 256),
                word_of_int (drop_bit 8 l AND 0xff), word_of_int (l AND 0xff)]
      else Inl (OverflowError ''lenlen''))"

definition Serializer_addEncoded :: "int \<Rightarrow> Serializer \<Rightarrow> (int \<times> Serializer) res" where
  "Serializer_addEncoded len s =
     bindE (addEncoded_bytes len) (\<lambda>bytes. Inr (Serializer_addRaw bytes s))"

definition Serializer_addVL :: "Blob \<Rightarrow> Serializer \<Rightarrow> (int \<times> Serializer) res" where
  "Serializer_addVL vector s =
     bindE (Serializer_addEncoded (size_to_int (length vector)) s) (\<lambda>(ret, s').
     let (_, s'') = Serializer_addRaw vector s' in Inr (ret, s''))"

subsection \<open>Reading at an offset\<close>

text \<open>
  The out-parameters are returned; \<open>None\<close> is the return value \<open>false\<close>.  The comparison of an
  \<open>int\<close> with \<open>size()\<close> is unsigned.
\<close>

definition Serializer_get8 :: "Serializer \<Rightarrow> int \<Rightarrow> int option" where
  "Serializer_get8 s offset =
     (if int_to_size offset \<ge> length (mData s) then None
      else Some (uint (mData s ! nat offset)))"

definition Serializer_getRaw :: "Serializer \<Rightarrow> int \<Rightarrow> int \<Rightarrow> Blob option" where
  "Serializer_getRaw s offset len =
     (if int_to_size (offset + len) > length (mData s) then None
      else Some (take (nat len) (drop (nat offset) (mData s))))"

definition Serializer_getBitString :: "nat \<Rightarrow> Serializer \<Rightarrow> int \<Rightarrow> Blob option" where
  "Serializer_getBitString bits s offset =
     (if int_to_size (offset + int (bits div 8)) \<le> length (mData s)
      then Some (take (bits div 8) (drop (nat offset) (mData s))) else None)"

definition Serializer_chop :: "int \<Rightarrow> Serializer \<Rightarrow> bool \<times> Serializer" where
  "Serializer_chop bytes s =
     (if int_to_size bytes > length (mData s) then (False, s)
      else (True, s\<lparr>mData := take (length (mData s) - nat bytes) (mData s)\<rparr>))"

definition Serializer_getInteger_loop :: "Blob \<Rightarrow> nat \<Rightarrow> 'a::len word" where
  "Serializer_getInteger_loop bs bytes =
     fold (\<lambda>i number. (if i \<noteq> 0 then push_bit 8 number else number) OR ucast (bs ! i))
       [0..<bytes] 0"

definition Serializer_getInteger :: "Serializer \<Rightarrow> int \<Rightarrow> 'a::len word option" where
  "Serializer_getInteger s offset =
     (let bytes = LENGTH('a) div 8 in
      if int_to_size (offset + int bytes) > length (mData s) then None
      else Some (Serializer_getInteger_loop (drop (nat offset) (mData s)) bytes))"

text \<open>
  \<open>decodeLengthLength\<close> is called outside the \<open>try\<close> block and its exception escapes; an
  exception of \<open>decodeVLLength\<close> is caught and becomes \<open>false\<close>.
\<close>

definition catch_false :: "int res \<Rightarrow> (int \<Rightarrow> 'a option res) \<Rightarrow> 'a option res" where
  "catch_false m k = (case m of Inl _ \<Rightarrow> Inr None | Inr x \<Rightarrow> k x)"

definition with_byte :: "Serializer \<Rightarrow> int \<Rightarrow> (int \<Rightarrow> 'a option res) \<Rightarrow> 'a option res" where
  "with_byte s offset k = (case Serializer_get8 s offset of None \<Rightarrow> Inr None | Some b \<Rightarrow> k b)"

definition Serializer_getVL_length ::
    "Serializer \<Rightarrow> int \<Rightarrow> (int \<Rightarrow> int \<Rightarrow> int \<Rightarrow> 'a option res) \<Rightarrow> 'a option res" where
  "Serializer_getVL_length s offset k =
     with_byte s offset (\<lambda>b1.
     bindE (decodeLengthLength b1) (\<lambda>lenLen.
     if lenLen = 1 then catch_false (decodeVLLength1 b1) (k (offset + 1) lenLen)
     else if lenLen = 2 then
       with_byte s (offset + 1) (\<lambda>b2. catch_false (decodeVLLength2 b1 b2) (k (offset + 2) lenLen))
     else if lenLen = 3 then
       with_byte s (offset + 1) (\<lambda>b2. with_byte s (offset + 2) (\<lambda>b3.
         catch_false (decodeVLLength3 b1 b2 b3) (k (offset + 3) lenLen)))
     else Inr None))"

definition Serializer_getVL :: "Serializer \<Rightarrow> int \<Rightarrow> (Blob \<times> int) option res" where
  "Serializer_getVL s offset =
     Serializer_getVL_length s offset (\<lambda>offset' lenLen datLen.
       Inr (map_option (\<lambda>objectVL. (objectVL, lenLen + datLen))
              (Serializer_getRaw s offset' datLen)))"

definition Serializer_getVLLength :: "Serializer \<Rightarrow> int \<Rightarrow> int option res" where
  "Serializer_getVLLength s offset =
     Serializer_getVL_length s offset (\<lambda>offset' lenLen datLen. Inr (Some datLen))"

section \<open>SerialIter\<close>

text \<open>
  The pointer \<open>sit_p\<close> is an index into the byte range the iterator was made from.
\<close>

record SerialIter =
  sit_range :: Blob
  sit_p :: nat
  sit_remain :: nat
  sit_used :: nat

definition SerialIter_make :: "Blob \<Rightarrow> SerialIter" where
  "SerialIter_make data = \<lparr>sit_range = data, sit_p = 0, sit_remain = length data, sit_used = 0\<rparr>"

definition SerialIter_empty :: "SerialIter \<Rightarrow> bool" where
  "SerialIter_empty it \<longleftrightarrow> sit_remain it = 0"

definition SerialIter_reset :: "SerialIter \<Rightarrow> SerialIter" where
  "SerialIter_reset it =
     it\<lparr>sit_p := sit_p it - sit_used it, sit_remain := sit_remain it + sit_used it, sit_used := 0\<rparr>"

definition SerialIter_advance :: "nat \<Rightarrow> SerialIter \<Rightarrow> SerialIter" where
  "SerialIter_advance n it =
     it\<lparr>sit_p := sit_p it + n, sit_used := sit_used it + n, sit_remain := sit_remain it - n\<rparr>"

definition SerialIter_skip :: "int \<Rightarrow> SerialIter \<Rightarrow> SerialIter res" where
  "SerialIter_skip len it =
     (if sit_remain it < int_to_size len then Inl (RuntimeError ''invalid SerialIter skip'')
      else Inr (SerialIter_advance (nat len) it))"

definition SerialIter_get8 :: "SerialIter \<Rightarrow> (u8 \<times> SerialIter) res" where
  "SerialIter_get8 it =
     (if sit_remain it < 1 then Inl (RuntimeError ''invalid SerialIter get8'')
      else Inr (sit_range it ! sit_p it, SerialIter_advance 1 it))"

definition SerialIter_get16 :: "SerialIter \<Rightarrow> (u16 \<times> SerialIter) res" where
  "SerialIter_get16 it =
     (if sit_remain it < 2 then Inl (RuntimeError ''invalid SerialIter get16'')
      else let t = (\<lambda>i. ucast (sit_range it ! (sit_p it + i)) :: u64)
           in Inr (ucast (push_bit 8 (t 0) + t 1), SerialIter_advance 2 it))"

definition SerialIter_get32 :: "SerialIter \<Rightarrow> (u32 \<times> SerialIter) res" where
  "SerialIter_get32 it =
     (if sit_remain it < 4 then Inl (RuntimeError ''invalid SerialIter get32'')
      else let t = (\<lambda>i. ucast (sit_range it ! (sit_p it + i)) :: u64)
           in Inr (ucast (push_bit 24 (t 0) + push_bit 16 (t 1) + push_bit 8 (t 2) + t 3),
                   SerialIter_advance 4 it))"

definition SerialIter_get64 :: "SerialIter \<Rightarrow> (u64 \<times> SerialIter) res" where
  "SerialIter_get64 it =
     (if sit_remain it < 8 then Inl (RuntimeError ''invalid SerialIter get64'')
      else let t = (\<lambda>i. ucast (sit_range it ! (sit_p it + i)) :: u64)
           in Inr (push_bit 56 (t 0) + push_bit 48 (t 1) + push_bit 40 (t 2) + push_bit 32 (t 3)
                   + push_bit 24 (t 4) + push_bit 16 (t 5) + push_bit 8 (t 6) + t 7,
                   SerialIter_advance 8 it))"

text \<open>A zero nibble of the first byte stands for a byte of its own, which must be at least 16.\<close>

definition getFieldID_uncommon :: "string \<Rightarrow> int \<Rightarrow> SerialIter \<Rightarrow> (int \<times> SerialIter) res" where
  "getFieldID_uncommon msg v it =
     (if v = 0 then
        bindE (SerialIter_get8 it) (\<lambda>(b, it).
        if uint b = 0 \<or> uint b < 16 then Inl (RuntimeError msg) else Inr (uint b, it))
      else Inr (v, it))"

definition SerialIter_getFieldID :: "SerialIter \<Rightarrow> ((int \<times> int) \<times> SerialIter) res" where
  "SerialIter_getFieldID it =
     bindE (SerialIter_get8 it) (\<lambda>(b, it).
     let name = uint b AND 15; type = drop_bit 4 (uint b) in
     bindE (getFieldID_uncommon ''gFID: uncommon type out of range'' type it) (\<lambda>(type, it).
     bindE (getFieldID_uncommon ''gFID: uncommon name out of range'' name it) (\<lambda>(name, it).
     Inr ((type, name), it))))"

definition SerialIter_getRaw :: "int \<Rightarrow> SerialIter \<Rightarrow> (Blob \<times> SerialIter) res" where
  "SerialIter_getRaw sz it =
     (if sit_remain it < int_to_size sz then Inl (RuntimeError ''invalid SerialIter getRaw'')
      else if sz \<noteq> 0 then
        Inr (take (nat sz) (drop (sit_p it) (sit_range it)), SerialIter_advance (nat sz) it)
      else Inr ([], it))"

definition SerialIter_getBitString :: "nat \<Rightarrow> SerialIter \<Rightarrow> (Blob \<times> SerialIter) res" where
  "SerialIter_getBitString bits it =
     (let n = bits div 8 in
      if sit_remain it < n then Inl (RuntimeError ''invalid SerialIter getBitString'')
      else Inr (take n (drop (sit_p it) (sit_range it)), SerialIter_advance n it))"

definition SerialIter_getSlice :: "nat \<Rightarrow> SerialIter \<Rightarrow> (Blob \<times> SerialIter) res" where
  "SerialIter_getSlice bytes it =
     (if bytes > sit_remain it then Inl (RuntimeError ''invalid SerialIter getSlice'')
      else Inr (take bytes (drop (sit_p it) (sit_range it)), SerialIter_advance bytes it))"

definition SerialIter_getVLDataLength :: "SerialIter \<Rightarrow> (int \<times> SerialIter) res" where
  "SerialIter_getVLDataLength it =
     bindE (SerialIter_get8 it) (\<lambda>(b1, it).
     bindE (decodeLengthLength (uint b1)) (\<lambda>lenLen.
     if lenLen = 1 then
       bindE (decodeVLLength1 (uint b1)) (\<lambda>datLen. Inr (datLen, it))
     else if lenLen = 2 then
       bindE (SerialIter_get8 it) (\<lambda>(b2, it).
       bindE (decodeVLLength2 (uint b1) (uint b2)) (\<lambda>datLen. Inr (datLen, it)))
     else
       bindE (SerialIter_get8 it) (\<lambda>(b2, it).
       bindE (SerialIter_get8 it) (\<lambda>(b3, it).
       bindE (decodeVLLength3 (uint b1) (uint b2) (uint b3)) (\<lambda>datLen. Inr (datLen, it))))))"

definition SerialIter_getVL :: "SerialIter \<Rightarrow> (Blob \<times> SerialIter) res" where
  "SerialIter_getVL it =
     bindE (SerialIter_getVLDataLength it) (\<lambda>(n, it). SerialIter_getRaw n it)"

section \<open>The cursor\<close>

definition iter_wf :: "SerialIter \<Rightarrow> bool" where
  "iter_wf it \<longleftrightarrow> sit_used it = sit_p it \<and> sit_p it + sit_remain it = length (sit_range it)"

definition unread :: "SerialIter \<Rightarrow> Blob" where
  "unread it = drop (sit_p it) (sit_range it)"

lemma iter_wf_make [simp]: "iter_wf (SerialIter_make bs)"
  by (simp add: iter_wf_def SerialIter_make_def)

lemma unread_make [simp]: "unread (SerialIter_make bs) = bs"
  by (simp add: unread_def SerialIter_make_def)

lemma length_unread: "iter_wf it \<Longrightarrow> length (unread it) = sit_remain it"
  by (auto simp: iter_wf_def unread_def)

lemma sit_range_advance [simp]: "sit_range (SerialIter_advance n it) = sit_range it"
  by (simp add: SerialIter_advance_def)

lemma sit_p_advance [simp]: "sit_p (SerialIter_advance n it) = sit_p it + n"
  by (simp add: SerialIter_advance_def)

lemma iter_wf_advance: "iter_wf it \<Longrightarrow> n \<le> sit_remain it \<Longrightarrow> iter_wf (SerialIter_advance n it)"
  by (auto simp: iter_wf_def SerialIter_advance_def)

lemma unread_advance: "unread (SerialIter_advance n it) = drop n (unread it)"
  by (simp add: unread_def SerialIter_advance_def add.commute)

lemma advance_advance [simp]:
  "SerialIter_advance m (SerialIter_advance n it) = SerialIter_advance (n + m) it"
  by (simp add: SerialIter_advance_def)

lemma unread_nth: "iter_wf it \<Longrightarrow> i < sit_remain it \<Longrightarrow> sit_range it ! (sit_p it + i) = unread it ! i"
  by (auto simp: iter_wf_def unread_def)

lemma reset_wf: "iter_wf it \<Longrightarrow> iter_wf (SerialIter_reset it)"
  by (auto simp: iter_wf_def SerialIter_reset_def)

lemma unread_reset: "iter_wf it \<Longrightarrow> unread (SerialIter_reset it) = sit_range it"
  by (auto simp: iter_wf_def unread_def SerialIter_reset_def)

section \<open>Reading back what was written\<close>

definition reads :: "(SerialIter \<Rightarrow> ('a \<times> SerialIter) res) \<Rightarrow> Blob \<Rightarrow> 'a \<Rightarrow> bool" where
  "reads get bs x \<longleftrightarrow> (\<forall>it rest. iter_wf it \<longrightarrow> unread it = bs @ rest \<longrightarrow>
     get it = Inr (x, SerialIter_advance (length bs) it))"

definition moves_forward :: "(SerialIter \<Rightarrow> ('a \<times> SerialIter) res) \<Rightarrow> bool" where
  "moves_forward get \<longleftrightarrow> (\<forall>it x it'. iter_wf it \<longrightarrow> get it = Inr (x, it') \<longrightarrow>
     (\<exists>n \<le> sit_remain it. it' = SerialIter_advance n it))"

lemma readsD: "reads get bs x \<Longrightarrow> iter_wf it \<Longrightarrow> unread it = bs @ rest \<Longrightarrow>
    get it = Inr (x, SerialIter_advance (length bs) it)"
  by (auto simp: reads_def)

lemma reads_bind:
  assumes "reads g1 bs x" and "reads (g2 x) cs y"
  shows "reads (\<lambda>it. bindE (g1 it) (\<lambda>(x, it). g2 x it)) (bs @ cs) y"
  unfolding reads_def
proof (intro allI impI)
  fix it rest
  assume wf: "iter_wf it" and un: "unread it = (bs @ cs) @ rest"
  let ?it = "SerialIter_advance (length bs) it"
  have "length bs \<le> sit_remain it" using length_unread[OF wf] un by simp
  then have "iter_wf ?it" using wf by (rule iter_wf_advance[rotated])
  moreover have "unread ?it = cs @ rest" using un by (simp add: unread_advance)
  ultimately have "g2 x ?it = Inr (y, SerialIter_advance (length cs) ?it)"
    by (rule readsD[OF assms(2)])
  moreover have "g1 it = Inr (x, ?it)"
    using readsD[OF assms(1) wf] un by simp
  ultimately show "bindE (g1 it) (\<lambda>(x, it). g2 x it) = Inr (y, SerialIter_advance (length (bs @ cs)) it)"
    by simp
qed

lemma reads_return: "reads (\<lambda>it. Inr (x, it)) [] x"
  by (simp add: reads_def SerialIter_advance_def)

lemma moves_forwardI:
  assumes "\<And>it x it'. iter_wf it \<Longrightarrow> get it = Inr (x, it') \<Longrightarrow> \<exists>n \<le> sit_remain it. it' = SerialIter_advance n it"
  shows "moves_forward get"
  using assms by (simp add: moves_forward_def)

lemma moves_forwardE:
  assumes "moves_forward get" and "iter_wf it" and "get it = Inr (x, it')"
  obtains n where "n \<le> sit_remain it" and "it' = SerialIter_advance n it"
  using assms unfolding moves_forward_def by blast

lemma moves_forward_bind:
  assumes "moves_forward g1" and "\<And>x. moves_forward (g2 x)"
  shows "moves_forward (\<lambda>it. bindE (g1 it) (\<lambda>(x, it). g2 x it))"
proof (rule moves_forwardI)
  fix it z it' assume wf: "iter_wf it" and eq: "bindE (g1 it) (\<lambda>(x, it). g2 x it) = Inr (z, it')"
  then obtain x it1 where 1: "g1 it = Inr (x, it1)" and 2: "g2 x it1 = Inr (z, it')" by auto
  from assms(1) wf 1 obtain n where n: "n \<le> sit_remain it" "it1 = SerialIter_advance n it"
    by (rule moves_forwardE)
  then have "iter_wf it1" using wf by (simp add: iter_wf_advance)
  from assms(2) this 2 obtain m where m: "m \<le> sit_remain it1" "it' = SerialIter_advance m it1"
    by (rule moves_forwardE)
  then have "n + m \<le> sit_remain it \<and> it' = SerialIter_advance (n + m) it"
    using n by (simp add: SerialIter_advance_def)
  then show "\<exists>n \<le> sit_remain it. it' = SerialIter_advance n it" by blast
qed

text \<open>The integers.\<close>

lemma reads_get8: "reads SerialIter_get8 [b] b"
  unfolding reads_def
proof (intro allI impI)
  fix it rest assume wf: "iter_wf it" and un: "unread it = [b] @ rest"
  then have "0 < sit_remain it" using length_unread[OF wf] by simp
  then show "SerialIter_get8 it = Inr (b, SerialIter_advance (length [b]) it)"
    using unread_nth[OF wf, of 0] un by (simp add: SerialIter_get8_def)
qed

lemma bytes_at:
  assumes "iter_wf it" and "unread it = bs @ rest" and "i < length bs"
  shows "sit_range it ! (sit_p it + i) = bs ! i"
  using assms length_unread[OF assms(1)] unread_nth[OF assms(1), of i] by (simp add: nth_append)


definition encoding :: "('a \<Rightarrow> Serializer \<Rightarrow> (int \<times> Serializer) res) \<Rightarrow> 'a \<Rightarrow> Blob" where
  "encoding add x = (case add x Serializer_empty of Inl _ \<Rightarrow> [] | Inr (_, s) \<Rightarrow> mData s)"

abbreviation pure_add :: "('a \<Rightarrow> Serializer \<Rightarrow> int \<times> Serializer) \<Rightarrow> 'a \<Rightarrow> Serializer \<Rightarrow> (int \<times> Serializer) res" where
  "pure_add add \<equiv> (\<lambda>x s. Inr (add x s))"

lemma mData_push [simp]: "mData (snd (push_bytes bs s)) = mData s @ bs"
  by (simp add: push_bytes_def)

lemma mData_empty [simp]: "mData Serializer_empty = []"
  by (simp add: Serializer_empty_def)

lemma encoding_pure: "encoding (pure_add add) x = mData (snd (add x Serializer_empty))"
  by (simp add: encoding_def split: prod.split)

lemma reads_get16: "reads SerialIter_get16 (encoding (pure_add Serializer_add16) i) i"
  unfolding reads_def
proof (intro allI impI)
  fix it rest
  assume wf: "iter_wf it" and un: "unread it = encoding (pure_add Serializer_add16) i @ rest"
  have len: "length (encoding (pure_add Serializer_add16) i) = 2"
    by (simp add: encoding_pure Serializer_add16_def)
  then have "2 \<le> sit_remain it" using length_unread[OF wf] un by simp
  then show "SerialIter_get16 it =
      Inr (i, SerialIter_advance (length (encoding (pure_add Serializer_add16) i)) it)"
    unfolding len
    using bytes_at[OF wf un, of 0] bytes_at[OF wf un, of 1] be16[of i]
    by (simp add: SerialIter_get16_def encoding_pure Serializer_add16_def ucast_and_ff)
qed

lemma reads_get32: "reads SerialIter_get32 (encoding (pure_add Serializer_add32) i) i"
  unfolding reads_def
proof (intro allI impI)
  fix it rest
  assume wf: "iter_wf it" and un: "unread it = encoding (pure_add Serializer_add32) i @ rest"
  have len: "length (encoding (pure_add Serializer_add32) i) = 4"
    by (simp add: encoding_pure Serializer_add32_def)
  then have "4 \<le> sit_remain it" using length_unread[OF wf] un by simp
  then show "SerialIter_get32 it =
      Inr (i, SerialIter_advance (length (encoding (pure_add Serializer_add32) i)) it)"
    unfolding len
    using bytes_at[OF wf un, of 0] bytes_at[OF wf un, of 1] bytes_at[OF wf un, of 2] bytes_at[OF wf un, of 3] be32[of i]
    by (simp add: SerialIter_get32_def encoding_pure Serializer_add32_def ucast_and_ff)
qed

lemma reads_get64: "reads SerialIter_get64 (encoding (pure_add Serializer_add64) i) i"
  unfolding reads_def
proof (intro allI impI)
  fix it rest
  assume wf: "iter_wf it" and un: "unread it = encoding (pure_add Serializer_add64) i @ rest"
  have len: "length (encoding (pure_add Serializer_add64) i) = 8"
    by (simp add: encoding_pure Serializer_add64_def)
  then have "8 \<le> sit_remain it" using length_unread[OF wf] un by simp
  then show "SerialIter_get64 it =
      Inr (i, SerialIter_advance (length (encoding (pure_add Serializer_add64) i)) it)"
    unfolding len
    using bytes_at[OF wf un, of 0] bytes_at[OF wf un, of 1] bytes_at[OF wf un, of 2] bytes_at[OF wf un, of 3] bytes_at[OF wf un, of 4] bytes_at[OF wf un, of 5] bytes_at[OF wf un, of 6] bytes_at[OF wf un, of 7] be64[of i]
    by (simp add: SerialIter_get64_def encoding_pure Serializer_add64_def ucast_and_ff)
qed

lemma moves_get8: "moves_forward SerialIter_get8"
  by (rule moves_forwardI) (auto simp: SerialIter_get8_def split: if_splits intro!: exI[of _ 1])

lemma moves_get16: "moves_forward SerialIter_get16"
  by (rule moves_forwardI) (auto simp: SerialIter_get16_def Let_def split: if_splits intro!: exI[of _ 2])

lemma moves_get32: "moves_forward SerialIter_get32"
  by (rule moves_forwardI) (auto simp: SerialIter_get32_def Let_def split: if_splits intro!: exI[of _ 4])

lemma moves_get64: "moves_forward SerialIter_get64"
  by (rule moves_forwardI) (auto simp: SerialIter_get64_def Let_def split: if_splits intro!: exI[of _ 8])

lemma moves_getBitString: "moves_forward (SerialIter_getBitString bits)"
  by (rule moves_forwardI)
    (auto simp: SerialIter_getBitString_def Let_def split: if_splits intro!: exI[of _ "bits div 8"])

lemma moves_getSlice: "moves_forward (SerialIter_getSlice n)"
  by (rule moves_forwardI)
    (auto simp: SerialIter_getSlice_def split: if_splits intro!: exI[of _ n])

lemma advance_0 [simp]: "SerialIter_advance 0 it = it"
  by (simp add: SerialIter_advance_def)

lemma reads_getRaw: 
  assumes "length bs < 2 ^ 31"
  shows "reads (SerialIter_getRaw (int (length bs))) bs bs"
  unfolding reads_def
proof (intro allI impI)
  fix it rest assume wf: "iter_wf it" and un: "unread it = bs @ rest"
  have "length bs \<le> sit_remain it" using length_unread[OF wf] un by simp
  moreover have "int_to_size (int (length bs)) = length bs"
    using assms by simp
  moreover have "take (length bs) (drop (sit_p it) (sit_range it)) = bs"
    using un by (simp add: unread_def)
  ultimately show "SerialIter_getRaw (int (length bs)) it = Inr (bs, SerialIter_advance (length bs) it)"
    by (simp add: SerialIter_getRaw_def)
qed

lemma reads_getBitString:
  assumes "length bs = bits div 8"
  shows "reads (SerialIter_getBitString bits) bs bs"
  unfolding reads_def
proof (intro allI impI)
  fix it rest assume wf: "iter_wf it" and un: "unread it = bs @ rest"
  have "bits div 8 \<le> sit_remain it" using length_unread[OF wf] un assms by simp
  moreover have "take (bits div 8) (drop (sit_p it) (sit_range it)) = bs"
    using un assms by (simp add: unread_def)
  ultimately show "SerialIter_getBitString bits it = Inr (bs, SerialIter_advance (length bs) it)"
    using assms by (simp add: SerialIter_getBitString_def Let_def)
qed

subsection \<open>Length prefixes\<close>

lemma int_and_ff: "(l::int) AND 255 = l mod 256"
  using take_bit_eq_mask[of 8 l] by (simp add: take_bit_eq_mod mask_eq_exp_minus_1)

lemma uint_byte: "0 \<le> x \<Longrightarrow> x < 256 \<Longrightarrow> uint (word_of_int x :: u8) = x"
  by (simp add: unsigned_of_int take_bit_int_eq_self)

lemma get8_step:
  assumes "iter_wf it" and "unread it = b # bs"
  shows "SerialIter_get8 it = Inr (b, SerialIter_advance 1 it)"
    and "iter_wf (SerialIter_advance 1 it)" and "unread (SerialIter_advance 1 it) = bs"
proof -
  show "SerialIter_get8 it = Inr (b, SerialIter_advance 1 it)"
    using readsD[OF reads_get8 assms(1), of b bs] assms(2) by simp
  have "1 \<le> sit_remain it" using length_unread[OF assms(1)] assms(2) by simp
  then show "iter_wf (SerialIter_advance 1 it)" using assms(1) by (simp add: iter_wf_advance)
  show "unread (SerialIter_advance 1 it) = bs" using assms(2) by (simp add: unread_advance)
qed

lemma reads_get8_then: "reads (k b) bs x \<Longrightarrow>
    reads (\<lambda>it. bindE (SerialIter_get8 it) (\<lambda>(b', it). k b' it)) (b # bs) x"
  using reads_bind[where ?g1.0 = SerialIter_get8 and bs = "[b]" and x = b and ?g2.0 = k and cs = bs and y = x, OF reads_get8] by simp

lemma reads_const: "m = Inr x \<Longrightarrow> reads (\<lambda>it. bindE m (\<lambda>y. Inr (y, it))) [] x"
  by (simp add: reads_return)

lemma reads_getVLDataLength:
  assumes n: "0 \<le> n" and enc: "addEncoded_bytes n = Inr bs"
  shows "reads SerialIter_getVLDataLength bs n"
proof -
  consider "n \<le> 192" | "192 < n" "n \<le> 12480" | "12480 < n" "n \<le> 918744"
    using enc by (fastforce simp: addEncoded_bytes_def split: if_splits)
  then show ?thesis
  proof cases
    case 1
    then have "bs = [word_of_int n]" using enc by (simp add: addEncoded_bytes_def)
    then obtain b1 :: u8 where bs: "bs = [b1]" and "uint b1 = n"
      using 1 n by (simp add: uint_byte)
    then show ?thesis unfolding bs SerialIter_getVLDataLength_def
      by (intro reads_get8_then)
        (use 1 n in \<open>simp add: decodeLengthLength_def decodeVLLength1_def reads_return\<close>)
  next
    case 2
    define l where "l = n - 193"
    have l: "0 \<le> l" "l div 256 < 48" "n = l + 193" using 2 by (auto simp: l_def)
    then have bs: "bs = [word_of_int (193 + l div 256), word_of_int (l mod 256)]"
      using enc 2 by (simp add: addEncoded_bytes_def Let_def int_and_ff drop_bit_eq_div)
    moreover have "uint (word_of_int (193 + l div 256) :: u8) = 193 + l div 256"
      using l by (intro uint_byte) auto
    moreover have "uint (word_of_int (l mod 256) :: u8) = l mod 256" by (intro uint_byte) auto
    ultimately obtain b1 b2 :: u8 where bs: "bs = [b1, b2]"
      and "uint b1 = 193 + l div 256" "uint b2 = l mod 256" by blast
    then have "decodeLengthLength (uint b1) = Inr 2" "decodeVLLength2 (uint b1) (uint b2) = Inr n"
      using l by (auto simp: decodeLengthLength_def decodeVLLength2_def)
    then show ?thesis unfolding bs SerialIter_getVLDataLength_def
      by (auto intro!: reads_get8_then simp: reads_return)
  next
    case 3
    define l where "l = n - 12481"
    have l: "0 \<le> l" "l div 65536 < 14" "n = l + 12481" using 3 by (auto simp: l_def)
    then have bs: "bs = [word_of_int (241 + l div 65536), word_of_int (l div 256 mod 256), word_of_int (l mod 256)]"
      using enc 3 by (simp add: addEncoded_bytes_def Let_def int_and_ff drop_bit_eq_div)
    moreover have "uint (word_of_int (241 + l div 65536) :: u8) = 241 + l div 65536"
      using l by (intro uint_byte) auto
    moreover have "uint (word_of_int (l mod 256) :: u8) = l mod 256" by (intro uint_byte) auto
    moreover have "uint (word_of_int (l div 256 mod 256) :: u8) = l div 256 mod 256" by (intro uint_byte) auto
    ultimately obtain b1 b2 b3 :: u8 where bs: "bs = [b1, b2, b3]"
      and b: "uint b1 = 241 + l div 65536" "uint b2 = l div 256 mod 256" "uint b3 = l mod 256" by blast
    have "l div 256 = 256 * (l div 65536) + l div 256 mod 256"
      using zdiv_zmult2_eq[of 256 l 256] by simp
    then have "l = 65536 * (l div 65536) + 256 * (l div 256 mod 256) + l mod 256"
      using mult_div_mod_eq[of 256 l] by linarith
    then have n_eq: "12481 + l div 65536 * 65536 + l div 256 mod 256 * 256 + l mod 256 = n"
      using l(3) by linarith
    have q: "0 \<le> l div 65536" using l(1) by (simp add: pos_imp_zdiv_nonneg_iff)
    have "decodeLengthLength (uint b1) = Inr 3" using l(2) q unfolding b by (simp add: decodeLengthLength_def)
    moreover have "decodeVLLength3 (uint b1) (uint b2) (uint b3) = Inr n"
      using l(2) q unfolding b n_eq[symmetric] by (simp add: decodeVLLength3_def)
    ultimately have "decodeLengthLength (uint b1) = Inr 3"
      "decodeVLLength3 (uint b1) (uint b2) (uint b3) = Inr n" by blast+
    then show ?thesis unfolding bs SerialIter_getVLDataLength_def
      by (auto intro!: reads_get8_then simp: reads_return)
  qed
qed

lemma addEncoded_ok:
  assumes "n \<le> 918744" obtains bs where "addEncoded_bytes n = Inr bs"
proof (cases "addEncoded_bytes n")
  case (Inl e)
  with assms show thesis by (simp add: addEncoded_bytes_def Let_def split: if_splits)
qed

lemma reads_getVL:
  assumes len: "length v \<le> 918744"
  shows "reads SerialIter_getVL (encoding Serializer_addVL v) v"
proof -
  have sz: "size_to_int (length v) = int (length v)" using len by (simp add: size_to_int_small)
  obtain bs where bs: "addEncoded_bytes (int (length v)) = Inr bs"
    using len by (auto intro: addEncoded_ok[of "int (length v)"])
  have "encoding Serializer_addVL v = bs @ v"
    by (simp add: encoding_def Serializer_addVL_def Serializer_addEncoded_def Serializer_addRaw_def
        sz bs push_bytes_def Serializer_empty_def)
  moreover have "reads SerialIter_getVLDataLength bs (int (length v))"
    using bs by (simp add: reads_getVLDataLength)
  moreover have "reads (SerialIter_getRaw (int (length v))) v v"
    using len by (simp add: reads_getRaw)
  ultimately show ?thesis
    using reads_bind[of SerialIter_getVLDataLength bs "int (length v)" SerialIter_getRaw v v]
    by (simp add: SerialIter_getVL_def[abs_def])
qed

lemma addVL_appends:
  assumes len: "length v \<le> 918744"
  shows "Serializer_addVL v s = Inr (push_bytes (encoding Serializer_addVL v) s)"
proof -
  have sz: "size_to_int (length v) = int (length v)" using len by (simp add: size_to_int_small)
  obtain bs where bs: "addEncoded_bytes (int (length v)) = Inr bs"
    using len by (auto intro: addEncoded_ok[of "int (length v)"])
  show ?thesis
    by (simp add: encoding_def Serializer_addVL_def Serializer_addEncoded_def Serializer_addRaw_def
        sz bs push_bytes_def Serializer_empty_def)
qed

lemma addVL_too_long:
  assumes "918744 < length v" and "length v < 2 ^ 31"
  shows "Serializer_addVL v s = Inl (OverflowError ''lenlen'')"
  using assms by (simp add: Serializer_addVL_def Serializer_addEncoded_def size_to_int_small addEncoded_bytes_def)

definition field_id_valid :: "int \<times> int \<Rightarrow> bool" where
  "field_id_valid f \<longleftrightarrow> 0 < fst f \<and> fst f < 256 \<and> 0 < snd f \<and> snd f < 256"

abbreviation addFieldID :: "int \<times> int \<Rightarrow> Serializer \<Rightarrow> (int \<times> Serializer) res" where
  "addFieldID \<equiv> pure_add (\<lambda>f. Serializer_addFieldID (fst f) (snd f))"

lemma nibbles:
  assumes "0 \<le> n" "n < 16"
  shows "push_bit 4 t OR n = 16 * t + (n::int)"
proof -
  have n: "take_bit 4 n = n" using assms by (simp add: take_bit_int_eq_self)
  have "push_bit 4 t + n = push_bit 4 t OR n"
    by (rule disjunctive_add, subst n [symmetric]) (auto simp: bit_simps)
  then show ?thesis by (simp add: push_bit_eq_mult)
qed

lemma nibble_split:
  assumes "0 \<le> n" "n < 16"
  shows "(16 * t + n) AND 15 = (n::int)" and "drop_bit 4 (16 * t + n) = (t::int)"
proof -
  have "(16 * t + n) AND 15 = take_bit 4 (16 * t + n)"
    using take_bit_eq_mask[of 4 "16 * t + n"] by (simp add: mask_eq_exp_minus_1)
  then show "(16 * t + n) AND 15 = n" using assms by (simp add: take_bit_eq_mod)
  show "drop_bit 4 (16 * t + n) = t" using assms by (simp add: drop_bit_eq_div)
qed

lemma reads_uncommon: "v \<noteq> 0 \<Longrightarrow> reads (getFieldID_uncommon msg v) [] v"
  by (simp add: getFieldID_uncommon_def[abs_def] reads_return)

lemma reads_uncommon_byte:
  assumes "16 \<le> uint b"
  shows "reads (getFieldID_uncommon msg 0) [b] (uint b)"
proof -
  have "reads (\<lambda>it. if uint b = 0 \<or> uint b < 16 then Inl (RuntimeError msg) else Inr (uint b, it)) [] (uint b)"
    using assms by (simp add: reads_return)
  then show ?thesis
    unfolding getFieldID_uncommon_def by (simp only: simp_thms if_True) (rule reads_get8_then)
qed

lemma reads_getFieldID_parts:
  assumes "reads (getFieldID_uncommon ''gFID: uncommon type out of range'' (drop_bit 4 (uint b))) ts t"
    and "reads (getFieldID_uncommon ''gFID: uncommon name out of range'' (uint b AND 15)) ns n"
  shows "reads SerialIter_getFieldID (b # ts @ ns) (t, n)"
  unfolding SerialIter_getFieldID_def Let_def
proof (rule reads_get8_then)
  have n: "reads (\<lambda>it. bindE (getFieldID_uncommon ''gFID: uncommon name out of range'' (uint b AND 15) it)
      (\<lambda>(name, it). Inr ((t, name), it))) (ns @ []) (t, n)" for t
    by (rule reads_bind[where ?g2.0 = "\<lambda>name it. Inr ((t, name), it)", OF assms(2) reads_return])
  show "reads (\<lambda>it. bindE (getFieldID_uncommon ''gFID: uncommon type out of range'' (drop_bit 4 (uint b)) it)
      (\<lambda>(type, it). bindE (getFieldID_uncommon ''gFID: uncommon name out of range'' (uint b AND 15) it)
      (\<lambda>(name, it). Inr ((type, name), it)))) (ts @ ns) (t, n)"
    using reads_bind[OF assms(1), of "\<lambda>type it. bindE (getFieldID_uncommon ''gFID: uncommon name out of range'' (uint b AND 15) it)
      (\<lambda>(name, it). Inr ((type, name), it))", OF n] by simp
qed

lemma reads_getFieldID:
  assumes "field_id_valid f"
  shows "reads SerialIter_getFieldID (encoding addFieldID f) f"
proof -
  obtain t n where f: "f = (t, n)" by (cases f)
  have v: "0 < t" "t < 256" "0 < n" "n < 256" using assms by (auto simp: f field_id_valid_def)
  note enc = encoding_pure Serializer_addFieldID_def f
  have small: "uint (word_of_int x :: u8) = x" if "0 \<le> x" "x < 256" for x
    using that by (rule uint_byte)
  have t: "uint (word_of_int t :: u8) = t" and n: "uint (word_of_int n :: u8) = n"
    using v by (auto intro: small)
  have parts: "reads SerialIter_getFieldID (b # ts @ ns) (t, n)"
    if "uint b = 16 * hi + lo" "0 \<le> lo" "lo < 16"
      "hi = t \<and> ts = [] \<or> hi = 0 \<and> 16 \<le> t \<and> ts = [word_of_int t]"
      "lo = n \<and> ns = [] \<or> lo = 0 \<and> 16 \<le> n \<and> ns = [word_of_int n]" for b :: u8 and hi lo ts ns
  proof (rule reads_getFieldID_parts)
    have "drop_bit 4 (uint b) = hi" "uint b AND 15 = lo" using that nibble_split[of lo hi] by auto
    then show "reads (getFieldID_uncommon ''gFID: uncommon type out of range'' (drop_bit 4 (uint b))) ts t"
      and "reads (getFieldID_uncommon ''gFID: uncommon name out of range'' (uint b AND 15)) ns n"
      using that(4,5) v reads_uncommon reads_uncommon_byte[of "word_of_int t"] reads_uncommon_byte[of "word_of_int n"] t n
      by auto
  qed
  consider "t < 16" "n < 16" | "t < 16" "16 \<le> n" | "16 \<le> t" "n < 16" | "16 \<le> t" "16 \<le> n"
    by linarith
  then show ?thesis
  proof cases
    case 1
    have "uint (word_of_int (16 * t + n) :: u8) = 16 * t + n" using 1 v by (intro small) auto
    from parts[OF this, of "[]" "[]"] show ?thesis using 1 v by (simp add: enc nibbles)
  next
    case 2
    have "uint (word_of_int (16 * t) :: u8) = 16 * t + 0" using 2 v small[of "16 * t"] by auto
    from parts[OF this, of "[]" "[word_of_int n]"] show ?thesis using 2 v by (simp add: enc push_bit_eq_mult mult.commute)
  next
    case 3
    have "uint (word_of_int n :: u8) = 16 * 0 + n" using n by simp
    from parts[OF this, of "[word_of_int t]" "[]"] show ?thesis using 3 v by (simp add: enc)
  next
    case 4
    have "uint (0 :: u8) = 16 * 0 + 0" by simp
    from parts[OF this, of "[word_of_int t]" "[word_of_int n]"] show ?thesis using 4 v by (simp add: enc)
  qed
qed

text \<open>The converse: what a \<open>get\<close> accepts is exactly what the \<open>add\<close> writes.\<close>

definition reads_only :: "(SerialIter \<Rightarrow> ('a \<times> SerialIter) res) \<Rightarrow> ('a \<Rightarrow> Blob \<Rightarrow> bool) \<Rightarrow> bool" where
  "reads_only get P \<longleftrightarrow> (\<forall>it x it'. iter_wf it \<longrightarrow> get it = Inr (x, it') \<longrightarrow>
     (\<exists>bs rest. unread it = bs @ rest \<and> it' = SerialIter_advance (length bs) it \<and> P x bs))"

lemma reads_onlyE:
  assumes "reads_only get P" and "iter_wf it" and "get it = Inr (x, it')"
  obtains bs where "unread it = bs @ unread it'" and "it' = SerialIter_advance (length bs) it"
    and "P x bs" and "iter_wf it'"
proof -
  obtain bs rest where u: "unread it = bs @ rest" "it' = SerialIter_advance (length bs) it" "P x bs"
    using assms unfolding reads_only_def by blast
  moreover have "length bs \<le> sit_remain it" using length_unread[OF assms(2)] u(1) by simp
  then have "iter_wf it'" using assms(2) u(2) by (simp add: iter_wf_advance)
  moreover have "unread it = bs @ unread it'" using u by (simp add: unread_advance)
  ultimately show thesis using that by blast
qed

lemma reads_only_get8: "reads_only SerialIter_get8 (\<lambda>b bs. bs = [b])"
  unfolding reads_only_def
proof (intro allI impI)
  fix it b it' assume wf: "iter_wf it" and eq: "SerialIter_get8 it = Inr (b, it')"
  have r: "0 < sit_remain it" and b: "b = sit_range it ! sit_p it" and it': "it' = SerialIter_advance 1 it"
    using eq by (auto simp: SerialIter_get8_def split: if_splits)
  have "b = unread it ! 0" using unread_nth[OF wf r] b by simp
  moreover have "unread it \<noteq> []" using length_unread[OF wf] r by auto
  ultimately obtain rest where "unread it = b # rest" by (cases "unread it") auto
  with it' show "\<exists>bs rest. unread it = bs @ rest \<and> it' = SerialIter_advance (length bs) it \<and> bs = [b]"
    by auto
qed

lemma reads_only_bind:
  assumes "reads_only g1 P" and "\<And>x bs. P x bs \<Longrightarrow> reads_only (g2 x) (\<lambda>y cs. Q y (bs @ cs))"
  shows "reads_only (\<lambda>it. bindE (g1 it) (\<lambda>(x, it). g2 x it)) Q"
  unfolding reads_only_def
proof (intro allI impI)
  fix it y it' assume wf: "iter_wf it" and "bindE (g1 it) (\<lambda>(x, it). g2 x it) = Inr (y, it')"
  then obtain x it1 where 1: "g1 it = Inr (x, it1)" and 2: "g2 x it1 = Inr (y, it')" by auto
  from assms(1) wf 1 obtain bs where b: "unread it = bs @ unread it1" "it1 = SerialIter_advance (length bs) it"
    "P x bs" "iter_wf it1" by (rule reads_onlyE)
  from assms(2)[OF b(3)] b(4) 2 obtain cs where c: "unread it1 = cs @ unread it'"
    "it' = SerialIter_advance (length cs) it1" "Q y (bs @ cs)" "iter_wf it'" by (rule reads_onlyE)
  have "unread it = (bs @ cs) @ unread it' \<and> it' = SerialIter_advance (length (bs @ cs)) it \<and> Q y (bs @ cs)"
    using b c by simp
  then show "\<exists>bs rest. unread it = bs @ rest \<and> it' = SerialIter_advance (length bs) it \<and> Q y bs" by blast
qed

lemma reads_only_return: "P x [] \<Longrightarrow> reads_only (\<lambda>it. Inr (x, it)) P"
  unfolding reads_only_def by (metis advance_0 append_Nil list.size(3) prod.inject sum.inject(2))

lemma reads_only_throw: "reads_only (\<lambda>it. Inl e) P"
  by (simp add: reads_only_def)

lemma reads_only_lift: "(\<And>x. m = Inr x \<Longrightarrow> P x []) \<Longrightarrow> reads_only (\<lambda>it. bindE m (\<lambda>x. Inr (x, it))) P"
  by (cases m) (auto intro: reads_only_throw reads_only_return)

lemma reads_only_moves: "reads_only get P \<Longrightarrow> moves_forward get"
  by (rule moves_forwardI) (metis length_append length_unread le_add1 reads_onlyE)

lemma uint_u8_bounds: "0 \<le> uint (b::u8)" "uint b < 256"
  using unsigned_less[of b] by auto

lemma reads_only_uncommon:
  "reads_only (getFieldID_uncommon msg v) (\<lambda>x bs. v \<noteq> 0 \<and> x = v \<and> bs = [] \<or>
      v = 0 \<and> 16 \<le> x \<and> x < 256 \<and> bs = [word_of_int x])"
proof (cases "v = 0")
  case True
  have "reads_only (\<lambda>it. bindE (SerialIter_get8 it) (\<lambda>(b, it).
        if uint b = 0 \<or> uint b < 16 then Inl (RuntimeError msg) else Inr (uint b, it)))
      (\<lambda>x bs. 16 \<le> x \<and> x < 256 \<and> bs = [word_of_int x])"
  proof (rule reads_only_bind[OF reads_only_get8])
    fix b :: u8 and bs assume "bs = [b]"
    then show "reads_only (\<lambda>it. if uint b = 0 \<or> uint b < 16 then Inl (RuntimeError msg) else Inr (uint b, it))
        (\<lambda>x cs. 16 \<le> x \<and> x < 256 \<and> bs @ cs = [word_of_int x])"
      using uint_u8_bounds[of b] by (cases "uint b < 16") (auto intro!: reads_only_return reads_only_throw)
  qed
  then show ?thesis using True by (simp add: getFieldID_uncommon_def[abs_def])
next
  case False
  then show ?thesis by (simp add: getFieldID_uncommon_def[abs_def] reads_only_return)
qed

lemma byte_of_nibbles:
  assumes "name = uint (b::u8) AND 15" and "type = drop_bit 4 (uint b)"
  shows "uint b = 16 * type + name" and "0 \<le> name" "name < 16" and "0 \<le> type" "type < 16"
proof -
  have n: "name = uint b mod 16" and t: "type = uint b div 16"
    using assms take_bit_eq_mask[of 4 "uint b"] by (simp_all add: take_bit_eq_mod mask_eq_exp_minus_1 drop_bit_eq_div)
  show "uint b = 16 * type + name" "0 \<le> name" "name < 16" "0 \<le> type" "type < 16"
    using uint_u8_bounds[of b] by (simp_all add: n t pos_imp_zdiv_nonneg_iff) 
qed

lemma reads_only_getFieldID:
  "reads_only SerialIter_getFieldID (\<lambda>f bs. field_id_valid f \<and> bs = encoding addFieldID f)"
proof -
  have "reads_only (\<lambda>it. bindE (SerialIter_get8 it) (\<lambda>(b, it).
     bindE (getFieldID_uncommon ''gFID: uncommon type out of range'' (drop_bit 4 (uint b)) it) (\<lambda>(type, it).
     bindE (getFieldID_uncommon ''gFID: uncommon name out of range'' (uint b AND 15) it) (\<lambda>(name, it).
     Inr ((type, name), it)))))
     (\<lambda>f bs. field_id_valid f \<and> bs = encoding addFieldID f)"
  proof (rule reads_only_bind[OF reads_only_get8], rule reads_only_bind[OF reads_only_uncommon],
      rule reads_only_bind[OF reads_only_uncommon], rule reads_only_return)
    fix b :: u8 and bs ts ns :: Blob and t n assume bs: "bs = [b]"
    define hi lo where "hi = drop_bit 4 (uint b)" and "lo = uint b AND 15"
    assume "drop_bit 4 (uint b) \<noteq> 0 \<and> t = drop_bit 4 (uint b) \<and> ts = [] \<or>
        drop_bit 4 (uint b) = 0 \<and> 16 \<le> t \<and> t < 256 \<and> ts = [word_of_int t]"
      and "uint b AND 15 \<noteq> 0 \<and> n = uint b AND 15 \<and> ns = [] \<or>
        uint b AND 15 = 0 \<and> 16 \<le> n \<and> n < 256 \<and> ns = [word_of_int n]"
    then have tn: "hi \<noteq> 0 \<and> t = hi \<and> ts = [] \<or> hi = 0 \<and> 16 \<le> t \<and> t < 256 \<and> ts = [word_of_int t]"
      "lo \<noteq> 0 \<and> n = lo \<and> ns = [] \<or> lo = 0 \<and> 16 \<le> n \<and> n < 256 \<and> ns = [word_of_int n]"
      unfolding hi_def lo_def by blast+
    have b: "uint b = 16 * hi + lo" "0 \<le> lo" "lo < 16" "0 \<le> hi" "hi < 16"
      using byte_of_nibbles[OF lo_def hi_def] by auto
    have w: "b = word_of_int (16 * hi + lo)" using b(1) by (metis word_of_int_uint)
    have orx: "hi * 16 OR lo = 16 * hi + lo" using nibbles[of lo hi] b by (simp add: push_bit_eq_mult)
    have "field_id_valid (t, n)" using tn b(2-) by (auto simp: field_id_valid_def)
    moreover have "b # ts @ ns = encoding addFieldID (t, n)"
      using tn b(2-) unfolding w
      by (elim disjE) (auto simp: encoding_pure Serializer_addFieldID_def push_bit_eq_mult mult.commute orx)
    ultimately show "field_id_valid (t, n) \<and> bs @ ts @ ns @ [] = encoding addFieldID (t, n)"
      using bs by simp
  qed
  then show ?thesis by (simp add: SerialIter_getFieldID_def[abs_def] Let_def)
qed

lemma reads_only_surj:
  assumes "\<And>x. reads get (enc x) x" and "\<And>x. length (enc x) = n"
    and surj: "\<And>bs. length bs = n \<Longrightarrow> \<exists>x. enc x = bs"
    and enough: "\<And>it x it'. get it = Inr (x, it') \<Longrightarrow> n \<le> sit_remain it"
  shows "reads_only get (\<lambda>x bs. bs = enc x)"
  unfolding reads_only_def
proof (intro allI impI)
  fix it x it' assume wf: "iter_wf it" and eq: "get it = Inr (x, it')"
  then have "n \<le> length (unread it)" using enough length_unread by metis
  then obtain bs rest where un: "unread it = bs @ rest" "length bs = n"
    by (metis append_take_drop_id length_take min.absorb2)
  then obtain y where y: "enc y = bs" using surj by blast
  have "get it = Inr (y, SerialIter_advance n it)" using readsD[OF assms(1)[of y] wf] un y by simp
  then show "\<exists>bs rest. unread it = bs @ rest \<and> it' = SerialIter_advance (length bs) it \<and> bs = enc x"
    using un y eq by auto
qed

lemma encoding_add64_length: "length (encoding (pure_add Serializer_add64) x) = 8"
  by (simp add: encoding_pure Serializer_add64_def)

lemma encoding_add64_inj: "inj (encoding (pure_add Serializer_add64))"
proof (rule injI)
  fix x y assume eq: "encoding (pure_add Serializer_add64) x = encoding (pure_add Serializer_add64) y"
  let ?it = "SerialIter_make (encoding (pure_add Serializer_add64) x)"
  have wf: "iter_wf ?it" "unread ?it = encoding (pure_add Serializer_add64) x @ []"
    by (simp_all add: iter_wf_def SerialIter_make_def unread_def)
  have "unread ?it = encoding (pure_add Serializer_add64) y @ []" using wf(2) eq by simp
  from readsD[OF reads_get64 wf] readsD[OF reads_get64 wf(1) this] show "x = y" by simp
qed

lemma encoding_add64_surj:
  assumes "length bs = 8" shows "\<exists>x. encoding (pure_add Serializer_add64) x = bs"
proof -
  let ?A = "{bs :: Blob. set bs \<subseteq> UNIV \<and> length bs = 8}"
  have fin: "finite ?A" by (rule finite_lists_length_eq) simp
  have "card ?A = card (UNIV :: u8 set) ^ 8" by (rule card_lists_length_eq) simp
  also have "\<dots> = 2 ^ 64" by (simp add: card_word)
  also have "\<dots> = card (range (encoding (pure_add Serializer_add64)))"
    using card_image[OF encoding_add64_inj] by (simp add: card_word)
  finally have "range (encoding (pure_add Serializer_add64)) = ?A"
    by (intro card_subset_eq[OF fin]) (auto simp: encoding_add64_length)
  moreover have "bs \<in> ?A" using assms by simp
  ultimately show ?thesis by (metis rangeE)
qed

lemma reads_only_get64: "reads_only SerialIter_get64 (\<lambda>x bs. bs = encoding (pure_add Serializer_add64) x)"
  by (rule reads_only_surj[OF reads_get64 encoding_add64_length encoding_add64_surj])
    (auto simp: SerialIter_get64_def Let_def split: if_splits)

lemma reads_only_getBitString: "reads_only (SerialIter_getBitString bits) (\<lambda>x bs. bs = x \<and> length x = bits div 8)"
  unfolding reads_only_def
proof (intro allI impI)
  fix it x it' assume wf: "iter_wf it" and eq: "SerialIter_getBitString bits it = Inr (x, it')"
  then have "bits div 8 \<le> sit_remain it" "x = take (bits div 8) (drop (sit_p it) (sit_range it))" "it' = SerialIter_advance (bits div 8) it"
    by (auto simp: SerialIter_getBitString_def Let_def split: if_splits)
  moreover then have "length x = bits div 8" using length_unread[OF wf] by (simp add: unread_def)
  ultimately show "\<exists>bs rest. unread it = bs @ rest \<and> it' = SerialIter_advance (length bs) it \<and> bs = x \<and> length x = bits div 8"
    by (intro exI[of _ x] exI[of _ "drop (bits div 8) (unread it)"]) (metis append_take_drop_id unread_def)
qed

definition length_prefix :: "int \<Rightarrow> Blob \<Rightarrow> bool" where
  "length_prefix n bs \<longleftrightarrow> 0 \<le> n \<and> n \<le> 929984 \<and> (n \<le> 918744 \<longrightarrow> addEncoded_bytes n = Inr bs)"

lemma word_of_uint_mod [simp]: "word_of_int (uint (b::u8) mod 256) = b"
  using uint_u8_bounds[of b] by simp

lemma addEncoded_bytes2:
  assumes "0 \<le> x" "x \<le> 47" "0 \<le> y" "y < 256"
  shows "addEncoded_bytes (193 + (x * 256 + y)) = Inr [word_of_int (193 + x), word_of_int y]"
proof -
  define l where "l = x * 256 + y"
  have l: "0 \<le> l" "l \<le> 12287" "l div 256 mod 256 = x" "l mod 256 = y" using assms by (auto simp: l_def)
  then show ?thesis unfolding l_def[symmetric]
    by (simp add: addEncoded_bytes_def Let_def int_and_ff drop_bit_eq_div)
qed

lemma addEncoded_bytes3:
  assumes "0 \<le> x" "x \<le> 13" "0 \<le> y" "y < 256" "0 \<le> z" "z < 256"
    and "12481 + (x * 65536 + y * 256 + z) \<le> 918744"
  shows "addEncoded_bytes (12481 + (x * 65536 + y * 256 + z)) =
    Inr [word_of_int (241 + x), word_of_int y, word_of_int z]"
proof -
  define l where "l = x * 65536 + y * 256 + z"
  have "l div 256 = x * 256 + y" using assms by (simp add: l_def)
  moreover have "l div 65536 = l div 256 div 256" using zdiv_zmult2_eq[of 256 l 256] by simp
  moreover have "l mod 256 = z"
    using assms mod_mult_self1[of z "x * 256 + y" 256] by (simp add: l_def algebra_simps)
  ultimately have "0 \<le> l" "12481 + l \<le> 918744" "l div 65536 = x" "l div 256 mod 256 = y" "l mod 256 = z"
    using assms by (auto simp: l_def)
  then show ?thesis unfolding l_def[symmetric]
    using assms by (simp add: addEncoded_bytes_def Let_def int_and_ff drop_bit_eq_div)
qed

lemma length_prefix1:
  assumes "decodeVLLength1 (uint b1) = Inr n" and "uint b1 \<le> 192"
  shows "length_prefix n [b1]"
  using assms uint_u8_bounds[of b1]
  by (auto simp: length_prefix_def addEncoded_bytes_def decodeVLLength1_def)

lemma length_prefix2:
  assumes "decodeVLLength2 (uint b1) (uint b2) = Inr n"
  shows "length_prefix n [b1, b2]"
proof -
  have n: "n = 193 + ((uint b1 - 193) * 256 + uint b2)" and b: "193 \<le> uint b1" "uint b1 \<le> 240"
    using assms by (auto simp: decodeVLLength2_def split: if_splits)
  then have "addEncoded_bytes n = Inr [b1, b2]"
    using addEncoded_bytes2[of "uint b1 - 193" "uint b2"] uint_u8_bounds[of b2] by simp
  moreover have "0 \<le> 193 + ((x - 193) * 256 + y) \<and> 193 + ((x - 193) * 256 + y) \<le> 929984"
    if "193 \<le> x" "x \<le> 240" "0 \<le> y" "y < 256" for x y :: int using that by auto
  then have "0 \<le> n \<and> n \<le> 929984" using b uint_u8_bounds[of b2] by (auto simp only: n)
  ultimately show ?thesis by (simp add: length_prefix_def)
qed

lemma length_prefix3:
  assumes "decodeVLLength3 (uint b1) (uint b2) (uint b3) = Inr n"
  shows "length_prefix n [b1, b2, b3]"
proof -
  have n: "n = 12481 + ((uint b1 - 241) * 65536 + uint b2 * 256 + uint b3)"
    and b: "241 \<le> uint b1" "uint b1 \<le> 254"
    using assms by (auto simp: decodeVLLength3_def split: if_splits)
  have "addEncoded_bytes n = Inr [b1, b2, b3]" if "n \<le> 918744"
    using addEncoded_bytes3[of "uint b1 - 241" "uint b2" "uint b3"] that n b
      uint_u8_bounds[of b2] uint_u8_bounds[of b3] by simp
  moreover have "0 \<le> 12481 + ((x - 241) * 65536 + y * 256 + z) \<and> 12481 + ((x - 241) * 65536 + y * 256 + z) \<le> 929984"
    if "241 \<le> x" "x \<le> 254" "0 \<le> y" "y < 256" "0 \<le> z" "z < 256" for x y z :: int using that by auto
  then have "0 \<le> n \<and> n \<le> 929984"
    using b uint_u8_bounds[of b2] uint_u8_bounds[of b3] by (auto simp only: n)
  ultimately show ?thesis by (simp add: length_prefix_def)
qed

lemma reads_only_getVLDataLength: "reads_only SerialIter_getVLDataLength length_prefix"
  unfolding SerialIter_getVLDataLength_def
proof (rule reads_only_bind[OF reads_only_get8])
  fix b1 :: u8 and bs :: Blob assume bs: "bs = [b1]"
  show "reads_only (\<lambda>it. bindE (decodeLengthLength (uint b1)) (\<lambda>lenLen.
     if lenLen = 1 then
       bindE (decodeVLLength1 (uint b1)) (\<lambda>datLen. Inr (datLen, it))
     else if lenLen = 2 then
       bindE (SerialIter_get8 it) (\<lambda>(b2, it).
       bindE (decodeVLLength2 (uint b1) (uint b2)) (\<lambda>datLen. Inr (datLen, it)))
     else
       bindE (SerialIter_get8 it) (\<lambda>(b2, it).
       bindE (SerialIter_get8 it) (\<lambda>(b3, it).
       bindE (decodeVLLength3 (uint b1) (uint b2) (uint b3)) (\<lambda>datLen. Inr (datLen, it))))))
     (\<lambda>n cs. length_prefix n (bs @ cs))"
  proof (cases "decodeLengthLength (uint b1)")
    case (Inl e)
    then show ?thesis by (simp add: reads_only_throw)
  next
    case (Inr lenLen)
    then consider "lenLen = 1" "uint b1 \<le> 192" | "lenLen = 2" "193 \<le> uint b1" "uint b1 \<le> 240"
      | "lenLen = 3" "241 \<le> uint b1" "uint b1 \<le> 254"
      by (fastforce simp: decodeLengthLength_def split: if_splits)
    then show ?thesis
    proof cases
      case 1
      have "reads_only (\<lambda>it. bindE (decodeVLLength1 (uint b1)) (\<lambda>datLen. Inr (datLen, it)))
          (\<lambda>n cs. length_prefix n (bs @ cs))"
        using 1 bs by (intro reads_only_lift) (simp add: length_prefix1)
      then show ?thesis using Inr 1 by simp
    next
      case 2
      have "reads_only (\<lambda>it. bindE (SerialIter_get8 it) (\<lambda>(b2, it).
            bindE (decodeVLLength2 (uint b1) (uint b2)) (\<lambda>datLen. Inr (datLen, it))))
          (\<lambda>n cs. length_prefix n (bs @ cs))"
        using bs by (intro reads_only_bind[OF reads_only_get8] reads_only_lift) (simp add: length_prefix2)
      then show ?thesis using Inr 2 by simp
    next
      case 3
      have "reads_only (\<lambda>it. bindE (SerialIter_get8 it) (\<lambda>(b2, it).
            bindE (SerialIter_get8 it) (\<lambda>(b3, it).
            bindE (decodeVLLength3 (uint b1) (uint b2) (uint b3)) (\<lambda>datLen. Inr (datLen, it)))))
          (\<lambda>n cs. length_prefix n (bs @ cs))"
        using bs by (intro reads_only_bind[OF reads_only_get8] reads_only_lift) (simp add: length_prefix3)
      then show ?thesis using Inr 3 by simp
    qed
  qed
qed

section \<open>The contract of an encoding\<close>

locale wire_codec =
  fixes add :: "'a \<Rightarrow> Serializer \<Rightarrow> (int \<times> Serializer) res"
    and get :: "SerialIter \<Rightarrow> ('a \<times> SerialIter) res"
    and valid :: "'a \<Rightarrow> bool"
  assumes add_appends: "valid x \<Longrightarrow> add x s = Inr (push_bytes (encoding add x) s)"
    and get_reads: "valid x \<Longrightarrow> reads get (encoding add x) x"
    and get_moves: "moves_forward get"
begin

lemma round_trip:
  assumes "valid x" and "add x s = Inr (r, s')" and "r = getDataLength s"
    and "iter_wf it" and "unread it = drop (length (mData s)) (mData s') @ rest"
  shows "\<exists>it'. get it = Inr (x, it') \<and> iter_wf it' \<and> unread it' = rest"
proof -
  have "drop (length (mData s)) (mData s') = encoding add x"
    using add_appends[OF assms(1), of s] assms(2) by (auto simp: push_bytes_def)
  with assms(5) have u: "unread it = encoding add x @ rest" by simp
  let ?it = "SerialIter_advance (length (encoding add x)) it"
  have "get it = Inr (x, ?it)" by (rule readsD[OF get_reads[OF assms(1)] assms(4) u])
  moreover have "iter_wf ?it" using length_unread[OF assms(4)] u assms(4) by (simp add: iter_wf_advance)
  ultimately show ?thesis using u by (auto simp: unread_advance)
qed

lemma uniquely_decodable:
  assumes "valid x" "valid y" and eq: "encoding add x @ us = encoding add y @ vs"
  shows "x = y \<and> us = vs"
proof -
  let ?it = "SerialIter_make (encoding add x @ us)"
  have "get ?it = Inr (x, SerialIter_advance (length (encoding add x)) ?it)"
    by (rule readsD[OF get_reads[OF assms(1)], of _ us]) auto
  moreover have "get ?it = Inr (y, SerialIter_advance (length (encoding add y)) ?it)"
    by (rule readsD[OF get_reads[OF assms(2)], of _ vs]) (auto simp: eq)
  ultimately show ?thesis using eq by auto
qed

lemma stays_inside:
  assumes "iter_wf it" and "get it = Inr (x, it')"
  shows "iter_wf it' \<and> sit_range it' = sit_range it \<and> sit_p it \<le> sit_p it'"
proof -
  obtain n where "n \<le> sit_remain it" "it' = SerialIter_advance n it"
    by (rule moves_forwardE[OF get_moves assms])
  then show ?thesis using assms(1) by (simp add: iter_wf_advance)
qed

end

text \<open>A codec whose reader accepts nothing but the encodings: one encoding per value.\<close>

locale canonical_codec = wire_codec +
  assumes get_only: "reads_only get (\<lambda>x bs. valid x \<and> bs = encoding add x)"
begin

lemma exact:
  assumes "iter_wf it"
  shows "get it = Inr (x, it') \<longleftrightarrow> valid x \<and> it' = SerialIter_advance (length (encoding add x)) it \<and>
    (\<exists>rest. unread it = encoding add x @ rest)"
proof
  assume "get it = Inr (x, it')"
  from get_only assms this obtain bs where "unread it = bs @ unread it'"
    "it' = SerialIter_advance (length bs) it" "valid x \<and> bs = encoding add x" "iter_wf it'"
    by (rule reads_onlyE)
  then show "valid x \<and> it' = SerialIter_advance (length (encoding add x)) it \<and>
    (\<exists>rest. unread it = encoding add x @ rest)" by blast
next
  assume "valid x \<and> it' = SerialIter_advance (length (encoding add x)) it \<and>
    (\<exists>rest. unread it = encoding add x @ rest)"
  then show "get it = Inr (x, it')" using readsD[OF get_reads assms] by blast
qed

end

interpretation codec8: wire_codec "pure_add Serializer_add8" SerialIter_get8 "\<lambda>_. True"
  by unfold_locales
    (simp_all add: encoding_pure Serializer_add8_def reads_get8 moves_get8)

interpretation codec16: wire_codec "pure_add Serializer_add16" SerialIter_get16 "\<lambda>_. True"
  by unfold_locales
    (simp add: encoding_pure Serializer_add16_def, rule reads_get16, rule moves_get16)

interpretation codec32: wire_codec "pure_add Serializer_add32" SerialIter_get32 "\<lambda>_. True"
  by unfold_locales
    (simp add: encoding_pure Serializer_add32_def, rule reads_get32, rule moves_get32)

interpretation codec64: wire_codec "pure_add Serializer_add64" SerialIter_get64 "\<lambda>_. True"
  by unfold_locales
    (simp add: encoding_pure Serializer_add64_def, rule reads_get64, rule moves_get64)

interpretation codec_bits: wire_codec "pure_add Serializer_addBitString" "SerialIter_getBitString bits"
    "\<lambda>v. length v = bits div 8" for bits
  by unfold_locales
    (simp_all add: encoding_pure Serializer_addBitString_def reads_getBitString moves_getBitString)

lemma addFieldID_push: "\<exists>bs. \<forall>s. Serializer_addFieldID t n s = push_bytes bs s"
  unfolding Serializer_addFieldID_def by (auto split: if_splits)

interpretation codec_field: canonical_codec addFieldID SerialIter_getFieldID field_id_valid
proof
  fix f s
  obtain bs where "\<forall>s. Serializer_addFieldID (fst f) (snd f) s = push_bytes bs s"
    using addFieldID_push by blast
  then show "addFieldID f s = Inr (push_bytes (encoding addFieldID f) s)"
    by (simp add: encoding_pure)
qed (auto simp: reads_getFieldID intro: reads_only_moves[OF reads_only_getFieldID] reads_only_getFieldID)

lemma moves_getRaw_nonneg: "0 \<le> n \<Longrightarrow> n < 2 ^ 64 \<Longrightarrow> moves_forward (SerialIter_getRaw n)"
  by (rule moves_forwardI) (auto simp: SerialIter_getRaw_def split: if_splits intro!: exI[of _ "nat n"])

lemma moves_getVL: "moves_forward SerialIter_getVL"
proof (rule moves_forwardI)
  fix it v it' assume wf: "iter_wf it" and "SerialIter_getVL it = Inr (v, it')"
  then obtain n it1 where 1: "SerialIter_getVLDataLength it = Inr (n, it1)"
    and 2: "SerialIter_getRaw n it1 = Inr (v, it')" by (auto simp: SerialIter_getVL_def)
  from reads_only_getVLDataLength wf 1 obtain bs where b: "unread it = bs @ unread it1"
    "it1 = SerialIter_advance (length bs) it" "length_prefix n bs" "iter_wf it1" by (rule reads_onlyE)
  have "moves_forward (SerialIter_getRaw n)"
    using b(3) by (intro moves_getRaw_nonneg) (auto simp: length_prefix_def)
  from moves_forwardE[OF this b(4) 2] obtain m where "m \<le> sit_remain it1" "it' = SerialIter_advance m it1" .
  then have "length bs + m \<le> sit_remain it \<and> it' = SerialIter_advance (length bs + m) it"
    using b(1,2) length_unread[OF wf] by (auto simp: SerialIter_advance_def)
  then show "\<exists>n \<le> sit_remain it. it' = SerialIter_advance n it" by blast
qed

interpretation codec_vl: wire_codec Serializer_addVL SerialIter_getVL "\<lambda>v. length v \<le> 918744"
  by unfold_locales (simp_all add: addVL_appends reads_getVL moves_getVL)

section \<open>Properties\<close>

text \<open>
  C34: a blob of at most 918744 bytes written by \<open>addVL\<close> at the end of any serializer is read
  back by \<open>getVL\<close> from the offset \<open>addVL\<close> returned, and the reader stands at the end of the data.
\<close>

theorem addVL_getVL:
  assumes "length v \<le> 918744"
  shows "\<exists>s' it'. Serializer_addVL v s = Inr (getDataLength s, s') \<and>
    SerialIter_getVL (SerialIter_advance (length (mData s)) (SerialIter_make (mData s'))) = Inr (v, it') \<and>
    SerialIter_empty it'"
proof -
  let ?s = "s\<lparr>mData := mData s @ encoding Serializer_addVL v\<rparr>"
  let ?it = "SerialIter_advance (length (mData s)) (SerialIter_make (mData ?s))"
  have a: "Serializer_addVL v s = Inr (getDataLength s, ?s)"
    using codec_vl.add_appends[OF assms, of s] by (simp add: push_bytes_def)
  have "iter_wf ?it" by (rule iter_wf_advance[OF iter_wf_make]) (simp add: SerialIter_make_def)
  moreover have "unread ?it = drop (length (mData s)) (mData ?s) @ []" by (simp add: unread_advance)
  ultimately obtain it' where "SerialIter_getVL ?it = Inr (v, it')" "iter_wf it'" "unread it' = []"
    using codec_vl.round_trip[OF assms a refl] by blast
  then show ?thesis using a length_unread[of it'] by (auto simp: SerialIter_empty_def)
qed

theorem addVL_getVL_witness:
  "\<exists>s' it'. Serializer_addVL [7, 8] \<lparr>mData = [1]\<rparr> = Inr (getDataLength \<lparr>mData = [1]\<rparr>, s') \<and>
    SerialIter_getVL (SerialIter_advance (length (mData \<lparr>mData = [1]\<rparr>)) (SerialIter_make (mData s'))) =
      Inr ([7, 8], it') \<and> SerialIter_empty it'"
  using addVL_getVL[of "[7, 8]" "\<lparr>mData = [1]\<rparr>"] by simp

text \<open>
  \<open>getFieldID\<close> accepts exactly the field headers \<open>addFieldID\<close> writes for a type and a name
  between 1 and 255: a header has one encoding, no other byte sequence is accepted, and the cursor
  moves by the length of the encoding.
\<close>

theorem getFieldID_exact:
  assumes "iter_wf it"
  shows "SerialIter_getFieldID it = Inr (f, it') \<longleftrightarrow>
    field_id_valid f \<and> it' = SerialIter_advance (length (encoding addFieldID f)) it \<and>
    (\<exists>rest. unread it = encoding addFieldID f @ rest)"
  by (rule codec_field.exact[OF assms])

theorem getFieldID_exact_witness:
  "iter_wf (SerialIter_make [0x12, 0]) \<and>
   (SerialIter_getFieldID (SerialIter_make [0x12, 0]) = Inr ((1, 2), SerialIter_advance 1 (SerialIter_make [0x12, 0])) \<longleftrightarrow>
    field_id_valid (1, 2) \<and> SerialIter_advance 1 (SerialIter_make [0x12, 0]) =
      SerialIter_advance (length (encoding addFieldID (1, 2))) (SerialIter_make [0x12, 0]) \<and>
    (\<exists>rest. unread (SerialIter_make [0x12, 0]) = encoding addFieldID (1, 2) @ rest))"
  using getFieldID_exact[of "SerialIter_make [0x12, 0]"] by simp

text \<open>
  every length \<open>getVLDataLength\<close> returns is between 0 and 929984, and if it is one that
  \<open>addEncoded\<close> can write, then the bytes consumed are the ones \<open>addEncoded\<close> writes for it: a
  length that can be written has one encoding.
\<close>

theorem getVLDataLength_canonical:
  assumes "iter_wf it" and "SerialIter_getVLDataLength it = Inr (n, it')"
  shows "0 \<le> n \<and> n \<le> 929984 \<and> (\<exists>bs. unread it = bs @ unread it' \<and>
    (n \<le> 918744 \<longrightarrow> addEncoded_bytes n = Inr bs))"
proof -
  from reads_only_getVLDataLength assms obtain bs where "unread it = bs @ unread it'"
    "it' = SerialIter_advance (length bs) it" "length_prefix n bs" "iter_wf it'"
    by (rule reads_onlyE)
  then show ?thesis unfolding length_prefix_def by blast
qed

theorem getVLDataLength_canonical_witness:
  "\<exists>n it'. SerialIter_getVLDataLength (SerialIter_make [200, 9]) = Inr (n, it') \<and>
    0 \<le> n \<and> n \<le> 929984 \<and> (\<exists>bs. unread (SerialIter_make [200, 9]) = bs @ unread it' \<and>
    (n \<le> 918744 \<longrightarrow> addEncoded_bytes n = Inr bs))"
proof -
  have e: "SerialIter_getVLDataLength (SerialIter_make [200, 9]) =
      Inr (1994, SerialIter_advance 2 (SerialIter_make [200, 9]))"
    by (simp add: SerialIter_getVLDataLength_def SerialIter_get8_def SerialIter_make_def
        SerialIter_advance_def decodeLengthLength_def decodeVLLength2_def)
  show ?thesis using e getVLDataLength_canonical[OF iter_wf_make e] by blast
qed

end
