(* ===== verification/SFields.thy ===== *)
theory SFields
  imports Serializer
begin

text \<open>
  The serialized fields and the object formats: \<^verbatim>\<open>protocol/SField.h\<close> and \<^verbatim>\<open>protocol/impl/SField.cpp\<close>,
  \<^verbatim>\<open>protocol/SOTemplate.h\<close> and \<^verbatim>\<open>protocol/impl/SOTemplate.cpp\<close>, \<^verbatim>\<open>protocol/KnownFormats.h\<close>, and
  the formats of \<^verbatim>\<open>protocol/impl/LedgerFormats.cpp\<close>, \<^verbatim>\<open>protocol/impl/TxFormats.cpp\<close> and
  \<^verbatim>\<open>protocol/impl/InnerObjectFormats.cpp\<close>.

  There is one \<open>SField\<close> object per field code and \<open>operator==\<close> compares codes, so a reference to a
  field is its code; the attributes of a field are found in the table of known fields.
\<close>

section \<open>Fields\<close>

type_synonym SField = int

abbreviation (input) STI_UINT16 :: int where "STI_UINT16 \<equiv> 1"
abbreviation (input) STI_UINT32 :: int where "STI_UINT32 \<equiv> 2"
abbreviation (input) STI_UINT64 :: int where "STI_UINT64 \<equiv> 3"
abbreviation (input) STI_HASH128 :: int where "STI_HASH128 \<equiv> 4"
abbreviation (input) STI_HASH256 :: int where "STI_HASH256 \<equiv> 5"
abbreviation (input) STI_AMOUNT :: int where "STI_AMOUNT \<equiv> 6"
abbreviation (input) STI_VL :: int where "STI_VL \<equiv> 7"
abbreviation (input) STI_ACCOUNT :: int where "STI_ACCOUNT \<equiv> 8"
abbreviation (input) STI_OBJECT :: int where "STI_OBJECT \<equiv> 14"
abbreviation (input) STI_ARRAY :: int where "STI_ARRAY \<equiv> 15"
abbreviation (input) STI_UINT8 :: int where "STI_UINT8 \<equiv> 16"
abbreviation (input) STI_HASH160 :: int where "STI_HASH160 \<equiv> 17"
abbreviation (input) STI_PATHSET :: int where "STI_PATHSET \<equiv> 18"
abbreviation (input) STI_VECTOR256 :: int where "STI_VECTOR256 \<equiv> 19"
abbreviation (input) STI_TRANSACTION :: int where "STI_TRANSACTION \<equiv> 10001"
abbreviation (input) STI_LEDGERENTRY :: int where "STI_LEDGERENTRY \<equiv> 10002"
abbreviation (input) STI_VALIDATION :: int where "STI_VALIDATION \<equiv> 10003"
abbreviation (input) STI_METADATA :: int where "STI_METADATA \<equiv> 10004"
abbreviation (input) STI_NOTPRESENT :: int where "STI_NOTPRESENT \<equiv> 0"

definition STI_UNKNOWN :: int where "STI_UNKNOWN = -2"

definition field_code :: "int \<Rightarrow> int \<Rightarrow> int" where
  "field_code tid index = push_bit 16 tid OR index"

definition sMD_Never :: int where "sMD_Never = 0"
definition sMD_ChangeOrig :: int where "sMD_ChangeOrig = 1"
definition sMD_ChangeNew :: int where "sMD_ChangeNew = 2"
definition sMD_DeleteFinal :: int where "sMD_DeleteFinal = 4"
definition sMD_Create :: int where "sMD_Create = 8"
definition sMD_Always :: int where "sMD_Always = 16"

definition sMD_Default :: int where
  "sMD_Default = sMD_ChangeOrig OR sMD_ChangeNew OR sMD_DeleteFinal OR sMD_Create"

record SFieldInfo =
  sf_type :: int
  sf_value :: int
  sf_name :: string
  sf_meta :: int
  sf_signing :: bool

text \<open>The constructor registers a field under its code.\<close>

definition SField_make :: "int \<Rightarrow> int \<Rightarrow> string \<Rightarrow> int \<Rightarrow> bool \<Rightarrow> SField \<times> SFieldInfo" where
  "SField_make tid fv fn meta signing =
     (field_code tid fv,
      \<lparr>sf_type = tid, sf_value = fv, sf_name = fn, sf_meta = meta, sf_signing = signing\<rparr>)"

text \<open>The names of the fields, as their codes.\<close>

abbreviation (input) sfInvalid :: SField where "sfInvalid \<equiv> -1"
abbreviation (input) sfGeneric :: SField where "sfGeneric \<equiv> 0"
abbreviation (input) sfLedgerEntry :: SField where "sfLedgerEntry \<equiv> 655491329"
abbreviation (input) sfTransaction :: SField where "sfTransaction \<equiv> 655425793"
abbreviation (input) sfValidation :: SField where "sfValidation \<equiv> 655556865"
abbreviation (input) sfMetadata :: SField where "sfMetadata \<equiv> 655622401"
abbreviation (input) sfHash :: SField where "sfHash \<equiv> 327937"
abbreviation (input) sfIndex :: SField where "sfIndex \<equiv> 327938"
abbreviation (input) sfCloseResolution :: SField where "sfCloseResolution \<equiv> 1048577"
abbreviation (input) sfMethod :: SField where "sfMethod \<equiv> 1048578"
abbreviation (input) sfTransactionResult :: SField where "sfTransactionResult \<equiv> 1048579"
abbreviation (input) sfTickSize :: SField where "sfTickSize \<equiv> 1048592"
abbreviation (input) sfLedgerEntryType :: SField where "sfLedgerEntryType \<equiv> 65537"
abbreviation (input) sfTransactionType :: SField where "sfTransactionType \<equiv> 65538"
abbreviation (input) sfSignerWeight :: SField where "sfSignerWeight \<equiv> 65539"
abbreviation (input) sfVersion :: SField where "sfVersion \<equiv> 65552"
abbreviation (input) sfFlags :: SField where "sfFlags \<equiv> 131074"
abbreviation (input) sfSourceTag :: SField where "sfSourceTag \<equiv> 131075"
abbreviation (input) sfSequence :: SField where "sfSequence \<equiv> 131076"
abbreviation (input) sfPreviousTxnLgrSeq :: SField where "sfPreviousTxnLgrSeq \<equiv> 131077"
abbreviation (input) sfLedgerSequence :: SField where "sfLedgerSequence \<equiv> 131078"
abbreviation (input) sfCloseTime :: SField where "sfCloseTime \<equiv> 131079"
abbreviation (input) sfParentCloseTime :: SField where "sfParentCloseTime \<equiv> 131080"
abbreviation (input) sfSigningTime :: SField where "sfSigningTime \<equiv> 131081"
abbreviation (input) sfExpiration :: SField where "sfExpiration \<equiv> 131082"
abbreviation (input) sfTransferRate :: SField where "sfTransferRate \<equiv> 131083"
abbreviation (input) sfWalletSize :: SField where "sfWalletSize \<equiv> 131084"
abbreviation (input) sfOwnerCount :: SField where "sfOwnerCount \<equiv> 131085"
abbreviation (input) sfDestinationTag :: SField where "sfDestinationTag \<equiv> 131086"
abbreviation (input) sfHighQualityIn :: SField where "sfHighQualityIn \<equiv> 131088"
abbreviation (input) sfHighQualityOut :: SField where "sfHighQualityOut \<equiv> 131089"
abbreviation (input) sfLowQualityIn :: SField where "sfLowQualityIn \<equiv> 131090"
abbreviation (input) sfLowQualityOut :: SField where "sfLowQualityOut \<equiv> 131091"
abbreviation (input) sfQualityIn :: SField where "sfQualityIn \<equiv> 131092"
abbreviation (input) sfQualityOut :: SField where "sfQualityOut \<equiv> 131093"
abbreviation (input) sfStampEscrow :: SField where "sfStampEscrow \<equiv> 131094"
abbreviation (input) sfBondAmount :: SField where "sfBondAmount \<equiv> 131095"
abbreviation (input) sfLoadFee :: SField where "sfLoadFee \<equiv> 131096"
abbreviation (input) sfOfferSequence :: SField where "sfOfferSequence \<equiv> 131097"
abbreviation (input) sfFirstLedgerSequence :: SField where "sfFirstLedgerSequence \<equiv> 131098"
abbreviation (input) sfLastLedgerSequence :: SField where "sfLastLedgerSequence \<equiv> 131099"
abbreviation (input) sfTransactionIndex :: SField where "sfTransactionIndex \<equiv> 131100"
abbreviation (input) sfOperationLimit :: SField where "sfOperationLimit \<equiv> 131101"
abbreviation (input) sfReferenceFeeUnits :: SField where "sfReferenceFeeUnits \<equiv> 131102"
abbreviation (input) sfReserveBase :: SField where "sfReserveBase \<equiv> 131103"
abbreviation (input) sfReserveIncrement :: SField where "sfReserveIncrement \<equiv> 131104"
abbreviation (input) sfSetFlag :: SField where "sfSetFlag \<equiv> 131105"
abbreviation (input) sfClearFlag :: SField where "sfClearFlag \<equiv> 131106"
abbreviation (input) sfSignerQuorum :: SField where "sfSignerQuorum \<equiv> 131107"
abbreviation (input) sfCancelAfter :: SField where "sfCancelAfter \<equiv> 131108"
abbreviation (input) sfFinishAfter :: SField where "sfFinishAfter \<equiv> 131109"
abbreviation (input) sfSignerListID :: SField where "sfSignerListID \<equiv> 131110"
abbreviation (input) sfSettleDelay :: SField where "sfSettleDelay \<equiv> 131111"
abbreviation (input) sfIndexNext :: SField where "sfIndexNext \<equiv> 196609"
abbreviation (input) sfIndexPrevious :: SField where "sfIndexPrevious \<equiv> 196610"
abbreviation (input) sfBookNode :: SField where "sfBookNode \<equiv> 196611"
abbreviation (input) sfOwnerNode :: SField where "sfOwnerNode \<equiv> 196612"
abbreviation (input) sfBaseFee :: SField where "sfBaseFee \<equiv> 196613"
abbreviation (input) sfExchangeRate :: SField where "sfExchangeRate \<equiv> 196614"
abbreviation (input) sfLowNode :: SField where "sfLowNode \<equiv> 196615"
abbreviation (input) sfHighNode :: SField where "sfHighNode \<equiv> 196616"
abbreviation (input) sfDestinationNode :: SField where "sfDestinationNode \<equiv> 196617"
abbreviation (input) sfCookie :: SField where "sfCookie \<equiv> 196618"
abbreviation (input) sfEmailHash :: SField where "sfEmailHash \<equiv> 262145"
abbreviation (input) sfTakerPaysCurrency :: SField where "sfTakerPaysCurrency \<equiv> 1114113"
abbreviation (input) sfTakerPaysIssuer :: SField where "sfTakerPaysIssuer \<equiv> 1114114"
abbreviation (input) sfTakerGetsCurrency :: SField where "sfTakerGetsCurrency \<equiv> 1114115"
abbreviation (input) sfTakerGetsIssuer :: SField where "sfTakerGetsIssuer \<equiv> 1114116"
abbreviation (input) sfLedgerHash :: SField where "sfLedgerHash \<equiv> 327681"
abbreviation (input) sfParentHash :: SField where "sfParentHash \<equiv> 327682"
abbreviation (input) sfTransactionHash :: SField where "sfTransactionHash \<equiv> 327683"
abbreviation (input) sfAccountHash :: SField where "sfAccountHash \<equiv> 327684"
abbreviation (input) sfPreviousTxnID :: SField where "sfPreviousTxnID \<equiv> 327685"
abbreviation (input) sfLedgerIndex :: SField where "sfLedgerIndex \<equiv> 327686"
abbreviation (input) sfWalletLocator :: SField where "sfWalletLocator \<equiv> 327687"
abbreviation (input) sfRootIndex :: SField where "sfRootIndex \<equiv> 327688"
abbreviation (input) sfAccountTxnID :: SField where "sfAccountTxnID \<equiv> 327689"
abbreviation (input) sfBookDirectory :: SField where "sfBookDirectory \<equiv> 327696"
abbreviation (input) sfInvoiceID :: SField where "sfInvoiceID \<equiv> 327697"
abbreviation (input) sfNickname :: SField where "sfNickname \<equiv> 327698"
abbreviation (input) sfAmendment :: SField where "sfAmendment \<equiv> 327699"
abbreviation (input) sfTicketID :: SField where "sfTicketID \<equiv> 327700"
abbreviation (input) sfDigest :: SField where "sfDigest \<equiv> 327701"
abbreviation (input) sfPayChannel :: SField where "sfPayChannel \<equiv> 327702"
abbreviation (input) sfConsensusHash :: SField where "sfConsensusHash \<equiv> 327703"
abbreviation (input) sfCheckID :: SField where "sfCheckID \<equiv> 327704"
abbreviation (input) sfAmount :: SField where "sfAmount \<equiv> 393217"
abbreviation (input) sfBalance :: SField where "sfBalance \<equiv> 393218"
abbreviation (input) sfLimitAmount :: SField where "sfLimitAmount \<equiv> 393219"
abbreviation (input) sfTakerPays :: SField where "sfTakerPays \<equiv> 393220"
abbreviation (input) sfTakerGets :: SField where "sfTakerGets \<equiv> 393221"
abbreviation (input) sfLowLimit :: SField where "sfLowLimit \<equiv> 393222"
abbreviation (input) sfHighLimit :: SField where "sfHighLimit \<equiv> 393223"
abbreviation (input) sfFee :: SField where "sfFee \<equiv> 393224"
abbreviation (input) sfSendMax :: SField where "sfSendMax \<equiv> 393225"
abbreviation (input) sfDeliverMin :: SField where "sfDeliverMin \<equiv> 393226"
abbreviation (input) sfMinimumOffer :: SField where "sfMinimumOffer \<equiv> 393232"
abbreviation (input) sfSupplyFinanceChainEscrow :: SField where "sfSupplyFinanceChainEscrow \<equiv> 393233"
abbreviation (input) sfDeliveredAmount :: SField where "sfDeliveredAmount \<equiv> 393234"
abbreviation (input) sfPublicKey :: SField where "sfPublicKey \<equiv> 458753"
abbreviation (input) sfMessageKey :: SField where "sfMessageKey \<equiv> 458754"
abbreviation (input) sfSigningPubKey :: SField where "sfSigningPubKey \<equiv> 458755"
abbreviation (input) sfTxnSignature :: SField where "sfTxnSignature \<equiv> 458756"
abbreviation (input) sfSignature :: SField where "sfSignature \<equiv> 458758"
abbreviation (input) sfDomain :: SField where "sfDomain \<equiv> 458759"
abbreviation (input) sfFundCode :: SField where "sfFundCode \<equiv> 458760"
abbreviation (input) sfRemoveCode :: SField where "sfRemoveCode \<equiv> 458761"
abbreviation (input) sfExpireCode :: SField where "sfExpireCode \<equiv> 458762"
abbreviation (input) sfCreateCode :: SField where "sfCreateCode \<equiv> 458763"
abbreviation (input) sfMemoType :: SField where "sfMemoType \<equiv> 458764"
abbreviation (input) sfMemoData :: SField where "sfMemoData \<equiv> 458765"
abbreviation (input) sfMemoFormat :: SField where "sfMemoFormat \<equiv> 458766"
abbreviation (input) sfFulfillment :: SField where "sfFulfillment \<equiv> 458768"
abbreviation (input) sfCondition :: SField where "sfCondition \<equiv> 458769"
abbreviation (input) sfMasterSignature :: SField where "sfMasterSignature \<equiv> 458770"
abbreviation (input) sfAccount :: SField where "sfAccount \<equiv> 524289"
abbreviation (input) sfOwner :: SField where "sfOwner \<equiv> 524290"
abbreviation (input) sfDestination :: SField where "sfDestination \<equiv> 524291"
abbreviation (input) sfIssuer :: SField where "sfIssuer \<equiv> 524292"
abbreviation (input) sfAuthorize :: SField where "sfAuthorize \<equiv> 524293"
abbreviation (input) sfUnauthorize :: SField where "sfUnauthorize \<equiv> 524294"
abbreviation (input) sfTarget :: SField where "sfTarget \<equiv> 524295"
abbreviation (input) sfRegularKey :: SField where "sfRegularKey \<equiv> 524296"
abbreviation (input) sfPaths :: SField where "sfPaths \<equiv> 1179649"
abbreviation (input) sfIndexes :: SField where "sfIndexes \<equiv> 1245185"
abbreviation (input) sfHashes :: SField where "sfHashes \<equiv> 1245186"
abbreviation (input) sfAmendments :: SField where "sfAmendments \<equiv> 1245187"
abbreviation (input) sfTransactionMetaData :: SField where "sfTransactionMetaData \<equiv> 917506"
abbreviation (input) sfCreatedNode :: SField where "sfCreatedNode \<equiv> 917507"
abbreviation (input) sfDeletedNode :: SField where "sfDeletedNode \<equiv> 917508"
abbreviation (input) sfModifiedNode :: SField where "sfModifiedNode \<equiv> 917509"
abbreviation (input) sfPreviousFields :: SField where "sfPreviousFields \<equiv> 917510"
abbreviation (input) sfFinalFields :: SField where "sfFinalFields \<equiv> 917511"
abbreviation (input) sfNewFields :: SField where "sfNewFields \<equiv> 917512"
abbreviation (input) sfTemplateEntry :: SField where "sfTemplateEntry \<equiv> 917513"
abbreviation (input) sfMemo :: SField where "sfMemo \<equiv> 917514"
abbreviation (input) sfSignerEntry :: SField where "sfSignerEntry \<equiv> 917515"
abbreviation (input) sfSigner :: SField where "sfSigner \<equiv> 917520"
abbreviation (input) sfMajority :: SField where "sfMajority \<equiv> 917522"
abbreviation (input) sfSigners :: SField where "sfSigners \<equiv> 983043"
abbreviation (input) sfSignerEntries :: SField where "sfSignerEntries \<equiv> 983044"
abbreviation (input) sfTemplate :: SField where "sfTemplate \<equiv> 983045"
abbreviation (input) sfNecessary :: SField where "sfNecessary \<equiv> 983046"
abbreviation (input) sfSufficient :: SField where "sfSufficient \<equiv> 983047"
abbreviation (input) sfAffectedNodes :: SField where "sfAffectedNodes \<equiv> 983048"
abbreviation (input) sfMemos :: SField where "sfMemos \<equiv> 983049"
abbreviation (input) sfMajorities :: SField where "sfMajorities \<equiv> 983056"

text \<open>The known fields, in the groups of the source.\<close>

definition fields_special :: "(SField \<times> SFieldInfo) list" where
  "fields_special =
    [SField_make STI_LEDGERENTRY 257 ''LedgerEntry'' sMD_Default True,
     SField_make STI_TRANSACTION 257 ''Transaction'' sMD_Default True,
     SField_make STI_VALIDATION 257 ''Validation'' sMD_Default True,
     SField_make STI_METADATA 257 ''Metadata'' sMD_Default True,
     SField_make STI_HASH256 257 ''hash'' sMD_Default True,
     SField_make STI_HASH256 258 ''index'' sMD_Default True]"

definition fields_uint8 :: "(SField \<times> SFieldInfo) list" where
  "fields_uint8 =
    [SField_make STI_UINT8 1 ''CloseResolution'' sMD_Default True,
     SField_make STI_UINT8 2 ''Method'' sMD_Default True,
     SField_make STI_UINT8 3 ''TransactionResult'' sMD_Default True,
     SField_make STI_UINT8 16 ''TickSize'' sMD_Default True]"

definition fields_uint16 :: "(SField \<times> SFieldInfo) list" where
  "fields_uint16 =
    [SField_make STI_UINT16 1 ''LedgerEntryType'' sMD_Never True,
     SField_make STI_UINT16 2 ''TransactionType'' sMD_Default True,
     SField_make STI_UINT16 3 ''SignerWeight'' sMD_Default True,
     SField_make STI_UINT16 16 ''Version'' sMD_Default True]"

definition fields_uint32 :: "(SField \<times> SFieldInfo) list" where
  "fields_uint32 =
    [SField_make STI_UINT32 2 ''Flags'' sMD_Default True,
     SField_make STI_UINT32 3 ''SourceTag'' sMD_Default True,
     SField_make STI_UINT32 4 ''Sequence'' sMD_Default True,
     SField_make STI_UINT32 5 ''PreviousTxnLgrSeq'' sMD_DeleteFinal True,
     SField_make STI_UINT32 6 ''LedgerSequence'' sMD_Default True,
     SField_make STI_UINT32 7 ''CloseTime'' sMD_Default True,
     SField_make STI_UINT32 8 ''ParentCloseTime'' sMD_Default True,
     SField_make STI_UINT32 9 ''SigningTime'' sMD_Default True,
     SField_make STI_UINT32 10 ''Expiration'' sMD_Default True,
     SField_make STI_UINT32 11 ''TransferRate'' sMD_Default True,
     SField_make STI_UINT32 12 ''WalletSize'' sMD_Default True,
     SField_make STI_UINT32 13 ''OwnerCount'' sMD_Default True,
     SField_make STI_UINT32 14 ''DestinationTag'' sMD_Default True,
     SField_make STI_UINT32 16 ''HighQualityIn'' sMD_Default True,
     SField_make STI_UINT32 17 ''HighQualityOut'' sMD_Default True,
     SField_make STI_UINT32 18 ''LowQualityIn'' sMD_Default True,
     SField_make STI_UINT32 19 ''LowQualityOut'' sMD_Default True,
     SField_make STI_UINT32 20 ''QualityIn'' sMD_Default True,
     SField_make STI_UINT32 21 ''QualityOut'' sMD_Default True,
     SField_make STI_UINT32 22 ''StampEscrow'' sMD_Default True,
     SField_make STI_UINT32 23 ''BondAmount'' sMD_Default True,
     SField_make STI_UINT32 24 ''LoadFee'' sMD_Default True,
     SField_make STI_UINT32 25 ''OfferSequence'' sMD_Default True,
     SField_make STI_UINT32 26 ''FirstLedgerSequence'' sMD_Default True,
     SField_make STI_UINT32 27 ''LastLedgerSequence'' sMD_Default True,
     SField_make STI_UINT32 28 ''TransactionIndex'' sMD_Default True,
     SField_make STI_UINT32 29 ''OperationLimit'' sMD_Default True,
     SField_make STI_UINT32 30 ''ReferenceFeeUnits'' sMD_Default True,
     SField_make STI_UINT32 31 ''ReserveBase'' sMD_Default True,
     SField_make STI_UINT32 32 ''ReserveIncrement'' sMD_Default True,
     SField_make STI_UINT32 33 ''SetFlag'' sMD_Default True,
     SField_make STI_UINT32 34 ''ClearFlag'' sMD_Default True,
     SField_make STI_UINT32 35 ''SignerQuorum'' sMD_Default True,
     SField_make STI_UINT32 36 ''CancelAfter'' sMD_Default True,
     SField_make STI_UINT32 37 ''FinishAfter'' sMD_Default True,
     SField_make STI_UINT32 38 ''SignerListID'' sMD_Default True,
     SField_make STI_UINT32 39 ''SettleDelay'' sMD_Default True]"

definition fields_uint64 :: "(SField \<times> SFieldInfo) list" where
  "fields_uint64 =
    [SField_make STI_UINT64 1 ''IndexNext'' sMD_Default True,
     SField_make STI_UINT64 2 ''IndexPrevious'' sMD_Default True,
     SField_make STI_UINT64 3 ''BookNode'' sMD_Default True,
     SField_make STI_UINT64 4 ''OwnerNode'' sMD_Default True,
     SField_make STI_UINT64 5 ''BaseFee'' sMD_Default True,
     SField_make STI_UINT64 6 ''ExchangeRate'' sMD_Default True,
     SField_make STI_UINT64 7 ''LowNode'' sMD_Default True,
     SField_make STI_UINT64 8 ''HighNode'' sMD_Default True,
     SField_make STI_UINT64 9 ''DestinationNode'' sMD_Default True,
     SField_make STI_UINT64 10 ''Cookie'' sMD_Default True]"

definition fields_hash :: "(SField \<times> SFieldInfo) list" where
  "fields_hash =
    [SField_make STI_HASH128 1 ''EmailHash'' sMD_Default True,
     SField_make STI_HASH160 1 ''TakerPaysCurrency'' sMD_Default True,
     SField_make STI_HASH160 2 ''TakerPaysIssuer'' sMD_Default True,
     SField_make STI_HASH160 3 ''TakerGetsCurrency'' sMD_Default True,
     SField_make STI_HASH160 4 ''TakerGetsIssuer'' sMD_Default True,
     SField_make STI_HASH256 1 ''LedgerHash'' sMD_Default True,
     SField_make STI_HASH256 2 ''ParentHash'' sMD_Default True,
     SField_make STI_HASH256 3 ''TransactionHash'' sMD_Default True,
     SField_make STI_HASH256 4 ''AccountHash'' sMD_Default True,
     SField_make STI_HASH256 5 ''PreviousTxnID'' sMD_DeleteFinal True,
     SField_make STI_HASH256 6 ''LedgerIndex'' sMD_Default True,
     SField_make STI_HASH256 7 ''WalletLocator'' sMD_Default True,
     SField_make STI_HASH256 8 ''RootIndex'' sMD_Always True,
     SField_make STI_HASH256 9 ''AccountTxnID'' sMD_Default True,
     SField_make STI_HASH256 16 ''BookDirectory'' sMD_Default True,
     SField_make STI_HASH256 17 ''InvoiceID'' sMD_Default True,
     SField_make STI_HASH256 18 ''Nickname'' sMD_Default True,
     SField_make STI_HASH256 19 ''Amendment'' sMD_Default True,
     SField_make STI_HASH256 20 ''TicketID'' sMD_Default True,
     SField_make STI_HASH256 21 ''Digest'' sMD_Default True,
     SField_make STI_HASH256 22 ''Channel'' sMD_Default True,
     SField_make STI_HASH256 23 ''ConsensusHash'' sMD_Default True,
     SField_make STI_HASH256 24 ''CheckID'' sMD_Default True]"

definition fields_amount :: "(SField \<times> SFieldInfo) list" where
  "fields_amount =
    [SField_make STI_AMOUNT 1 ''Amount'' sMD_Default True,
     SField_make STI_AMOUNT 2 ''Balance'' sMD_Default True,
     SField_make STI_AMOUNT 3 ''LimitAmount'' sMD_Default True,
     SField_make STI_AMOUNT 4 ''TakerPays'' sMD_Default True,
     SField_make STI_AMOUNT 5 ''TakerGets'' sMD_Default True,
     SField_make STI_AMOUNT 6 ''LowLimit'' sMD_Default True,
     SField_make STI_AMOUNT 7 ''HighLimit'' sMD_Default True,
     SField_make STI_AMOUNT 8 ''Fee'' sMD_Default True,
     SField_make STI_AMOUNT 9 ''SendMax'' sMD_Default True,
     SField_make STI_AMOUNT 10 ''DeliverMin'' sMD_Default True,
     SField_make STI_AMOUNT 16 ''MinimumOffer'' sMD_Default True,
     SField_make STI_AMOUNT 17 ''SupplyFinanceChainEscrow'' sMD_Default True,
     SField_make STI_AMOUNT 18 ''DeliveredAmount'' sMD_Default True]"

definition fields_vl :: "(SField \<times> SFieldInfo) list" where
  "fields_vl =
    [SField_make STI_VL 1 ''PublicKey'' sMD_Default True,
     SField_make STI_VL 2 ''MessageKey'' sMD_Default True,
     SField_make STI_VL 3 ''SigningPubKey'' sMD_Default True,
     SField_make STI_VL 4 ''TxnSignature'' sMD_Default False,
     SField_make STI_VL 6 ''Signature'' sMD_Default False,
     SField_make STI_VL 7 ''Domain'' sMD_Default True,
     SField_make STI_VL 8 ''FundCode'' sMD_Default True,
     SField_make STI_VL 9 ''RemoveCode'' sMD_Default True,
     SField_make STI_VL 10 ''ExpireCode'' sMD_Default True,
     SField_make STI_VL 11 ''CreateCode'' sMD_Default True,
     SField_make STI_VL 12 ''MemoType'' sMD_Default True,
     SField_make STI_VL 13 ''MemoData'' sMD_Default True,
     SField_make STI_VL 14 ''MemoFormat'' sMD_Default True,
     SField_make STI_VL 16 ''Fulfillment'' sMD_Default True,
     SField_make STI_VL 17 ''Condition'' sMD_Default True,
     SField_make STI_VL 18 ''MasterSignature'' sMD_Default False]"

definition fields_account :: "(SField \<times> SFieldInfo) list" where
  "fields_account =
    [SField_make STI_ACCOUNT 1 ''Account'' sMD_Default True,
     SField_make STI_ACCOUNT 2 ''Owner'' sMD_Default True,
     SField_make STI_ACCOUNT 3 ''Destination'' sMD_Default True,
     SField_make STI_ACCOUNT 4 ''Issuer'' sMD_Default True,
     SField_make STI_ACCOUNT 5 ''Authorize'' sMD_Default True,
     SField_make STI_ACCOUNT 6 ''Unauthorize'' sMD_Default True,
     SField_make STI_ACCOUNT 7 ''Target'' sMD_Default True,
     SField_make STI_ACCOUNT 8 ''RegularKey'' sMD_Default True]"

definition fields_vector :: "(SField \<times> SFieldInfo) list" where
  "fields_vector =
    [SField_make STI_PATHSET 1 ''Paths'' sMD_Default True,
     SField_make STI_VECTOR256 1 ''Indexes'' sMD_Never True,
     SField_make STI_VECTOR256 2 ''Hashes'' sMD_Default True,
     SField_make STI_VECTOR256 3 ''Amendments'' sMD_Default True]"

definition fields_object :: "(SField \<times> SFieldInfo) list" where
  "fields_object =
    [SField_make STI_OBJECT 2 ''TransactionMetaData'' sMD_Default True,
     SField_make STI_OBJECT 3 ''CreatedNode'' sMD_Default True,
     SField_make STI_OBJECT 4 ''DeletedNode'' sMD_Default True,
     SField_make STI_OBJECT 5 ''ModifiedNode'' sMD_Default True,
     SField_make STI_OBJECT 6 ''PreviousFields'' sMD_Default True,
     SField_make STI_OBJECT 7 ''FinalFields'' sMD_Default True,
     SField_make STI_OBJECT 8 ''NewFields'' sMD_Default True,
     SField_make STI_OBJECT 9 ''TemplateEntry'' sMD_Default True,
     SField_make STI_OBJECT 10 ''Memo'' sMD_Default True,
     SField_make STI_OBJECT 11 ''SignerEntry'' sMD_Default True,
     SField_make STI_OBJECT 16 ''Signer'' sMD_Default True,
     SField_make STI_OBJECT 18 ''Majority'' sMD_Default True]"

definition fields_array :: "(SField \<times> SFieldInfo) list" where
  "fields_array =
    [SField_make STI_ARRAY 3 ''Signers'' sMD_Default False,
     SField_make STI_ARRAY 4 ''SignerEntries'' sMD_Default True,
     SField_make STI_ARRAY 5 ''Template'' sMD_Default True,
     SField_make STI_ARRAY 6 ''Necessary'' sMD_Default True,
     SField_make STI_ARRAY 7 ''Sufficient'' sMD_Default True,
     SField_make STI_ARRAY 8 ''AffectedNodes'' sMD_Default True,
     SField_make STI_ARRAY 9 ''Memos'' sMD_Default True,
     SField_make STI_ARRAY 16 ''Majorities'' sMD_Default True]"

definition knownCodeToField :: "(SField \<times> SFieldInfo) list" where
  "knownCodeToField =
     [(-1, \<lparr>sf_type = STI_UNKNOWN, sf_value = 0, sf_name = [], sf_meta = sMD_Never, sf_signing = True\<rparr>),
      (0, \<lparr>sf_type = STI_UNKNOWN, sf_value = 0, sf_name = [], sf_meta = sMD_Never, sf_signing = True\<rparr>)] @
     fields_special @ fields_uint8 @ fields_uint16 @ fields_uint32 @ fields_uint64 @ fields_hash @
     fields_amount @ fields_vl @ fields_account @ fields_vector @ fields_object @ fields_array"

section \<open>Templates and formats\<close>

datatype SOEStyle = soeREQUIRED | soeOPTIONAL | soeDEFAULT

type_synonym SOTemplate = "(SField \<times> SOEStyle) list"

definition lf_commonFields :: SOTemplate where
  "lf_commonFields =
    [(sfLedgerIndex, soeOPTIONAL),
     (sfLedgerEntryType, soeREQUIRED),
     (sfFlags, soeREQUIRED)]"

definition lf_AccountRoot :: SOTemplate where
  "lf_AccountRoot =
    [(sfAccount, soeREQUIRED),
     (sfSequence, soeREQUIRED),
     (sfBalance, soeREQUIRED),
     (sfOwnerCount, soeREQUIRED),
     (sfPreviousTxnID, soeREQUIRED),
     (sfPreviousTxnLgrSeq, soeREQUIRED),
     (sfAccountTxnID, soeOPTIONAL),
     (sfRegularKey, soeOPTIONAL),
     (sfEmailHash, soeOPTIONAL),
     (sfWalletLocator, soeOPTIONAL),
     (sfWalletSize, soeOPTIONAL),
     (sfMessageKey, soeOPTIONAL),
     (sfTransferRate, soeOPTIONAL),
     (sfDomain, soeOPTIONAL),
     (sfTickSize, soeOPTIONAL)] @
     lf_commonFields"

definition lf_DirectoryNode :: SOTemplate where
  "lf_DirectoryNode =
    [(sfOwner, soeOPTIONAL),
     (sfTakerPaysCurrency, soeOPTIONAL),
     (sfTakerPaysIssuer, soeOPTIONAL),
     (sfTakerGetsCurrency, soeOPTIONAL),
     (sfTakerGetsIssuer, soeOPTIONAL),
     (sfExchangeRate, soeOPTIONAL),
     (sfIndexes, soeREQUIRED),
     (sfRootIndex, soeREQUIRED),
     (sfIndexNext, soeOPTIONAL),
     (sfIndexPrevious, soeOPTIONAL)] @
     lf_commonFields"

definition lf_Offer :: SOTemplate where
  "lf_Offer =
    [(sfAccount, soeREQUIRED),
     (sfSequence, soeREQUIRED),
     (sfTakerPays, soeREQUIRED),
     (sfTakerGets, soeREQUIRED),
     (sfBookDirectory, soeREQUIRED),
     (sfBookNode, soeREQUIRED),
     (sfOwnerNode, soeREQUIRED),
     (sfPreviousTxnID, soeREQUIRED),
     (sfPreviousTxnLgrSeq, soeREQUIRED),
     (sfExpiration, soeOPTIONAL)] @
     lf_commonFields"

definition lf_SupplyFinanceChainState :: SOTemplate where
  "lf_SupplyFinanceChainState =
    [(sfBalance, soeREQUIRED),
     (sfLowLimit, soeREQUIRED),
     (sfHighLimit, soeREQUIRED),
     (sfPreviousTxnID, soeREQUIRED),
     (sfPreviousTxnLgrSeq, soeREQUIRED),
     (sfLowNode, soeOPTIONAL),
     (sfLowQualityIn, soeOPTIONAL),
     (sfLowQualityOut, soeOPTIONAL),
     (sfHighNode, soeOPTIONAL),
     (sfHighQualityIn, soeOPTIONAL),
     (sfHighQualityOut, soeOPTIONAL)] @
     lf_commonFields"

definition lf_Escrow :: SOTemplate where
  "lf_Escrow =
    [(sfAccount, soeREQUIRED),
     (sfDestination, soeREQUIRED),
     (sfAmount, soeREQUIRED),
     (sfCondition, soeOPTIONAL),
     (sfCancelAfter, soeOPTIONAL),
     (sfFinishAfter, soeOPTIONAL),
     (sfSourceTag, soeOPTIONAL),
     (sfDestinationTag, soeOPTIONAL),
     (sfOwnerNode, soeREQUIRED),
     (sfPreviousTxnID, soeREQUIRED),
     (sfPreviousTxnLgrSeq, soeREQUIRED),
     (sfDestinationNode, soeOPTIONAL)] @
     lf_commonFields"

definition lf_LedgerHashes :: SOTemplate where
  "lf_LedgerHashes =
    [(sfFirstLedgerSequence, soeOPTIONAL),
     (sfLastLedgerSequence, soeOPTIONAL),
     (sfHashes, soeREQUIRED)] @
     lf_commonFields"

definition lf_Amendments :: SOTemplate where
  "lf_Amendments =
    [(sfAmendments, soeOPTIONAL),
     (sfMajorities, soeOPTIONAL)] @
     lf_commonFields"

definition lf_FeeSettings :: SOTemplate where
  "lf_FeeSettings =
    [(sfBaseFee, soeREQUIRED),
     (sfReferenceFeeUnits, soeREQUIRED),
     (sfReserveBase, soeREQUIRED),
     (sfReserveIncrement, soeREQUIRED)] @
     lf_commonFields"

definition lf_Ticket :: SOTemplate where
  "lf_Ticket =
    [(sfAccount, soeREQUIRED),
     (sfSequence, soeREQUIRED),
     (sfOwnerNode, soeREQUIRED),
     (sfTarget, soeOPTIONAL),
     (sfExpiration, soeOPTIONAL)] @
     lf_commonFields"

definition lf_SignerList :: SOTemplate where
  "lf_SignerList =
    [(sfOwnerNode, soeREQUIRED),
     (sfSignerQuorum, soeREQUIRED),
     (sfSignerEntries, soeREQUIRED),
     (sfSignerListID, soeREQUIRED),
     (sfPreviousTxnID, soeREQUIRED),
     (sfPreviousTxnLgrSeq, soeREQUIRED)] @
     lf_commonFields"

definition lf_PayChannel :: SOTemplate where
  "lf_PayChannel =
    [(sfAccount, soeREQUIRED),
     (sfDestination, soeREQUIRED),
     (sfAmount, soeREQUIRED),
     (sfBalance, soeREQUIRED),
     (sfPublicKey, soeREQUIRED),
     (sfSettleDelay, soeREQUIRED),
     (sfExpiration, soeOPTIONAL),
     (sfCancelAfter, soeOPTIONAL),
     (sfSourceTag, soeOPTIONAL),
     (sfDestinationTag, soeOPTIONAL),
     (sfOwnerNode, soeREQUIRED),
     (sfPreviousTxnID, soeREQUIRED),
     (sfPreviousTxnLgrSeq, soeREQUIRED)] @
     lf_commonFields"

definition lf_Check :: SOTemplate where
  "lf_Check =
    [(sfAccount, soeREQUIRED),
     (sfDestination, soeREQUIRED),
     (sfSendMax, soeREQUIRED),
     (sfSequence, soeREQUIRED),
     (sfOwnerNode, soeREQUIRED),
     (sfDestinationNode, soeREQUIRED),
     (sfExpiration, soeOPTIONAL),
     (sfInvoiceID, soeOPTIONAL),
     (sfSourceTag, soeOPTIONAL),
     (sfDestinationTag, soeOPTIONAL),
     (sfPreviousTxnID, soeREQUIRED),
     (sfPreviousTxnLgrSeq, soeREQUIRED)] @
     lf_commonFields"

definition lf_DepositPreauth :: SOTemplate where
  "lf_DepositPreauth =
    [(sfAccount, soeREQUIRED),
     (sfAuthorize, soeREQUIRED),
     (sfOwnerNode, soeREQUIRED),
     (sfPreviousTxnID, soeREQUIRED),
     (sfPreviousTxnLgrSeq, soeREQUIRED)] @
     lf_commonFields"

definition tf_commonFields :: SOTemplate where
  "tf_commonFields =
    [(sfTransactionType, soeREQUIRED),
     (sfFlags, soeOPTIONAL),
     (sfSourceTag, soeOPTIONAL),
     (sfAccount, soeREQUIRED),
     (sfSequence, soeREQUIRED),
     (sfPreviousTxnID, soeOPTIONAL),
     (sfLastLedgerSequence, soeOPTIONAL),
     (sfAccountTxnID, soeOPTIONAL),
     (sfFee, soeREQUIRED),
     (sfOperationLimit, soeOPTIONAL),
     (sfMemos, soeOPTIONAL),
     (sfSigningPubKey, soeREQUIRED),
     (sfTxnSignature, soeOPTIONAL),
     (sfSigners, soeOPTIONAL)]"

definition tf_AccountSet :: SOTemplate where
  "tf_AccountSet =
    [(sfEmailHash, soeOPTIONAL),
     (sfWalletLocator, soeOPTIONAL),
     (sfWalletSize, soeOPTIONAL),
     (sfMessageKey, soeOPTIONAL),
     (sfDomain, soeOPTIONAL),
     (sfTransferRate, soeOPTIONAL),
     (sfSetFlag, soeOPTIONAL),
     (sfClearFlag, soeOPTIONAL),
     (sfTickSize, soeOPTIONAL)] @
     tf_commonFields"

definition tf_TrustSet :: SOTemplate where
  "tf_TrustSet =
    [(sfLimitAmount, soeOPTIONAL),
     (sfQualityIn, soeOPTIONAL),
     (sfQualityOut, soeOPTIONAL)] @
     tf_commonFields"

definition tf_OfferCreate :: SOTemplate where
  "tf_OfferCreate =
    [(sfTakerPays, soeREQUIRED),
     (sfTakerGets, soeREQUIRED),
     (sfExpiration, soeOPTIONAL),
     (sfOfferSequence, soeOPTIONAL)] @
     tf_commonFields"

definition tf_OfferCancel :: SOTemplate where
  "tf_OfferCancel =
    [(sfOfferSequence, soeREQUIRED)] @
     tf_commonFields"

definition tf_SetRegularKey :: SOTemplate where
  "tf_SetRegularKey =
    [(sfRegularKey, soeOPTIONAL)] @
     tf_commonFields"

definition tf_Payment :: SOTemplate where
  "tf_Payment =
    [(sfDestination, soeREQUIRED),
     (sfAmount, soeREQUIRED),
     (sfSendMax, soeOPTIONAL),
     (sfPaths, soeDEFAULT),
     (sfInvoiceID, soeOPTIONAL),
     (sfDestinationTag, soeOPTIONAL),
     (sfDeliverMin, soeOPTIONAL)] @
     tf_commonFields"

definition tf_EscrowCreate :: SOTemplate where
  "tf_EscrowCreate =
    [(sfDestination, soeREQUIRED),
     (sfAmount, soeREQUIRED),
     (sfCondition, soeOPTIONAL),
     (sfCancelAfter, soeOPTIONAL),
     (sfFinishAfter, soeOPTIONAL),
     (sfDestinationTag, soeOPTIONAL)] @
     tf_commonFields"

definition tf_EscrowFinish :: SOTemplate where
  "tf_EscrowFinish =
    [(sfOwner, soeREQUIRED),
     (sfOfferSequence, soeREQUIRED),
     (sfFulfillment, soeOPTIONAL),
     (sfCondition, soeOPTIONAL)] @
     tf_commonFields"

definition tf_EscrowCancel :: SOTemplate where
  "tf_EscrowCancel =
    [(sfOwner, soeREQUIRED),
     (sfOfferSequence, soeREQUIRED)] @
     tf_commonFields"

definition tf_EnableAmendment :: SOTemplate where
  "tf_EnableAmendment =
    [(sfLedgerSequence, soeREQUIRED),
     (sfAmendment, soeREQUIRED)] @
     tf_commonFields"

definition tf_SetFee :: SOTemplate where
  "tf_SetFee =
    [(sfLedgerSequence, soeOPTIONAL),
     (sfBaseFee, soeREQUIRED),
     (sfReferenceFeeUnits, soeREQUIRED),
     (sfReserveBase, soeREQUIRED),
     (sfReserveIncrement, soeREQUIRED)] @
     tf_commonFields"

definition tf_TicketCreate :: SOTemplate where
  "tf_TicketCreate =
    [(sfTarget, soeOPTIONAL),
     (sfExpiration, soeOPTIONAL)] @
     tf_commonFields"

definition tf_TicketCancel :: SOTemplate where
  "tf_TicketCancel =
    [(sfTicketID, soeREQUIRED)] @
     tf_commonFields"

definition tf_SignerListSet :: SOTemplate where
  "tf_SignerListSet =
    [(sfSignerQuorum, soeREQUIRED),
     (sfSignerEntries, soeOPTIONAL)] @
     tf_commonFields"

definition tf_PaymentChannelCreate :: SOTemplate where
  "tf_PaymentChannelCreate =
    [(sfDestination, soeREQUIRED),
     (sfAmount, soeREQUIRED),
     (sfSettleDelay, soeREQUIRED),
     (sfPublicKey, soeREQUIRED),
     (sfCancelAfter, soeOPTIONAL),
     (sfDestinationTag, soeOPTIONAL)] @
     tf_commonFields"

definition tf_PaymentChannelFund :: SOTemplate where
  "tf_PaymentChannelFund =
    [(sfPayChannel, soeREQUIRED),
     (sfAmount, soeREQUIRED),
     (sfExpiration, soeOPTIONAL)] @
     tf_commonFields"

definition tf_PaymentChannelClaim :: SOTemplate where
  "tf_PaymentChannelClaim =
    [(sfPayChannel, soeREQUIRED),
     (sfAmount, soeOPTIONAL),
     (sfBalance, soeOPTIONAL),
     (sfSignature, soeOPTIONAL),
     (sfPublicKey, soeOPTIONAL)] @
     tf_commonFields"

definition tf_CheckCreate :: SOTemplate where
  "tf_CheckCreate =
    [(sfDestination, soeREQUIRED),
     (sfSendMax, soeREQUIRED),
     (sfExpiration, soeOPTIONAL),
     (sfDestinationTag, soeOPTIONAL),
     (sfInvoiceID, soeOPTIONAL)] @
     tf_commonFields"

definition tf_CheckCash :: SOTemplate where
  "tf_CheckCash =
    [(sfCheckID, soeREQUIRED),
     (sfAmount, soeOPTIONAL),
     (sfDeliverMin, soeOPTIONAL)] @
     tf_commonFields"

definition tf_CheckCancel :: SOTemplate where
  "tf_CheckCancel =
    [(sfCheckID, soeREQUIRED)] @
     tf_commonFields"

definition tf_DepositPreauth :: SOTemplate where
  "tf_DepositPreauth =
    [(sfAuthorize, soeOPTIONAL),
     (sfUnauthorize, soeOPTIONAL)] @
     tf_commonFields"

text \<open>The types of ledger entries and transactions.\<close>

abbreviation (input) ltANY :: int where "ltANY \<equiv> -3"
abbreviation (input) ltCHILD :: int where "ltCHILD \<equiv> -2"
abbreviation (input) ltINVALID :: int where "ltINVALID \<equiv> -1"
abbreviation (input) ltACCOUNT_ROOT :: int where "ltACCOUNT_ROOT \<equiv> 97"
abbreviation (input) ltDIR_NODE :: int where "ltDIR_NODE \<equiv> 100"
abbreviation (input) ltSUPPLYFINANCECHAIN_STATE :: int where "ltSUPPLYFINANCECHAIN_STATE \<equiv> 114"
abbreviation (input) ltTICKET :: int where "ltTICKET \<equiv> 84"
abbreviation (input) ltSIGNER_LIST :: int where "ltSIGNER_LIST \<equiv> 83"
abbreviation (input) ltOFFER :: int where "ltOFFER \<equiv> 111"
abbreviation (input) ltLEDGER_HASHES :: int where "ltLEDGER_HASHES \<equiv> 104"
abbreviation (input) ltAMENDMENTS :: int where "ltAMENDMENTS \<equiv> 102"
abbreviation (input) ltFEE_SETTINGS :: int where "ltFEE_SETTINGS \<equiv> 115"
abbreviation (input) ltESCROW :: int where "ltESCROW \<equiv> 117"
abbreviation (input) ltPAYCHAN :: int where "ltPAYCHAN \<equiv> 120"
abbreviation (input) ltCHECK :: int where "ltCHECK \<equiv> 67"
abbreviation (input) ltDEPOSIT_PREAUTH :: int where "ltDEPOSIT_PREAUTH \<equiv> 112"
abbreviation (input) ltNICKNAME :: int where "ltNICKNAME \<equiv> 110"
abbreviation (input) ttINVALID :: int where "ttINVALID \<equiv> -1"
abbreviation (input) ttPAYMENT :: int where "ttPAYMENT \<equiv> 0"
abbreviation (input) ttESCROW_CREATE :: int where "ttESCROW_CREATE \<equiv> 1"
abbreviation (input) ttESCROW_FINISH :: int where "ttESCROW_FINISH \<equiv> 2"
abbreviation (input) ttACCOUNT_SET :: int where "ttACCOUNT_SET \<equiv> 3"
abbreviation (input) ttESCROW_CANCEL :: int where "ttESCROW_CANCEL \<equiv> 4"
abbreviation (input) ttREGULAR_KEY_SET :: int where "ttREGULAR_KEY_SET \<equiv> 5"
abbreviation (input) ttNICKNAME_SET :: int where "ttNICKNAME_SET \<equiv> 6"
abbreviation (input) ttOFFER_CREATE :: int where "ttOFFER_CREATE \<equiv> 7"
abbreviation (input) ttOFFER_CANCEL :: int where "ttOFFER_CANCEL \<equiv> 8"
abbreviation (input) ttTICKET_CREATE :: int where "ttTICKET_CREATE \<equiv> 10"
abbreviation (input) ttTICKET_CANCEL :: int where "ttTICKET_CANCEL \<equiv> 11"
abbreviation (input) ttSIGNER_LIST_SET :: int where "ttSIGNER_LIST_SET \<equiv> 12"
abbreviation (input) ttPAYCHAN_CREATE :: int where "ttPAYCHAN_CREATE \<equiv> 13"
abbreviation (input) ttPAYCHAN_FUND :: int where "ttPAYCHAN_FUND \<equiv> 14"
abbreviation (input) ttPAYCHAN_CLAIM :: int where "ttPAYCHAN_CLAIM \<equiv> 15"
abbreviation (input) ttCHECK_CREATE :: int where "ttCHECK_CREATE \<equiv> 16"
abbreviation (input) ttCHECK_CASH :: int where "ttCHECK_CASH \<equiv> 17"
abbreviation (input) ttCHECK_CANCEL :: int where "ttCHECK_CANCEL \<equiv> 18"
abbreviation (input) ttDEPOSIT_PREAUTH :: int where "ttDEPOSIT_PREAUTH \<equiv> 19"
abbreviation (input) ttTRUST_SET :: int where "ttTRUST_SET \<equiv> 20"
abbreviation (input) ttAMENDMENT :: int where "ttAMENDMENT \<equiv> 100"
abbreviation (input) ttFEE :: int where "ttFEE \<equiv> 101"

definition LedgerFormats :: "(int \<times> SOTemplate) list" where
  "LedgerFormats =
    [(ltACCOUNT_ROOT, lf_AccountRoot),
     (ltDIR_NODE, lf_DirectoryNode),
     (ltOFFER, lf_Offer),
     (ltSUPPLYFINANCECHAIN_STATE, lf_SupplyFinanceChainState),
     (ltESCROW, lf_Escrow),
     (ltLEDGER_HASHES, lf_LedgerHashes),
     (ltAMENDMENTS, lf_Amendments),
     (ltFEE_SETTINGS, lf_FeeSettings),
     (ltTICKET, lf_Ticket),
     (ltSIGNER_LIST, lf_SignerList),
     (ltPAYCHAN, lf_PayChannel),
     (ltCHECK, lf_Check),
     (ltDEPOSIT_PREAUTH, lf_DepositPreauth)]"

definition TxFormats :: "(int \<times> SOTemplate) list" where
  "TxFormats =
    [(ttACCOUNT_SET, tf_AccountSet),
     (ttTRUST_SET, tf_TrustSet),
     (ttOFFER_CREATE, tf_OfferCreate),
     (ttOFFER_CANCEL, tf_OfferCancel),
     (ttREGULAR_KEY_SET, tf_SetRegularKey),
     (ttPAYMENT, tf_Payment),
     (ttESCROW_CREATE, tf_EscrowCreate),
     (ttESCROW_FINISH, tf_EscrowFinish),
     (ttESCROW_CANCEL, tf_EscrowCancel),
     (ttAMENDMENT, tf_EnableAmendment),
     (ttFEE, tf_SetFee),
     (ttTICKET_CREATE, tf_TicketCreate),
     (ttTICKET_CANCEL, tf_TicketCancel),
     (ttSIGNER_LIST_SET, tf_SignerListSet),
     (ttPAYCHAN_CREATE, tf_PaymentChannelCreate),
     (ttPAYCHAN_FUND, tf_PaymentChannelFund),
     (ttPAYCHAN_CLAIM, tf_PaymentChannelClaim),
     (ttCHECK_CREATE, tf_CheckCreate),
     (ttCHECK_CASH, tf_CheckCash),
     (ttCHECK_CANCEL, tf_CheckCancel),
     (ttDEPOSIT_PREAUTH, tf_DepositPreauth)]"

definition InnerObjectFormats :: "(SField \<times> SOTemplate) list" where
  "InnerObjectFormats =
    [(sfSignerEntry, [(sfAccount, soeREQUIRED), (sfSignerWeight, soeREQUIRED)]),
     (sfSigner, [(sfAccount, soeREQUIRED), (sfSigningPubKey, soeREQUIRED), (sfTxnSignature, soeREQUIRED)])]"

section \<open>Operations\<close>

definition SField_info :: "SField \<Rightarrow> SFieldInfo" where
  "SField_info f =
     (case map_of knownCodeToField f of
        Some i \<Rightarrow> i
      | None \<Rightarrow> \<lparr>sf_type = STI_UNKNOWN, sf_value = 0, sf_name = [], sf_meta = sMD_Never, sf_signing = True\<rparr>)"

definition getField :: "int \<Rightarrow> SField" where
  "getField code = (case map_of knownCodeToField code of Some _ \<Rightarrow> code | None \<Rightarrow> sfInvalid)"

definition SField_compare :: "SField \<Rightarrow> SField \<Rightarrow> int" where
  "SField_compare f1 f2 =
     (if f1 \<le> 0 \<or> f2 \<le> 0 then 0 else if f1 < f2 then -1 else if f2 < f1 then 1 else 0)"

definition getField_name :: "string \<Rightarrow> SField" where
  "getField_name fieldName =
     (case find (\<lambda>(_, i). sf_name i = fieldName) (sort_key fst knownCodeToField) of
        Some (code, _) \<Rightarrow> code
      | None \<Rightarrow> sfInvalid)"

definition isInvalid :: "SField \<Rightarrow> bool" where "isInvalid f = (f = -1)"
definition isUseful :: "SField \<Rightarrow> bool" where "isUseful f = (0 < f)"
definition isBinary :: "SField \<Rightarrow> bool" where "isBinary f = (sf_value (SField_info f) < 256)"
definition isDiscardable :: "SField \<Rightarrow> bool" where "isDiscardable f = (256 < sf_value (SField_info f))"

definition shouldMeta :: "SField \<Rightarrow> int \<Rightarrow> bool" where
  "shouldMeta f c = (sf_meta (SField_info f) AND c \<noteq> 0)"

definition shouldInclude :: "SField \<Rightarrow> bool \<Rightarrow> bool" where
  "shouldInclude f withSigningField =
     (sf_value (SField_info f) < 256 \<and> (withSigningField \<or> sf_signing (SField_info f)))"

text \<open>
  A template is built element by element; the table of indices maps the number of a field, of which
  there is one per field, to its position.
\<close>

fun index_of :: "SField \<Rightarrow> (SField \<times> 'a) list \<Rightarrow> nat option" where
  "index_of f [] = None"
| "index_of f ((g, _) # xs) = (if g = f then Some 0 else map_option Suc (index_of f xs))"

definition SOElement_make :: "SField \<Rightarrow> SOEStyle \<Rightarrow> (SField \<times> SOEStyle) res" where
  "SOElement_make f style =
     (if \<not> isUseful f then Inl (RuntimeError ''SField in SOElement must be useful.'') else Inr (f, style))"

definition SOTemplate_add :: "SField \<times> SOEStyle \<Rightarrow> SOTemplate \<Rightarrow> SOTemplate res" where
  "SOTemplate_add = (\<lambda>(f, style) t.
     bindE (SOElement_make f style) (\<lambda>e.
       if map_of knownCodeToField f = None then Inl (RuntimeError ''Invalid field index for SOTemplate.'')
       else if index_of f t \<noteq> None then Inl (RuntimeError ''Duplicate field index for SOTemplate.'')
       else Inr (t @ [e])))"

definition SOTemplate_make :: "SOTemplate \<Rightarrow> SOTemplate res" where
  "SOTemplate_make elements = forE SOTemplate_add elements []"

definition SOTemplate_getIndex :: "SOTemplate \<Rightarrow> SField \<Rightarrow> nat option" where
  "SOTemplate_getIndex t f = index_of f t"

definition findByType :: "('k \<times> SOTemplate) list \<Rightarrow> 'k \<Rightarrow> SOTemplate option" where
  "findByType formats ty = map_of formats ty"

section \<open>Lemmas\<close>

lemmas fields_defs = fields_special_def fields_uint8_def fields_uint16_def fields_uint32_def fields_uint64_def
  fields_hash_def fields_amount_def fields_vl_def fields_account_def fields_vector_def fields_object_def fields_array_def

lemma field_code_sum: "0 \<le> v \<Longrightarrow> v < 65536 \<Longrightarrow> field_code t v = t * 65536 + v"
proof -
  assume "0 \<le> v" "v < 65536"
  then have "take_bit 16 v = v" by (simp add: take_bit_int_eq_self_iff)
  then have "bit v n \<Longrightarrow> n < 16" for n by (metis bit_take_bit_iff)
  then have "push_bit 16 t OR v = push_bit 16 t + v"
    by (intro disjunctive_add[symmetric]) (auto simp: bit_push_bit_iff not_le)
  then show ?thesis by (simp add: field_code_def push_bit_eq_mult)
qed

lemmas known_eval = knownCodeToField_def[unfolded fields_defs SField_make_def, simplified field_code_sum, simplified]

lemma known_distinct: "distinct (map fst knownCodeToField)"
  by (simp add: known_eval)

lemma known_codes:
  "list_all (\<lambda>(c, i). 0 < c \<longrightarrow> sf_value i < 256 \<longrightarrow>
     c = sf_type i * 65536 + sf_value i \<and> 0 < sf_type i \<and> sf_type i < 256 \<and> 0 < sf_value i) knownCodeToField"
  by (simp add: known_eval)

lemma known_info: "(c, i) \<in> set knownCodeToField \<Longrightarrow> map_of knownCodeToField c = Some i \<and> SField_info c = i"
  by (simp add: SField_info_def map_of_is_SomeI[OF known_distinct])

lemma known_markers:
  "list_all (\<lambda>(c, i). c \<noteq> field_code STI_OBJECT 1 \<and> c \<noteq> field_code STI_ARRAY 1) knownCodeToField"
  by (simp add: known_eval field_code_sum)

lemma known_field:
  assumes "(c, i) \<in> set knownCodeToField" and "isUseful c" and "isBinary c"
  shows "getField (field_code (sf_type i) (sf_value i)) = c \<and>
    1 \<le> sf_type i \<and> sf_type i \<le> 255 \<and> 1 \<le> sf_value i \<and> sf_value i \<le> 255 \<and>
    c \<noteq> field_code STI_OBJECT 1 \<and> c \<noteq> field_code STI_ARRAY 1"
proof -
  have "0 < c" "sf_value i < 256" using assms known_info[OF assms(1)] by (simp_all add: isUseful_def isBinary_def)
  then have c: "c = sf_type i * 65536 + sf_value i" "0 < sf_type i" "sf_type i < 256" "0 < sf_value i"
    using known_codes assms(1) by (auto simp: list_all_iff)
  then have "field_code (sf_type i) (sf_value i) = c" using \<open>sf_value i < 256\<close> by (simp add: field_code_sum)
  moreover have "c \<noteq> field_code STI_OBJECT 1 \<and> c \<noteq> field_code STI_ARRAY 1"
    using known_markers assms(1) by (auto simp: list_all_iff)
  ultimately show ?thesis using c \<open>sf_value i < 256\<close> known_info[OF assms(1)] by (simp add: getField_def)
qed

text \<open>
  A known field that can be serialized is found again by the type and value that its header on the
  wire carries; these are both between 1 and 255, and they are never the end markers of objects
  and arrays.
\<close>

theorem fields_registered:
  assumes "(c, i) \<in> set knownCodeToField" and "isUseful c" and "isBinary c"
  shows "getField (field_code (sf_type i) (sf_value i)) = c \<and>
    1 \<le> sf_type i \<and> sf_type i \<le> 255 \<and> 1 \<le> sf_value i \<and> sf_value i \<le> 255 \<and>
    c \<noteq> field_code STI_OBJECT 1 \<and> c \<noteq> field_code STI_ARRAY 1"
  using assms by (rule known_field)

lemma index_of_None: "index_of f t = None \<longleftrightarrow> f \<notin> fst ` set t"
  by (induction f t rule: index_of.induct) auto

lemma SOTemplate_run:
  assumes "list_all (\<lambda>(f, _). 0 < f \<and> f \<in> set (map fst knownCodeToField)) t" and "distinct (map fst (t0 @ t))"
  shows "forE SOTemplate_add t t0 = Inr (t0 @ t)"
  using assms
proof (induction t arbitrary: t0)
  case (Cons e t)
  obtain f style where e: "e = (f, style)" by fastforce
  have "SOTemplate_add e t0 = Inr (t0 @ [e])"
    using Cons.prems by (auto simp: SOTemplate_add_def SOElement_make_def e isUseful_def index_of_None map_of_eq_None_iff)
  then show ?case using Cons.prems Cons.IH[of "t0 @ [e]"] by simp
qed simp

definition template_ok :: "SOTemplate \<Rightarrow> bool" where
  "template_ok t \<longleftrightarrow> list_all (\<lambda>(f, _). 0 < f \<and> f \<in> set (map fst knownCodeToField)) t \<and> distinct (map fst t)"

lemma template_ok_make: "template_ok t \<Longrightarrow> SOTemplate_make t = Inr t"
  using SOTemplate_run[of t "[]"] by (simp add: template_ok_def SOTemplate_make_def)

lemmas known_keys = known_eval[THEN arg_cong[where f = "\<lambda>l. set (map fst l)"], simplified]

lemmas lf_defs = lf_AccountRoot_def lf_DirectoryNode_def lf_Offer_def lf_SupplyFinanceChainState_def lf_Escrow_def
  lf_LedgerHashes_def lf_Amendments_def lf_FeeSettings_def lf_Ticket_def lf_SignerList_def lf_PayChannel_def
  lf_Check_def lf_DepositPreauth_def lf_commonFields_def

lemma ledger_formats_ok: "list_all (\<lambda>(_, t). template_ok t) LedgerFormats"
  by (simp add: LedgerFormats_def lf_defs template_ok_def known_keys)

lemmas tf_defs = tf_AccountSet_def tf_TrustSet_def tf_OfferCreate_def tf_OfferCancel_def tf_SetRegularKey_def tf_Payment_def tf_EscrowCreate_def tf_EscrowFinish_def tf_EscrowCancel_def tf_EnableAmendment_def tf_SetFee_def tf_TicketCreate_def tf_TicketCancel_def tf_SignerListSet_def tf_PaymentChannelCreate_def tf_PaymentChannelFund_def tf_PaymentChannelClaim_def tf_CheckCreate_def tf_CheckCash_def tf_CheckCancel_def tf_DepositPreauth_def tf_commonFields_def

lemma tx_formats_ok: "list_all (\<lambda>(_, t). template_ok t) TxFormats"
  by (simp add: TxFormats_def tf_defs template_ok_def known_keys)

lemma inner_formats_ok: "list_all (\<lambda>(_, t). template_ok t) InnerObjectFormats"
  by (simp add: InnerObjectFormats_def template_ok_def known_keys)

lemma known_binary:
  "list_all (\<lambda>(c, i). 0 < c \<longrightarrow> c mod 65536 < 256 \<longrightarrow> sf_value i < 256) knownCodeToField"
  by (simp add: known_eval)

lemma known_code:
  assumes "f \<in> fst ` set knownCodeToField" and "0 < f" and "f mod 65536 < 256"
  shows "sf_type (SField_info f) = f div 65536" and "isUseful f" and "isBinary f" and "shouldInclude f True"
proof -
  obtain i where i: "(f, i) \<in> set knownCodeToField" using assms(1) by auto
  then have v: "sf_value i < 256" using known_binary assms(2,3) by (auto simp: list_all_iff)
  then have "f = sf_type i * 65536 + sf_value i" "0 < sf_value i" using known_codes i assms(2) by (auto simp: list_all_iff)
  then show "sf_type (SField_info f) = f div 65536" using known_info[OF i] v by simp
  show "isUseful f" "isBinary f" "shouldInclude f True"
    using known_info[OF i] v assms(2) by (simp_all add: isUseful_def isBinary_def shouldInclude_def)
qed

lemma ledger_formats_binary: "list_all (\<lambda>(_, t). list_all (\<lambda>(f, _). f mod 65536 < 256) t) LedgerFormats"
  by (simp add: LedgerFormats_def lf_defs)

lemma ledger_format:
  assumes "findByType LedgerFormats ty = Some t"
  shows "template_ok t" and "distinct (map fst t)" and "\<forall>(f, _) \<in> set t. shouldInclude f True"
proof -
  have t: "(ty, t) \<in> set LedgerFormats" using assms by (auto simp: findByType_def dest: map_of_SomeD)
  then show ok: "template_ok t" using ledger_formats_ok by (auto simp: list_all_iff)
  then show "distinct (map fst t)" by (simp add: template_ok_def)
  show "\<forall>(f, _) \<in> set t. shouldInclude f True"
    using known_code(4) ok ledger_formats_binary t by (fastforce simp: list_all_iff template_ok_def)
qed

text \<open>
  Every ledger entry format, transaction format and inner object format is accepted by the template
  constructor, that is, all its fields are known and useful and none occurs twice; and no type is
  registered twice.
\<close>

theorem formats_construct:
  "list_all (\<lambda>(_, t). SOTemplate_make t = Inr t) (LedgerFormats @ TxFormats @ InnerObjectFormats) \<and>
   distinct (map fst LedgerFormats) \<and> distinct (map fst TxFormats) \<and> distinct (map fst InnerObjectFormats)"
proof -
  have "list_all (\<lambda>(_, t). SOTemplate_make t = Inr t) (LedgerFormats @ TxFormats @ InnerObjectFormats)"
    using ledger_formats_ok tx_formats_ok inner_formats_ok template_ok_make by (auto simp: list_all_iff)
  then show ?thesis by (simp add: LedgerFormats_def TxFormats_def InnerObjectFormats_def)
qed

theorem fields_registered_witness: "getField (field_code STI_ACCOUNT 1) = sfAccount"
  using fields_registered[of sfAccount "\<lparr>sf_type = STI_ACCOUNT, sf_value = 1, sf_name = ''Account'',
      sf_meta = 15, sf_signing = True\<rparr>"] known_info[of sfAccount "\<lparr>sf_type = STI_ACCOUNT, sf_value = 1, sf_name = ''Account'',
      sf_meta = 15, sf_signing = True\<rparr>"]
  by (simp add: known_eval isUseful_def isBinary_def sMD_Default_def sMD_ChangeOrig_def sMD_ChangeNew_def
      sMD_DeleteFinal_def sMD_Create_def)

end
