(* ===== verification/IOU.thy ===== *)
theory IOU
  imports Prelude Complex_Main
begin

text \<open>
  Issued-currency amounts: \<^verbatim>\<open>protocol/IOUAmount.h\<close> and \<^verbatim>\<open>protocol/impl/IOUAmount.cpp\<close>.  An
  amount is a signed mantissa and a decimal exponent, kept normalized.  The lemmas give every
  operation a meaning on the real number \<open>mantissa * 10 ^ exponent\<close>: normalization truncates
  towards zero by less than one unit in the last place and throws exactly from \<open>10 ^ 96\<close> on,
  the order is the order of the values, and sums are commutative and accurate.

  The mantissa is a 64-bit signed integer, an \<open>int\<close> here.  Negating the least one is the only operation that can
  overflow, and it is \<open>SignedOverflow\<close> in the model; on normalized amounts the intermediate results are shown to stay
  far below \<open>2 ^ 63\<close>.  The lemmas compare the operations with \<open>exact_make\<close>, the same normalization on unbounded integers.
\<close>

section \<open>The type and its constants\<close>

record IOUAmount =
  mantissa :: int
  exponent :: int

definition minMantissa :: int where "minMantissa = 1000000000000000"
definition maxMantissa :: int where "maxMantissa = 9999999999999999"
definition minExponent :: int where "minExponent = -96"
definition maxExponent :: int where "maxExponent = 80"

definition IOU_zero :: IOUAmount where
  "IOU_zero = \<lparr>mantissa = 0, exponent = -100\<rparr>"

section \<open>Normalization\<close>

function IOU_scaleUp :: "int \<Rightarrow> int \<Rightarrow> int \<times> int" where
  "IOU_scaleUp m e =
     (if m < minMantissa \<and> e > minExponent then IOU_scaleUp (m * 10) (e - 1) else (m, e))"
  by pat_completeness auto
termination
  by (relation "measure (\<lambda>(m, e). nat (e - minExponent))") auto

function IOU_scaleDown :: "int \<Rightarrow> int \<Rightarrow> (int \<times> int) res" where
  "IOU_scaleDown m e =
     (if m > maxMantissa then
        if e \<ge> maxExponent then Inl (OverflowError ''IOUAmount::normalize'')
        else IOU_scaleDown (m div 10) (e + 1)
      else Inr (m, e))"
  by pat_completeness auto
termination
  by (relation "measure (\<lambda>(m, e). nat m)") (auto simp: maxMantissa_def)

declare IOU_scaleUp.simps [simp del] IOU_scaleDown.simps [simp del]

definition IOU_normalize :: "IOUAmount \<Rightarrow> IOUAmount res" where
  "IOU_normalize a =
     (if mantissa a = 0 then Inr IOU_zero
      else
        let negative = mantissa a < 0
        in bindE (if negative then neg64 (mantissa a) else Inr (mantissa a)) (\<lambda>m.
           let (m, e) = IOU_scaleUp m (exponent a)
           in bindE (IOU_scaleDown m e) (\<lambda>(m, e).
              if e < minExponent \<or> m < minMantissa then Inr IOU_zero
              else if e > maxExponent then Inl (OverflowError ''value overflow'')
              else Inr \<lparr>mantissa = (if negative then - m else m), exponent = e\<rparr>)))"

definition IOU_make :: "int \<Rightarrow> int \<Rightarrow> IOUAmount res" where
  "IOU_make m e = IOU_normalize \<lparr>mantissa = m, exponent = e\<rparr>"

section \<open>Arithmetic and order\<close>

function IOU_align :: "int \<Rightarrow> int \<Rightarrow> int \<Rightarrow> int" where
  "IOU_align m e e' = (if e < e' then IOU_align (m sdiv 10) (e + 1) e' else m)"
  by pat_completeness auto
termination
  by (relation "measure (\<lambda>(m, e, e'). nat (e' - e))") auto

declare IOU_align.simps [simp del]

text \<open>
  The first loop of \<open>operator+=\<close> raises the exponent of \<open>*this\<close> to that of \<open>other\<close>, the second
  one that of \<open>other\<close> to the (possibly raised) exponent of \<open>*this\<close>.
\<close>

definition IOU_add :: "IOUAmount \<Rightarrow> IOUAmount \<Rightarrow> IOUAmount res" where
  "IOU_add a other =
     (if other = IOU_zero then Inr a
      else if a = IOU_zero then Inr other
      else
        let m1 = IOU_align (mantissa a) (exponent a) (exponent other);
            e1 = max (exponent a) (exponent other);
            m2 = IOU_align (mantissa other) (exponent other) e1;
            s = m1 + m2
        in if s \<ge> -10 \<and> s \<le> 10 then Inr IOU_zero else IOU_make s e1)"

definition IOU_neg :: "IOUAmount \<Rightarrow> IOUAmount res" where
  "IOU_neg a = bindE (neg64 (mantissa a)) (\<lambda>m. IOU_make m (exponent a))"

definition IOU_sub :: "IOUAmount \<Rightarrow> IOUAmount \<Rightarrow> IOUAmount res" where
  "IOU_sub a other = bindE (IOU_neg other) (\<lambda>n. IOU_add a n)"

definition IOU_less :: "IOUAmount \<Rightarrow> IOUAmount \<Rightarrow> bool" where
  "IOU_less a other =
     (let lneg = mantissa a < 0; rneg = mantissa other < 0 in
      if lneg \<noteq> rneg then lneg
      else if mantissa a = 0 then mantissa other > 0
      else if mantissa other = 0 then False
      else if exponent a > exponent other then lneg
      else if exponent a < exponent other then \<not> lneg
      else mantissa a < mantissa other)"

definition IOU_signum :: "IOUAmount \<Rightarrow> int" where
  "IOU_signum a = (if mantissa a < 0 then -1 else if mantissa a \<noteq> 0 then 1 else 0)"

section \<open>Multiplication by a ratio\<close>

text \<open>
  \<open>uint128_t\<close> intermediates are natural numbers: the products stay below \<open>2 ^ 128\<close>.  The search
  by \<open>std::lower_bound\<close> in the sorted table is the number of entries below the value.
\<close>

definition powerTable :: "nat list" where
  "powerTable = map (\<lambda>i. 10 ^ i) [0..<30]"

definition lower_bound_index :: "nat \<Rightarrow> nat" where
  "lower_bound_index v = length (takeWhile (\<lambda>p. p < v) powerTable)"

definition log10Floor :: "nat \<Rightarrow> int" where
  "log10Floor v =
     (let index = lower_bound_index v
      in if powerTable ! index \<noteq> v then int index - 1 else int index)"

definition log10Ceil :: "nat \<Rightarrow> int" where
  "log10Ceil v = int (lower_bound_index v)"

definition fl64 :: int where
  "fl64 = log10Floor (2 ^ 63 - 1)"

text \<open>
  The body of \<open>mulRatio\<close> in its three stages: the division with the remainder scaled up, the
  shrinking to eighteen digits, and the rounding of the normalized result.
\<close>

definition mulRatio_divide :: "nat \<Rightarrow> nat \<Rightarrow> int \<Rightarrow> nat \<times> nat \<times> int" where
  "mulRatio_divide mul den128 expo =
     (let low = mul div den128;
          rem = mul - low * den128
      in if rem \<noteq> 0 then
           let roomToGrow = fl64 - log10Ceil low;
               (expo, low, rem) =
                 (if roomToGrow > 0
                  then (expo - roomToGrow, low * powerTable ! nat roomToGrow, rem * powerTable ! nat roomToGrow)
                  else (expo, low, rem));
               addRem = rem div den128
           in (low + addRem, rem - addRem * den128, expo)
         else (low, rem, expo))"

definition mulRatio_shrink :: "nat \<Rightarrow> nat \<Rightarrow> int \<Rightarrow> nat \<times> int \<times> bool" where
  "mulRatio_shrink low rem expo =
     (let hasRem = (rem \<noteq> 0);
          mustShrink = log10Ceil low - fl64
      in if mustShrink > 0 then
           let sav = low;
               low = low div powerTable ! nat mustShrink
           in (low, expo + mustShrink,
               if \<not> hasRem then sav - low * powerTable ! nat mustShrink \<noteq> 0 else hasRem)
         else (low, expo, hasRem))"

definition mulRatio_round :: "bool \<Rightarrow> bool \<Rightarrow> bool \<Rightarrow> IOUAmount \<Rightarrow> IOUAmount res" where
  "mulRatio_round hasRem roundUp neg result =
     (if hasRem \<and> roundUp \<and> \<not> neg then
        if mantissa result = 0 then IOU_make minMantissa minExponent
        else IOU_make (mantissa result + 1) (exponent result)
      else if hasRem \<and> \<not> roundUp \<and> neg then
        if mantissa result = 0 then IOU_make (- minMantissa) minExponent
        else IOU_make (mantissa result - 1) (exponent result)
      else Inr result)"

definition IOU_mulRatio :: "IOUAmount \<Rightarrow> u32 \<Rightarrow> u32 \<Rightarrow> bool \<Rightarrow> IOUAmount res" where
  "IOU_mulRatio amt num den roundUp =
     (if den = 0 then Inl (RuntimeError ''division by zero'')
      else
        let neg = mantissa amt < 0
        in bindE (if neg then neg64 (mantissa amt) else Inr (mantissa amt)) (\<lambda>m.
           let mul = nat m * unat num;
               (low, rem, expo) = mulRatio_divide mul (unat den) (exponent amt);
               (low, expo, hasRem) = mulRatio_shrink low rem expo;
               m = (if neg then - int low else int low)
           in bindE (IOU_make m expo) (mulRatio_round hasRem roundUp neg)))"

section \<open>Specification\<close>

text \<open>The number an amount stands for, and the normal form.\<close>

definition IOU_val :: "IOUAmount \<Rightarrow> real" where
  "IOU_val a = of_int (mantissa a) * 10 powi exponent a"

definition IOU_wf :: "IOUAmount \<Rightarrow> bool" where
  "IOU_wf a \<longleftrightarrow> a = IOU_zero \<or>
     minMantissa \<le> \<bar>mantissa a\<bar> \<and> \<bar>mantissa a\<bar> \<le> maxMantissa \<and>
     minExponent \<le> exponent a \<and> exponent a \<le> maxExponent"

text \<open>
  The sum of the aligned mantissas in \<open>operator+=\<close>: at most one of the two is truncated, by less than one unit of
  the larger exponent, and the sum fits in 64 bits.
\<close>

definition IOU_aligned_sum :: "IOUAmount \<Rightarrow> IOUAmount \<Rightarrow> int" where
  "IOU_aligned_sum a b =
     IOU_align (mantissa a) (exponent a) (exponent b) +
     IOU_align (mantissa b) (exponent b) (max (exponent a) (exponent b))"

text \<open>
  What a result promises about the exact value \<open>y\<close>: a sum computed at exponent \<open>e\<close> is off by less
  than eleven units of \<open>e\<close> unless it underflows, and throws only next to the largest amount; a
  product by a ratio is off by at most one unit in its own last place.
\<close>

definition IOU_sum_ok :: "real \<Rightarrow> int \<Rightarrow> IOUAmount res \<Rightarrow> bool" where
  "IOU_sum_ok y e res = (case res of
     Inl _ \<Rightarrow> 10 powi 96 - 10 powi e < \<bar>y\<bar>
   | Inr r \<Rightarrow> IOU_wf r \<and>
       \<bar>y - IOU_val r\<bar> < (if r = IOU_zero then max (2 * 10 powi (-81)) (11 * 10 powi e) else 11 * 10 powi e))"

definition mulRatio_ok :: "real \<Rightarrow> IOUAmount res \<Rightarrow> bool" where
  "mulRatio_ok y res = (case res of
     Inl _ \<Rightarrow> 10 powi 96 - 10 powi 80 \<le> \<bar>y\<bar>
   | Inr r \<Rightarrow> IOU_wf r \<and>
       \<bar>y - IOU_val r\<bar> \<le> (if \<bar>y\<bar> < 10 powi (-81) then 10 powi (-81) else 10 powi exponent r))"

section \<open>Powers of ten and the two loops of \<open>normalize\<close>\<close>

lemmas IOU_consts = minMantissa_def maxMantissa_def minExponent_def maxExponent_def

lemma IOU_val_zero [simp]: "IOU_val IOU_zero = 0"
  by (simp add: IOU_val_def IOU_zero_def)

lemma powi10_pos [simp]: "0 < (10::real) powi e"
  by (simp add: zero_less_power_int)

lemma powi10_nonneg [simp]: "0 \<le> (10::real) powi e"
  by (simp add: zero_le_power_int)

lemma powi10_not_neg [simp]: "\<not> (10::real) powi e < 0"
  using powi10_nonneg[of e] by linarith

lemma powi10_mono: "a \<le> b \<Longrightarrow> (10::real) powi a \<le> 10 powi b"
  by (rule power_int_increasing) auto

lemma powi10_strict: "(10::real) powi a < 10 powi b \<longleftrightarrow> a < b"
  using power_int_strict_increasing[of a b "10::real"] powi10_mono[of b a] by fastforce

lemma powi10_add: "(10::real) powi (a + b) = 10 powi a * 10 powi b"
  by (simp add: power_int_add)

lemma powi10_split: "a \<le> b \<Longrightarrow> (10::real) powi b = 10 ^ nat (b - a) * 10 powi a"
  using powi10_add[of "b - a" a] by (simp add: power_int_def)

lemma scaleUp_spec:
  assumes "IOU_scaleUp m e = (m', e')" and "0 < m"
  shows "e' \<le> e \<and> m' = m * 10 ^ nat (e - e') \<and> (minMantissa \<le> m' \<or> e' \<le> minExponent) \<and>
    (e' < e \<longrightarrow> m' < 10 * minMantissa)"
  using assms
proof (induction m e rule: IOU_scaleUp.induct)
  case (1 m e)
  show ?case
  proof (cases "m < minMantissa \<and> e > minExponent")
    case True
    then have "IOU_scaleUp (m * 10) (e - 1) = (m', e')"
      using "1.prems"(1) by (simp add: IOU_scaleUp.simps[of m e])
    from "1.IH"[OF True this] "1.prems"(2)
    have ih: "e' \<le> e - 1" "m' = m * 10 * 10 ^ nat (e - 1 - e')" "minMantissa \<le> m' \<or> e' \<le> minExponent"
      "e' < e - 1 \<longrightarrow> m' < 10 * minMantissa" by auto
    from ih(1) have n: "nat (e - e') = Suc (nat (e - 1 - e'))" by (simp add: nat_diff_distrib')
    have "m' < 10 * minMantissa"
    proof (cases "e' = e - 1")
      case eq: True
      with ih(2) True show ?thesis by simp
    qed (use ih in simp)
    with ih n show ?thesis by (metis mult.assoc power_Suc zle_diff1_eq less_imp_le)
  next
    case False
    then show ?thesis using "1.prems" by (auto simp: IOU_scaleUp.simps[of m e])
  qed
qed

lemma scaleDown_spec:
  assumes "IOU_scaleDown m e = Inr (m', e')" and "0 \<le> m"
  shows "e \<le> e' \<and> m' = m div 10 ^ nat (e' - e) \<and> m' \<le> maxMantissa \<and>
    (e < e' \<longrightarrow> minMantissa \<le> m' \<and> e' \<le> maxExponent)"
  using assms
proof (induction m e rule: IOU_scaleDown.induct)
  case (1 m e)
  show ?case
  proof (cases "m > maxMantissa")
    case True
    then have lt: "\<not> e \<ge> maxExponent" and rec: "IOU_scaleDown (m div 10) (e + 1) = Inr (m', e')"
      using "1.prems"(1) by (auto simp: IOU_scaleDown.simps[of m e] split: if_splits)
    from "1.IH"[OF True lt rec] "1.prems"(2)
    have ih: "e + 1 \<le> e'" "m' = m div 10 div 10 ^ nat (e' - (e + 1))" "m' \<le> maxMantissa"
      "e + 1 < e' \<longrightarrow> minMantissa \<le> m' \<and> e' \<le> maxExponent"
      by (auto simp: pos_imp_zdiv_nonneg_iff)
    from ih(1) have n: "nat (e' - e) = Suc (nat (e' - (e + 1)))" by simp
    have "minMantissa \<le> m' \<and> e' \<le> maxExponent"
    proof (cases "e' = e + 1")
      case eq: True
      with ih(2) True lt show ?thesis by (simp add: IOU_consts)
    qed (use ih in simp)
    with ih(1,3) show ?thesis
      unfolding n ih(2) power_Suc by (simp add: zdiv_zmult2_eq)
  next
    case False
    then show ?thesis using "1.prems" by (auto simp: IOU_scaleDown.simps[of m e])
  qed
qed

lemma scaleDown_throws:
  assumes "IOU_scaleDown m e = Inl x"
  shows "(maxMantissa + 1) * 10 ^ nat (maxExponent - e) \<le> m"
  using assms
proof (induction m e rule: IOU_scaleDown.induct)
  case (1 m e)
  then have True: "m > maxMantissa" by (auto simp: IOU_scaleDown.simps[of m e] split: if_splits)
  show ?case
  proof (cases "e \<ge> maxExponent")
    case False
    with True "1.prems" have "IOU_scaleDown (m div 10) (e + 1) = Inl x"
      by (simp add: IOU_scaleDown.simps[of m e])
    with "1.IH"[OF True False] have "(maxMantissa + 1) * 10 ^ nat (maxExponent - (e + 1)) \<le> m div 10" by simp
    moreover have "nat (maxExponent - e) = Suc (nat (maxExponent - (e + 1)))" using False by simp
    ultimately show ?thesis by (simp add: mult.assoc)
  next
    case 2: True
    then show ?thesis using True by simp
  qed
qed

lemma scale_up_value:
  assumes "IOU_scaleUp m e = (m', e')" and "0 < m"
  shows "real_of_int m' * 10 powi e' = of_int m * 10 powi e"
  using scaleUp_spec[OF assms] powi10_split[of e' e] by simp

lemma scale_down_value:
  assumes "IOU_scaleDown m e = Inr (m', e')" and "0 \<le> m"
  shows "real_of_int m' * 10 powi e' \<le> of_int m * 10 powi e" (is ?A)
    and "of_int m * 10 powi e < real_of_int (m' + 1) * 10 powi e'" (is ?B)
proof -
  define k where "k = (10::int) ^ nat (e' - e)"
  have k: "0 < k" "m' = m div k" and p: "(10::real) powi e' = of_int k * 10 powi e"
    using scaleDown_spec[OF assms] powi10_split[of e e'] by (auto simp: k_def)
  have "m' * k \<le> m" "m < (m' + 1) * k"
    using div_mult_mod_eq[of m k] pos_mod_bound[OF k(1), of m] pos_mod_sign[OF k(1), of m]
    unfolding k(2) distrib_right by linarith+
  then have r: "real_of_int (m' * k) \<le> of_int m" "of_int m < real_of_int ((m' + 1) * k)"
    by (simp_all only: of_int_le_iff of_int_less_iff)
  then show ?A ?B
    using mult_right_mono[OF r(1) powi10_nonneg[of e]] mult_strict_right_mono[OF r(2) powi10_pos[of e]]
    by (simp_all add: p mult.assoc)
qed

text \<open>Both loops of \<open>normalize\<close> together, on a positive mantissa.\<close>

lemma scale_ok:
  assumes "IOU_scaleUp m e = (m1, e1)" "IOU_scaleDown m1 e1 = Inr (m2, e2)" "0 < m"
  shows "real_of_int m2 * 10 powi e2 \<le> of_int m * 10 powi e"
    and "of_int m * 10 powi e < real_of_int (m2 + 1) * 10 powi e2"
    and "0 \<le> m2" and "m2 \<le> maxMantissa"
    and "m2 < minMantissa \<Longrightarrow> e2 \<le> minExponent \<and> real_of_int m2 * 10 powi e2 = of_int m * 10 powi e"
proof -
  note up = scaleUp_spec[OF assms(1,3)]
  have "0 \<le> m1" using up assms(3) by simp
  note down = scaleDown_spec[OF assms(2) this] and v = scale_down_value[OF assms(2) this]
  show "real_of_int m2 * 10 powi e2 \<le> of_int m * 10 powi e"
    "of_int m * 10 powi e < real_of_int (m2 + 1) * 10 powi e2"
    using v scale_up_value[OF assms(1,3)] by simp_all
  show "0 \<le> m2" "m2 \<le> maxMantissa" using down \<open>0 \<le> m1\<close> by (simp_all add: pos_imp_zdiv_nonneg_iff)
  assume lt: "m2 < minMantissa"
  with down have "e2 = e1" "m2 = m1" by (auto simp: order_le_less)
  then show "e2 \<le> minExponent \<and> real_of_int m2 * 10 powi e2 = of_int m * 10 powi e"
    using lt up scale_up_value[OF assms(1,3)] by auto
qed

lemma scale_throws:
  assumes "IOU_scaleUp m e = (m1, e1)" "IOU_scaleDown m1 e1 = Inl x" "0 < m"
  shows "10 powi 96 \<le> real_of_int m * 10 powi e"
proof -
  have m1: "(maxMantissa + 1) * 10 ^ nat (maxExponent - e1) \<le> m1" by (rule scaleDown_throws[OF assms(2)])
  have "(10::real) powi 96 \<le> 10 ^ 16 * 10 ^ nat (maxExponent - e1) * 10 powi e1"
  proof (cases "e1 \<le> maxExponent")
    case True
    then show ?thesis using powi10_split[of e1 maxExponent] by (simp add: maxExponent_def mult.assoc)
  next
    case False
    then show ?thesis using powi10_mono[of maxExponent e1] by (simp add: maxExponent_def)
  qed
  also have "\<dots> = of_int ((maxMantissa + 1) * 10 ^ nat (maxExponent - e1)) * 10 powi e1"
    by (simp add: maxMantissa_def)
  also have "\<dots> \<le> of_int m1 * 10 powi e1"
    using m1 by (intro mult_right_mono) (simp_all only: of_int_le_iff powi10_nonneg)
  finally show ?thesis using scale_up_value[OF assms(1,3)] by simp
qed


text \<open>Normalization on unbounded integers, and where the source agrees with it.\<close>

definition exact_normalize :: "IOUAmount \<Rightarrow> IOUAmount res" where
  "exact_normalize a =
     (if mantissa a = 0 then Inr IOU_zero
      else
        let (m, e) = IOU_scaleUp \<bar>mantissa a\<bar> (exponent a)
        in bindE (IOU_scaleDown m e) (\<lambda>(m, e).
           if e < minExponent \<or> m < minMantissa then Inr IOU_zero
           else if e > maxExponent then Inl (OverflowError ''value overflow'')
           else Inr \<lparr>mantissa = (if mantissa a < 0 then - m else m), exponent = e\<rparr>))"

definition exact_make :: "int \<Rightarrow> int \<Rightarrow> IOUAmount res" where
  "exact_make m e = exact_normalize \<lparr>mantissa = m, exponent = e\<rparr>"

lemma normalize_exact: "mantissa a \<noteq> int64_min \<Longrightarrow> IOU_normalize a = exact_normalize a"
  by (auto simp: IOU_normalize_def exact_normalize_def Let_def)

lemma normalize_min: "mantissa a = int64_min \<Longrightarrow> IOU_normalize a = Inl SignedOverflow"
  by (simp add: IOU_normalize_def neg64_def int64_min_def[THEN arg_cong, of "\<lambda>x. x < 0"] int64_min_def[THEN arg_cong, of "\<lambda>x. x = 0"])

lemma make_exact: "m \<noteq> int64_min \<Longrightarrow> IOU_make m e = exact_make m e"
  by (simp add: IOU_make_def exact_make_def normalize_exact)

text \<open>The loops stay within 64 bits.\<close>

lemma IOU_scaleUp_range: "IOU_scaleUp m e = (m', e') \<Longrightarrow> 0 \<le> m \<Longrightarrow> 0 \<le> m' \<and> m' \<le> max m (10 * minMantissa)"
proof (induction m e rule: IOU_scaleUp.induct)
  case (1 m e)
  show ?case
  proof (cases "m < minMantissa \<and> e > minExponent")
    case True
    then have "0 \<le> m' \<and> m' \<le> max (m * 10) (10 * minMantissa)" using "1.IH"[OF True] "1.prems" by (simp add: IOU_scaleUp.simps[of m])
    then show ?thesis using True by (simp add: max_def split: if_splits)
  next
    case False
    then have "IOU_scaleUp m e = (m, e)" by (subst IOU_scaleUp.simps) auto
    then show ?thesis using "1.prems" by simp
  qed
qed

lemma make_unfold:
  assumes "m \<noteq> 0" "IOU_scaleUp \<bar>m\<bar> e = (m1, e1)"
  shows "exact_make m e = bindE (IOU_scaleDown m1 e1) (\<lambda>(m', e').
     if e' < minExponent \<or> m' < minMantissa then Inr IOU_zero
     else if e' > maxExponent then Inl (OverflowError ''value overflow'')
     else Inr \<lparr>mantissa = (if m < 0 then - m' else m'), exponent = e'\<rparr>)"
  using assms unfolding exact_make_def exact_normalize_def IOUAmount.simps Let_def by simp

lemma normalize_cases:
  assumes "mantissa a \<noteq> 0"
  obtains (throws) x where "exact_normalize a = Inl x" "10 powi 96 \<le> \<bar>IOU_val a\<bar>"
  | (underflow) "exact_normalize a = Inr IOU_zero" "\<bar>IOU_val a\<bar> < 10 powi (-81)"
  | (result) m e where "exact_normalize a = Inr \<lparr>mantissa = sgn (mantissa a) * m, exponent = e\<rparr>"
      "minMantissa \<le> m" "m \<le> maxMantissa" "minExponent \<le> e" "e \<le> maxExponent"
      "of_int m * 10 powi e \<le> \<bar>IOU_val a\<bar>" "\<bar>IOU_val a\<bar> < of_int (m + 1) * 10 powi e"
proof -
  have v: "\<bar>IOU_val a\<bar> = of_int \<bar>mantissa a\<bar> * 10 powi exponent a"
    by (simp add: IOU_val_def abs_mult)
  have pos: "0 < \<bar>mantissa a\<bar>" using assms by simp
  obtain m1 e1 where up: "IOU_scaleUp \<bar>mantissa a\<bar> (exponent a) = (m1, e1)" by fastforce
  have n: "exact_normalize a = bindE (IOU_scaleDown m1 e1) (\<lambda>(m, e).
      if e < minExponent \<or> m < minMantissa then Inr IOU_zero
      else if e > maxExponent then Inl (OverflowError ''value overflow'')
      else Inr \<lparr>mantissa = sgn (mantissa a) * m, exponent = e\<rparr>)"
    using make_unfold[OF assms up] assms
    by (cases a) (auto simp: exact_make_def sgn_if intro!: arg_cong2[where f = bindE])
  show thesis
  proof (cases "IOU_scaleDown m1 e1")
    case (Inl x)
    then show thesis using throws n scale_throws[OF up Inl pos] v by (simp add: res_simps)
  next
    case (Inr p)
    obtain m e where p: "p = (m, e)" by fastforce
    note sc = scale_ok[OF up Inr[unfolded p] pos, folded v]
    have n': "exact_normalize a = (if e < minExponent \<or> m < minMantissa then Inr IOU_zero
      else if e > maxExponent then Inl (OverflowError ''value overflow'')
      else Inr \<lparr>mantissa = sgn (mantissa a) * m, exponent = e\<rparr>)"
      unfolding n Inr p by (simp add: res_simps)
    consider "m < minMantissa" | "minMantissa \<le> m" "e < minExponent" | "minMantissa \<le> m" "e > maxExponent"
      | "minMantissa \<le> m" "minExponent \<le> e" "e \<le> maxExponent" by linarith
    then show thesis
    proof cases
      case 1
      have "real_of_int m * 10 powi e < of_int minMantissa * 10 powi minExponent"
        using sc(5)[OF 1] powi10_mono[of e minExponent] 1 sc(3)
        by (intro mult_less_le_imp_less) auto
      then show thesis using underflow n' 1 sc(5)[OF 1] by (simp add: IOU_consts)
    next
      case 2
      have "real_of_int (m + 1) * 10 powi e \<le> of_int (maxMantissa + 1) * 10 powi (-97)"
        using 2(2) sc(3,4) powi10_mono[of e "-97"] by (intro mult_mono) (auto simp: minExponent_def)
      then show thesis using underflow n' 2 sc(2) by (simp add: IOU_consts)
    next
      case 3
      have "real_of_int minMantissa * 10 powi 81 \<le> of_int m * 10 powi e"
        using 3 powi10_mono[of 81 e] by (intro mult_mono) (auto simp: IOU_consts)
      then show thesis using throws n' 3 sc(1) by (simp add: IOU_consts)
    next
      case 4
      then show thesis by (intro result[of m e]) (use n' sc in simp_all)
    qed
  qed
qed


lemma wf_cases:
  assumes "IOU_wf a"
  obtains "a = IOU_zero"
  | "mantissa a \<noteq> 0" "minMantissa \<le> \<bar>mantissa a\<bar>" "\<bar>mantissa a\<bar> \<le> maxMantissa"
      "minExponent \<le> exponent a" "exponent a \<le> maxExponent"
  using assms by (auto simp: IOU_wf_def minMantissa_def)

lemma IOU_wf_zero [simp]: "IOU_wf IOU_zero"
  by (simp add: IOU_wf_def)

lemma IOU_wf_mantissa_zero: "IOU_wf a \<Longrightarrow> mantissa a = 0 \<longleftrightarrow> a = IOU_zero"
  by (auto simp: IOU_wf_def IOU_consts IOU_zero_def)

lemma IOU_val_eq_0 [simp]: "IOU_val a = 0 \<longleftrightarrow> mantissa a = 0"
  by (simp add: IOU_val_def)

lemma sgn_IOU_val: "sgn (IOU_val a) = of_int (sgn (mantissa a))"
  proof -
  have "sgn ((10::real) powi exponent a) = 1" by (rule sgn_pos) simp
  then show ?thesis by (simp add: IOU_val_def sgn_mult) (simp add: sgn_if)
qed

lemma normalize_wf:
  assumes "IOU_wf a" shows "exact_normalize a = Inr a"
  using assms
proof (cases rule: wf_cases)
  case 1
  then show ?thesis by (simp add: exact_normalize_def IOU_zero_def)
next
  case 2
  have "IOU_scaleUp \<bar>mantissa a\<bar> (exponent a) = (\<bar>mantissa a\<bar>, exponent a)"
    "IOU_scaleDown \<bar>mantissa a\<bar> (exponent a) = Inr (\<bar>mantissa a\<bar>, exponent a)"
    using 2 by (simp_all add: IOU_scaleUp.simps[of "\<bar>mantissa a\<bar>"] IOU_scaleDown.simps[of "\<bar>mantissa a\<bar>"])
  then show ?thesis
    using 2 unfolding exact_normalize_def Let_def by simp
qed

lemma wf_not_min: "IOU_wf a \<Longrightarrow> mantissa a \<noteq> int64_min"
  by (auto simp: IOU_wf_def IOU_zero_def IOU_consts int64_min_def)

lemma IOU_normalize_wf: "IOU_wf a \<Longrightarrow> IOU_normalize a = Inr a"
  using normalize_exact[OF wf_not_min] normalize_wf by simp

lemma normalize_spec:
  "case exact_normalize a of
     Inl _ \<Rightarrow> 10 powi 96 \<le> \<bar>IOU_val a\<bar>
   | Inr r \<Rightarrow> \<bar>IOU_val a\<bar> < 10 powi 96 \<and> IOU_wf r \<and>
       (if r = IOU_zero then \<bar>IOU_val a\<bar> < 10 powi (-81)
        else sgn (IOU_val r) = sgn (IOU_val a) \<and> \<bar>IOU_val r\<bar> \<le> \<bar>IOU_val a\<bar> \<and>
             \<bar>IOU_val a\<bar> - \<bar>IOU_val r\<bar> < 10 powi exponent r)"
proof (cases "mantissa a = 0")
  case True
  then have "IOU_val a = 0" "exact_normalize a = Inr IOU_zero" by (simp_all add: exact_normalize_def IOU_val_def)
  then show ?thesis unfolding \<open>IOU_val a = 0\<close> by simp
next
  case False
  then show ?thesis
  proof (cases rule: normalize_cases)
    case throws
    then show ?thesis by simp
  next
    case underflow
    moreover have "(10::real) powi (-81) < 10 powi 96" by simp
    ultimately show ?thesis by simp
  next
    case (result m e)
    define r where "r = \<lparr>mantissa = sgn (mantissa a) * m, exponent = e\<rparr>"
    have m: "0 < m" using result(2) by (simp add: minMantissa_def)
    have "r \<noteq> IOU_zero" "IOU_wf r"
      using False m result(2-5) by (auto simp: r_def IOU_zero_def IOU_wf_def abs_mult sgn_eq_0_iff)
    moreover have "sgn (IOU_val r) = sgn (IOU_val a)"
      using False m by (simp add: sgn_IOU_val r_def sgn_mult)
    moreover have "\<bar>IOU_val r\<bar> = of_int m * 10 powi e"
      using False m by (simp add: r_def IOU_val_def abs_mult sgn_if)
    moreover have "real_of_int (m + 1) * 10 powi e \<le> of_int (maxMantissa + 1) * 10 powi maxExponent"
      using result(3,5) m powi10_mono[of e maxExponent] by (intro mult_mono) auto
    moreover have "exponent r = e" by (simp add: r_def)
    ultimately show ?thesis
      using result(6,7) unfolding result(1) r_def[symmetric] by (simp add: IOU_consts distrib_right)
  qed
qed


lemma normalize_result_wf: "exact_normalize a = Inr r \<Longrightarrow> IOU_wf r"
  using normalize_spec[of a] by simp

lemma abs_val: "\<bar>IOU_val a\<bar> = of_int \<bar>mantissa a\<bar> * 10 powi exponent a"
  by (simp add: IOU_val_def abs_mult)

text \<open>A larger exponent means a larger magnitude, among non-zero normalized amounts.\<close>

lemma exponent_magnitude:
  assumes "minMantissa \<le> \<bar>mantissa b\<bar>" "\<bar>mantissa a\<bar> \<le> maxMantissa" "exponent a < exponent b"
  shows "\<bar>IOU_val a\<bar> < \<bar>IOU_val b\<bar>"
proof -
  have "\<bar>IOU_val a\<bar> < of_int (10 * minMantissa) * 10 powi exponent a"
    unfolding abs_val using assms(2)
    by (intro mult_strict_right_mono) (auto simp only: of_int_less_iff powi10_pos IOU_consts)
  also have "\<dots> = of_int minMantissa * 10 powi (exponent a + 1)"
    by (simp add: powi10_add)
  also have "real_of_int minMantissa \<le> of_int \<bar>mantissa b\<bar>"
    using assms(1) by (simp only: of_int_le_iff)
  then have "of_int minMantissa * 10 powi (exponent a + 1) \<le> \<bar>IOU_val b\<bar>"
    unfolding abs_val using assms(3) by (intro mult_mono powi10_mono) simp_all
  finally show ?thesis .
qed

lemma less_value:
  assumes "IOU_wf a" "IOU_wf b"
  shows "(IOU_less a b \<longleftrightarrow> IOU_val a < IOU_val b) \<and> (a = b \<longleftrightarrow> IOU_val a = IOU_val b)"
proof (rule conjI)
  have sg: "mantissa x < 0 \<longleftrightarrow> IOU_val x < 0" "0 < mantissa x \<longleftrightarrow> 0 < IOU_val x" for x
    by (simp_all add: IOU_val_def mult_less_0_iff zero_less_mult_iff not_less)
  have same: "IOU_val a < IOU_val b \<longleftrightarrow> mantissa a < mantissa b" "IOU_val a = IOU_val b \<longleftrightarrow> mantissa a = mantissa b"
    if "exponent a = exponent b" using that by (simp_all add: IOU_val_def)
  have big: "exponent a < exponent b \<Longrightarrow> \<bar>IOU_val a\<bar> < \<bar>IOU_val b\<bar>" "exponent b < exponent a \<Longrightarrow> \<bar>IOU_val b\<bar> < \<bar>IOU_val a\<bar>"
    if "mantissa a \<noteq> 0" "mantissa b \<noteq> 0"
    using that assms exponent_magnitude[of b a] exponent_magnitude[of a b]
    by (auto simp: IOU_wf_def IOU_zero_def)
  show "IOU_less a b \<longleftrightarrow> IOU_val a < IOU_val b"
  proof (cases "mantissa a = 0 \<or> mantissa b = 0")
    case True
    then show ?thesis using sg[of a] sg[of b] by (auto simp: IOU_less_def Let_def IOU_val_def)
  next
    case False
    then consider "exponent a = exponent b" | "exponent a < exponent b" | "exponent b < exponent a" by linarith
    then show ?thesis using False sg[of a] sg[of b] big same
      by cases (auto simp: IOU_less_def Let_def)
  qed
  show "a = b \<longleftrightarrow> IOU_val a = IOU_val b"
  proof (cases "mantissa a = 0 \<or> mantissa b = 0")
    case True
    then show ?thesis using assms by (auto simp: IOU_wf_mantissa_zero IOU_val_def IOU_zero_def)
  next
    case False
    then show ?thesis using big same by (cases "exponent a" "exponent b" rule: linorder_cases) auto
  qed
qed


lemma align_unfold: "IOU_align m e e' = m sdiv 10 ^ nat (e' - e)"
proof (induction m e e' rule: IOU_align.induct)
  case (1 m e e')
  show ?case
  proof (cases "e < e'")
    case True
    then have n: "nat (e' - e) = Suc (nat (e' - (e + 1)))" by simp
    have "IOU_align m e e' = m sdiv 10 sdiv 10 ^ nat (e' - (e + 1))"
      using 1 True by (simp add: IOU_align.simps[of m e e'])
    also have "\<dots> = m sdiv 10 ^ nat (e' - e)"
      unfolding n by (simp add: signed_divide_int_def zdiv_zmult2_eq abs_mult sgn_mult sgn_if)
    finally show ?thesis .
  qed (simp add: IOU_align.simps[of m e e'])
qed

lemma sdiv_bounds:
  fixes m k :: int
  assumes "0 < k"
  shows "\<bar>m - k * (m sdiv k)\<bar> < k" and "\<bar>m sdiv k\<bar> \<le> \<bar>m\<bar>" and "(- m) sdiv k = - (m sdiv k)"
proof -
  have e: "m = sgn m * \<bar>m\<bar>" by (simp add: sgn_if)
  have d: "m sdiv k = sgn m * (\<bar>m\<bar> div k)" using assms by (simp add: signed_divide_int_def)
  have "m - k * (m sdiv k) = sgn m * (\<bar>m\<bar> mod k)"
    unfolding d by (subst (1) e) (simp add: algebra_simps flip: minus_div_mult_eq_mod)
  then show "\<bar>m - k * (m sdiv k)\<bar> < k"
    using assms by (simp add: abs_mult sgn_if)
  have "\<bar>m\<bar> div k \<le> \<bar>m\<bar>" "0 \<le> \<bar>m\<bar> div k"
    using assms zdiv_mono2[of "\<bar>m\<bar>" 1 k] by (simp_all add: pos_imp_zdiv_nonneg_iff)
  then show "\<bar>m sdiv k\<bar> \<le> \<bar>m\<bar>"
    unfolding d by (cases m "0::int" rule: linorder_cases) simp_all
  show "(- m) sdiv k = - (m sdiv k)" using assms by (simp add: signed_divide_int_def)
qed

lemma align_error:
  assumes "e \<le> e'"
  shows "\<bar>of_int m * 10 powi e - of_int (IOU_align m e e') * 10 powi e'\<bar> < (10::real) powi e'"
    and "\<bar>IOU_align m e e'\<bar> \<le> \<bar>m\<bar>"
proof -
  define k where "k = (10::int) ^ nat (e' - e)"
  have k: "0 < k" and al: "IOU_align m e e' = m sdiv k" by (simp_all add: k_def align_unfold)
  have p: "(10::real) powi e' = of_int k * 10 powi e" using powi10_split[OF assms] by (simp add: k_def)
  have "of_int m * 10 powi e - of_int (m sdiv k) * 10 powi e' = real_of_int (m - k * (m sdiv k)) * 10 powi e"
    unfolding p by (simp add: algebra_simps)
  moreover have "real_of_int \<bar>m - k * (m sdiv k)\<bar> < of_int k"
    using sdiv_bounds(1)[OF k, of m] by (simp only: of_int_less_iff)
  ultimately show "\<bar>of_int m * 10 powi e - of_int (IOU_align m e e') * 10 powi e'\<bar> < (10::real) powi e'"
    unfolding al p abs_mult by (simp add: abs_mult mult_strict_right_mono)
  show "\<bar>IOU_align m e e'\<bar> \<le> \<bar>m\<bar>" unfolding al by (rule sdiv_bounds(2)[OF k])
qed

lemma IOU_add_unfold:
  "IOU_add a b =
     (if b = IOU_zero then Inr a else if a = IOU_zero then Inr b
      else if \<bar>IOU_aligned_sum a b\<bar> \<le> 10 then Inr IOU_zero
      else IOU_make (IOU_aligned_sum a b) (max (exponent a) (exponent b)))"
  by (auto simp: IOU_add_def IOU_aligned_sum_def Let_def)

lemma align_ge: "e' \<le> e \<Longrightarrow> IOU_align m e e' = m"
  by (simp add: IOU_align.simps)

lemma aligned_sum_commute: "IOU_aligned_sum a b = IOU_aligned_sum b a"
  by (cases "exponent a" "exponent b" rule: linorder_cases) (simp_all add: IOU_aligned_sum_def align_ge max_def)

lemma aligned_sum_error:
  "\<bar>IOU_val a + IOU_val b - of_int (IOU_aligned_sum a b) * 10 powi max (exponent a) (exponent b)\<bar>
     < 10 powi max (exponent a) (exponent b)"
proof (cases "exponent a \<le> exponent b")
  case True
  then have "IOU_val a + IOU_val b - of_int (IOU_aligned_sum a b) * 10 powi max (exponent a) (exponent b) =
      of_int (mantissa a) * 10 powi exponent a - of_int (IOU_align (mantissa a) (exponent a) (exponent b)) * 10 powi exponent b"
    by (simp add: IOU_aligned_sum_def IOU_val_def align_ge algebra_simps)
  then show ?thesis using align_error(1)[OF True, of "mantissa a"] True by (simp add: max_absorb2)
next
  case False
  then have le: "exponent b \<le> exponent a" by simp
  then have "IOU_val a + IOU_val b - of_int (IOU_aligned_sum a b) * 10 powi max (exponent a) (exponent b) =
      of_int (mantissa b) * 10 powi exponent b - of_int (IOU_align (mantissa b) (exponent b) (exponent a)) * 10 powi exponent a"
    by (simp add: IOU_aligned_sum_def IOU_val_def align_ge max_absorb1 algebra_simps)
  then show ?thesis using align_error(1)[OF le, of "mantissa b"] le by (simp add: max_absorb1)
qed

lemma aligned_sum_bound: "\<bar>IOU_aligned_sum a b\<bar> \<le> \<bar>mantissa a\<bar> + \<bar>mantissa b\<bar>"
proof -
  have al: "\<bar>IOU_align m e e'\<bar> \<le> \<bar>m\<bar>" for m e e'
    using align_error(2)[of e e' m] by (cases "e \<le> e'") (simp_all add: align_ge)
  show ?thesis unfolding IOU_aligned_sum_def
    by (rule order_trans[OF abs_triangle_ineq]) (intro add_mono al)
qed


lemma make_small_exponent:
  assumes r: "exact_make s e = Inr r" "r \<noteq> IOU_zero" and s: "\<bar>s\<bar> < 10 ^ 17"
  shows "exponent r \<le> e + 1"
proof -
  let ?a = "\<lparr>mantissa = s, exponent = e\<rparr>"
  have "mantissa ?a \<noteq> 0" using r by (auto simp: exact_make_def exact_normalize_def)
  then show ?thesis
  proof (cases rule: normalize_cases)
    case (result m e')
    have "real_of_int minMantissa * 10 powi e' \<le> of_int m * 10 powi e'"
      using result(2) by (intro mult_right_mono) simp_all
    also have "\<dots> \<le> of_int \<bar>s\<bar> * 10 powi e" using result(6) by (simp add: abs_val)
    also have "\<dots> < 10 ^ 17 * 10 powi e"
    proof (rule mult_strict_right_mono)
      have "real_of_int \<bar>s\<bar> < of_int (10 ^ 17)" using s by (simp only: of_int_less_iff)
      then show "real_of_int \<bar>s\<bar> < 10 ^ 17" by simp
    qed simp
    also have "\<dots> = of_int minMantissa * 10 powi (e + 2)" by (simp add: powi10_add minMantissa_def)
    finally have "(10::real) powi e' < 10 powi (e + 2)" by (simp add: minMantissa_def)
    then have "e' \<le> e + 1" using powi10_strict[of e' "e + 2"] by linarith
    then show ?thesis using result(1) r(1) by (auto simp: exact_make_def)
  qed (use r in \<open>simp_all add: exact_make_def\<close>)
qed

lemma wf_mantissa_le: "IOU_wf a \<Longrightarrow> \<bar>mantissa a\<bar> \<le> maxMantissa"
  by (auto simp: IOU_wf_def IOU_zero_def maxMantissa_def)

lemma aligned_sum_wf:
  "IOU_wf a \<Longrightarrow> IOU_wf b \<Longrightarrow> \<bar>IOU_aligned_sum a b\<bar> \<le> 2 * maxMantissa"
  using aligned_sum_bound[of a b] wf_mantissa_le[of a] wf_mantissa_le[of b] by linarith

lemma aligned_sum_make:
  "IOU_wf a \<Longrightarrow> IOU_wf b \<Longrightarrow> IOU_make (IOU_aligned_sum a b) e = exact_make (IOU_aligned_sum a b) e"
  by (rule make_exact, rule small_not_min) (use aligned_sum_wf[of a b] in \<open>simp add: maxMantissa_def\<close>)

lemma sgn_abs_diff:
  fixes x y :: real
  assumes "sgn x = sgn y" "\<bar>x\<bar> \<le> \<bar>y\<bar>" "\<bar>y\<bar> - \<bar>x\<bar> < d"
  shows "\<bar>y - x\<bar> < d"
  using assms by (auto simp: sgn_if split: if_splits)

lemma make_error:
  assumes "exact_make s e = Inr r" "r \<noteq> IOU_zero"
  shows "\<bar>of_int s * 10 powi e - IOU_val r\<bar> < 10 powi exponent r"
  using normalize_spec[of "\<lparr>mantissa = s, exponent = e\<rparr>"] assms
  by (intro sgn_abs_diff) (auto simp: exact_make_def IOU_val_def)

lemma make_underflow:
  assumes "exact_make s e = Inr IOU_zero"
  shows "\<bar>of_int s * (10::real) powi e\<bar> < 10 powi (-81)"
  using normalize_spec[of "\<lparr>mantissa = s, exponent = e\<rparr>"] assms
  by (simp add: exact_make_def IOU_val_def del: power_int_minus)

lemma make_throws:
  assumes "exact_make s e = Inl x"
  shows "10 powi 96 \<le> \<bar>of_int s * (10::real) powi e\<bar>"
  using normalize_spec[of "\<lparr>mantissa = s, exponent = e\<rparr>"] assms
  by (simp add: exact_make_def IOU_val_def)

text \<open>Normalizing an approximation \<open>s * 10 ^ e\<close> of \<open>v\<close> keeps the error below eleven units.\<close>

lemma make_approx:
  assumes s: "10 < \<bar>s\<bar>" "\<bar>s\<bar> < 10 ^ 17" and err: "\<bar>v - of_int s * 10 powi e\<bar> < 10 powi e"
  shows "IOU_sum_ok v e (exact_make s e)"
proof (cases "exact_make s e")
  case (Inl x)
  then show ?thesis using make_throws[OF Inl] err unfolding IOU_sum_ok_def Inl sum.case by linarith
next
  case (Inr r)
  have wf: "IOU_wf r" using Inr normalize_result_wf by (auto simp: exact_make_def)
  show ?thesis
  proof (cases "r = IOU_zero")
    case True
    have "\<bar>of_int s * (10::real) powi e\<bar> < 10 powi (-81)" using make_underflow Inr True by simp
    moreover have "10 powi e \<le> \<bar>of_int s * (10::real) powi e\<bar>" using s by (simp add: abs_mult)
    ultimately have "\<bar>v\<bar> < 2 * 10 powi (-81)" using err by linarith
    then show ?thesis using wf True by (simp add: IOU_sum_ok_def Inr less_max_iff_disj)
  next
    case nz: False
    have "(10::real) powi exponent r \<le> 10 * 10 powi e"
      using powi10_mono[OF make_small_exponent[OF Inr nz s(2)]] by (simp add: powi10_add)
    then have "\<bar>v - IOU_val r\<bar> < 11 * 10 powi e" using make_error[OF Inr nz] err by linarith
    then show ?thesis using wf nz by (simp add: IOU_sum_ok_def Inr)
  qed
qed

lemma neg_is_wf: "IOU_wf a \<Longrightarrow> a \<noteq> IOU_zero \<Longrightarrow> IOU_wf (a\<lparr>mantissa := - mantissa a\<rparr>)"
  by (auto simp: IOU_wf_def)

lemma exact_throws: "exact_make m e = Inl x \<Longrightarrow> \<exists>msg. x = OverflowError msg"
proof -
  have "\<exists>msg. y = OverflowError msg" if "IOU_scaleDown m e = Inl y" for m e y
    using that by (induction m e rule: IOU_scaleDown.induct) (subst (asm) (2) IOU_scaleDown.simps, auto split: if_splits)
  then show "exact_make m e = Inl x \<Longrightarrow> \<exists>msg. x = OverflowError msg"
    by (auto simp: exact_make_def exact_normalize_def bindE_eq_Inl split: if_splits prod.splits)
qed

lemma neg_wf:
  assumes "IOU_wf a" "mantissa a \<noteq> 0"
  shows "IOU_neg a = Inr (a\<lparr>mantissa := - mantissa a\<rparr>)"
proof -
  have "IOU_wf (a\<lparr>mantissa := - mantissa a\<rparr>)"
    using assms by (auto simp: IOU_wf_def IOU_zero_def)
  then show ?thesis using IOU_normalize_wf wf_not_min[OF assms(1)] by (cases a) (simp add: IOU_neg_def IOU_make_def)
qed

lemma neg_zero [simp]: "IOU_neg IOU_zero = Inr IOU_zero"
  by (simp add: IOU_neg_def IOU_make_def IOU_normalize_def IOU_zero_def neg64_def int64_min_def)

lemma align_neg: "IOU_align (- m) e e' = - IOU_align m e e'"
  by (simp add: align_unfold sdiv_bounds(3))

lemma make_neg: "exact_make (- s) e = bindE (exact_make s e) IOU_neg"
proof (cases "s = 0")
  case False
  obtain m1 e1 where up: "IOU_scaleUp \<bar>s\<bar> e = (m1, e1)" by fastforce
  have n: "exact_make t e = bindE (IOU_scaleDown m1 e1) (\<lambda>(m, e).
      if e < minExponent \<or> m < minMantissa then Inr IOU_zero
      else if e > maxExponent then Inl (OverflowError ''value overflow'')
      else Inr \<lparr>mantissa = (if t < 0 then - m else m), exponent = e\<rparr>)" if "\<bar>t\<bar> = \<bar>s\<bar>" for t
    using make_unfold[of t e m1 e1] up that False by fastforce
  show ?thesis
  proof (cases "exact_make s e")
    case (Inr r)
    then have "IOU_wf r" using normalize_result_wf by (simp add: exact_make_def)
    from neg_wf[OF this] show ?thesis
      using Inr n[of s] n[of "- s"] False
      by (cases "IOU_scaleDown m1 e1") (auto simp: IOU_wf_mantissa_zero minMantissa_def split: if_splits)
  qed (use n[of s] n[of "- s"] in \<open>cases "IOU_scaleDown m1 e1"; auto split: if_splits\<close>)
qed (simp add: exact_make_def exact_normalize_def)

lemma aligned_sum_neg:
  "IOU_aligned_sum b (a\<lparr>mantissa := - mantissa a\<rparr>) = - IOU_aligned_sum a (b\<lparr>mantissa := - mantissa b\<rparr>)"
  using aligned_sum_commute[of b "a\<lparr>mantissa := - mantissa a\<rparr>"]
  by (simp add: IOU_aligned_sum_def align_neg)

lemma add_zero [simp]: "IOU_add a IOU_zero = Inr a" "IOU_add IOU_zero a = Inr a"
  by (simp_all add: IOU_add_def)

lemma neg_neg:
  assumes "IOU_wf a"
  shows "bindE (IOU_neg a) IOU_neg = Inr a"
proof (cases "mantissa a = 0")
  case True
  then show ?thesis using assms by (simp add: IOU_wf_mantissa_zero)
next
  case False
  have "IOU_wf (a\<lparr>mantissa := - mantissa a\<rparr>)" using assms False by (auto simp: IOU_wf_def IOU_zero_def)
  from neg_wf[OF this] neg_wf[OF assms False] False show ?thesis by simp
qed

section \<open>Lemmas on \<open>mulRatio\<close>\<close>

lemma powerTable_nth: "i < 30 \<Longrightarrow> powerTable ! i = 10 ^ i"
  by (simp add: powerTable_def)

lemma lower_bound_index_le: "lower_bound_index v \<le> 30"
  using length_takeWhile_le[of "\<lambda>p. p < v" powerTable] by (simp add: lower_bound_index_def powerTable_def)

lemma lower_bound_index_below:
  assumes "i < lower_bound_index v" shows "10 ^ i < v"
proof -
  have i: "i < 30" using assms lower_bound_index_le[of v] by simp
  have "takeWhile (\<lambda>p. p < v) powerTable ! i = powerTable ! i"
    using assms by (intro takeWhile_nth) (simp add: lower_bound_index_def)
  moreover have "takeWhile (\<lambda>p. p < v) powerTable ! i < v"
    using nth_mem[OF assms[unfolded lower_bound_index_def]] set_takeWhileD by fastforce
  ultimately show ?thesis using i by (simp add: powerTable_nth)
qed

lemma lower_bound_index_ge:
  assumes "lower_bound_index v < 30" shows "v \<le> 10 ^ lower_bound_index v"
proof -
  have "\<not> powerTable ! lower_bound_index v < v"
    unfolding lower_bound_index_def
    by (rule nth_length_takeWhile) (use assms in \<open>simp add: lower_bound_index_def powerTable_def\<close>)
  then show ?thesis using assms by (simp add: powerTable_nth)
qed

lemma fl64_value: "fl64 = 18"
proof -
  have ub: "(2::nat) ^ 63 - 1 \<le> 10 ^ 19" "(10::nat) ^ 18 < 2 ^ 63 - 1" by simp_all
  let ?i = "lower_bound_index (2 ^ 63 - 1)"
  have "\<not> ?i < 19"
  proof
    assume l: "?i < 19"
    then have "(2::nat) ^ 63 - 1 \<le> 10 ^ ?i" using lower_bound_index_ge by simp
    also have "\<dots> \<le> 10 ^ 18" using l by (intro power_increasing) auto
    finally show False using ub by simp
  qed
  moreover have "\<not> 19 < ?i" using lower_bound_index_below[of 19 "2 ^ 63 - 1"] ub by linarith
  ultimately have "?i = 19" by simp
  then show ?thesis by (simp add: fl64_def log10Floor_def powerTable_nth)
qed

lemma divide_exact:
  assumes "mulRatio_divide mul d e = (low, rem, e')" "0 < d"
  shows "real (low * d + rem) * 10 powi e' = real mul * 10 powi e" and "rem < d"
    and "d \<le> mul \<Longrightarrow> rem \<noteq> 0 \<Longrightarrow> 10 ^ 17 \<le> low"
proof -
  define q r where "q = mul div d" and "r = mul - q * d"
  have r: "r = mul mod d" by (simp add: r_def q_def minus_div_mult_eq_mod)
  then have qr: "q * d + r = mul" "r < d" using assms(2) by (simp_all add: q_def)
  define c where "c = lower_bound_index q"
  define k where "k = (if c < 18 then 18 - c else 0)"
  have if_r: "mulRatio_divide mul d e =
      (q * 10 ^ k + r * 10 ^ k div d, r * 10 ^ k mod d, e - int k)" if "r \<noteq> 0"
  proof -
    have n: "nat (18 - int c) = 18 - c" "c < 18 \<Longrightarrow> int (18 - c) = 18 - int c" "q * d < mul"
      using that qr by linarith+
    then show ?thesis using that
      by (simp add: mulRatio_divide_def Let_def flip: q_def r_def)
        (auto simp: fl64_value log10Ceil_def c_def[symmetric] k_def n minus_div_mult_eq_mod powerTable_nth)
  qed
  have if_0: "mulRatio_divide mul d e = (q, 0, e)" if "r = 0"
    using that qr by (simp add: mulRatio_divide_def Let_def flip: q_def r_def)
  have p: "(10::real) powi e = 10 ^ k * 10 powi (e - int k)" using powi10_split[of "e - int k" e] by simp
  have scaled: "(q * 10 ^ k + r * 10 ^ k div d) * d + r * 10 ^ k mod d = mul * 10 ^ k"
    unfolding qr(1)[symmetric] by (simp add: algebra_simps)
  then have scaled': "real ((q * 10 ^ k + r * 10 ^ k div d) * d + r * 10 ^ k mod d) = real mul * 10 ^ k"
    by (simp only: of_nat_mult of_nat_power of_nat_numeral)
  show "real (low * d + rem) * 10 powi e' = real mul * 10 powi e"
  proof (cases "r = 0")
    case True
    then show ?thesis using assms(1) if_0 qr by auto
  next
    case False
    then show ?thesis using assms(1) if_r scaled' p by auto
  qed
  show "rem < d" using assms if_0 if_r by (cases "r = 0") auto
  assume "d \<le> mul" "rem \<noteq> 0"
  then have q: "1 \<le> q" "r \<noteq> 0" using assms if_0 by (auto simp: q_def div_greater_zero_iff Suc_le_eq)
  have "10 ^ 17 \<le> q * 10 ^ k"
  proof (cases "c = 0")
    case False
    then have "10 ^ (c - 1) \<le> q" using lower_bound_index_below[of "c - 1" q] by (simp add: c_def)
    then have "10 ^ (c - 1) * 10 ^ k \<le> q * 10 ^ k" by simp
    moreover have "(10::nat) ^ 17 \<le> 10 ^ (c - 1) * 10 ^ k"
      unfolding power_add[symmetric] using False by (intro power_increasing) (auto simp: k_def)
    ultimately show ?thesis by linarith
  qed (use q in \<open>simp add: k_def\<close>)
  then show "10 ^ 17 \<le> low" using assms(1) if_r[OF q(2)] by auto
qed

lemma shrink_exact:
  assumes "mulRatio_shrink low rem e = (low', e', hasRem)" and "rem < d"
  defines "x \<equiv> real (low * d + rem) / real d * 10 powi e"
  shows "real low' * 10 powi e' \<le> x" "x < real (low' + 1) * 10 powi e'" "hasRem \<longleftrightarrow> x \<noteq> real low' * 10 powi e'"
    and "rem = 0 \<or> 10 ^ 17 \<le> low \<Longrightarrow> hasRem \<Longrightarrow> 10 ^ 17 \<le> low'"
proof -
  define k where "k = (if lower_bound_index low > 18 then lower_bound_index low - 18 else 0)"
  have k: "k < 30" using lower_bound_index_le[of low] by (auto simp: k_def)
  have n: "nat (int (lower_bound_index low) - 18) = lower_bound_index low - 18" by linarith
  have res: "low' = low div 10 ^ k" "e' = e + int k" "hasRem \<longleftrightarrow> rem \<noteq> 0 \<or> low mod 10 ^ k \<noteq> 0"
    using assms(1) k
    by (auto simp: mulRatio_shrink_def Let_def fl64_value log10Ceil_def k_def n powerTable_nth
        simp flip: minus_div_mult_eq_mod split: if_splits)
  have low: "low = low' * 10 ^ k + low mod 10 ^ k" "low mod 10 ^ k < 10 ^ k"
    using div_mult_mod_eq[of low "10 ^ k"] unfolding res(1) by simp_all
  have p: "(10::real) powi e' = 10 ^ k * 10 powi e" by (simp add: res(2) powi10_add)
  have x: "x = (real low + real rem / real d) * 10 powi e"
    using assms(2) by (simp add: x_def field_simps)
  have f: "0 \<le> real rem / real d" "real rem / real d < 1" "real rem / real d = 0 \<longleftrightarrow> rem = 0"
    using assms(2) by auto
  define f' where "f' = real (low mod 10 ^ k) + real rem / real d"
  have "Suc (low mod 10 ^ k) \<le> 10 ^ k" using low(2) by (simp only: Suc_le_eq)
  then have "real (Suc (low mod 10 ^ k)) \<le> real (10 ^ k)" by (simp only: of_nat_le_iff)
  then have f': "0 \<le> f'" "f' < 10 ^ k" "f' = 0 \<longleftrightarrow> rem = 0 \<and> low mod 10 ^ k = 0"
    using f by (auto simp: f'_def add_nonneg_eq_0_iff)
  have "real low = real (low' * 10 ^ k + low mod 10 ^ k)" using low(1) by simp
  then have x': "x = real low' * 10 powi e' + f' * 10 powi e"
    by (simp add: x p f'_def algebra_simps)
  show "real low' * 10 powi e' \<le> x" using f' by (simp add: x')
  show "x < real (low' + 1) * 10 powi e'" using f' by (simp add: x' p distrib_right)
  show "hasRem \<longleftrightarrow> x \<noteq> real low' * 10 powi e'" using f'(3) by (auto simp: x' res(3))
  assume "rem = 0 \<or> 10 ^ 17 \<le> low" "hasRem"
  have "k = 0 \<or> 10 ^ (17 + k) \<le> low"
    using lower_bound_index_below[of "17 + k" low] by (cases "lower_bound_index low > 18") (auto simp: k_def)
  then show "10 ^ 17 \<le> low'"
  proof
    assume "k = 0"
    then show ?thesis using res \<open>rem = 0 \<or> _\<close> \<open>hasRem\<close> by auto
  next
    assume "10 ^ (17 + k) \<le> low"
    then have "10 ^ (17 + k) div 10 ^ k \<le> low div 10 ^ k" by (rule div_le_mono)
    then show ?thesis by (simp add: res(1) power_add)
  qed
qed

text \<open>The mantissa that \<open>mulRatio\<close> normalizes fits in 64 bits.\<close>

lemma divide_bound:
  assumes "mulRatio_divide mul d e = (low, rem, e')" and "0 < d" and "mul < 10 ^ 28"
  shows "low < 10 ^ 29"
proof -
  define q where "q = mul div d"
  define c where "c = lower_bound_index q"
  define k where "k = (if c < 18 then 18 - c else 0)"
  have q: "q < 10 ^ 28" using assms(3) div_le_dividend[of mul d] unfolding q_def by linarith
  have n: "nat (18 - int c) = 18 - c" "powerTable ! (18 - c) = 10 ^ (18 - c)" by (simp_all add: powerTable_nth)
  have r: "(mul - q * d) * 10 ^ k div d \<le> 10 ^ k"
  proof -
    have "mul - q * d \<le> d" using assms(2) by (simp add: q_def minus_div_mult_eq_mod less_imp_le)
    then have "(mul - q * d) * 10 ^ k div d \<le> d * 10 ^ k div d" by (intro div_le_mono mult_right_mono) simp_all
    then show ?thesis using assms(2) by simp
  qed
  have "low = q \<or> low = q * 10 ^ k + (mul - q * d) * 10 ^ k div d"
    using assms(1) n by (auto simp: mulRatio_divide_def Let_def fl64_value log10Ceil_def q_def c_def k_def split: if_splits)
  moreover have "q * 10 ^ k \<le> 10 ^ 28"
  proof (cases "c < 18")
    case True
    then have "q \<le> 10 ^ c" using lower_bound_index_ge[of q] by (simp add: c_def)
    then have "q * 10 ^ k \<le> 10 ^ c * 10 ^ k" by simp
    also have "\<dots> = 10 ^ 18" using True by (simp add: k_def flip: power_add)
    finally show ?thesis by simp
  qed (use q in \<open>simp add: k_def\<close>)
  moreover have "(10::nat) ^ k \<le> 10 ^ 18" by (intro power_increasing) (auto simp: k_def)
  ultimately show ?thesis using q r by auto
qed

lemma shrink_bound:
  assumes "mulRatio_shrink low rem e = (low', e', hasRem)" and "low < 10 ^ 29"
  shows "low' \<le> 10 ^ 18"
proof -
  define c where "c = lower_bound_index low"
  have "\<not> 29 < c" using lower_bound_index_below[of 29 low] assms(2) by (auto simp: c_def)
  then have c: "c < 30" "low \<le> 10 ^ c" using lower_bound_index_ge[of low] by (simp_all add: c_def)
  show ?thesis
  proof (cases "18 < c")
    case True
    then have n: "nat (int c - 18) = c - 18" by linarith
    have "low' = low div 10 ^ (c - 18)"
      using assms(1) True c(1) by (auto simp: mulRatio_shrink_def Let_def fl64_value log10Ceil_def n powerTable_nth simp flip: c_def)
    also have "\<dots> \<le> 10 ^ c div 10 ^ (c - 18)" by (rule div_le_mono[OF c(2)])
    also have "\<dots> = 10 ^ 18" using True by (simp flip: power_diff)
    finally show ?thesis .
  next
    case False
    then have "low' = low" using assms(1) by (auto simp: mulRatio_shrink_def Let_def fl64_value log10Ceil_def simp flip: c_def)
    also have "\<dots> \<le> 10 ^ c" by (rule c(2))
    also have "\<dots> \<le> 10 ^ 18" using False by (intro power_increasing) simp_all
    finally show ?thesis .
  qed
qed

lemma grid_step:
  assumes "e \<le> e'" "of_int a * 10 powi e < of_int b * (10::real) powi e'"
  shows "of_int (a + 1) * 10 powi e \<le> of_int b * (10::real) powi e'"
proof -
  have p: "of_int b * (10::real) powi e' = of_int (b * 10 ^ nat (e' - e)) * 10 powi e"
    using powi10_split[OF assms(1)] by simp
  then have "real_of_int a < of_int (b * 10 ^ nat (e' - e))"
    using assms(2) mult_less_cancel_right_pos[OF powi10_pos[of e]] by metis
  then have "a + 1 \<le> b * 10 ^ nat (e' - e)" by (simp only: of_int_less_iff)
  then have "real_of_int (a + 1) \<le> of_int (b * 10 ^ nat (e' - e))" by (simp only: of_int_le_iff)
  then show ?thesis unfolding p by (rule mult_right_mono) simp
qed

text \<open>
  A value \<open>x\<close> bracketed by \<open>low\<close> and \<open>low + 1\<close> keeps a bracket of one unit in the last place
  when \<open>low\<close> is normalized, provided \<open>low\<close> has the digits or is exact.
\<close>

lemma make_bracket:
  assumes s: "\<bar>s\<bar> = low" and x: "of_int low * 10 powi e \<le> x" "x < of_int (low + 1) * 10 powi e"
    and digits: "minMantissa \<le> low \<or> x = of_int low * 10 powi e"
  shows "case exact_make s e of
     Inl _ \<Rightarrow> 10 powi 96 \<le> x
   | Inr r \<Rightarrow> if r = IOU_zero then x < 10 powi (-81)
       else sgn (mantissa r) = sgn s \<and> \<bar>IOU_val r\<bar> \<le> x \<and> x < \<bar>IOU_val r\<bar> + 10 powi exponent r"
proof -
  let ?a = "\<lparr>mantissa = s, exponent = e\<rparr>"
  have va: "\<bar>IOU_val ?a\<bar> = of_int low * 10 powi e" using s by (simp add: abs_val)
  note spec = normalize_spec[of ?a, folded exact_make_def, unfolded va]
  show ?thesis
  proof (cases "exact_make s e")
    case (Inl y)
    then show ?thesis using spec x by simp
  next
    case (Inr r)
    note sp = spec[unfolded Inr sum.case]
    show ?thesis
    proof (cases "r = IOU_zero")
      case True
      have under: "of_int low * 10 powi e < (10::real) powi (-81)" using sp True by simp
      have "x < 10 powi (-81)"
      proof (cases "minMantissa \<le> low")
        case lo: True
        have "(10::real) powi e \<le> of_int low * 10 powi e"
          using lo by (simp add: minMantissa_def)
        then have "(10::real) powi e < 10 powi (-81)" using under by linarith
        then have "e \<le> -81" by (simp only: powi10_strict)
        from grid_step[OF this, of low 1] show ?thesis using under x(2) by simp
      qed (use digits under in simp)
      then show ?thesis using Inr True by simp
    next
      case nz: False
      define m where "m = \<bar>mantissa r\<bar>"
      have r: "IOU_wf r" "sgn (mantissa r) = sgn s" "\<bar>IOU_val r\<bar> \<le> of_int low * 10 powi e"
        "of_int low * 10 powi e < of_int (m + 1) * (10::real) powi exponent r"
        using sp nz by (simp_all add: sgn_IOU_val m_def abs_val distrib_right)
      have "x < of_int (m + 1) * 10 powi exponent r"
      proof (cases "minMantissa \<le> low")
        case lo: True
        have "e \<le> exponent r"
        proof (rule ccontr)
          assume "\<not> e \<le> exponent r"
          then have "of_int (m + 1) * (10::real) powi exponent r \<le> of_int (maxMantissa + 1) * 10 powi (e - 1)"
            using wf_mantissa_le[OF r(1)] by (intro mult_mono powi10_mono) (simp_all add: m_def)
          also have "\<dots> = of_int minMantissa * 10 powi e"
            using powi10_add[of "e - 1" 1] by (simp add: IOU_consts)
          also have "\<dots> \<le> of_int low * 10 powi e" using lo by (intro mult_right_mono) simp_all
          finally show False using r(4) by simp
        qed
        from grid_step[OF this r(4)] show ?thesis using x by linarith
      qed (use digits r in simp)
      then show ?thesis using Inr nz r(2,3) x(1) by (simp add: m_def abs_val distrib_right)
    qed
  qed
qed

lemma exact_succ:
  assumes wf: "IOU_wf a" and pos: "0 < mantissa a"
  shows "case exact_make (mantissa a + 1) (exponent a) of
     Inl _ \<Rightarrow> a = \<lparr>mantissa = maxMantissa, exponent = maxExponent\<rparr>
   | Inr r \<Rightarrow> IOU_wf r \<and> exponent a \<le> exponent r \<and> IOU_val r = IOU_val a + 10 powi exponent a"
proof -
  have r: "minMantissa \<le> mantissa a" "mantissa a \<le> maxMantissa" "minExponent \<le> exponent a" "exponent a \<le> maxExponent"
    using wf pos by (auto simp: IOU_wf_def IOU_zero_def)
  show ?thesis
  proof (cases "mantissa a = maxMantissa")
    case False
    then have "IOU_wf \<lparr>mantissa = mantissa a + 1, exponent = exponent a\<rparr>"
      using r pos by (simp add: IOU_wf_def)
    from normalize_wf[OF this] this show ?thesis
      by (simp add: exact_make_def IOU_val_def distrib_right)
  next
    case True
    let ?m = "maxMantissa + 1"
    have up: "IOU_scaleUp ?m (exponent a) = (?m, exponent a)"
      by (simp add: IOU_scaleUp.simps IOU_consts)
    have "?m div 10 = minMantissa" by (simp add: IOU_consts)
    then have down: "IOU_scaleDown ?m (exponent a) = (if exponent a = maxExponent
        then Inl (OverflowError ''IOUAmount::normalize'') else Inr (minMantissa, exponent a + 1))"
      using r(4) by (simp add: IOU_scaleDown.simps[of ?m] IOU_scaleDown.simps[of minMantissa])
        (simp add: IOU_consts)
    have "exact_make (mantissa a + 1) (exponent a) = (if exponent a = maxExponent
        then Inl (OverflowError ''IOUAmount::normalize'')
        else Inr \<lparr>mantissa = minMantissa, exponent = exponent a + 1\<rparr>)"
    proof -
      have "?m \<noteq> 0" "\<not> ?m < 0" "\<not> minMantissa < 0" by (simp_all add: IOU_consts)
      then show ?thesis using up down r(3,4)
        unfolding exact_make_def exact_normalize_def Let_def IOUAmount.simps True by auto
    qed
    moreover have "real_of_int minMantissa * 10 powi (exponent a + 1) = IOU_val a + 10 powi exponent a"
      by (simp add: True IOU_val_def powi10_add IOU_consts)
    ultimately show ?thesis using True r by (cases a) (auto simp: IOU_wf_def IOU_val_def IOU_consts)
  qed
qed

lemma make_succ:
  assumes wf: "IOU_wf a" and pos: "0 < mantissa a"
  shows "case IOU_make (mantissa a + 1) (exponent a) of
     Inl _ \<Rightarrow> a = \<lparr>mantissa = maxMantissa, exponent = maxExponent\<rparr>
   | Inr r \<Rightarrow> IOU_wf r \<and> exponent a \<le> exponent r \<and> IOU_val r = IOU_val a + 10 powi exponent a"
proof -
  have "mantissa a + 1 \<noteq> int64_min" using pos by (simp add: int64_min_def)
  from make_exact[OF this] exact_succ[OF assms] show ?thesis by simp
qed

lemma neg_value:
  assumes "IOU_wf a"
  obtains b where "IOU_neg a = Inr b" "IOU_wf b" "IOU_val b = - IOU_val a" "exponent b = exponent a"
    "mantissa b = - mantissa a"
proof (cases "mantissa a = 0")
  case True
  then show ?thesis using that[of IOU_zero] assms by (simp add: IOU_wf_mantissa_zero)
next
  case False
  show ?thesis
    by (rule that[OF neg_wf[OF assms False]])
      (use assms False in \<open>auto simp: IOU_wf_def IOU_zero_def IOU_val_def\<close>)
qed

lemma make_pred:
  assumes wf: "IOU_wf a" and neg: "mantissa a < 0"
  shows "case IOU_make (mantissa a - 1) (exponent a) of
     Inl _ \<Rightarrow> a = \<lparr>mantissa = - maxMantissa, exponent = maxExponent\<rparr>
   | Inr r \<Rightarrow> IOU_wf r \<and> exponent a \<le> exponent r \<and> IOU_val r = IOU_val a - 10 powi exponent a"
proof -
  obtain b where b: "IOU_neg a = Inr b" "IOU_wf b" "IOU_val b = - IOU_val a" "exponent b = exponent a"
    "mantissa b = - mantissa a" by (rule neg_value[OF wf])
  have small: "\<bar>mantissa a\<bar> \<le> maxMantissa" by (rule wf_mantissa_le[OF wf])
  have "IOU_make (mantissa a - 1) (exponent a) = exact_make (mantissa a - 1) (exponent a)"
    "IOU_make (mantissa b + 1) (exponent b) = exact_make (mantissa b + 1) (exponent b)"
    using small b(5) by (intro make_exact small_not_min; simp add: maxMantissa_def abs_if split: if_splits)+
  then have mk: "IOU_make (mantissa a - 1) (exponent a) = bindE (IOU_make (mantissa b + 1) (exponent b)) IOU_neg"
    using make_neg[of "mantissa b + 1" "exponent b"] b(4,5) by simp
  note s = make_succ[OF b(2)]
  show ?thesis
  proof (cases "IOU_make (mantissa b + 1) (exponent b)")
    case (Inl x)
    then show ?thesis using s mk b neg by (cases a) (simp add: IOU_consts)
  next
    case (Inr c)
    then have c: "IOU_wf c" "exponent b \<le> exponent c" "IOU_val c = IOU_val b + 10 powi exponent b" using s neg b(5) by simp_all
    obtain r where "IOU_neg c = Inr r" "IOU_wf r" "IOU_val r = - IOU_val c" "exponent r = exponent c"
      by (rule neg_value[OF c(1)])
    then show ?thesis using mk Inr b c by simp
  qed
qed

text \<open>
  Rounding away from zero, of a result \<open>a\<close> that lies below \<open>y\<close> in magnitude by less than a unit
  in the last place.
\<close>

lemma round_away:
  assumes wf: "IOU_wf a" and nz: "a \<noteq> IOU_zero"
    and y: "sgn (mantissa a) = (if neg then -1 else 1)" "y = (if neg then - \<bar>y\<bar> else \<bar>y\<bar>)"
      "\<bar>IOU_val a\<bar> \<le> \<bar>y\<bar>" "\<bar>y\<bar> < \<bar>IOU_val a\<bar> + 10 powi exponent a"
  shows "mulRatio_ok y (mulRatio_round hasRem roundUp neg a)"
proof -
  have "10 powi (-81) \<le> \<bar>IOU_val a\<bar>"
  proof -
    have "minMantissa \<le> \<bar>mantissa a\<bar>" "minExponent \<le> exponent a" using wf nz by (auto simp: IOU_wf_def)
    then have "real_of_int minMantissa * 10 powi minExponent \<le> \<bar>IOU_val a\<bar>"
      unfolding abs_val by (intro mult_mono powi10_mono) simp_all
    then show ?thesis by (simp add: IOU_consts)
  qed
  then have big: "\<not> \<bar>y\<bar> < 10 powi (-81)" using y(3) by linarith
  have top: "\<bar>IOU_val \<lparr>mantissa = maxMantissa, exponent = maxExponent\<rparr>\<bar> = 10 powi 96 - 10 powi 80"
    "\<bar>IOU_val \<lparr>mantissa = - maxMantissa, exponent = maxExponent\<rparr>\<bar> = 10 powi 96 - 10 powi 80"
    by (simp_all add: IOU_val_def IOU_consts)
  have ok: "mulRatio_ok y (Inr r)" if "IOU_wf r" "exponent a \<le> exponent r" "\<bar>y - IOU_val r\<bar> \<le> 10 powi exponent a" for r
    using that powi10_mono[OF that(2)] unfolding mulRatio_ok_def sum.case if_not_P[OF big] by linarith
  consider "hasRem" "roundUp" "\<not> neg" | "hasRem" "\<not> roundUp" "neg" | "\<not> hasRem \<or> roundUp = neg" by blast
  then show ?thesis
  proof cases
    case 1
    then have pos: "0 < mantissa a" using y(1) by (simp add: sgn_if split: if_splits)
    then have "0 \<le> IOU_val a" "0 \<le> y" using 1 y(2) by (simp_all add: IOU_val_def)
    then show ?thesis using 1 pos make_succ[OF wf pos] y(3,4) top(1) ok
      by (cases "IOU_make (mantissa a + 1) (exponent a)") (auto simp: mulRatio_round_def mulRatio_ok_def[of y "Inl _"])
  next
    case 2
    then have neg: "mantissa a < 0" using y(1) by (simp add: sgn_if split: if_splits)
    then have "IOU_val a \<le> 0" "y \<le> 0" using 2 y(2) by (simp_all add: IOU_val_def mult_le_0_iff)
    then show ?thesis using 2 neg make_pred[OF wf neg] y(3,4) top(2) ok
      by (cases "IOU_make (mantissa a - 1) (exponent a)") (auto simp: mulRatio_round_def mulRatio_ok_def[of y "Inl _"])
  next
    case 3
    have "sgn (IOU_val a) = (if neg then -1 else 1)" using y(1) by (simp add: sgn_IOU_val)
    then have "\<bar>y - IOU_val a\<bar> \<le> 10 powi exponent a"
      using y(2-4) by (auto simp: sgn_if split: if_splits)
    then show ?thesis using 3 wf ok by (auto simp: mulRatio_round_def)
  qed
qed

lemma round_zero:
  assumes y: "y = (if neg then - \<bar>y\<bar> else \<bar>y\<bar>)" "\<bar>y\<bar> < 10 powi (-81)"
  shows "mulRatio_ok y (mulRatio_round hasRem roundUp neg IOU_zero)"
proof -
  have wf: "IOU_wf \<lparr>mantissa = minMantissa, exponent = minExponent\<rparr>"
    "IOU_wf \<lparr>mantissa = - minMantissa, exponent = minExponent\<rparr>" by (simp_all add: IOU_wf_def IOU_consts)
  note mk = wf[THEN IOU_normalize_wf, folded IOU_make_def]
  have v: "IOU_val \<lparr>mantissa = minMantissa, exponent = minExponent\<rparr> = 10 powi (-81)"
    "IOU_val \<lparr>mantissa = - minMantissa, exponent = minExponent\<rparr> = - (10 powi (-81))"
    by (simp_all add: IOU_val_def IOU_consts)
  have "\<bar>y - IOU_val r\<bar> \<le> 10 powi (-81) \<and> IOU_wf r"
    if "mulRatio_round hasRem roundUp neg IOU_zero = Inr r" for r
    using that y wf v by (auto simp: mulRatio_round_def mk IOU_zero_def[THEN arg_cong, of mantissa] simp del: power_int_minus split: if_splits)
  moreover have "\<exists>r. mulRatio_round hasRem roundUp neg IOU_zero = Inr r"
    by (auto simp: mulRatio_round_def mk IOU_zero_def)
  ultimately show ?thesis using y(2) by (auto simp: mulRatio_ok_def)
qed

lemma mulRatio_stages:
  fixes num :: u32
  assumes wf: "IOU_wf amt" and den: "den \<noteq> 0"
  defines "y \<equiv> IOU_val amt * real (unat num) / real (unat den)"
  obtains s e hasRem where
    "IOU_mulRatio amt num den roundUp = bindE (exact_make s e) (mulRatio_round hasRem roundUp (mantissa amt < 0))"
    "of_int \<bar>s\<bar> * 10 powi e \<le> \<bar>y\<bar>" "\<bar>y\<bar> < of_int (\<bar>s\<bar> + 1) * 10 powi e"
    "minMantissa \<le> \<bar>s\<bar> \<or> \<bar>y\<bar> = of_int \<bar>s\<bar> * 10 powi e"
    "s = 0 \<or> sgn s = (if mantissa amt < 0 then -1 else 1)"
proof -
  let ?d = "unat den" and ?neg = "mantissa amt < 0"
  define mul where "mul = nat \<bar>mantissa amt\<bar> * unat num"
  have d: "0 < ?d" using den by (simp add: unat_gt_0)
  obtain low rem e where div: "mulRatio_divide mul ?d (exponent amt) = (low, rem, e)" by (metis prod_cases3)
  obtain low' e' hasRem where shr: "mulRatio_shrink low rem e = (low', e', hasRem)" by (metis prod_cases3)
  define s where "s = (if ?neg then - int low' else int low')"
  have s: "\<bar>s\<bar> = int low'" by (simp add: s_def)
  have abs: "(if ?neg then neg64 (mantissa amt) else Inr (mantissa amt)) = Inr \<bar>mantissa amt\<bar>" using wf_not_min[OF wf] by simp
  have "mul < 10 ^ 16 * 2 ^ 32"
    unfolding mul_def using wf_mantissa_le[OF wf] unsigned_less[of num] by (intro mult_strict_mono) (auto simp: maxMantissa_def nat_less_iff)
  then have "int low' \<le> 10 ^ 18" using shrink_bound[OF shr divide_bound[OF div d]] by simp
  then have "\<bar>s\<bar> \<le> 10 ^ 18" by (simp add: s)
  then have mk: "IOU_make s e' = exact_make s e'" by (rule make_exact[OF small_not_min])
  have "IOU_mulRatio amt num den roundUp = bindE (IOU_make s e') (mulRatio_round hasRem roundUp ?neg)"
    unfolding IOU_mulRatio_def Let_def abs bindE_Inr mul_def[symmetric] div using den shr by (simp add: s_def)
  then have "IOU_mulRatio amt num den roundUp = bindE (exact_make s e') (mulRatio_round hasRem roundUp ?neg)" unfolding mk .
  moreover have y: "\<bar>y\<bar> = real (low * ?d + rem) / real ?d * 10 powi e"
    using divide_exact(1)[OF div d] d
    by (simp add: y_def abs_mult abs_val mul_def field_simps del: of_nat_unat)
  note sh = shrink_exact[OF shr divide_exact(2)[OF div d], folded y]
  have "minMantissa \<le> int low' \<or> \<bar>y\<bar> = real low' * 10 powi e'"
  proof (cases "hasRem")
    case True
    have "rem = 0 \<or> 10 ^ 17 \<le> low"
    proof (cases "mul = 0")
      case False
      then have "minMantissa \<le> \<bar>mantissa amt\<bar>" "1 \<le> unat num" using wf by (auto simp: mul_def IOU_wf_def IOU_zero_def)
      then have "nat minMantissa * 1 \<le> mul" unfolding mul_def by (intro mult_le_mono) auto
      moreover have "?d < 2 ^ 32" using unsigned_less[of den] by simp
      ultimately have "?d \<le> mul" by (simp add: minMantissa_def)
      then show ?thesis using divide_exact(3)[OF div d] by blast
    qed (use div in \<open>simp add: mulRatio_divide_def\<close>)
    then have "10 ^ 17 \<le> low'" using sh(4) True by simp
    then show ?thesis by (simp add: minMantissa_def)
  qed (use sh(3) in simp)
  moreover have "s = 0 \<or> sgn s = (if ?neg then -1 else 1)" by (auto simp: s_def)
  ultimately show thesis
    by (intro that[of s e' hasRem]) (use sh(1,2) in \<open>simp_all add: s add.commute\<close>)
qed

lemma lower_bound_index_eq:
  assumes "i < 30" "v \<le> 10 ^ i" "i = 0 \<or> 10 ^ (i - 1) < v"
  shows "lower_bound_index v = i"
proof (rule antisym)
  show "lower_bound_index v \<le> i" using lower_bound_index_below[of i v] assms(2) by linarith
  show "i \<le> lower_bound_index v"
  proof (rule ccontr)
    assume lt: "\<not> i \<le> lower_bound_index v"
    then have "v \<le> 10 ^ lower_bound_index v" using lower_bound_index_ge assms(1) by simp
    also have "\<dots> \<le> 10 ^ (i - 1)" using lt by (intro power_increasing) auto
    finally show False using assms(3) lt by simp
  qed
qed

section \<open>Properties\<close>

text \<open>
  C23: Constructing an amount from any 64-bit mantissa and any exponent (\<open>normalize\<close>).  The least mantissa is negated, which
  overflows.  Every other one throws an overflow error exactly from \<open>10 ^ 96\<close> on, gives zero only below
  \<open>10 ^ -81\<close>, and otherwise gives a normalized amount of the same sign that is the value truncated
  towards zero by less than one unit in the last place.  Normalizing the result again changes nothing.
\<close>

theorem IOU_make_spec:
  fixes w :: u64
  shows "case IOU_make (sint w) e of
     Inl x \<Rightarrow> (if sint w = - (2 ^ 63) then x = SignedOverflow
       else 10 powi 96 \<le> \<bar>of_int (sint w) * (10::real) powi e\<bar> \<and> (\<exists>msg. x = OverflowError msg))
   | Inr r \<Rightarrow> sint w \<noteq> - (2 ^ 63) \<and> \<bar>of_int (sint w) * (10::real) powi e\<bar> < 10 powi 96 \<and> IOU_wf r \<and> IOU_normalize r = Inr r \<and>
       (if r = IOU_zero then \<bar>of_int (sint w) * (10::real) powi e\<bar> < 10 powi (-81)
        else sgn (mantissa r) = sgn (sint w) \<and>
          0 \<le> \<bar>of_int (sint w) * 10 powi e\<bar> - \<bar>IOU_val r\<bar> \<and>
          \<bar>of_int (sint w) * 10 powi e\<bar> - \<bar>IOU_val r\<bar> < 10 powi exponent r)"
proof (cases "sint w = int64_min")
  case True
  then show ?thesis using normalize_min[of "\<lparr>mantissa = sint w, exponent = e\<rparr>"] by (simp add: IOU_make_def int64_min_def)
next
  case False
  define m where "m = sint w"
  have m: "m \<noteq> int64_min" "m \<noteq> - (2 ^ 63)" using False by (simp_all add: m_def int64_min_def)
  have v: "of_int m * 10 powi e = IOU_val \<lparr>mantissa = m, exponent = e\<rparr>" by (simp add: IOU_val_def)
  have "\<exists>msg. x = OverflowError msg" if "exact_make m e = Inl x" for x
    using that by (rule exact_throws)
  then show ?thesis
    using normalize_spec[of "\<lparr>mantissa = m, exponent = e\<rparr>"] IOU_normalize_wf m(2)
    unfolding m_def[symmetric] make_exact[OF m(1)] unfolding exact_make_def v by (auto simp: sgn_IOU_val split: sum.splits)
qed

text \<open>
  On normalized amounts \<open>operator<\<close> is the order of the numbers they stand for, and two
  amounts are equal exactly when the numbers are.
\<close>

theorem IOU_less_value:
  assumes "IOU_wf a" "IOU_wf b"
  shows "(IOU_less a b \<longleftrightarrow> IOU_val a < IOU_val b) \<and> (a = b \<longleftrightarrow> IOU_val a = IOU_val b)"
  by (rule less_value[OF assms])

theorem IOU_less_value_witness:
  "IOU_less \<lparr>mantissa = -2500000000000000, exponent = -17\<rparr> \<lparr>mantissa = 1500000000000000, exponent = -15\<rparr>"
proof -
  have "IOU_wf \<lparr>mantissa = 1500000000000000, exponent = -15\<rparr>" "IOU_wf \<lparr>mantissa = -2500000000000000, exponent = -17\<rparr>"
    by (simp_all add: IOU_wf_def IOU_consts)
  from IOU_less_value[OF this(2,1)] show ?thesis by (simp add: IOU_val_def)
qed

text \<open>
  C25: The sum of two normalized amounts is normalized and off from the exact sum by less than
  eleven units of the larger exponent, or it is zero below \<open>2 * 10 ^ -81\<close>; it throws only when
  the exact sum reaches \<open>10 ^ 96\<close> up to one such unit.
\<close>

theorem IOU_add_accurate:
  assumes "IOU_wf a" "IOU_wf b"
  shows "IOU_sum_ok (IOU_val a + IOU_val b) (max (exponent a) (exponent b)) (IOU_add a b)"
proof (cases "a = IOU_zero \<or> b = IOU_zero")
  case True
  then show ?thesis using assms by (auto simp: IOU_add_unfold IOU_sum_ok_def)
next
  case False
  define e where "e = max (exponent a) (exponent b)"
  define s where "s = IOU_aligned_sum a b"
  have err: "\<bar>IOU_val a + IOU_val b - of_int s * 10 powi e\<bar> < 10 powi e"
    using aligned_sum_error by (simp add: e_def s_def)
  have s: "\<bar>s\<bar> < 10 ^ 17" using aligned_sum_wf[OF assms] by (simp add: s_def maxMantissa_def)
  show ?thesis
  proof (cases "\<bar>s\<bar> \<le> 10")
    case True
    then have "\<bar>real_of_int s\<bar> \<le> 10" by linarith
    then have "\<bar>of_int s * (10::real) powi e\<bar> \<le> 10 * 10 powi e" by (simp add: abs_mult)
    then have "\<bar>IOU_val a + IOU_val b\<bar> < 11 * 10 powi e" using err by linarith
    then show ?thesis using True False by (simp add: IOU_add_unfold IOU_sum_ok_def flip: e_def s_def)
  next
    case big: False
    then have add: "IOU_add a b = exact_make s e" using False aligned_sum_make[OF assms] by (simp add: IOU_add_unfold e_def s_def)
    show ?thesis using make_approx[OF _ s err] big unfolding add e_def[symmetric] by simp
  qed
qed

theorem IOU_add_accurate_witness:
  "IOU_sum_ok (1.5 - 0.025) (-15)
     (IOU_add \<lparr>mantissa = 1500000000000000, exponent = -15\<rparr> \<lparr>mantissa = -2500000000000000, exponent = -17\<rparr>)"
proof -
  have "IOU_wf \<lparr>mantissa = 1500000000000000, exponent = -15\<rparr>" "IOU_wf \<lparr>mantissa = -2500000000000000, exponent = -17\<rparr>"
    by (simp_all add: IOU_wf_def IOU_consts)
  from IOU_add_accurate[OF this] show ?thesis by (simp add: IOU_val_def)
qed

text \<open>
  On normalized amounts addition is commutative, an amount minus itself is zero, and
  swapping the operands of a subtraction negates the result, errors included.
\<close>

theorem IOU_add_group:
  assumes "IOU_wf a" "IOU_wf b"
  shows "IOU_add a b = IOU_add b a \<and> IOU_sub a a = Inr IOU_zero \<and> IOU_sub b a = bindE (IOU_sub a b) IOU_neg"
proof (intro conjI)
  show "IOU_add a b = IOU_add b a"
    by (auto simp: IOU_add_unfold aligned_sum_commute[of b a] max.commute)
  have z: "x\<lparr>mantissa := - mantissa x\<rparr> \<noteq> IOU_zero" if "x \<noteq> IOU_zero" for x
    using that by (cases x) (auto simp: IOU_zero_def)
  have nz: "IOU_neg x = Inr (x\<lparr>mantissa := - mantissa x\<rparr>)" if "IOU_wf x" "x \<noteq> IOU_zero" for x
    using that neg_wf IOU_wf_mantissa_zero by blast
  show "IOU_sub a a = Inr IOU_zero"
    using nz[OF assms(1)] z[of a]
    by (cases "a = IOU_zero") (auto simp: IOU_sub_def IOU_add_unfold IOU_aligned_sum_def align_neg align_ge)
  consider "a = IOU_zero" | "b = IOU_zero" | "a \<noteq> IOU_zero" "b \<noteq> IOU_zero" by blast
  then show "IOU_sub b a = bindE (IOU_sub a b) IOU_neg"
  proof cases
    case 3
    then show ?thesis
      using nz[OF assms(1)] nz[OF assms(2)] z[of a] z[of b] aligned_sum_neg[of b a] make_neg
        aligned_sum_make[OF assms(1) neg_is_wf[OF assms(2) 3(2)]] aligned_sum_make[OF assms(2) neg_is_wf[OF assms(1) 3(1)]]
      by (simp add: IOU_sub_def IOU_add_unfold max.commute)
  qed (use assms neg_neg in \<open>simp_all add: IOU_sub_def bindE_Inr_right\<close>)
qed


theorem IOU_add_group_witness:
  "IOU_add \<lparr>mantissa = 1500000000000000, exponent = -15\<rparr> \<lparr>mantissa = -2500000000000000, exponent = -17\<rparr> = IOU_add \<lparr>mantissa = -2500000000000000, exponent = -17\<rparr> \<lparr>mantissa = 1500000000000000, exponent = -15\<rparr>"
proof -
  have "IOU_wf \<lparr>mantissa = 1500000000000000, exponent = -15\<rparr>" "IOU_wf \<lparr>mantissa = -2500000000000000, exponent = -17\<rparr>"
    by (simp_all add: IOU_wf_def IOU_consts)
  from IOU_add_group[OF this] show ?thesis by blast
qed

text \<open>
  C26: \<open>mulRatio\<close> of a normalized amount by a ratio with a non-zero denominator is normalized and
  off from the exact product by at most one unit in the last place of the result, or by at most
  \<open>10 ^ -81\<close> when the product is below that; it throws only for products from
  \<open>10 ^ 96 - 10 ^ 80\<close> on.
\<close>

theorem IOU_mulRatio_accurate:
  assumes wf: "IOU_wf amt" and den: "den \<noteq> 0"
  shows "mulRatio_ok (IOU_val amt * real (unat num) / real (unat den)) (IOU_mulRatio amt num den roundUp)"
proof -
  define y where "y = IOU_val amt * real (unat num) / real (unat den)"
  let ?neg = "mantissa amt < 0"
  obtain s e hasRem where st:
    "IOU_mulRatio amt num den roundUp = bindE (exact_make s e) (mulRatio_round hasRem roundUp ?neg)"
    "of_int \<bar>s\<bar> * 10 powi e \<le> \<bar>y\<bar>" "\<bar>y\<bar> < of_int (\<bar>s\<bar> + 1) * 10 powi e"
    "minMantissa \<le> \<bar>s\<bar> \<or> \<bar>y\<bar> = of_int \<bar>s\<bar> * 10 powi e"
    "s = 0 \<or> sgn s = (if ?neg then -1 else 1)"
    unfolding y_def by (rule mulRatio_stages[OF wf den])
  have y: "y = (if ?neg then - \<bar>y\<bar> else \<bar>y\<bar>)"
  proof -
    have q: "0 \<le> real (unat num) / real (unat den)" by (intro divide_nonneg_nonneg of_nat_0_le_iff)
    have v: "?neg \<Longrightarrow> IOU_val amt \<le> 0" "\<not> ?neg \<Longrightarrow> 0 \<le> IOU_val amt"
      by (simp_all add: IOU_val_def mult_le_0_iff)
    have "y = IOU_val amt * (real (unat num) / real (unat den))" by (simp add: y_def)
    then have "?neg \<Longrightarrow> y \<le> 0" "\<not> ?neg \<Longrightarrow> 0 \<le> y"
      using mult_nonpos_nonneg[OF v(1) q] mult_nonneg_nonneg[OF v(2) q] by simp_all
    then show ?thesis by auto
  qed
  note br = make_bracket[OF refl st(2-4)]
  show ?thesis
  proof (cases "exact_make s e")
    case (Inl x)
    then show ?thesis using br unfolding y_def[symmetric] st(1) by (simp add: mulRatio_ok_def)
  next
    case (Inr r)
    then have wf: "IOU_wf r" using normalize_result_wf by (simp add: exact_make_def)
    show ?thesis
    proof (cases "r = IOU_zero")
      case True
      then have "\<bar>y\<bar> < 10 powi (-81)" using br Inr by simp
      then show ?thesis using round_zero[OF y] Inr True unfolding y_def[symmetric] st(1) by simp
    next
      case False
      then have b: "sgn (mantissa r) = sgn s" "\<bar>IOU_val r\<bar> \<le> \<bar>y\<bar>" "\<bar>y\<bar> < \<bar>IOU_val r\<bar> + 10 powi exponent r"
        using br Inr by simp_all
      then have "s \<noteq> 0" using False IOU_wf_mantissa_zero[OF wf] by (auto simp: sgn_if split: if_splits)
      then show ?thesis using round_away[OF wf False _ y b(2,3)] b(1) st(5) Inr unfolding y_def[symmetric] st(1) by simp
    qed
  qed
qed

theorem IOU_mulRatio_accurate_witness:
  "mulRatio_ok (1.5 * real (unat (7::u32)) / real (unat (3::u32)))
     (IOU_mulRatio \<lparr>mantissa = 1500000000000000, exponent = -15\<rparr> 7 3 True)"
proof -
  have wf: "IOU_wf \<lparr>mantissa = 1500000000000000, exponent = -15\<rparr>" by (simp add: IOU_wf_def IOU_consts)
  have v: "IOU_val \<lparr>mantissa = 1500000000000000, exponent = -15\<rparr> = 1.5" by (simp add: IOU_val_def)
  have "(3::u32) \<noteq> 0" by simp
  from IOU_mulRatio_accurate[OF wf this, of 7 True] show ?thesis unfolding v .
qed

text \<open>
  Asking \<open>mulRatio\<close> to round up does not always give an amount at least as large as the
  exact product: digits that only the final normalization drops are not counted as a remainder.
\<close>

theorem IOU_mulRatio_roundUp_below:
  "\<exists>amt num den r. IOU_wf amt \<and> IOU_mulRatio amt num den True = Inr r \<and>
     IOU_val r < IOU_val amt * real (unat num) / real (unat den)"
proof -
  let ?a = "\<lparr>mantissa = 1000000000000001, exponent = 0\<rparr>"
  have l: "log10Ceil 1500000000000001 = 16" "log10Ceil 150000000000000150 = 18"
    using lower_bound_index_eq[of 16 1500000000000001] lower_bound_index_eq[of 18 150000000000000150]
    by (simp_all add: log10Ceil_def)
  have d: "mulRatio_divide 3000000000000003 2 0 = (150000000000000150, 0, -2)"
    by (simp add: mulRatio_divide_def Let_def l fl64_value powerTable_nth)
  have s: "mulRatio_shrink 150000000000000150 0 (-2) = (150000000000000150, -2, False)"
    by (simp add: mulRatio_shrink_def Let_def l fl64_value)
  have "IOU_make 150000000000000150 (-2) = Inr \<lparr>mantissa = 1500000000000001, exponent = 0\<rparr>"
    by (simp add: IOU_make_def IOU_normalize_def Let_def IOU_scaleUp.simps IOU_scaleDown.simps IOU_consts)
  then have "IOU_mulRatio ?a 3 2 True = Inr \<lparr>mantissa = 1500000000000001, exponent = 0\<rparr>"
    using d s by (simp add: IOU_mulRatio_def mulRatio_round_def)
  moreover have "IOU_val \<lparr>mantissa = 1500000000000001, exponent = 0\<rparr> < IOU_val ?a * real (unat (3::u32)) / real (unat (2::u32))"
    by (simp add: IOU_val_def del: of_nat_unat)
  moreover have "IOU_wf ?a" by (simp add: IOU_wf_def IOU_consts)
  ultimately show ?thesis by blast
qed

end
