(* ===== verification/Amount.thy ===== *)
theory Amount
  imports Serializer IOU
begin

text \<open>
  Ledger amounts: \<^verbatim>\<open>protocol/STAmount.h\<close>, \<^verbatim>\<open>protocol/impl/STAmount.cpp\<close>, the issue of an amount
  (\<^verbatim>\<open>protocol/Issue.h\<close>, \<^verbatim>\<open>protocol/impl/Issue.cpp\<close>), native amounts (\<^verbatim>\<open>protocol/SFCAmount.h\<close>)
  and transfer rates (\<^verbatim>\<open>protocol/impl/Rate2.cpp\<close>).

  An amount is an unsigned 64-bit mantissa, a decimal exponent, a sign and an issue; the mantissa
  is a \<open>64 word\<close> because \<open>canonicalize\<close> can wrap it.  The field name of the base class
  \<open>STBase\<close> is not part of the value and is left out.  160-bit identifiers are the twenty bytes the
  serializer writes.  The lemmas show that canonical amounts are closed under the operations, that
  the wire format is a canonical encoding, and that issued amounts compute what \<open>IOUAmount\<close> does.
\<close>

section \<open>Issues\<close>

type_synonym uint160 = Blob

definition zero160 :: uint160 where
  "zero160 = replicate 20 0"

definition one160 :: uint160 where
  "one160 = replicate 19 0 @ [1]"

record Issue =
  currency :: uint160
  account :: uint160

definition isSFC :: "uint160 \<Rightarrow> bool" where
  "isSFC c = (c = zero160)"

definition sfcIssue :: Issue where
  "sfcIssue = \<lparr>currency = zero160, account = zero160\<rparr>"

definition noIssue :: Issue where
  "noIssue = \<lparr>currency = one160, account = one160\<rparr>"

definition isConsistent :: "Issue \<Rightarrow> bool" where
  "isConsistent ac = (isSFC (currency ac) = isSFC (account ac))"

section \<open>The amount and its constants\<close>

record STAmount =
  mIssue :: Issue
  mValue :: u64
  mOffset :: int
  mIsNative :: bool
  mIsNegative :: bool

definition cMinOffset :: int where "cMinOffset = -96"
definition cMaxOffset :: int where "cMaxOffset = 80"
definition cMinValue :: u64 where "cMinValue = 1000000000000000"
definition cMaxValue :: u64 where "cMaxValue = 9999999999999999"
definition cMaxNativeN :: u64 where "cMaxNativeN = 100000000000000000"
definition cNotNative :: u64 where "cNotNative = 0x8000000000000000"
definition cPosNative :: u64 where "cPosNative = 0x4000000000000000"
definition tenTo14 :: u64 where "tenTo14 = 100000000000000"
definition tenTo14m1 :: u64 where "tenTo14m1 = tenTo14 - 1"
definition tenTo17 :: u64 where "tenTo17 = tenTo14 * 1000"

definition ST_signum :: "STAmount \<Rightarrow> int" where
  "ST_signum a = (if mValue a \<noteq> 0 then if mIsNegative a then -1 else 1 else 0)"

text \<open>\<open>a == beast::zero\<close> compares the sign.\<close>

definition ST_isZero :: "STAmount \<Rightarrow> bool" where
  "ST_isZero a = (ST_signum a = 0)"

definition isLegalNet :: "STAmount \<Rightarrow> bool" where
  "isLegalNet a = (\<not> mIsNative a \<or> mValue a \<le> cMaxNativeN)"

section \<open>\<open>canonicalize\<close>\<close>

function ST_nativeDown :: "u64 \<Rightarrow> int \<Rightarrow> u64 \<times> int" where
  "ST_nativeDown v off = (if off < 0 then ST_nativeDown (v div 10) (off + 1) else (v, off))"
  by pat_completeness auto
termination
  by (relation "measure (\<lambda>(v, off). nat (- off))") auto

function ST_nativeUp :: "u64 \<Rightarrow> int \<Rightarrow> u64 \<times> int" where
  "ST_nativeUp v off = (if off > 0 then ST_nativeUp (v * 10) (off - 1) else (v, off))"
  by pat_completeness auto
termination
  by (relation "measure (\<lambda>(v, off). nat off)") auto

function ST_scaleUp :: "u64 \<Rightarrow> int \<Rightarrow> u64 \<times> int" where
  "ST_scaleUp v off =
     (if v < cMinValue \<and> off > cMinOffset then ST_scaleUp (v * 10) (off - 1) else (v, off))"
  by pat_completeness auto
termination
  by (relation "measure (\<lambda>(v, off). nat (off - cMinOffset))") auto

function ST_scaleDown :: "u64 \<Rightarrow> int \<Rightarrow> (u64 \<times> int) res" where
  "ST_scaleDown v off =
     (if v > cMaxValue then
        if off \<ge> cMaxOffset then Inl (RuntimeError ''value overflow'')
        else ST_scaleDown (v div 10) (off + 1)
      else Inr (v, off))"
  by pat_completeness auto
termination
  by (relation "measure (\<lambda>(v, off). nat (cMaxOffset - off))") auto

declare ST_nativeDown.simps [simp del] ST_nativeUp.simps [simp del]
  ST_scaleUp.simps [simp del] ST_scaleDown.simps [simp del]

definition ST_canonicalize :: "STAmount \<Rightarrow> STAmount res" where
  "ST_canonicalize a =
     (if isSFC (currency (mIssue a)) then
        if mValue a = 0 then Inr (a\<lparr>mIsNative := True, mOffset := 0, mIsNegative := False\<rparr>)
        else
          let (v, off) = ST_nativeDown (mValue a) (mOffset a);
              (v, off) = ST_nativeUp v off
          in if v > cMaxNativeN then Inl (RuntimeError ''Native currency amount out of range'')
             else Inr (a\<lparr>mIsNative := True, mValue := v, mOffset := off\<rparr>)
      else if mValue a = 0
        then Inr (a\<lparr>mIsNative := False, mOffset := -100, mIsNegative := False\<rparr>)
      else
        let (v, off) = ST_scaleUp (mValue a) (mOffset a)
        in bindE (ST_scaleDown v off) (\<lambda>(v, off).
           if off < cMinOffset \<or> v < cMinValue
             then Inr (a\<lparr>mIsNative := False, mValue := 0, mIsNegative := False, mOffset := -100\<rparr>)
           else if off > cMaxOffset then Inl (RuntimeError ''value overflow'')
           else Inr (a\<lparr>mIsNative := False, mValue := v, mOffset := off\<rparr>)))"

section \<open>Constructors and conversions\<close>

text \<open>
  \<open>ST_make\<close> is the constructor from an issue, a mantissa, an exponent and a sign; \<open>mIsNative\<close> is
  not initialized before \<open>canonicalize\<close> sets it.  \<open>ST_native\<close> and \<open>ST_drops\<close> are the native
  constructors from an unsigned and a signed number of drops, which do not canonicalize;
  \<open>ST_unchecked\<close> is the constructor tagged \<open>unchecked\<close>.
\<close>

definition ST_unchecked :: "Issue \<Rightarrow> u64 \<Rightarrow> int \<Rightarrow> bool \<Rightarrow> bool \<Rightarrow> STAmount" where
  "ST_unchecked issue m e native negative =
     \<lparr>mIssue = issue, mValue = m, mOffset = e, mIsNative = native, mIsNegative = negative\<rparr>"

definition ST_make :: "Issue \<Rightarrow> u64 \<Rightarrow> int \<Rightarrow> bool \<Rightarrow> STAmount res" where
  "ST_make issue m e negative = ST_canonicalize (ST_unchecked issue m e False negative)"

definition ST_set :: "int \<Rightarrow> STAmount \<Rightarrow> STAmount" where
  "ST_set v a =
     (if v < 0 then a\<lparr>mIsNegative := True, mValue := word_of_int (- v)\<rparr>
      else a\<lparr>mIsNegative := False, mValue := word_of_int v\<rparr>)"

definition ST_drops :: "int \<Rightarrow> STAmount" where
  "ST_drops m = ST_set m (ST_unchecked sfcIssue 0 0 True False)"

definition ST_native :: "u64 \<Rightarrow> bool \<Rightarrow> STAmount" where
  "ST_native m negative = ST_unchecked sfcIssue m 0 True negative"

definition ST_native_unnamed :: "u64 \<Rightarrow> bool \<Rightarrow> STAmount" where
  "ST_native_unnamed m negative = ST_unchecked sfcIssue m 0 True (m \<noteq> 0 \<and> negative)"

definition ST_make_signed :: "Issue \<Rightarrow> int \<Rightarrow> int \<Rightarrow> STAmount res" where
  "ST_make_signed issue m e = ST_canonicalize (ST_set m (ST_unchecked issue 0 e False False))"

definition ST_of_iou :: "IOUAmount \<Rightarrow> Issue \<Rightarrow> STAmount res" where
  "ST_of_iou a issue =
     (let neg = IOU_less a IOU_zero
      in ST_canonicalize (ST_unchecked issue
           (word_of_int (if neg then - mantissa a else mantissa a)) (exponent a) False neg))"

definition ST_of_sfc :: "int \<Rightarrow> STAmount res" where
  "ST_of_sfc drops =
     ST_canonicalize (ST_unchecked sfcIssue
       (word_of_int (if drops < 0 then - drops else drops)) 0 True (drops < 0))"

definition ST_sfc :: "STAmount \<Rightarrow> int res" where
  "ST_sfc a =
     (if \<not> mIsNative a then Inl (LogicError ''Cannot return non-native STAmount as SFCAmount'')
      else signed64 (mIsNegative a) (mValue a))"

definition ST_iou :: "STAmount \<Rightarrow> IOUAmount res" where
  "ST_iou a =
     (if mIsNative a then Inl (LogicError ''Cannot return native STAmount as IOUAmount'')
      else bindE (signed64 (mIsNegative a) (mValue a)) (\<lambda>m. IOU_make m (mOffset a)))"

definition ST_setIssue :: "Issue \<Rightarrow> STAmount \<Rightarrow> STAmount" where
  "ST_setIssue issue a = a\<lparr>mIssue := issue, mIsNative := isSFC (currency issue)\<rparr>"

definition ST_setIssuer :: "uint160 \<Rightarrow> STAmount \<Rightarrow> STAmount" where
  "ST_setIssuer uIssuer a = ST_setIssue ((mIssue a)\<lparr>account := uIssuer\<rparr>) a"

definition ST_clear :: "STAmount \<Rightarrow> STAmount" where
  "ST_clear a = a\<lparr>mOffset := (if mIsNative a then 0 else -100), mValue := 0, mIsNegative := False\<rparr>"

definition ST_clear_issue :: "Issue \<Rightarrow> STAmount \<Rightarrow> STAmount" where
  "ST_clear_issue issue a = ST_clear (ST_setIssue issue a)"

definition ST_negate :: "STAmount \<Rightarrow> STAmount" where
  "ST_negate a = (if \<not> ST_isZero a then a\<lparr>mIsNegative := \<not> mIsNegative a\<rparr> else a)"

definition ST_zeroed :: "STAmount \<Rightarrow> STAmount res" where
  "ST_zeroed a = ST_make (mIssue a) 0 0 False"

section \<open>Comparison\<close>

definition areComparable :: "STAmount \<Rightarrow> STAmount \<Rightarrow> bool" where
  "areComparable v1 v2 =
     (mIsNative v1 = mIsNative v2 \<and> currency (mIssue v1) = currency (mIssue v2))"

definition ST_eq :: "STAmount \<Rightarrow> STAmount \<Rightarrow> bool" where
  "ST_eq lhs rhs =
     (areComparable lhs rhs \<and> mIsNegative lhs = mIsNegative rhs \<and>
      mOffset lhs = mOffset rhs \<and> mValue lhs = mValue rhs)"

definition ST_less :: "STAmount \<Rightarrow> STAmount \<Rightarrow> bool res" where
  "ST_less lhs rhs =
     (if \<not> areComparable lhs rhs
        then Inl (RuntimeError ''Can't compare amounts that are't comparable!'')
      else Inr
       (if mIsNegative lhs \<noteq> mIsNegative rhs then mIsNegative lhs
        else if mValue lhs = 0 then if mIsNegative rhs then False else mValue rhs \<noteq> 0
        else if mValue rhs = 0 then False
        else if mOffset lhs > mOffset rhs then mIsNegative lhs
        else if mOffset lhs < mOffset rhs then \<not> mIsNegative lhs
        else if mValue lhs > mValue rhs then mIsNegative lhs
        else if mValue lhs < mValue rhs then \<not> mIsNegative lhs
        else False))"

section \<open>Addition\<close>

definition getSNValue :: "STAmount \<Rightarrow> int res" where
  "getSNValue a =
     (if \<not> mIsNative a then Inl (RuntimeError ''amount is not native!'')
      else signed64 (mIsNegative a) (mValue a))"

definition ST_neg :: "STAmount \<Rightarrow> STAmount" where
  "ST_neg a =
     (if mValue a = 0 then a
      else ST_unchecked (mIssue a) (mValue a) (mOffset a) (mIsNative a) (\<not> mIsNegative a))"

text \<open>
  The two alignment loops are those of \<open>IOUAmount::operator+=\<close>, on the same signed type.
\<close>

definition ST_add :: "STAmount \<Rightarrow> STAmount \<Rightarrow> STAmount res" where
  "ST_add v1 v2 =
     (if \<not> areComparable v1 v2
        then Inl (RuntimeError ''Can't add amounts that are't comparable!'')
      else if ST_isZero v2 then Inr v1
      else if ST_isZero v1 then ST_make (mIssue v1) (mValue v2) (mOffset v2) (mIsNegative v2)
      else if mIsNative v1 then
        bindE (getSNValue v1) (\<lambda>s1. bindE (getSNValue v2) (\<lambda>s2. Inr (ST_drops (s1 + s2))))
      else
        bindE (signed64 (mIsNegative v1) (mValue v1)) (\<lambda>vv1.
        bindE (signed64 (mIsNegative v2) (mValue v2)) (\<lambda>vv2.
        let vv1 = IOU_align vv1 (mOffset v1) (mOffset v2);
            ov1 = max (mOffset v1) (mOffset v2);
            vv2 = IOU_align vv2 (mOffset v2) ov1;
            fv = vv1 + vv2
        in if fv \<ge> -10 \<and> fv \<le> 10 then ST_make (mIssue v1) 0 0 False
           else if fv \<ge> 0 then ST_make (mIssue v1) (word_of_int fv) ov1 False
           else ST_make (mIssue v1) (word_of_int (- fv)) ov1 True)))"

definition ST_sub :: "STAmount \<Rightarrow> STAmount \<Rightarrow> STAmount res" where
  "ST_sub v1 v2 = ST_add v1 (ST_neg v2)"

section \<open>Multiplication and division\<close>

text \<open>128-bit intermediates are natural numbers: a product of two 64-bit numbers fits.\<close>

definition muldiv :: "u64 \<Rightarrow> u64 \<Rightarrow> u64 \<Rightarrow> u64 res" where
  "muldiv multiplier multiplicand divisor =
     (let ret = unat multiplier * unat multiplicand div unat divisor
      in if ret > 2 ^ 64 - 1 then Inl (OverflowError ''overflow'') else Inr (word_of_nat ret))"

definition muldiv_round :: "u64 \<Rightarrow> u64 \<Rightarrow> u64 \<Rightarrow> u64 \<Rightarrow> u64 res" where
  "muldiv_round multiplier multiplicand divisor rounding =
     (let ret = (unat multiplier * unat multiplicand + unat rounding) div unat divisor
      in if ret > 2 ^ 64 - 1 then Inl (OverflowError ''overflow'') else Inr (word_of_nat ret))"

text \<open>The loops that bring a native mantissa into range; on zero they do not end.\<close>

partial_function (option) bringIntoRange :: "u64 \<Rightarrow> int \<Rightarrow> (u64 \<times> int) option" where
  "bringIntoRange v off = (if v < cMinValue then bringIntoRange (v * 10) (off - 1) else Some (v, off))"

definition ST_rangeOf :: "STAmount \<Rightarrow> (u64 \<times> int) res" where
  "ST_rangeOf a =
     (if mIsNative a then returns (bringIntoRange (mValue a) (mOffset a))
      else Inr (mValue a, mOffset a))"

definition ST_divide :: "STAmount \<Rightarrow> STAmount \<Rightarrow> Issue \<Rightarrow> STAmount res" where
  "ST_divide num den issue =
     (if ST_isZero den then Inl (RuntimeError ''division by zero'')
      else if ST_isZero num then ST_make issue 0 0 False
      else
        bindE (ST_rangeOf num) (\<lambda>(numVal, numOffset).
        bindE (ST_rangeOf den) (\<lambda>(denVal, denOffset).
        bindE (muldiv numVal tenTo17 denVal) (\<lambda>q.
          ST_make issue (q + 5) (numOffset - denOffset - 17) (mIsNegative num \<noteq> mIsNegative den)))))"

text \<open>The product of two native amounts in drops, shared by \<open>multiply\<close> and \<open>mulRound\<close>.\<close>

definition ST_nativeProduct :: "STAmount \<Rightarrow> STAmount \<Rightarrow> STAmount res" where
  "ST_nativeProduct v1 v2 =
     bindE (getSNValue v1) (\<lambda>s1. bindE (getSNValue v2) (\<lambda>s2.
       let minV = (word_of_int (if s1 < s2 then s1 else s2) :: u64);
           maxV = (word_of_int (if s1 < s2 then s2 else s1) :: u64)
       in if minV > 3000000000 then Inl (RuntimeError ''Native value overflow'')
          else if drop_bit 32 maxV * minV > 2095475792 then Inl (RuntimeError ''Native value overflow'')
          else Inr (ST_native (minV * maxV) False)))"

definition ST_multiply :: "STAmount \<Rightarrow> STAmount \<Rightarrow> Issue \<Rightarrow> STAmount res" where
  "ST_multiply v1 v2 issue =
     (if ST_isZero v1 \<or> ST_isZero v2 then ST_make issue 0 0 False
      else if mIsNative v1 \<and> mIsNative v2 \<and> isSFC (currency issue) then ST_nativeProduct v1 v2
      else
        bindE (ST_rangeOf v1) (\<lambda>(value1, offset1).
        bindE (ST_rangeOf v2) (\<lambda>(value2, offset2).
        bindE (muldiv value1 value2 tenTo14) (\<lambda>p.
          ST_make issue (p + 7) (offset1 + offset2 + 14) (mIsNegative v1 \<noteq> mIsNegative v2)))))"

function canonRound_native :: "u64 \<Rightarrow> int \<Rightarrow> nat \<Rightarrow> u64 \<times> int \<times> nat" where
  "canonRound_native value off loops =
     (if off < -1 then canonRound_native (value div 10) (off + 1) (loops + 1) else (value, off, loops))"
  by pat_completeness auto
termination
  by (relation "measure (\<lambda>(v, off, l). nat (- off))") auto

function canonRound_issued :: "u64 \<Rightarrow> int \<Rightarrow> u64 \<times> int" where
  "canonRound_issued value off =
     (if value > 10 * cMaxValue then canonRound_issued (value div 10) (off + 1) else (value, off))"
  by pat_completeness auto
termination
  by (relation "measure (\<lambda>(v, off). unat v)")
    (auto simp: word_less_nat_alt unat_div cMaxValue_def)

declare canonRound_native.simps [simp del] canonRound_issued.simps [simp del]

definition canonicalizeRound :: "bool \<Rightarrow> u64 \<Rightarrow> int \<Rightarrow> u64 \<times> int" where
  "canonicalizeRound native value off =
     (if native then
        if off < 0 then
          let (value, off, loops) = canonRound_native value off 0;
              value = value + (if loops \<ge> 2 then 9 else 10)
          in (value div 10, off + 1)
        else (value, off)
      else if value > cMaxValue then
        let (value, off) = canonRound_issued value off in ((value + 9) div 10, off + 1)
      else (value, off))"

text \<open>
  The end of \<open>mulRound\<close> and \<open>divRound\<close>; the two switches are the values of
  \<open>stAmountCalcSwitchover\<close> and \<open>stAmountCalcSwitchover2\<close>.
\<close>

record Switchover =
  calcSwitchover :: bool
  calcSwitchover2 :: bool

definition STAmountSO_set :: "int \<Rightarrow> Switchover" where
  "STAmountSO_set closeTime =
     \<lparr>calcSwitchover = (closeTime > 504640800), calcSwitchover2 = (closeTime > 509864400)\<rparr>"

definition ST_roundResult :: "Switchover \<Rightarrow> Issue \<Rightarrow> u64 \<Rightarrow> int \<Rightarrow> bool \<Rightarrow> bool \<Rightarrow> STAmount res" where
  "ST_roundResult so issue amount off resultNegative roundUp =
     (let (amount, off) =
        (if resultNegative \<noteq> roundUp then canonicalizeRound (isSFC (currency issue)) amount off
         else (amount, off))
      in bindE (ST_make issue amount off resultNegative) (\<lambda>result.
         if roundUp \<and> \<not> resultNegative \<and> ST_isZero result \<and> calcSwitchover so then
           if isSFC (currency issue) \<and> calcSwitchover2 so then ST_make issue 1 0 resultNegative
           else ST_make issue cMinValue cMinOffset resultNegative
         else Inr result))"

definition ST_mulRound :: "Switchover \<Rightarrow> STAmount \<Rightarrow> STAmount \<Rightarrow> Issue \<Rightarrow> bool \<Rightarrow> STAmount res" where
  "ST_mulRound so v1 v2 issue roundUp =
     (if ST_isZero v1 \<or> ST_isZero v2 then ST_make issue 0 0 False
      else if mIsNative v1 \<and> mIsNative v2 \<and> isSFC (currency issue) then ST_nativeProduct v1 v2
      else
        bindE (ST_rangeOf v1) (\<lambda>(value1, offset1).
        bindE (ST_rangeOf v2) (\<lambda>(value2, offset2).
          let resultNegative = (mIsNegative v1 \<noteq> mIsNegative v2) in
        bindE (muldiv_round value1 value2 tenTo14 (if resultNegative \<noteq> roundUp then tenTo14m1 else 0)) (\<lambda>amount.
          ST_roundResult so issue amount (offset1 + offset2 + 14) resultNegative roundUp))))"

definition ST_divRound :: "Switchover \<Rightarrow> STAmount \<Rightarrow> STAmount \<Rightarrow> Issue \<Rightarrow> bool \<Rightarrow> STAmount res" where
  "ST_divRound so num den issue roundUp =
     (if ST_isZero den then Inl (RuntimeError ''division by zero'')
      else if ST_isZero num then ST_make issue 0 0 False
      else
        bindE (ST_rangeOf num) (\<lambda>(numVal, numOffset).
        bindE (ST_rangeOf den) (\<lambda>(denVal, denOffset).
          let resultNegative = (mIsNegative num \<noteq> mIsNegative den) in
        bindE (muldiv_round numVal tenTo17 denVal (if resultNegative \<noteq> roundUp then denVal - 1 else 0)) (\<lambda>amount.
          ST_roundResult so issue amount (numOffset - denOffset - 17) resultNegative roundUp))))"

section \<open>Rates\<close>

definition getRate :: "STAmount \<Rightarrow> STAmount \<Rightarrow> u64" where
  "getRate offerOut offerIn =
     (if ST_isZero offerOut then 0
      else case ST_divide offerIn offerOut noIssue of
        Inl _ \<Rightarrow> 0
      | Inr r \<Rightarrow> if ST_isZero r then 0
          else push_bit 56 (word_of_int (mOffset r + 100)) OR mValue r)"

definition amountFromQuality :: "u64 \<Rightarrow> STAmount res" where
  "amountFromQuality rate =
     (if rate = 0 then ST_make noIssue 0 0 False
      else ST_make noIssue (rate AND NOT (push_bit 56 255)) (uint (drop_bit 56 rate) - 100) False)"

definition parityRate :: u32 where
  "parityRate = 1000000000"

definition as_amount :: "u32 \<Rightarrow> STAmount res" where
  "as_amount rate = ST_make noIssue (ucast rate) (-9) False"

definition Rate_multiply :: "STAmount \<Rightarrow> u32 \<Rightarrow> STAmount res" where
  "Rate_multiply amount rate =
     (if rate = parityRate then Inr amount
      else bindE (as_amount rate) (\<lambda>r. ST_multiply amount r (mIssue amount)))"

definition Rate_multiplyRound :: "Switchover \<Rightarrow> STAmount \<Rightarrow> u32 \<Rightarrow> Issue \<Rightarrow> bool \<Rightarrow> STAmount res" where
  "Rate_multiplyRound so amount rate issue roundUp =
     (if rate = parityRate then Inr amount
      else bindE (as_amount rate) (\<lambda>r. ST_mulRound so amount r issue roundUp))"

definition Rate_divide :: "STAmount \<Rightarrow> u32 \<Rightarrow> STAmount res" where
  "Rate_divide amount rate =
     (if rate = parityRate then Inr amount
      else bindE (as_amount rate) (\<lambda>r. ST_divide amount r (mIssue amount)))"

definition Rate_divideRound :: "Switchover \<Rightarrow> STAmount \<Rightarrow> u32 \<Rightarrow> Issue \<Rightarrow> bool \<Rightarrow> STAmount res" where
  "Rate_divideRound so amount rate issue roundUp =
     (if rate = parityRate then Inr amount
      else bindE (as_amount rate) (\<lambda>r. ST_divRound so amount r issue roundUp))"

definition Rate_multiplyRound_own :: "Switchover \<Rightarrow> STAmount \<Rightarrow> u32 \<Rightarrow> bool \<Rightarrow> STAmount res" where
  "Rate_multiplyRound_own so amount rate roundUp =
     (if rate = parityRate then Inr amount
      else bindE (as_amount rate) (\<lambda>r. ST_mulRound so amount r (mIssue amount) roundUp))"

definition Rate_divideRound_own :: "Switchover \<Rightarrow> STAmount \<Rightarrow> u32 \<Rightarrow> bool \<Rightarrow> STAmount res" where
  "Rate_divideRound_own so amount rate roundUp =
     (if rate = parityRate then Inr amount
      else bindE (as_amount rate) (\<lambda>r. ST_divRound so amount r (mIssue amount) roundUp))"

section \<open>Wire format\<close>

definition ST_word :: "STAmount \<Rightarrow> u64" where
  "ST_word a =
     (if mIsNative a then if \<not> mIsNegative a then mValue a OR cPosNative else mValue a
      else if ST_isZero a then cNotNative
      else if mIsNegative a then mValue a OR push_bit 54 (word_of_int (mOffset a + 512 + 97))
      else mValue a OR push_bit 54 (word_of_int (mOffset a + 512 + 256 + 97)))"

definition ST_serialize :: "STAmount \<Rightarrow> Serializer \<Rightarrow> Serializer" where
  "ST_serialize a s =
     (if mIsNative a then snd (Serializer_add64 (ST_word a) s)
      else
        let (_, s) = Serializer_add64 (ST_word a) s;
            (_, s) = Serializer_addBitString (currency (mIssue a)) s
        in snd (Serializer_addBitString (account (mIssue a)) s))"

text \<open>
  The constructor from a \<open>SerialIter\<close>, with the decoding of an issued amount's first eight bytes
  and the reading of its issue set apart.
\<close>

definition ST_decode_issued :: "Issue \<Rightarrow> u64 \<Rightarrow> STAmount res" where
  "ST_decode_issued issue value =
     (let offset = uint (drop_bit 54 value);
          value = value AND NOT (push_bit 54 1023)
      in if value \<noteq> 0 then
           let isNegative = (offset AND 256 = 0);
               offset = (offset AND 255) - 97
           in if value < cMinValue \<or> value > cMaxValue \<or> offset < cMinOffset \<or> offset > cMaxOffset
                then Inl (RuntimeError ''invalid currency value'')
              else ST_canonicalize (ST_unchecked issue value offset False isNegative)
         else if offset \<noteq> 512 then Inl (RuntimeError ''invalid currency value'')
         else ST_canonicalize (ST_unchecked issue 0 0 False False))"

definition ST_deserialize_issued :: "u64 \<Rightarrow> SerialIter \<Rightarrow> (STAmount \<times> SerialIter) res" where
  "ST_deserialize_issued value sit =
     bindE (SerialIter_getBitString 160 sit) (\<lambda>(cur, sit).
     if isSFC cur then Inl (RuntimeError ''invalid native currency'')
     else
       bindE (SerialIter_getBitString 160 sit) (\<lambda>(acc, sit).
       if isSFC acc then Inl (RuntimeError ''invalid native account'')
       else bindE (ST_decode_issued \<lparr>currency = cur, account = acc\<rparr> value) (\<lambda>a. Inr (a, sit))))"

definition ST_deserialize :: "SerialIter \<Rightarrow> (STAmount \<times> SerialIter) res" where
  "ST_deserialize sit =
     bindE (SerialIter_get64 sit) (\<lambda>(value, sit).
     if value AND cNotNative = 0 then
       if value AND cPosNative \<noteq> 0
         then Inr (ST_unchecked sfcIssue (value AND NOT cPosNative) 0 True False, sit)
       else if value = 0 then Inl (RuntimeError ''negative zero is not canonical'')
       else Inr (ST_unchecked sfcIssue value 0 True True, sit)
     else ST_deserialize_issued value sit)"

section \<open>Native amounts\<close>

text \<open>
  \<open>SFCAmount\<close> is a signed number of drops, an \<open>int\<close> here.  \<open>convert_to\<close> stands for the conversion
  of a 128-bit integer of Boost.Multiprecision to 64 bits.
\<close>

definition SFC_signum :: "int \<Rightarrow> int" where
  "SFC_signum drops = (if drops < 0 then -1 else if drops \<noteq> 0 then 1 else 0)"

definition isLegalAmount :: "int \<Rightarrow> int \<Rightarrow> bool" where
  "isLegalAmount system_currency_start drops = (drops \<le> system_currency_start)"

definition SFC_mulRatio :: "(int \<Rightarrow> int) \<Rightarrow> int \<Rightarrow> u32 \<Rightarrow> u32 \<Rightarrow> bool \<Rightarrow> int res" where
  "SFC_mulRatio convert_to drops num den roundUp =
     (if den = 0 then Inl (RuntimeError ''division by zero'')
      else
        let neg = drops < 0;
            m = drops * uint num;
            r = m sdiv uint den;
            r = (if m smod uint den \<noteq> 0
                 then if \<not> neg \<and> roundUp then r + 1 else if neg \<and> \<not> roundUp then r - 1 else r
                 else r)
        in if r > 2 ^ 63 - 1 then Inl (OverflowError ''SFC mulRatio overflow'')
           else Inr (convert_to r))"

section \<open>Specification\<close>

text \<open>The canonical amounts: what \<open>canonicalize\<close> leaves alone.\<close>

definition ST_canonical :: "STAmount \<Rightarrow> bool" where
  "ST_canonical a \<longleftrightarrow> mIsNative a = isSFC (currency (mIssue a)) \<and>
     (if mIsNative a then mOffset a = 0 \<and> mValue a \<le> cMaxNativeN \<and> (mIsNegative a \<longrightarrow> mValue a \<noteq> 0)
      else mValue a = 0 \<and> mOffset a = -100 \<and> \<not> mIsNegative a \<or>
           cMinValue \<le> mValue a \<and> mValue a \<le> cMaxValue \<and> cMinOffset \<le> mOffset a \<and> mOffset a \<le> cMaxOffset)"

text \<open>
  The amounts that have a wire form: the wire has 62 bits for a native amount, more than the
  canonical ones need.
\<close>

definition wire_issue :: "STAmount \<Rightarrow> bool" where
  "wire_issue a \<longleftrightarrow> (if mIsNative a then mIssue a = sfcIssue
     else length (currency (mIssue a)) = 20 \<and> length (account (mIssue a)) = 20 \<and> \<not> isSFC (account (mIssue a)))"

definition native_excess :: "STAmount \<Rightarrow> bool" where
  "native_excess a \<longleftrightarrow> mIsNative a \<and> mOffset a = 0 \<and> cMaxNativeN < mValue a \<and> mValue a < 2 ^ 62"

definition ST_wire :: "STAmount \<Rightarrow> bool" where
  "ST_wire a \<longleftrightarrow> wire_issue a \<and> (ST_canonical a \<or> native_excess a)"

lemma ST_wire_parts:
  "ST_wire a \<longleftrightarrow> mIsNative a = isSFC (currency (mIssue a)) \<and>
     (if mIsNative a then mIssue a = sfcIssue \<and> mOffset a = 0 \<and> (mIsNegative a \<longrightarrow> mValue a \<noteq> 0) \<and> mValue a < 2 ^ 62
      else ST_canonical a \<and> length (currency (mIssue a)) = 20 \<and> length (account (mIssue a)) = 20 \<and> \<not> isSFC (account (mIssue a)))"
proof -
  have "mValue a \<le> cMaxNativeN \<Longrightarrow> mValue a < 2 ^ 62"
    by (erule order.strict_trans1) (simp add: cMaxNativeN_def)
  moreover have "cMaxNativeN < mValue a \<Longrightarrow> mValue a \<noteq> 0" by auto
  ultimately show ?thesis
    by (cases "mIsNative a") (auto simp: ST_wire_def wire_issue_def native_excess_def ST_canonical_def sfcIssue_def isSFC_def)
qed

text \<open>The amount as a signed mantissa and an exponent.\<close>

definition ST_abs :: "STAmount \<Rightarrow> IOUAmount" where
  "ST_abs a = \<lparr>mantissa = (if mIsNegative a then - uint (mValue a) else uint (mValue a)), exponent = mOffset a\<rparr>"

definition ST_val :: "STAmount \<Rightarrow> real" where
  "ST_val a = IOU_val (ST_abs a)"

text \<open>
  \<open>STAmount::canonicalize\<close> on an issued currency refines \<open>IOUAmount::normalize\<close>: the same results,
  and a throw whenever that throws.
\<close>

definition iou_refines :: "Issue \<Rightarrow> STAmount res \<Rightarrow> IOUAmount res \<Rightarrow> bool" where
  "iou_refines issue r s =
     (case r of
        Inl e \<Rightarrow> e \<noteq> NonTermination \<and> (\<exists>x. s = Inl x)
      | Inr a \<Rightarrow> ST_canonical a \<and> mIssue a = issue \<and> s = Inr (ST_abs a))"

abbreviation ST_drop_count :: "STAmount \<Rightarrow> int" where
  "ST_drop_count a \<equiv> mantissa (ST_abs a)"

text \<open>
  What \<open>multiply\<close> and \<open>divide\<close> promise about the exact value \<open>x\<close>.
\<close>

definition ST_approx :: "Issue \<Rightarrow> real \<Rightarrow> STAmount res \<Rightarrow> bool" where
  "ST_approx issue x res =
     (case res of
        Inl e \<Rightarrow> e \<noteq> NonTermination \<and> 10 powi 96 - 10 powi 81 \<le> \<bar>x\<bar>
      | Inr r \<Rightarrow> ST_canonical r \<and> mIssue r = issue \<and>
          (if mValue r = 0 then \<bar>x\<bar> < 10 powi (-81)
           else (ST_val r < 0 \<longleftrightarrow> x < 0) \<and> \<bar>x - ST_val r\<bar> < 10 powi mOffset r))"

text \<open>The 64-bit form of a rate.\<close>

definition rate_word :: "STAmount \<Rightarrow> u64" where
  "rate_word r = push_bit 56 (word_of_int (mOffset r + 100)) OR mValue r"

text \<open>The exact product by a ratio, rounded up or down to a whole number of drops.\<close>

definition SFC_ratio :: "int \<Rightarrow> u32 \<Rightarrow> u32 \<Rightarrow> bool \<Rightarrow> int" where
  "SFC_ratio drops num den roundUp =
     (if roundUp then \<lceil>real_of_int (drops * uint num) / of_int (uint den)\<rceil>
      else \<lfloor>real_of_int (drops * uint num) / of_int (uint den)\<rfloor>)"

text \<open>\<open>STAmount::add\<close> returns nothing; the codec pairs it with the offset it wrote at.\<close>

abbreviation ST_put :: "STAmount \<Rightarrow> Serializer \<Rightarrow> (int \<times> Serializer) res" where
  "ST_put \<equiv> pure_add (\<lambda>a s. (getDataLength s, ST_serialize a s))"

section \<open>\<open>canonicalize\<close> refines \<open>normalize\<close>\<close>

lemmas ST_consts = cMinOffset_def cMaxOffset_def cMinValue_def cMaxValue_def cMaxNativeN_def

lemma ST_IOU_consts:
  "uint cMinValue = minMantissa" "uint cMaxValue = maxMantissa" "cMinOffset = minExponent" "cMaxOffset = maxExponent"
  by (simp_all add: ST_consts IOU_consts)

lemma uint_times10: "v < cMinValue \<Longrightarrow> uint (v * 10) = uint v * 10"
  by (subst uint_mult_lem[THEN iffD1]) (simp_all add: word_less_def cMinValue_def)

lemma ST_scaleUp_refines: "map_prod uint id (ST_scaleUp v off) = IOU_scaleUp (uint v) off"
proof (induction v off rule: ST_scaleUp.induct)
  case (1 v off)
  show ?case
  proof (cases "v < cMinValue \<and> off > cMinOffset")
    case True
    then show ?thesis using "1.IH"[OF True]
      by (simp add: ST_scaleUp.simps[of v] IOU_scaleUp.simps[of "uint v"] uint_times10 ST_IOU_consts[symmetric] word_less_def)
  next
    case False
    then have "ST_scaleUp v off = (v, off)" by (subst ST_scaleUp.simps) auto
    moreover have "IOU_scaleUp (uint v) off = (uint v, off)"
      using False by (subst IOU_scaleUp.simps) (auto simp: ST_IOU_consts[symmetric] word_less_def)
    ultimately show ?thesis by simp
  qed
qed

lemma ST_scaleDown_refines:
  "IOU_scaleDown (uint v) off =
     (case ST_scaleDown v off of Inl _ \<Rightarrow> Inl (OverflowError ''IOUAmount::normalize'') | Inr (v', off') \<Rightarrow> Inr (uint v', off'))"
proof (induction v off rule: ST_scaleDown.induct)
  case (1 v off)
  consider "v > cMaxValue" "off \<ge> cMaxOffset" | "v > cMaxValue" "\<not> off \<ge> cMaxOffset" | "\<not> v > cMaxValue" by blast
  then show ?case
  proof cases
    case 2
    have "uint (v div 10) = uint v div 10" by (simp add: uint_div)
    with "1.IH"[OF 2] 2 show ?thesis
      by (simp add: ST_scaleDown.simps[of v] IOU_scaleDown.simps[of "uint v"] ST_IOU_consts[symmetric] word_less_def)
  qed (simp_all add: ST_scaleDown.simps[of v] IOU_scaleDown.simps[of "uint v"] ST_IOU_consts[symmetric] word_less_def)
qed

lemma ST_scaleDown_bound: "ST_scaleDown v off = Inr (v', off') \<Longrightarrow> v' \<le> cMaxValue"
  by (induction v off rule: ST_scaleDown.induct) (subst (asm) (2) ST_scaleDown.simps, auto split: if_splits)

lemma ST_scaleDown_throws: "ST_scaleDown v off = Inl x \<Longrightarrow> x = RuntimeError ''value overflow''"
  by (induction v off rule: ST_scaleDown.induct) (subst (asm) (2) ST_scaleDown.simps, auto split: if_splits)

lemma ST_make_refines:
  assumes "\<not> isSFC (currency issue)"
  shows "iou_refines issue (ST_make issue v e neg) (exact_make (if neg then - uint v else uint v) e)"
proof (cases "v = 0")
  case True
  then show ?thesis using assms
    by (simp add: iou_refines_def ST_make_def ST_canonicalize_def ST_unchecked_def ST_canonical_def ST_abs_def
        exact_make_def exact_normalize_def IOU_zero_def)
next
  case False
  obtain v1 e1 where up: "ST_scaleUp v e = (v1, e1)" by fastforce
  then have up': "IOU_scaleUp (uint v) e = (uint v1, e1)" using ST_scaleUp_refines[of v e] by simp
  have nz: "(if neg then - uint v else uint v) \<noteq> 0" "\<bar>if neg then - uint v else uint v\<bar> = uint v"
      "(if neg then - uint v else uint v) < 0 \<longleftrightarrow> neg"
    using False by (auto simp: order_less_le unsigned_eq_0_iff)
  note mk = make_unfold[OF nz(1), unfolded nz(2,3), OF up']
  have ins: "\<not> isSFC (currency issue)" by fact
  show ?thesis
  proof (cases "ST_scaleDown v1 e1")
    case (Inl x)
    then show ?thesis using False ins up mk ST_scaleDown_refines[of v1 e1] ST_scaleDown_throws[OF Inl]
      by (simp add: iou_refines_def ST_make_def ST_canonicalize_def ST_unchecked_def)
  next
    case (Inr p)
    obtain v2 e2 where p: "p = (v2, e2)" by fastforce
    note bound = ST_scaleDown_bound[OF Inr[unfolded p]]
    have "IOU_scaleDown (uint v1) e1 = Inr (uint v2, e2)" using ST_scaleDown_refines[of v1 e1] Inr p by simp
    then show ?thesis using False ins up mk bound Inr p
      by (auto simp: iou_refines_def ST_make_def ST_canonicalize_def ST_unchecked_def ST_canonical_def ST_abs_def
        IOU_zero_def word_less_def word_le_def ST_IOU_consts[symmetric])
  qed
qed

lemma ST_abs_wf: "ST_canonical a \<Longrightarrow> \<not> mIsNative a \<Longrightarrow> IOU_wf (ST_abs a)"
  by (auto simp: ST_canonical_def ST_abs_def IOU_wf_def IOU_zero_def word_le_def ST_IOU_consts)

lemma sint_small: "uint (v :: u64) < 2 ^ 63 \<Longrightarrow> sint v = uint v"
proof -
  assume "uint v < 2 ^ 63"
  moreover have "- (2 ^ 63) \<le> uint v" by (rule order_trans[OF _ uint_ge_0]) simp
  ultimately show ?thesis by (simp add: sint_uint signed_take_bit_int_eq_self)
qed

lemma canonical_sint:
  assumes "ST_canonical a" "\<not> mIsNative a" shows "sint (mValue a) = uint (mValue a)"
proof (rule sint_small)
  have "uint (mValue a) \<le> uint cMaxValue"
    using assms by (auto simp: ST_canonical_def word_le_def ST_consts)
  then show "uint (mValue a) < 2 ^ 63" by (simp add: cMaxValue_def)
qed

lemma canonical_isZero:
  assumes "ST_canonical a" "\<not> mIsNative a"
  shows "ST_isZero a \<longleftrightarrow> mValue a = 0" and "mValue a = 0 \<longleftrightarrow> ST_abs a = IOU_zero"
  using assms
  by (auto simp: ST_isZero_def ST_signum_def ST_canonical_def ST_abs_def IOU_zero_def ST_consts unsigned_eq_0_iff)

lemma ST_iou_canonical: "ST_canonical a \<Longrightarrow> \<not> mIsNative a \<Longrightarrow> ST_iou a = Inr (ST_abs a)"
  using IOU_normalize_wf[OF ST_abs_wf, of a] canonical_sint[of a]
  by (cases "mIsNegative a") (simp_all add: ST_iou_def IOU_make_def ST_abs_def signed64_small)

section \<open>The wire format\<close>

text \<open>The first eight bytes: ten bits above the 54 bits of the mantissa.\<close>

lemma pack_bits:
  fixes v :: u64
  assumes v: "uint v < 2 ^ n" and k: "0 \<le> k" "2 ^ n * k < 2 ^ 64"
  shows "uint (v OR push_bit n (word_of_int k)) = 2 ^ n * k + uint v"
proof -
  have "1 * k \<le> 2 ^ n * k" using k(1) by (intro mult_right_mono) simp_all
  then have "k < 2 ^ 64" using k(2) by linarith
  then have w: "uint (word_of_int k :: u64) = k" using k(1) by (simp add: unsigned_of_int take_bit_int_eq_self)
  have "uint (push_bit n (word_of_int k) :: u64) = take_bit 64 (push_bit n (uint (word_of_int k :: u64)))"
    by (simp only: unsigned_push_bit_eq len_num1 len_bit0) simp
  also have "\<dots> = push_bit n k"
    unfolding w using k by (intro take_bit_int_eq_self) (simp_all add: push_bit_eq_mult mult.commute)
  finally have "uint (v OR push_bit n (word_of_int k)) = uint v OR push_bit n k"
    by (simp only: unsigned_or_eq)
  also have "\<dots> = push_bit n k + uint v"
  proof -
    have t: "take_bit n (uint v) = uint v" using v by (simp add: take_bit_int_eq_self)
    have "\<not> bit (push_bit n k) i \<or> \<not> bit (uint v) i" for i
      by (subst t[symmetric]) (auto simp: bit_push_bit_iff bit_take_bit_iff)
    then show ?thesis unfolding or.commute[of "uint v"] by (simp add: disjunctive_add)
  qed
  finally show ?thesis by (simp add: push_bit_eq_mult mult.commute)
qed

lemma unpack_bits:
  fixes w :: u64
  shows "uint (drop_bit n w) = uint w div 2 ^ n"
    and "n \<le> 64 \<Longrightarrow> uint (w AND NOT (push_bit n (mask (64 - n)))) = uint w mod 2 ^ n"
proof -
  show "uint (drop_bit n w) = uint w div 2 ^ n"
  proof -
    have "take_bit 64 (uint w) = uint w" using unsigned_less[of w] by (intro take_bit_int_eq_self) simp_all
    then have "uint (drop_bit n w) = drop_bit n (uint w)" by (simp add: unsigned_drop_bit_eq)
    then show ?thesis by (simp add: drop_bit_eq_div)
  qed
  assume n: "n \<le> 64"
  have "w AND NOT (push_bit n (mask (64 - n))) = take_bit n w"
    by (rule bit_word_eqI)
      (auto simp only: bit_and_iff bit_not_iff bit_push_bit_iff bit_mask_iff bit_take_bit_iff possible_bit_word, auto)
  then show "uint (w AND NOT (push_bit n (mask (64 - n)))) = uint w mod 2 ^ n"
    by (simp only: unsigned_take_bit_eq) (simp add: take_bit_eq_mod)
qed

lemma mask_10: "(1023 :: u64) = mask (64 - 54)" and mask_8: "(255 :: u64) = mask (64 - 56)"
  by (simp_all add: mask_eq_exp_minus_1)

lemma unpack54:
  fixes w :: u64
  shows "uint (drop_bit 54 w) = uint w div 2 ^ 54" "uint (w AND NOT (push_bit 54 1023)) = uint w mod 2 ^ 54"
  unfolding mask_10 by (rule unpack_bits(1), rule unpack_bits(2)) simp

lemma unpack56:
  fixes w :: u64
  shows "uint (drop_bit 56 w) = uint w div 2 ^ 56" "uint (w AND NOT (push_bit 56 255)) = uint w mod 2 ^ 56"
  unfolding mask_8 by (rule unpack_bits(1), rule unpack_bits(2)) simp

lemma native_bits:
  fixes w :: u64
  shows "w AND cNotNative = 0 \<longleftrightarrow> \<not> bit w 63" "w AND cPosNative = 0 \<longleftrightarrow> \<not> bit w 62"
proof -
  have c: "cNotNative = 2 ^ 63" "cPosNative = 2 ^ 62" by (simp_all add: cNotNative_def cPosNative_def)
  show "w AND cNotNative = 0 \<longleftrightarrow> \<not> bit w 63" "w AND cPosNative = 0 \<longleftrightarrow> \<not> bit w 62"
    unfolding c by (simp_all only: and_exp_eq_0_iff_not_bit)
qed

lemma ST_serialize_word:
  "encoding ST_put a = encoding (pure_add Serializer_add64) (ST_word a) @
     (if mIsNative a then [] else currency (mIssue a) @ account (mIssue a))"
  by (simp add: encoding_pure ST_serialize_def Serializer_addBitString_def split: prod.split)
     (simp add: Serializer_add64_def push_bytes_def Serializer_empty_def)

lemma ST_canonicalize_id:
  assumes "\<not> isSFC (currency (mIssue a))" "cMinValue \<le> mValue a" "mValue a \<le> cMaxValue"
    "cMinOffset \<le> mOffset a" "mOffset a \<le> cMaxOffset"
  shows "ST_canonicalize a = Inr (a\<lparr>mIsNative := False\<rparr>)"
proof -
  have "ST_scaleUp (mValue a) (mOffset a) = (mValue a, mOffset a)"
    "ST_scaleDown (mValue a) (mOffset a) = Inr (mValue a, mOffset a)"
    using assms by (auto simp: ST_scaleUp.simps[of "mValue a"] ST_scaleDown.simps[of "mValue a"])
  moreover have "mValue a \<noteq> 0" using assms(2) by (auto simp: cMinValue_def)
  ultimately show ?thesis using assms by (simp add: ST_canonicalize_def)
qed

text \<open>The canonical amounts are those that \<open>canonicalize\<close> leaves alone.\<close>

lemma nativeDown_offset: "0 \<le> snd (ST_nativeDown v off)"
  by (induction v off rule: ST_nativeDown.induct) (subst ST_nativeDown.simps, auto)

lemma nativeUp_offset: "snd (ST_nativeUp v off) \<le> 0"
  by (induction v off rule: ST_nativeUp.induct) (subst ST_nativeUp.simps, auto)

lemma nativeUp_nonneg: "0 \<le> off \<Longrightarrow> snd (ST_nativeUp v off) = 0"
  by (induction v off rule: ST_nativeUp.induct) (subst ST_nativeUp.simps, auto)

lemma canonicalize_native:
  assumes "isSFC (currency (mIssue a))"
  shows "ST_canonicalize a = Inr a \<longleftrightarrow> ST_canonical a"
proof (cases "mValue a = 0")
  case True
  then show ?thesis using assms by (cases a) (auto simp: ST_canonicalize_def ST_canonical_def)
next
  case False
  obtain v1 o1 v2 o2 where l: "ST_nativeDown (mValue a) (mOffset a) = (v1, o1)" "ST_nativeUp v1 o1 = (v2, o2)" by (meson surj_pair)
  have "o2 = 0" using nativeDown_offset[of "mValue a" "mOffset a"] nativeUp_nonneg[of o1 v1] l by simp
  moreover have "v2 = mValue a" if "mOffset a = 0"
    using l that by (simp add: ST_nativeDown.simps[of _ 0] ST_nativeUp.simps[of _ 0])
  moreover have "ST_canonicalize a = (if v2 > cMaxNativeN then Inl (RuntimeError ''Native currency amount out of range'')
      else Inr (a\<lparr>mIsNative := True, mValue := v2, mOffset := o2\<rparr>))" using False assms l by (simp add: ST_canonicalize_def)
  ultimately show ?thesis using False assms by (cases a) (auto simp: ST_canonical_def)
qed

lemma canonicalize_issued:
  assumes "\<not> isSFC (currency (mIssue a))"
  shows "ST_canonicalize a = Inr a \<longleftrightarrow> ST_canonical a"
proof (cases "mValue a = 0")
  case True
  then show ?thesis using assms by (cases a) (auto simp: ST_canonicalize_def ST_canonical_def cMinValue_def)
next
  case False
  show ?thesis
  proof
    assume c: "ST_canonicalize a = Inr a"
    obtain v1 o1 where up: "ST_scaleUp (mValue a) (mOffset a) = (v1, o1)" by (meson surj_pair)
    obtain v2 o2 where down: "ST_scaleDown v1 o1 = Inr (v2, o2)"
      using c False assms up by (cases "ST_scaleDown v1 o1") (auto simp: ST_canonicalize_def)
    have "\<not> mIsNative a \<and> v2 = mValue a \<and> o2 = mOffset a \<and> cMinOffset \<le> o2 \<and> cMinValue \<le> v2 \<and> o2 \<le> cMaxOffset"
      using c False assms up down by (cases a) (auto simp: ST_canonicalize_def not_less split: if_splits)
    then show "ST_canonical a" using assms ST_scaleDown_bound[OF down] by (auto simp: ST_canonical_def)
  next
    assume "ST_canonical a"
    then show "ST_canonicalize a = Inr a" using ST_canonicalize_id[OF assms] False assms by (cases a) (auto simp: ST_canonical_def)
  qed
qed

lemma canonicalize_fixed: "ST_canonicalize a = Inr a \<longleftrightarrow> ST_canonical a"
  using canonicalize_native canonicalize_issued by blast

lemma int_and_256: "(k::int) AND 256 = 0 \<longleftrightarrow> even (k div 256)"
  using and_exp_eq_0_iff_not_bit[of k 8] by (simp add: bit_iff_odd)

lemma word_uint_eqI: "uint (a :: 'a::len word) = uint b \<Longrightarrow> a = b"
  by (simp add: unsigned_word_eqI)

lemma mantissa_54:
  assumes "v \<le> cMaxValue" shows "uint v < 2 ^ 54"
  using assms by (simp add: word_le_def cMaxValue_def)

lemma div_mod_pack:
  fixes m q x :: int
  assumes "0 \<le> x" "x < m"
  shows "(m * q + x) div m = q" "(m * q + x) mod m = x"
  using assms by simp_all

lemma bit63: "bit (w :: u64) 63 \<longleftrightarrow> 2 ^ 63 \<le> uint w"
proof -
  define u where "u = uint w"
  have u: "0 \<le> u" "u < 2 ^ 64" unfolding u_def using unsigned_less[of w] by simp_all
  have "bit w 63 \<longleftrightarrow> bit u 63" by (simp add: u_def bit_uint_iff)
  also have "\<dots> \<longleftrightarrow> 2 ^ 63 \<le> u"
  proof (cases "u < 2 ^ 63")
    case False
    then have "u div 2 ^ 63 = 1" using div_mod_pack(1)[of "u - 2 ^ 63" "2 ^ 63" 1] u by simp
    then show ?thesis using False by (simp add: bit_iff_odd)
  qed (use u in \<open>simp add: bit_iff_odd\<close>)
  finally show ?thesis by (simp add: u_def)
qed

lemma decode_word_nonzero:
  assumes iss: "\<not> isSFC (currency (mIssue a))" and n: "\<not> mIsNative a"
    and r: "cMinValue \<le> mValue a" "mValue a \<le> cMaxValue" "cMinOffset \<le> mOffset a" "mOffset a \<le> cMaxOffset"
  shows "ST_decode_issued (mIssue a) (ST_word a) = Inr a" "bit (ST_word a) 63"
proof -
  have nz: "mValue a \<noteq> 0" using r(1) by (auto simp: cMinValue_def)
  define x q where "x = mOffset a + 97" and "q = (if mIsNegative a then 2 else 3 :: int)"
  define k m where "k = 256 * q + x" and "m = uint (mValue a)"
  have x: "0 \<le> x" "x < 256" and q: "2 \<le> q" "q \<le> 3" using r by (auto simp: x_def q_def ST_consts)
  have k: "512 \<le> k" "0 \<le> k" "k < 1024" using x q by (auto simp: k_def)
  note kd = div_mod_pack[OF x, of q, folded k_def]
  have m: "0 \<le> m" "m < 2 ^ 54" using mantissa_54[OF r(2)] by (simp_all add: m_def)
  have "ST_word a = mValue a OR push_bit 54 (word_of_int k)"
    using nz n by (simp add: ST_word_def ST_isZero_def ST_signum_def k_def x_def q_def algebra_simps)
  then have u: "uint (ST_word a) = 2 ^ 54 * k + m"
    using pack_bits[OF mantissa_54[OF r(2)] k(2)] k(3) by (simp add: m_def)
  show "bit (ST_word a) 63" unfolding bit63 u using k(1) m(1) by simp
  have d: "uint (drop_bit 54 (ST_word a)) = k" "ST_word a AND NOT (push_bit 54 1023) = mValue a"
  proof -
    show "uint (drop_bit 54 (ST_word a)) = k" unfolding unpack54 u by (rule div_mod_pack(1)[OF m])
    show "ST_word a AND NOT (push_bit 54 1023) = mValue a"
      by (rule word_uint_eqI, unfold unpack54 u m_def[symmetric]) (rule div_mod_pack(2)[OF m])
  qed
  have "(k AND 255) - 97 = mOffset a" "k AND 256 = 0 \<longleftrightarrow> mIsNegative a"
    using kd by (simp_all add: int_and_ff int_and_256 x_def q_def)
  then show "ST_decode_issued (mIssue a) (ST_word a) = Inr a"
    using ST_canonicalize_id[of "ST_unchecked (mIssue a) (mValue a) (mOffset a) False (mIsNegative a)"] iss r n nz
    unfolding ST_decode_issued_def d Let_def by (cases a) (auto simp: ST_unchecked_def)
qed

lemma decode_word:
  assumes c: "ST_canonical a" and n: "\<not> mIsNative a"
  shows "ST_decode_issued (mIssue a) (ST_word a) = Inr a \<and> bit (ST_word a) 63"
proof (cases "mValue a = 0")
  case True
  have iss: "\<not> isSFC (currency (mIssue a))" using assms by (simp add: ST_canonical_def)
  have a: "mOffset a = -100" "\<not> mIsNegative a" using True c n by (auto simp: ST_canonical_def cMinValue_def)
  have w: "ST_word a = cNotNative" using True n by (simp add: ST_word_def ST_isZero_def ST_signum_def)
  have "bit (ST_word a) 63" unfolding w bit63 by (simp add: cNotNative_def)
  moreover have "ST_decode_issued (mIssue a) (ST_word a) = Inr a"
    using iss a True n unfolding w by (cases a) (simp add: ST_decode_issued_def cNotNative_def ST_canonicalize_def ST_unchecked_def)
  ultimately show ?thesis by blast
next
  case False
  then show ?thesis using decode_word_nonzero assms by (auto simp: ST_canonical_def)
qed

lemma decode_only:
  assumes iss: "\<not> isSFC (currency issue)" and b: "bit w 63" and ok: "ST_decode_issued issue w = Inr a"
  shows "ST_canonical a \<and> \<not> mIsNative a \<and> mIssue a = issue \<and> ST_word a = w"
proof -
  define k m where "k = uint (drop_bit 54 w)" and "m = w AND NOT (push_bit 54 1023)"
  define u where "u = uint w"
  have u: "2 ^ 63 \<le> u" "u < 2 ^ 64" using b unsigned_less[of w] by (simp_all add: u_def bit63)
  have km: "k = u div 2 ^ 54" "uint m = u mod 2 ^ 54" by (simp_all only: k_def m_def u_def unpack54)
  have k: "512 \<le> k" "k < 1024"
  proof -
    have "2 ^ 63 div 2 ^ 54 \<le> u div 2 ^ 54" "u div 2 ^ 54 < 1024"
      using u by (intro zdiv_mono1, simp_all)
    then show "512 \<le> k" "k < 1024" by (simp_all add: km)
  qed
  show ?thesis
  proof (cases "m = 0")
    case True
    then have "k = 512" and a: "a = ST_unchecked issue 0 (-100) False False"
      using ok iss unfolding ST_decode_issued_def k_def[symmetric] m_def[symmetric] Let_def
      by (auto simp: ST_canonicalize_def ST_unchecked_def split: if_splits)
    have "w = cNotNative"
    proof (rule word_uint_eqI)
      have "u = 2 ^ 54 * (u div 2 ^ 54) + u mod 2 ^ 54" by (rule mult_div_mod_eq[symmetric])
      also have "\<dots> = 2 ^ 63" using km \<open>k = 512\<close> True by simp
      finally show "uint w = uint cNotNative" by (simp add: u_def cNotNative_def)
    qed
    then show ?thesis using iss unfolding a by (simp add: ST_canonical_def ST_unchecked_def ST_word_def ST_isZero_def ST_signum_def)
  next
    case False
    define off where "off = (k AND 255) - 97"
    define neg where "neg = (k AND 256 = 0)"
    have r: "cMinValue \<le> m" "m \<le> cMaxValue" "cMinOffset \<le> off" "off \<le> cMaxOffset"
      and c: "ST_canonicalize (ST_unchecked issue m off False neg) = Inr a"
      using ok False unfolding ST_decode_issued_def k_def[symmetric] m_def[symmetric] Let_def off_def[symmetric] neg_def[symmetric]
      by (auto simp: not_less split: if_splits)
    then have a: "a = ST_unchecked issue m off False neg"
      using ST_canonicalize_id[of "ST_unchecked issue m off False neg"] iss by (simp add: ST_unchecked_def)
    have "256 * (k div 256) + k mod 256 = k" by (rule mult_div_mod_eq)
    moreover have "k div 256 = 2 \<or> k div 256 = 3" using k by auto
    ultimately have k': "k = 512 + (if neg then 0 else 256) + (off + 97)"
      by (elim disjE) (simp_all add: neg_def off_def int_and_ff int_and_256)
    have "ST_word a = m OR push_bit 54 (word_of_int k)"
      using False unfolding a k' by (simp add: ST_word_def ST_isZero_def ST_signum_def ST_unchecked_def algebra_simps)
    moreover have "uint (m OR push_bit 54 (word_of_int k)) = 2 ^ 54 * k + uint m"
      using pack_bits[OF mantissa_54[OF r(2)], of k] k by simp
    moreover have "\<dots> = uint w" unfolding km u_def by (rule mult_div_mod_eq)
    ultimately have "ST_word a = w" using word_uint_eqI by metis
    then show ?thesis using iss r unfolding a by (simp add: ST_canonical_def ST_unchecked_def)
  qed
qed

lemma high_bits:
  fixes w :: u64
  shows "w < 2 ^ 62 \<longleftrightarrow> \<not> bit w 62 \<and> \<not> bit w 63"
proof -
  have "w < 2 ^ 62 \<longleftrightarrow> uint w div 2 ^ 62 = 0"
    using uint_ge_0[of w] by (auto simp: word_less_def zdiv_eq_0_iff)
  also have "\<dots> \<longleftrightarrow> drop_bit 62 w = 0"
    by (simp add: drop_bit_eq_div flip: unsigned_eq_0_iff[where ?'a = int]) (simp add: uint_div)
  also have "\<dots> \<longleftrightarrow> (\<forall>n. \<not> bit w (62 + n))"
  proof -
    have "n < 64" if "bit w (62 + n)" for n using bit_imp_le_length[OF that] by simp
    then show ?thesis by (simp add: bit_eq_iff bit_drop_bit_eq) blast
  qed
  also have "\<dots> \<longleftrightarrow> \<not> bit w 62 \<and> \<not> bit w 63"
  proof safe
    fix n assume b: "\<not> bit w 62" "\<not> bit w 63" "bit w (62 + n)"
    then have "62 + n < 64" using bit_imp_le_length by fastforce
    then have "n = 0 \<or> n = 1" by linarith
    then show False using b by auto
  qed (auto dest: spec[of _ 0] spec[of _ 1])
  finally show ?thesis .
qed

lemmas high_bits_numeral = high_bits[simplified]

lemma bit_cPos: "bit cPosNative n \<longleftrightarrow> n = 62"
proof -
  have c: "cPosNative = push_bit 62 1" by (simp add: cPosNative_def)
  show ?thesis unfolding c by (auto simp only: bit_push_bit_iff possible_bit_word bit_1_iff, auto)
qed

lemma reads_issued:
  assumes "ST_wire a" and n: "\<not> mIsNative a"
  shows "reads (ST_deserialize_issued (ST_word a)) (currency (mIssue a) @ account (mIssue a)) a"
proof -
  let ?c = "currency (mIssue a)" and ?i = "account (mIssue a)"
  have c: "ST_canonical a" "length ?c = 160 div 8" "length ?i = 160 div 8" "\<not> isSFC ?i" "\<not> isSFC ?c"
    using assms by (auto simp: ST_wire_parts ST_canonical_def)
  have eta: "\<lparr>currency = ?c, account = ?i\<rparr> = mIssue a" by (cases "mIssue a") simp
  have "reads (\<lambda>sit. if isSFC ?i then Inl (RuntimeError ''invalid native account'')
      else bindE (ST_decode_issued \<lparr>currency = ?c, account = ?i\<rparr> (ST_word a)) (\<lambda>a. Inr (a, sit))) [] a"
    using c decode_word[OF c(1) n] unfolding eta by (simp add: reads_return)
  then have "reads (\<lambda>sit. if isSFC ?c then Inl (RuntimeError ''invalid native currency'')
     else bindE (SerialIter_getBitString 160 sit) (\<lambda>(acc, sit).
       if isSFC acc then Inl (RuntimeError ''invalid native account'')
       else bindE (ST_decode_issued \<lparr>currency = ?c, account = acc\<rparr> (ST_word a)) (\<lambda>a. Inr (a, sit)))) (?i @ []) a"
    unfolding if_not_P[OF c(5)] by (rule reads_bind[OF reads_getBitString[OF c(3)]])
  then have "reads (ST_deserialize_issued (ST_word a)) (?c @ ?i @ []) a"
    unfolding ST_deserialize_issued_def by (rule reads_bind[OF reads_getBitString[OF c(2)]])
  then show ?thesis by simp
qed

lemma reads_ST_deserialize:
  assumes "ST_wire a"
  shows "reads ST_deserialize (encoding ST_put a) a"
proof -
  let ?k = "\<lambda>value sit. if value AND cNotNative = 0 then
       if value AND cPosNative \<noteq> 0
         then Inr (ST_unchecked sfcIssue (value AND NOT cPosNative) 0 True False, sit)
       else if value = 0 then Inl (RuntimeError ''negative zero is not canonical'')
       else Inr (ST_unchecked sfcIssue value 0 True True, sit)
     else ST_deserialize_issued value sit"
  have "reads (?k (ST_word a)) (if mIsNative a then [] else currency (mIssue a) @ account (mIssue a)) a"
  proof (cases "mIsNative a")
    case True
    then have a: "mIssue a = sfcIssue" "mOffset a = 0" "mIsNegative a \<longrightarrow> mValue a \<noteq> 0" "mValue a < 2 ^ 62"
      using assms by (auto simp: ST_wire_parts)
    then have b: "\<not> bit (mValue a) 62" "\<not> bit (mValue a) 63" using high_bits by blast+
    have p: "bit (mValue a OR cPosNative) 62" "\<not> bit (mValue a OR cPosNative) 63" "(mValue a OR cPosNative) AND NOT cPosNative = mValue a"
      using b bit_cPos by (auto simp: bit_simps intro!: bit_word_eqI)
    have "?k (ST_word a) = (\<lambda>sit. Inr (a, sit))"
    proof (cases "mIsNegative a")
      case neg: True
      then have w: "ST_word a = mValue a" using True by (simp add: ST_word_def)
      show ?thesis using True a b neg unfolding w native_bits by (cases a) (simp add: ST_unchecked_def)
    next
      case neg: False
      then have w: "ST_word a = mValue a OR cPosNative" using True by (simp add: ST_word_def)
      show ?thesis using True a p neg unfolding w native_bits p(3) by (cases a) (simp add: ST_unchecked_def)
    qed
    then show ?thesis using True by (simp add: reads_return)
  next
    case False
    then show ?thesis using reads_issued[OF assms False] decode_word[of a] assms
      by (simp add: native_bits ST_wire_parts)
  qed
  from reads_bind[of SerialIter_get64 _ _ ?k, OF reads_get64 this] show ?thesis
    by (simp add: ST_deserialize_def[abs_def] ST_serialize_word)
qed

lemma reads_only_issued:
  assumes "bit w 63"
  shows "reads_only (ST_deserialize_issued w) (\<lambda>a bs. ST_wire a \<and> \<not> mIsNative a \<and> ST_word a = w \<and>
    bs = currency (mIssue a) @ account (mIssue a))"
proof -
  have "reads_only (\<lambda>sit. bindE (SerialIter_getBitString 160 sit) (\<lambda>(cur, sit).
     if isSFC cur then Inl (RuntimeError ''invalid native currency'')
     else
       bindE (SerialIter_getBitString 160 sit) (\<lambda>(acc, sit).
       if isSFC acc then Inl (RuntimeError ''invalid native account'')
       else bindE (ST_decode_issued \<lparr>currency = cur, account = acc\<rparr> w) (\<lambda>a. Inr (a, sit)))))
    (\<lambda>a bs. ST_wire a \<and> \<not> mIsNative a \<and> ST_word a = w \<and> bs = currency (mIssue a) @ account (mIssue a))"
  proof (rule reads_only_bind[OF reads_only_getBitString])
    fix cur bs :: Blob assume cur: "bs = cur \<and> length cur = 160 div 8"
    show "reads_only (\<lambda>sit. if isSFC cur then Inl (RuntimeError ''invalid native currency'')
     else
       bindE (SerialIter_getBitString 160 sit) (\<lambda>(acc, sit).
       if isSFC acc then Inl (RuntimeError ''invalid native account'')
       else bindE (ST_decode_issued \<lparr>currency = cur, account = acc\<rparr> w) (\<lambda>a. Inr (a, sit))))
      (\<lambda>a cs. ST_wire a \<and> \<not> mIsNative a \<and> ST_word a = w \<and> bs @ cs = currency (mIssue a) @ account (mIssue a))"
    proof (cases "isSFC cur")
      case False
      have "reads_only (\<lambda>sit. bindE (SerialIter_getBitString 160 sit) (\<lambda>(acc, sit).
         if isSFC acc then Inl (RuntimeError ''invalid native account'')
         else bindE (ST_decode_issued \<lparr>currency = cur, account = acc\<rparr> w) (\<lambda>a. Inr (a, sit))))
        (\<lambda>a cs. ST_wire a \<and> \<not> mIsNative a \<and> ST_word a = w \<and> bs @ cs = currency (mIssue a) @ account (mIssue a))"
      proof (rule reads_only_bind[OF reads_only_getBitString])
        fix acc cs :: Blob assume acc: "cs = acc \<and> length acc = 160 div 8"
        show "reads_only (\<lambda>sit. if isSFC acc then Inl (RuntimeError ''invalid native account'')
           else bindE (ST_decode_issued \<lparr>currency = cur, account = acc\<rparr> w) (\<lambda>a. Inr (a, sit)))
          (\<lambda>a ds. ST_wire a \<and> \<not> mIsNative a \<and> ST_word a = w \<and> bs @ cs @ ds = currency (mIssue a) @ account (mIssue a))"
          using cur acc decode_only[of "\<lparr>currency = cur, account = acc\<rparr>" w] False assms
          by (cases "isSFC acc") (auto simp: ST_wire_parts ST_canonical_def intro!: reads_only_throw reads_only_lift)
      qed
      then show ?thesis using False by simp
    qed (simp add: reads_only_throw)
  qed
  then show ?thesis by (simp add: ST_deserialize_issued_def[abs_def])
qed

lemma reads_only_ST_deserialize:
  "reads_only ST_deserialize (\<lambda>a bs. ST_wire a \<and> bs = encoding ST_put a)"
proof -
  have "reads_only (\<lambda>sit. bindE (SerialIter_get64 sit) (\<lambda>(value, sit).
     if value AND cNotNative = 0 then
       if value AND cPosNative \<noteq> 0
         then Inr (ST_unchecked sfcIssue (value AND NOT cPosNative) 0 True False, sit)
       else if value = 0 then Inl (RuntimeError ''negative zero is not canonical'')
       else Inr (ST_unchecked sfcIssue value 0 True True, sit)
     else ST_deserialize_issued value sit))
    (\<lambda>a bs. ST_wire a \<and> bs = encoding ST_put a)"
  proof (rule reads_only_bind[OF reads_only_get64])
    fix w :: u64 and bs :: Blob assume bs: "bs = encoding (pure_add Serializer_add64) w"
    let ?P = "\<lambda>a cs. ST_wire a \<and> bs @ cs = encoding ST_put a"
    have native: "ST_wire (ST_unchecked sfcIssue v 0 True neg)" if "v < 2 ^ 62" "neg \<longrightarrow> v \<noteq> 0" for v neg
      using that by (simp add: ST_wire_parts ST_unchecked_def sfcIssue_def isSFC_def)
    have mask: "(w AND NOT cPosNative) OR cPosNative = w" "w AND NOT cPosNative < 2 ^ 62" if "bit w 62" "\<not> bit w 63"
      using that by (auto simp: high_bits_numeral bit_cPos bit_simps intro!: bit_word_eqI)
    have issued: "reads_only (ST_deserialize_issued w) ?P" if "bit w 63"
      using reads_only_issued[OF that] unfolding reads_only_def bs by (fastforce simp: ST_serialize_word)
    consider "bit w 63" | "\<not> bit w 63" "bit w 62" | "\<not> bit w 63" "\<not> bit w 62" "w = 0" | "\<not> bit w 63" "\<not> bit w 62" "w \<noteq> 0"
      by blast
    then show "reads_only (\<lambda>sit. if w AND cNotNative = 0 then
       if w AND cPosNative \<noteq> 0
         then Inr (ST_unchecked sfcIssue (w AND NOT cPosNative) 0 True False, sit)
       else if w = 0 then Inl (RuntimeError ''negative zero is not canonical'')
       else Inr (ST_unchecked sfcIssue w 0 True True, sit)
     else ST_deserialize_issued w sit) ?P"
    proof cases
      case 1
      then show ?thesis using issued by (simp add: native_bits)
    next
      case 2
      then show ?thesis using native[OF mask(2), of False] mask(1) unfolding native_bits bs
        by (auto simp: ST_serialize_word ST_word_def intro!: reads_only_return) (simp_all add: ST_unchecked_def)
    next
      case 4
      then show ?thesis using native[of w True] unfolding native_bits bs
        by (auto simp: high_bits_numeral ST_serialize_word ST_word_def intro!: reads_only_return) (simp_all add: ST_unchecked_def)
    qed (auto intro: reads_only_throw)
  qed
  then show ?thesis by (simp add: ST_deserialize_def[abs_def])
qed

lemma ST_serialize_appends: "(getDataLength s, ST_serialize a s) = push_bytes (encoding ST_put a) s"
  by (simp add: ST_serialize_word)
    (simp add: ST_serialize_def Serializer_addBitString_def encoding_pure Serializer_add64_def push_bytes_def split: prod.split)

interpretation codec_amount: canonical_codec ST_put ST_deserialize ST_wire
  by unfold_locales
    (simp add: ST_serialize_appends[symmetric], rule reads_ST_deserialize, assumption,
     rule reads_only_moves[OF reads_only_ST_deserialize], rule reads_only_ST_deserialize)

section \<open>Native amounts, order\<close>

lemma ST_drops_canonical:
  assumes "\<bar>d\<bar> < 2 ^ 63"
  shows "ST_canonical (ST_drops d) \<longleftrightarrow> \<bar>d\<bar> \<le> 10 ^ 17" "ST_drop_count (ST_drops d) = d" "mIsNative (ST_drops d)"
    "mIssue (ST_drops d) = sfcIssue"
proof -
  have w: "uint (word_of_int x :: u64) = x" if "0 \<le> x" "x < 2 ^ 63" for x
    using that by (simp add: uint_word_of_int)
  have "d < 0 \<Longrightarrow> word_of_int (- d) \<noteq> (0 :: u64)" using w[of "- d"] assms by force
  then show "ST_canonical (ST_drops d) \<longleftrightarrow> \<bar>d\<bar> \<le> 10 ^ 17"
    using w[of d] w[of "- d"] assms
    by (auto simp: ST_drops_def ST_set_def ST_canonical_def ST_unchecked_def sfcIssue_def isSFC_def word_le_def cMaxNativeN_def)
  show "ST_drop_count (ST_drops d) = d" "mIsNative (ST_drops d)" "mIssue (ST_drops d) = sfcIssue"
    using w[of d] w[of "- d"] assms by (auto simp: ST_drops_def ST_set_def ST_abs_def ST_unchecked_def)
qed

lemma legal_sint:
  assumes "mIsNative a" "isLegalNet a"
  shows "sint (mValue a) = uint (mValue a)" "uint (mValue a) \<le> 10 ^ 17"
proof -
  show "uint (mValue a) \<le> 10 ^ 17" using assms by (simp add: isLegalNet_def word_le_def cMaxNativeN_def)
  then show "sint (mValue a) = uint (mValue a)" by (intro sint_small) simp
qed

lemma ST_make_native_legal:
  assumes "isSFC (currency issue)" "v \<le> cMaxNativeN"
  shows "ST_make issue v 0 neg =
    Inr (ST_unchecked issue v 0 True (neg \<and> v \<noteq> 0))"
  using assms by (auto simp: ST_make_def ST_canonicalize_def ST_unchecked_def ST_nativeDown.simps ST_nativeUp.simps)

lemma signed_sum_bound:
  fixes a b :: int
  assumes "0 \<le> a" "0 \<le> b" "a \<le> 10 ^ 17" "b \<le> 10 ^ 17"
  shows "\<bar>(if p then - a else a) + (if q then - b else b)\<bar> < 2 ^ 63"
  using assms by (auto simp: abs_if)

lemma less_same_exponent:
  assumes "exponent a = exponent b" shows "IOU_less a b \<longleftrightarrow> mantissa a < mantissa b"
  using assms by (auto simp: IOU_less_def Let_def)

lemma ST_nativeUp_mult: "0 \<le> off \<Longrightarrow> ST_nativeUp v off = (v * 10 ^ nat off, 0)"
proof (induction v off rule: ST_nativeUp.induct)
  case (1 v off)
  show ?case
  proof (cases "off > 0")
    case True
    then have "nat off = Suc (nat (off - 1))" by simp
    then show ?thesis using True 1 by (simp add: ST_nativeUp.simps[of v off] mult.assoc)
  qed (use 1 in \<open>simp add: ST_nativeUp.simps[of v 0]\<close>)
qed

lemma less_signed:
  fixes a b :: int
  assumes "0 \<le> a" "0 \<le> b" "n1 \<longrightarrow> a \<noteq> 0" "n2 \<longrightarrow> b \<noteq> 0"
  shows "(if n1 \<noteq> n2 then n1 else if a = 0 then if n2 then False else b \<noteq> 0 else if b = 0 then False
      else if e1 > e2 then n1 else if e1 < e2 then \<not> n1 else if a > b then n1 else if a < b then \<not> n1 else False) =
    IOU_less \<lparr>mantissa = (if n1 then - a else a), exponent = e1\<rparr> \<lparr>mantissa = (if n2 then - b else b), exponent = e2\<rparr>"
  using assms by (cases n1; cases n2) (auto simp: IOU_less_def Let_def)

lemma canonical_negative: "ST_canonical a \<Longrightarrow> mIsNegative a \<longrightarrow> uint (mValue a) \<noteq> 0"
  by (auto simp: ST_canonical_def unsigned_eq_0_iff cMinValue_def split: if_splits)

section \<open>Products, quotients and rates\<close>

lemma bringIntoRange_spec:
  assumes "v \<noteq> 0"
  shows "\<exists>v' n. bringIntoRange v off = Some (v', off - int n) \<and> uint v' = uint v * 10 ^ n \<and>
    cMinValue \<le> v' \<and> (n = 0 \<or> uint v' < 10 * minMantissa)"
  using assms
proof (induction "nat (minMantissa - uint v)" arbitrary: v off rule: less_induct)
  case less
  show ?case
  proof (cases "v < cMinValue")
    case True
    have u: "uint (v * 10) = uint v * 10" by (rule uint_times10[OF True])
    have p: "0 < uint v" "uint v < minMantissa" using less.prems True
      by (simp_all add: word_less_def ST_IOU_consts order_less_le unsigned_eq_0_iff)
    then have "nat (minMantissa - uint (v * 10)) < nat (minMantissa - uint v)" "v * 10 \<noteq> 0"
      using u by (auto simp: minMantissa_def)
    from less.hyps[OF this, of "off - 1"] obtain v' n where
      n: "bringIntoRange (v * 10) (off - 1) = Some (v', off - 1 - int n)" "uint v' = uint v * 10 * 10 ^ n"
        "cMinValue \<le> v'" "n = 0 \<or> uint v' < 10 * minMantissa" using u by auto
    then show ?thesis using True p
      by (intro exI[of _ v'] exI[of _ "Suc n"]) (auto simp: bringIntoRange.simps[of v] algebra_simps)
  next
    case False
    then show ?thesis by (intro exI[of _ v] exI[of _ 0]) (simp add: bringIntoRange.simps[of v])
  qed
qed

lemma abs_ST_val: "\<bar>ST_val a\<bar> = of_int (uint (mValue a)) * 10 powi mOffset a"
proof -
  have "\<bar>mantissa (ST_abs a)\<bar> = uint (mValue a)" by (simp add: ST_abs_def)
  then show ?thesis unfolding ST_val_def abs_val by (simp add: ST_abs_def)
qed

text \<open>The mantissa and exponent an operand of a product or quotient is taken with.\<close>

lemma rangeOf_spec:
  assumes "ST_canonical a" "\<not> ST_isZero a" "isLegalNet a"
  obtains v off where "ST_rangeOf a = Inr (v, off)" "minMantissa \<le> uint v" "uint v \<le> 10 ^ 17"
    "of_int (uint v) * 10 powi off = \<bar>ST_val a\<bar>" "\<not> mIsNative a \<Longrightarrow> uint v \<le> maxMantissa"
proof (cases "mIsNative a")
  case True
  have nz: "mValue a \<noteq> 0" using assms(2) by (auto simp: ST_isZero_def ST_signum_def)
  obtain v n where v: "bringIntoRange (mValue a) (mOffset a) = Some (v, mOffset a - int n)"
    "uint v = uint (mValue a) * 10 ^ n" "cMinValue \<le> v" "n = 0 \<or> uint v < 10 * minMantissa"
    using bringIntoRange_spec[OF nz] by blast
  show thesis
  proof (rule that)
    show "ST_rangeOf a = Inr (v, mOffset a - int n)" using True v by (simp add: ST_rangeOf_def)
    show "minMantissa \<le> uint v" using v(3) by (simp add: word_le_def ST_IOU_consts)
    show "uint v \<le> 10 ^ 17" using v(2,4) legal_sint(2)[OF True assms(3)] by (auto simp: minMantissa_def)
    show "of_int (uint v) * 10 powi (mOffset a - int n) = \<bar>ST_val a\<bar>"
      using v(2) powi10_split[of "mOffset a - int n" "mOffset a"] by (simp add: abs_ST_val)
  qed (use True in simp)
next
  case False
  then have r: "cMinValue \<le> mValue a" "mValue a \<le> cMaxValue"
    using assms canonical_isZero(1)[OF assms(1) False] by (auto simp: ST_canonical_def)
  then have "uint (mValue a) \<le> maxMantissa" by (simp add: word_le_def ST_IOU_consts)
  then show thesis
    using that[of "mValue a" "mOffset a"] r(1) False
    by (simp add: ST_rangeOf_def word_le_def ST_IOU_consts abs_ST_val maxMantissa_def)
qed

lemma make_large_exponent:
  assumes r: "exact_make s e = Inr r" "r \<noteq> IOU_zero" and s: "maxMantissa < \<bar>s\<bar>"
  shows "e + 1 \<le> exponent r"
proof -
  have wf: "IOU_wf r" using r normalize_result_wf by (auto simp: exact_make_def)
  have "(10::real) ^ 16 * 10 powi e \<le> of_int \<bar>s\<bar> * 10 powi e"
  proof (rule mult_right_mono)
    have "real_of_int (10 ^ 16) \<le> of_int \<bar>s\<bar>" using s by (simp only: of_int_le_iff) (simp add: maxMantissa_def)
    then show "(10::real) ^ 16 \<le> of_int \<bar>s\<bar>" by simp
  qed simp
  also have "\<dots> < \<bar>IOU_val r\<bar> + 10 powi exponent r"
  proof -
    have "\<bar>\<bar>of_int s * 10 powi e\<bar> - \<bar>IOU_val r\<bar>\<bar> < 10 powi exponent r"
      using make_error[OF r] by linarith
    then show ?thesis by (simp add: abs_mult)
  qed
  also have "\<dots> = of_int (\<bar>mantissa r\<bar> + 1) * 10 powi exponent r" by (simp add: abs_val distrib_right)
  also have "\<dots> \<le> 10 ^ 16 * 10 powi exponent r"
  proof (rule mult_right_mono)
    have "real_of_int (\<bar>mantissa r\<bar> + 1) \<le> of_int (10 ^ 16)"
      using wf_mantissa_le[OF wf] by (simp only: of_int_le_iff) (simp add: maxMantissa_def)
    then show "real_of_int (\<bar>mantissa r\<bar> + 1) \<le> 10 ^ 16" by simp
  qed simp
  finally have "(10::real) powi e < 10 powi exponent r" by simp
  then show ?thesis using powi10_strict[of e "exponent r"] by linarith
qed

text \<open>
  A constant of at most nine added to a truncated value of at least seventeen digits stays within
  one unit in the last place after canonicalization.
\<close>

lemma make_nudged:
  assumes iss: "\<not> isSFC (currency issue)" and q: "maxMantissa < uint w - c" and c: "1 \<le> c" "c \<le> 9"
    and x: "of_int (uint w - c) * 10 powi e \<le> \<bar>x\<bar>" "\<bar>x\<bar> < of_int (uint w - c + 1) * 10 powi e"
    and sg: "x = (if neg then - \<bar>x\<bar> else \<bar>x\<bar>)"
  shows "ST_approx issue x (ST_make issue w e neg)"
proof -
  define p :: real where "p = 10 powi e"
  define q where "q = uint w - c"
  have qx: "of_int q * p \<le> \<bar>x\<bar>" "\<bar>x\<bar> < of_int q * p + p" using x by (simp_all add: p_def q_def algebra_simps)
  have p: "0 < p" by (simp add: p_def)
  have "real_of_int (10 ^ 16) \<le> of_int q"
    using assms(2) by (simp only: of_int_le_iff q_def) (simp add: maxMantissa_def)
  then have big: "(10::real) ^ 16 \<le> of_int q" by simp
  let ?s = "if neg then - uint w else uint w"
  have abs: "\<bar>?s\<bar> = uint w" by simp
  have v: "\<bar>of_int ?s * (10::real) powi e\<bar> = of_int q * p + of_int c * p"
    unfolding abs_mult of_int_abs[symmetric] abs by (simp add: q_def p_def algebra_simps)
  have cp: "p \<le> of_int c * p" "of_int c * p \<le> 9 * p" using c p by simp_all
  note ref = ST_make_refines[OF iss, of w e neg, unfolded iou_refines_def]
  show ?thesis
  proof (cases "ST_make issue w e neg")
    case (Inl y)
    obtain z where "exact_make ?s e = Inl z" using ref Inl by auto
    then have "10 powi 96 \<le> of_int q * p + of_int c * p" using make_throws v by metis
    then have "10 powi 96 - 10 powi 81 \<le> \<bar>x\<bar>"
    proof (cases "p \<le> 10 powi 80")
      case True
      then have "9 * p \<le> 10 powi 81" by simp
      then show ?thesis using \<open>10 powi 96 \<le> _\<close> qx cp by linarith
    next
      case False
      have "(10::real) powi 96 \<le> 10 ^ 16 * p" using False by simp
      also have "\<dots> \<le> of_int q * p" using big p by (intro mult_right_mono) simp_all
      finally have "(10::real) powi 96 \<le> \<bar>x\<bar>" using qx by linarith
      moreover have "(0::real) \<le> 10 powi 81" by simp
      ultimately show ?thesis by linarith
    qed
    then show ?thesis using ref Inl by (simp add: ST_approx_def)
  next
    case (Inr r)
    then have r: "ST_canonical r" "mIssue r = issue" "exact_make ?s e = Inr (ST_abs r)" using ref by auto
    then have nn: "\<not> mIsNative r" using iss by (auto simp: ST_canonical_def)
    show ?thesis
    proof (cases "mValue r = 0")
      case True
      then have "exact_make ?s e = Inr IOU_zero" using r canonical_isZero(2)[OF r(1) nn] by simp
      from make_underflow[OF this] have "\<bar>x\<bar> < 10 powi (-81)" using v qx cp by linarith
      then show ?thesis using r Inr True by (simp add: ST_approx_def)
    next
      case False
      then have nz: "ST_abs r \<noteq> IOU_zero" using canonical_isZero(2)[OF r(1) nn] by simp
      have "maxMantissa < \<bar>?s\<bar>" using assms(2) c unfolding abs by linarith
      from powi10_mono[OF make_large_exponent[OF r(3) nz this]]
      have u: "10 * p \<le> 10 powi mOffset r" by (simp add: p_def powi10_add ST_abs_def)
      have n: "sgn (ST_val r) = sgn (of_int ?s * 10 powi e)" "\<bar>ST_val r\<bar> \<le> of_int q * p + of_int c * p"
        "of_int q * p + of_int c * p - \<bar>ST_val r\<bar> < 10 powi mOffset r"
        using normalize_spec[of "\<lparr>mantissa = ?s, exponent = e\<rparr>"] r(3) nz v
        by (simp_all add: exact_make_def ST_val_def IOU_val_def[of "\<lparr>mantissa = ?s, exponent = e\<rparr>"])
          (simp add: ST_abs_def)
      have "1 * p \<le> of_int q * p" using big p by (intro mult_right_mono) simp_all
      then have pos: "0 < \<bar>x\<bar>" using qx(1) p by linarith
      have w: "0 < real_of_int (uint w)" using assms(2) c by (simp only: of_int_0_less_iff) (simp add: maxMantissa_def)
      have neg: "ST_val r < 0 \<longleftrightarrow> neg"
      proof -
        have "of_int ?s * (10::real) powi e < 0 \<longleftrightarrow> neg"
          using w by (cases neg) (simp_all add: mult_less_0_iff not_less del: of_int_uint)
        then show ?thesis using n(1) by (metis sgn_less)
      qed
      have "\<bar>\<bar>x\<bar> - \<bar>ST_val r\<bar>\<bar> < 10 powi mOffset r" using n(2,3) qx cp u p by linarith
      then show ?thesis using r Inr False neg pos sg by (auto simp: ST_approx_def)
    qed
  qed
qed

lemma int_div_ge: "0 < b \<Longrightarrow> k * b \<le> a \<Longrightarrow> k \<le> a div (b::int)"
  using zdiv_mono1[of "k * b" a b] by simp

lemma int_div_less: "0 < b \<Longrightarrow> a < k * b \<Longrightarrow> a div b < (k::int)"
proof (rule ccontr)
  assume b: "0 < b" "a < k * b" "\<not> a div b < k"
  then have "k * b \<le> a div b * b" by (intro mult_right_mono) simp_all
  then show False using b div_mult_mod_eq[of a b] pos_mod_sign[of b a] by linarith
qed

lemma muldiv_ok:
  assumes "uint a * uint b < 2 ^ 64 * uint c"
  obtains w where "muldiv a b c = Inr w" "uint w = uint a * uint b div uint c"
proof -
  define n where "n = unat a * unat b div unat c"
  have "int (unat a * unat b) < int (2 ^ 64 * unat c)" using assms by simp
  then have n: "n < 2 ^ 64" unfolding n_def by (intro less_mult_imp_div_less) (simp only: of_nat_less_iff)
  have "int n = uint a * uint b div uint c" by (simp add: n_def zdiv_int)
  moreover have "uint (word_of_nat n :: u64) = int n" using n by (simp add: unsigned_of_nat take_bit_nat_eq_self)
  moreover have "muldiv a b c = Inr (word_of_nat n)" using n by (simp add: muldiv_def n_def Let_def)
  ultimately show thesis using that by simp
qed

lemma make_quotient:
  assumes "\<not> isSFC (currency issue)" and B: "0 < B" and q: "maxMantissa < A div B" and c: "1 \<le> c" "c \<le> 9"
    and w: "uint w = A div B + c" and x: "\<bar>x\<bar> = of_int A / of_int B * 10 powi e"
    and sg: "x = (if neg then - \<bar>x\<bar> else \<bar>x\<bar>)"
  shows "ST_approx issue x (ST_make issue w e neg)"
proof -
  have f: "\<lfloor>real_of_int A / of_int B\<rfloor> = A div B" by (rule floor_divide_of_int_eq)
  have "of_int (A div B) \<le> real_of_int A / of_int B" "real_of_int A / of_int B < of_int (A div B + 1)"
    unfolding f[symmetric] by linarith+
  from mult_right_mono[OF this(1) powi10_nonneg[of e]] mult_strict_right_mono[OF this(2) powi10_pos[of e]]
  have "of_int (A div B) * 10 powi e \<le> \<bar>x\<bar>" "\<bar>x\<bar> < of_int (A div B + 1) * 10 powi e" unfolding x by blast+
  then show ?thesis using make_nudged[OF assms(1) _ c _ _ sg, of w e] q w by simp
qed

lemma signs:
  assumes "ST_canonical a" "ST_canonical b"
  shows "ST_val a * ST_val b = (if mIsNegative a \<noteq> mIsNegative b then - \<bar>ST_val a * ST_val b\<bar> else \<bar>ST_val a * ST_val b\<bar>)"
    "ST_val a / ST_val b = (if mIsNegative a \<noteq> mIsNegative b then - \<bar>ST_val a / ST_val b\<bar> else \<bar>ST_val a / ST_val b\<bar>)"
proof -
  have s: "ST_val a = (if mIsNegative a then - \<bar>ST_val a\<bar> else \<bar>ST_val a\<bar>)" for a
    unfolding abs_ST_val by (simp add: ST_val_def IOU_val_def ST_abs_def)
  show "ST_val a * ST_val b = (if mIsNegative a \<noteq> mIsNegative b then - \<bar>ST_val a * ST_val b\<bar> else \<bar>ST_val a * ST_val b\<bar>)"
    "ST_val a / ST_val b = (if mIsNegative a \<noteq> mIsNegative b then - \<bar>ST_val a / ST_val b\<bar> else \<bar>ST_val a / ST_val b\<bar>)"
    using s[of a] s[of b] by (auto simp: abs_mult split: if_splits)
qed

lemma ST_make_issued:
  assumes "\<not> isSFC (currency issue)" "ST_make issue v e neg = Inr r"
  shows "ST_canonical r" "\<not> mIsNative r" "mIssue r = issue" "\<not> ST_isZero r \<Longrightarrow> mIsNegative r = neg"
proof -
  show c: "ST_canonical r" "mIssue r = issue" using ST_make_refines[OF assms(1), of v e neg] assms(2)
    by (simp_all add: iou_refines_def)
  then show "\<not> mIsNative r" using assms(1) by (auto simp: ST_canonical_def)
  show "\<not> ST_isZero r \<Longrightarrow> mIsNegative r = neg"
    using assms by (auto simp: ST_make_def ST_canonicalize_def ST_unchecked_def ST_isZero_def ST_signum_def
        split: if_splits prod.splits elim!: bindE_eq_InrE)
qed

lemma noIssue_not_SFC: "\<not> isSFC (currency noIssue)"
  by (simp add: noIssue_def isSFC_def one160_def zero160_def numeral_eq_Suc)

lemma rate_word_value:
  assumes "ST_canonical r" "\<not> mIsNative r" "\<not> ST_isZero r"
  shows "uint (rate_word r) = 2 ^ 56 * (mOffset r + 100) + uint (mValue r)"
    "0 \<le> mOffset r + 100" "uint (mValue r) < 2 ^ 56" "mValue r \<noteq> 0"
proof -
  have r: "cMinValue \<le> mValue r" "mValue r \<le> cMaxValue" "cMinOffset \<le> mOffset r" "mOffset r \<le> cMaxOffset" "mValue r \<noteq> 0"
    using assms canonical_isZero(1)[OF assms(1,2)] by (auto simp: ST_canonical_def)
  show m: "0 \<le> mOffset r + 100" "uint (mValue r) < 2 ^ 56" "mValue r \<noteq> 0"
    using r mantissa_54[OF r(2)] by (simp_all add: ST_consts)
  show "uint (rate_word r) = 2 ^ 56 * (mOffset r + 100) + uint (mValue r)"
    unfolding rate_word_def or.commute[of _ "mValue r"]
    by (rule pack_bits[OF m(2,1)]) (use r in \<open>simp add: ST_consts\<close>)
qed

lemma amountFromQuality_rate_word:
  assumes "ST_canonical r" "\<not> mIsNative r" "\<not> ST_isZero r" "mIssue r = noIssue" "\<not> mIsNegative r"
  shows "amountFromQuality (rate_word r) = Inr r"
proof -
  note w = rate_word_value[OF assms(1-3)]
  have m: "0 \<le> uint (mValue r)" by simp
  have v: "rate_word r AND NOT (push_bit 56 255) = mValue r"
    by (rule word_uint_eqI, unfold unpack56 w(1)) (rule div_mod_pack(2)[OF m w(3)])
  have e: "uint (drop_bit 56 (rate_word r)) - 100 = mOffset r"
    unfolding unpack56 w(1) div_mod_pack(1)[OF m w(3)] by simp
  have "rate_word r \<noteq> 0" using v w(4) by auto
  then have "amountFromQuality (rate_word r) = ST_make noIssue (mValue r) (mOffset r) False"
    unfolding amountFromQuality_def v e by simp
  also have "\<dots> = Inr r"
    using ST_canonicalize_id[of "ST_unchecked noIssue (mValue r) (mOffset r) False False"] assms w(4)
      noIssue_not_SFC by (cases r) (auto simp: ST_make_def ST_unchecked_def ST_canonical_def)
  finally show ?thesis .
qed

lemma lex_pack:
  fixes m :: int
  assumes "0 \<le> x" "x < m" "0 \<le> y" "y < m"
  shows "m * a + x < m * b + y \<longleftrightarrow> a < b \<or> a = b \<and> x < y"
proof -
  have lt: "m * a + x < m * b + y" if "a < b" "x < m" "0 \<le> y" "0 \<le> m" for a b x y
  proof -
    have "m * (a + 1) \<le> m * b" using that by (intro mult_left_mono) auto
    then show ?thesis using that by (simp add: distrib_left)
  qed
  show ?thesis using lt[of a b x y] lt[of b a y x] assms by (cases a b rule: linorder_cases) auto
qed

lemma rate_word_order:
  assumes "ST_canonical r" "\<not> mIsNative r" "\<not> ST_isZero r" "\<not> mIsNegative r"
    and "ST_canonical s" "\<not> mIsNative s" "\<not> ST_isZero s" "\<not> mIsNegative s"
  shows "rate_word r < rate_word s \<longleftrightarrow> ST_val r < ST_val s"
proof -
  note w = rate_word_value[OF assms(1-3)] and w' = rate_word_value[OF assms(5-7)]
  have "rate_word r < rate_word s \<longleftrightarrow> mOffset r < mOffset s \<or> mOffset r = mOffset s \<and> uint (mValue r) < uint (mValue s)"
    unfolding word_less_def w(1) w'(1) lex_pack[OF uint_ge_0 w(3) uint_ge_0 w'(3)] by simp
  also have "\<dots> \<longleftrightarrow> IOU_less (ST_abs r) (ST_abs s)"
    using assms w(4) w'(4) by (auto simp: IOU_less_def ST_abs_def Let_def unsigned_eq_0_iff)
  also have "\<dots> \<longleftrightarrow> ST_val r < ST_val s"
    using less_value[OF ST_abs_wf[OF assms(1,2)] ST_abs_wf[OF assms(5,6)]] by (simp add: ST_val_def)
  finally show ?thesis .
qed

lemma divide_positive:
  assumes "ST_divide i out noIssue = Inr r" "\<not> ST_isZero r" "mIsNegative i = mIsNegative out"
  shows "ST_canonical r" "\<not> mIsNative r" "mIssue r = noIssue" "\<not> mIsNegative r" "getRate out i = rate_word r"
proof -
  obtain v e neg where mk: "ST_make noIssue v e neg = Inr r" "\<not> neg"
    using assms(1,3) by (auto simp: ST_divide_def split: if_splits elim!: bindE_eq_InrE)
  note d = ST_make_issued[OF noIssue_not_SFC mk(1)]
  show "ST_canonical r" "\<not> mIsNative r" "mIssue r = noIssue" "\<not> mIsNegative r"
    using d assms(2) mk(2) by auto
  have "\<not> ST_isZero out" using assms(1) by (auto simp: ST_divide_def)
  then show "getRate out i = rate_word r" using assms by (simp add: getRate_def rate_word_def)
qed

lemma sdiv_floor_ceiling:
  fixes m d :: int
  assumes d: "0 < d"
  shows "m sdiv d = (if m < 0 then \<lceil>real_of_int m / of_int d\<rceil> else \<lfloor>real_of_int m / of_int d\<rfloor>)"
    and "m smod d = 0 \<longleftrightarrow> m mod d = 0"
proof -
  have "\<lfloor>real_of_int m / of_int d\<rfloor> = m div d" by (rule floor_divide_of_int_eq)
  moreover have "\<lceil>real_of_int m / of_int d\<rceil> = - (- m div d)" by (rule ceiling_divide_eq_div)
  ultimately show "m sdiv d = (if m < 0 then \<lceil>real_of_int m / of_int d\<rceil> else \<lfloor>real_of_int m / of_int d\<rfloor>)"
    using d by (auto simp: signed_divide_int_def sgn_if)
  show "m smod d = 0 \<longleftrightarrow> m mod d = 0"
    using d by (auto simp: signed_modulo_int_def sgn_if zmod_zminus1_not_zero)
qed

lemma ceiling_floor_step:
  fixes m d :: int
  assumes "0 < d" "m mod d \<noteq> 0"
  shows "\<lceil>real_of_int m / of_int d\<rceil> = \<lfloor>real_of_int m / of_int d\<rfloor> + 1"
proof -
  have "\<lfloor>real_of_int m / of_int d\<rfloor> = m div d" by (rule floor_divide_of_int_eq)
  moreover have "\<lceil>real_of_int m / of_int d\<rceil> = - (- m div d)" by (rule ceiling_divide_eq_div)
  ultimately show ?thesis using assms by (simp add: zdiv_zminus1_eq_if)
qed

section \<open>Properties\<close>

text \<open>
  C2: Reading an amount accepts exactly the bytes \<open>STAmount::add\<close> writes for an amount that has an issue with a wire form
  and that \<open>canonicalize\<close> leaves alone, or that is native and above the largest canonical number of drops but
  below \<open>2 ^ 62\<close>, which \<open>canonicalize\<close> refuses and the reader does not check.  Each such amount has one encoding, it is read back
  unchanged, nothing else is accepted, and the cursor moves by its length.
\<close>

theorem ST_wire_exact:
  assumes "iter_wf it"
  shows "(ST_deserialize it = Inr (a, it') \<longleftrightarrow> wire_issue a \<and> (ST_canonicalize a = Inr a \<or> native_excess a) \<and>
      it' = SerialIter_advance (length (encoding ST_put a)) it \<and> (\<exists>rest. unread it = encoding ST_put a @ rest)) \<and>
    (wire_issue a \<and> native_excess a \<longrightarrow> ST_canonicalize a = Inl (RuntimeError ''Native currency amount out of range''))"
proof -
  have "ST_canonicalize a = Inl (RuntimeError ''Native currency amount out of range'')" if "wire_issue a" "native_excess a"
    using that by (auto simp: wire_issue_def native_excess_def ST_canonicalize_def sfcIssue_def isSFC_def
        ST_nativeDown.simps[of _ 0] ST_nativeUp.simps[of _ 0])
  then show ?thesis using codec_amount.exact[OF assms, of a it'] by (auto simp: ST_wire_def canonicalize_fixed)
qed

theorem ST_wire_exact_witness:
  "ST_deserialize (SerialIter_make (encoding ST_put (ST_native 5 False))) =
     Inr (ST_native 5 False, SerialIter_advance 8 (SerialIter_make (encoding ST_put (ST_native 5 False))))"
proof -
  let ?it = "SerialIter_make (encoding ST_put (ST_native 5 False))"
  have wf: "iter_wf ?it" by (simp add: iter_wf_def SerialIter_make_def)
  have len: "length (encoding ST_put (ST_native 5 False)) = 8"
    by (simp add: ST_serialize_word encoding_add64_length ST_native_def ST_unchecked_def)
  have w: "wire_issue (ST_native 5 False)" "ST_canonicalize (ST_native 5 False) = Inr (ST_native 5 False)"
    by (simp_all add: canonicalize_fixed wire_issue_def ST_native_def ST_canonical_def ST_unchecked_def sfcIssue_def isSFC_def cMaxNativeN_def)
  have un: "unread ?it = encoding ST_put (ST_native 5 False) @ []" by (simp add: unread_def SerialIter_make_def)
  show ?thesis
    by (rule iffD2[OF conjunct1[OF ST_wire_exact[OF wf]]], intro conjI exI disjI1, rule w(1), rule w(2), simp only: len, rule un)
qed

text \<open>
  C4: The sum of two comparable canonical issued amounts is what \<open>IOUAmount\<close> computes on their
  signed mantissas and exponents: the same result, canonical and with the issue of the first
  operand, or a throw exactly when \<open>IOUAmount\<close> throws.
\<close>

theorem ST_add_refines:
  assumes c: "ST_canonical v1" "ST_canonical v2" "areComparable v1 v2" and n: "\<not> mIsNative v1"
  shows "iou_refines (mIssue v1) (ST_add v1 v2) (IOU_add (ST_abs v1) (ST_abs v2))"
proof -
  have n2: "\<not> mIsNative v2" and iss: "\<not> isSFC (currency (mIssue v1))"
    using c n by (auto simp: areComparable_def ST_canonical_def)
  note z1 = canonical_isZero[OF c(1) n] and z2 = canonical_isZero[OF c(2) n2]
  note mk = ST_make_refines[OF iss]
  consider "ST_isZero v2" | "\<not> ST_isZero v2" "ST_isZero v1" | "\<not> ST_isZero v2" "\<not> ST_isZero v1" by blast
  then show ?thesis
  proof cases
    case 1
    then show ?thesis using c z2 by (simp add: ST_add_def iou_refines_def)
  next
    case 2
    then show ?thesis using c z1 z2 mk[of "mValue v2" "mOffset v2" "mIsNegative v2"] normalize_wf[OF ST_abs_wf[OF c(2) n2]]
      by (simp add: ST_add_def exact_make_def) (simp add: ST_abs_def)
  next
    case 3
    define s where "s = IOU_aligned_sum (ST_abs v1) (ST_abs v2)"
    let ?e = "max (mOffset v1) (mOffset v2)"
    have nz: "ST_abs v1 \<noteq> IOU_zero" "ST_abs v2 \<noteq> IOU_zero" using 3 z1 z2 by auto
    have s: "\<bar>s\<bar> \<le> 2 * maxMantissa"
      unfolding s_def by (rule aligned_sum_wf) (rule ST_abs_wf[OF c(1) n] ST_abs_wf[OF c(2) n2])+
    have st: "ST_add v1 v2 =
       (if \<bar>s\<bar> \<le> 10 then ST_make (mIssue v1) 0 0 False
        else if s \<ge> 0 then ST_make (mIssue v1) (word_of_int s) ?e False
        else ST_make (mIssue v1) (word_of_int (- s)) ?e True)"
      using 3 c(3) n canonical_sint[OF c(1) n] canonical_sint[OF c(2) n2]
      by (auto simp: ST_add_def Let_def s_def IOU_aligned_sum_def ST_abs_def signed64_small)
    have iou: "IOU_add (ST_abs v1) (ST_abs v2) =
       (if \<bar>s\<bar> \<le> 10 then exact_make 0 0 else exact_make s ?e)"
      using nz aligned_sum_make[OF ST_abs_wf[OF c(1) n] ST_abs_wf[OF c(2) n2]]
      by (simp add: IOU_add_unfold s_def ST_abs_def exact_make_def[of 0 0] exact_normalize_def)
    have w: "uint (word_of_int x :: u64) = x" if "0 \<le> x" "x \<le> 2 * maxMantissa" for x
      using that by (simp add: uint_word_of_int maxMantissa_def)
    show ?thesis
      using mk[of 0 0 False] mk[of "word_of_int s" ?e False] mk[of "word_of_int (- s)" ?e True] w[of s] w[of "- s"] s
      unfolding st iou by (auto simp: abs_if split: if_splits)
  qed
qed

theorem ST_add_refines_witness:
  "iou_refines noIssue (ST_add (ST_unchecked noIssue 1500000000000000 (-15) False False) (ST_unchecked noIssue 2500000000000000 (-17) False True))
     (IOU_add (ST_abs (ST_unchecked noIssue 1500000000000000 (-15) False False)) (ST_abs (ST_unchecked noIssue 2500000000000000 (-17) False True)))"
proof -
  have "ST_canonical (ST_unchecked noIssue 1500000000000000 (-15) False False)" "ST_canonical (ST_unchecked noIssue 2500000000000000 (-17) False True)"
    using noIssue_not_SFC by (simp_all add: ST_canonical_def ST_unchecked_def ST_consts)
  then show ?thesis using ST_add_refines[of "ST_unchecked noIssue 1500000000000000 (-15) False False" "ST_unchecked noIssue 2500000000000000 (-17) False True"]
    by (simp add: areComparable_def ST_unchecked_def)
qed

text \<open>
  The sum of two canonical native amounts is native, and its number of drops is the sum of
  theirs; it never throws, and it is canonical exactly if the sum is within the limit.
\<close>

theorem ST_add_native:
  assumes c: "ST_canonical v1" "ST_canonical v2" and n: "mIsNative v1" "mIsNative v2"
  shows "\<exists>r. ST_add v1 v2 = Inr r \<and> (ST_canonical r \<longleftrightarrow> \<bar>ST_drop_count r\<bar> \<le> 10 ^ 17) \<and> mIsNative r \<and>
    ST_drop_count r = ST_drop_count v1 + ST_drop_count v2"
proof -
  have l: "isLegalNet v1" "isLegalNet v2" using c n by (auto simp: ST_canonical_def isLegalNet_def)
  have cmp: "areComparable v1 v2" using c n by (auto simp: areComparable_def ST_canonical_def isSFC_def)
  note s1 = legal_sint[OF n(1) l(1)] and s2 = legal_sint[OF n(2) l(2)]
  consider "mValue v2 = 0" | "mValue v1 = 0" "mValue v2 \<noteq> 0" | "mValue v1 \<noteq> 0" "mValue v2 \<noteq> 0" by blast
  then show ?thesis
  proof cases
    case 1
    then show ?thesis using c n cmp s1 by (simp add: ST_add_def ST_isZero_def ST_signum_def ST_abs_def)
  next
    case 2
    then show ?thesis using c n cmp l ST_make_native_legal[of "mIssue v1" "mValue v2" "mIsNegative v2"] s2
      by (auto simp: ST_add_def ST_isZero_def ST_signum_def ST_abs_def ST_canonical_def isLegalNet_def ST_unchecked_def)
  next
    case 3
    have "ST_add v1 v2 = Inr (ST_drops (ST_drop_count v1 + ST_drop_count v2))"
      using 3 n cmp s1 s2 by (simp add: ST_add_def ST_isZero_def ST_signum_def getSNValue_def ST_abs_def signed64_small)
    moreover have "\<bar>ST_drop_count v1 + ST_drop_count v2\<bar> < 2 ^ 63"
      using signed_sum_bound[OF uint_ge_0 uint_ge_0 s1(2) s2(2)] by (simp add: ST_abs_def)
    ultimately show ?thesis using ST_drops_canonical by auto
  qed
qed

theorem ST_add_native_witness:
  "\<exists>r. ST_add (ST_native 7 True) (ST_native 5 False) = Inr r \<and> ST_canonical r \<and> mIsNative r \<and> ST_drop_count r = -2"
proof -
  have "ST_canonical (ST_native 7 True)" "ST_canonical (ST_native 5 False)" "mIsNative (ST_native 7 True)" "mIsNative (ST_native 5 False)"
    and d: "ST_drop_count (ST_native 7 True) = - 7" "ST_drop_count (ST_native 5 False) = 5"
    by (simp_all add: ST_native_def ST_canonical_def ST_unchecked_def sfcIssue_def isSFC_def cMaxNativeN_def ST_abs_def)
  from ST_add_native[OF this(1-4)] show ?thesis unfolding d by auto
qed

text \<open>
  On canonical amounts \<open>operator<\<close> throws exactly when the amounts are not comparable, and
  otherwise is the order of the numbers they stand for.
\<close>

theorem ST_less_value:
  assumes c: "ST_canonical v1" "ST_canonical v2"
  shows "ST_less v1 v2 =
    (if areComparable v1 v2 then Inr (ST_val v1 < ST_val v2)
     else Inl (RuntimeError ''Can't compare amounts that are't comparable!''))"
proof (cases "areComparable v1 v2")
  case cmp: True
  have iou: "ST_less v1 v2 = Inr (IOU_less (ST_abs v1) (ST_abs v2))"
    unfolding ST_abs_def ST_less_def
      less_signed[OF uint_ge_0 uint_ge_0 canonical_negative[OF c(1)] canonical_negative[OF c(2)], symmetric]
    by (simp only: word_less_def unsigned_eq_0_iff cmp simp_thms if_False)
  show ?thesis
  proof (cases "mIsNative v1")
    case True
    then have "mOffset v1 = 0" "mOffset v2 = 0" using c cmp by (auto simp: ST_canonical_def areComparable_def)
    then have e: "exponent (ST_abs v1) = 0" "exponent (ST_abs v2) = 0" by (simp_all add: ST_abs_def)
    then have "ST_val v1 < ST_val v2 \<longleftrightarrow> mantissa (ST_abs v1) < mantissa (ST_abs v2)" "IOU_less (ST_abs v1) (ST_abs v2) \<longleftrightarrow> mantissa (ST_abs v1) < mantissa (ST_abs v2)"
      by (simp_all add: ST_val_def IOU_val_def less_same_exponent)
    then show ?thesis using iou cmp by simp
  next
    case False
    then have "\<not> mIsNative v2" using cmp by (simp add: areComparable_def)
    then show ?thesis using iou cmp less_value[of "ST_abs v1" "ST_abs v2"] ST_abs_wf c False by (simp add: ST_val_def)
  qed
qed (simp add: ST_less_def)

theorem ST_less_value_witness:
  "ST_less (ST_unchecked noIssue 2500000000000000 (-17) False True) (ST_unchecked noIssue 1500000000000000 (-15) False False) = Inr True"
proof -
  have "ST_canonical (ST_unchecked noIssue 1500000000000000 (-15) False False)" "ST_canonical (ST_unchecked noIssue 2500000000000000 (-17) False True)"
    using noIssue_not_SFC by (simp_all add: ST_canonical_def ST_unchecked_def ST_consts)
  from ST_less_value[OF this(2,1)] show ?thesis
    by (simp add: areComparable_def ST_val_def IOU_val_def ST_abs_def ST_unchecked_def)
qed

text \<open>
  C28: \<open>multiply\<close> of two non-zero issued amounts into an issued currency is canonical, has the sign
  of the product and is off from it by less than one unit in its last place; it gives zero only
  below \<open>10 ^ -81\<close> and throws only next to \<open>10 ^ 96\<close>.
\<close>

theorem ST_multiply_accurate:
  assumes c: "ST_canonical v1" "ST_canonical v2" and n: "\<not> mIsNative v1" "\<not> mIsNative v2"
    and z: "\<not> ST_isZero v1" "\<not> ST_isZero v2" and iss: "\<not> isSFC (currency issue)"
  shows "ST_approx issue (ST_val v1 * ST_val v2) (ST_multiply v1 v2 issue)"
proof -
  obtain m1 o1 where m1: "ST_rangeOf v1 = Inr (m1, o1)" "minMantissa \<le> uint m1" "uint m1 \<le> maxMantissa"
    "of_int (uint m1) * 10 powi o1 = \<bar>ST_val v1\<bar>"
    by (rule rangeOf_spec[OF c(1) z(1)]) (use n in \<open>auto simp: isLegalNet_def\<close>)
  obtain m2 o2 where m2: "ST_rangeOf v2 = Inr (m2, o2)" "minMantissa \<le> uint m2" "uint m2 \<le> maxMantissa"
    "of_int (uint m2) * 10 powi o2 = \<bar>ST_val v2\<bar>"
    by (rule rangeOf_spec[OF c(2) z(2)]) (use n in \<open>auto simp: isLegalNet_def\<close>)
  have t: "uint tenTo14 = 10 ^ 14" by (simp add: tenTo14_def)
  define A where "A = uint m1 * uint m2"
  have A: "minMantissa * minMantissa \<le> A" "A \<le> maxMantissa * maxMantissa"
    unfolding A_def using mult_mono[OF m1(2) m2(2)] mult_mono[OF m1(3) m2(3)] by (simp_all add: IOU_consts)
  have q: "maxMantissa < A div 10 ^ 14" "A div 10 ^ 14 < 10 ^ 19"
    using int_div_ge[of "10 ^ 14" "10 ^ 16" A] int_div_less[of "10 ^ 14" A "10 ^ 19"] A
    by (auto simp: IOU_consts)
  have "uint m1 * uint m2 < 2 ^ 64 * uint tenTo14" using A(2) unfolding t A_def[symmetric] by (simp add: IOU_consts)
  then obtain w where w: "muldiv m1 m2 tenTo14 = Inr w" "uint w = A div 10 ^ 14"
    using muldiv_ok[of m1 m2 tenTo14] unfolding A_def t by metis
  have w7: "uint (w + 7) = A div 10 ^ 14 + 7" using q w(2) by (subst uint_add_lem[THEN iffD1]) simp_all
  have x: "\<bar>ST_val v1 * ST_val v2\<bar> = of_int A / of_int (10 ^ 14) * 10 powi (o1 + o2 + 14)"
    by (simp add: abs_mult m1(4)[symmetric] m2(4)[symmetric] A_def powi10_add del: of_int_uint)
  from make_quotient[OF iss _ q(1) _ _ w7 x signs(1)[OF c]] show ?thesis
    using z n m1(1) m2(1) w(1) by (simp add: ST_multiply_def)
qed

theorem ST_multiply_accurate_witness:
  "ST_approx noIssue (ST_val (ST_unchecked noIssue 1500000000000000 (-15) False False) * ST_val (ST_unchecked noIssue 2500000000000000 (-17) False True))
     (ST_multiply (ST_unchecked noIssue 1500000000000000 (-15) False False) (ST_unchecked noIssue 2500000000000000 (-17) False True) noIssue)"
proof -
  have "ST_canonical (ST_unchecked noIssue 1500000000000000 (-15) False False)" "ST_canonical (ST_unchecked noIssue 2500000000000000 (-17) False True)"
    using noIssue_not_SFC by (simp_all add: ST_canonical_def ST_unchecked_def ST_consts)
  then show ?thesis using noIssue_not_SFC ST_multiply_accurate[of "ST_unchecked noIssue 1500000000000000 (-15) False False" "ST_unchecked noIssue 2500000000000000 (-17) False True" noIssue]
    by (simp add: ST_isZero_def ST_signum_def ST_unchecked_def)
qed

text \<open>
  C29: \<open>divide\<close> of two non-zero issued amounts into an issued currency has the accuracy of
  \<open>multiply\<close>, and in particular neither overflows its 64-bit quotient nor fails to return.
\<close>

theorem ST_divide_accurate:
  assumes c: "ST_canonical num" "ST_canonical den" and n: "\<not> mIsNative num" "\<not> mIsNative den"
    and z: "\<not> ST_isZero num" "\<not> ST_isZero den" and iss: "\<not> isSFC (currency issue)"
  shows "ST_approx issue (ST_val num / ST_val den) (ST_divide num den issue)"
proof -
  obtain v1 o1 where v1: "ST_rangeOf num = Inr (v1, o1)" "minMantissa \<le> uint v1" "uint v1 \<le> maxMantissa"
    "of_int (uint v1) * 10 powi o1 = \<bar>ST_val num\<bar>"
    by (rule rangeOf_spec[OF c(1) z(1)]) (use n in \<open>auto simp: isLegalNet_def\<close>)
  obtain v2 o2 where v2: "ST_rangeOf den = Inr (v2, o2)" "minMantissa \<le> uint v2" "uint v2 \<le> maxMantissa"
    "of_int (uint v2) * 10 powi o2 = \<bar>ST_val den\<bar>"
    by (rule rangeOf_spec[OF c(2) z(2)]) (use n in \<open>auto simp: isLegalNet_def\<close>)
  have t: "uint tenTo17 = 10 ^ 17" by (simp add: tenTo17_def tenTo14_def)
  define A B where "A = uint v1 * 10 ^ 17" and "B = uint v2"
  have B: "0 < B" "B \<le> maxMantissa" and A: "minMantissa * 10 ^ 17 \<le> A" "A \<le> maxMantissa * 10 ^ 17"
    using v1 v2 by (auto simp: A_def B_def minMantissa_def)
  have q: "maxMantissa < A div B" "A div B < 10 ^ 19"
    using int_div_ge[of B "10 ^ 16" A] int_div_less[of B A "10 ^ 19"] A B v2(2)
    by (auto simp: IOU_consts B_def)
  have "uint v1 * uint tenTo17 < 2 ^ 64 * uint v2"
    using v1(3) v2(2) unfolding t by (simp add: IOU_consts)
  then obtain w where w: "muldiv v1 tenTo17 v2 = Inr w" "uint w = A div B"
    using muldiv_ok[of v1 tenTo17 v2] unfolding A_def B_def t by metis
  have w5: "uint (w + 5) = A div B + 5" using q w(2) by (subst uint_add_lem[THEN iffD1]) simp_all
  have x: "\<bar>ST_val num / ST_val den\<bar> = of_int A / of_int B * 10 powi (o1 - o2 - 17)"
    using B(1) by (simp add: abs_divide v1(4)[symmetric] v2(4)[symmetric] A_def B_def power_int_diff del: of_int_uint)
  from make_quotient[OF iss B(1) q(1) _ _ w5 x signs(2)[OF c]] show ?thesis
    using z v1(1) v2(1) w(1) by (simp add: ST_divide_def)
qed

theorem ST_divide_accurate_witness:
  "ST_approx noIssue (ST_val (ST_unchecked noIssue 1500000000000000 (-15) False False) / ST_val (ST_unchecked noIssue 2500000000000000 (-17) False True))
     (ST_divide (ST_unchecked noIssue 1500000000000000 (-15) False False) (ST_unchecked noIssue 2500000000000000 (-17) False True) noIssue)"
proof -
  have "ST_canonical (ST_unchecked noIssue 1500000000000000 (-15) False False)" "ST_canonical (ST_unchecked noIssue 2500000000000000 (-17) False True)"
    using noIssue_not_SFC by (simp_all add: ST_canonical_def ST_unchecked_def ST_consts)
  then show ?thesis using noIssue_not_SFC ST_divide_accurate[of "ST_unchecked noIssue 1500000000000000 (-15) False False" "ST_unchecked noIssue 2500000000000000 (-17) False True" noIssue]
    by (simp add: ST_isZero_def ST_signum_def ST_unchecked_def)
qed

text \<open>
  C30: The 64-bit rate of an offer decodes to the quotient it was made from, and rates compare as
  unsigned integers the way the quotients compare as numbers: sorting offers by rate sorts them
  by price.
\<close>

theorem getRate_quality:
  assumes "ST_divide i out noIssue = Inr r" "\<not> ST_isZero r" "mIsNegative i = mIsNegative out"
    and "ST_divide i' out' noIssue = Inr r'" "\<not> ST_isZero r'" "mIsNegative i' = mIsNegative out'"
  shows "amountFromQuality (getRate out i) = Inr r \<and>
    (getRate out i < getRate out' i' \<longleftrightarrow> ST_val r < ST_val r')"
  using divide_positive[OF assms(1-3)] divide_positive[OF assms(4-6)] assms(2,5)
    amountFromQuality_rate_word[of r] rate_word_order[of r r'] by simp

theorem getRate_quality_witness:
  "amountFromQuality (getRate (ST_unchecked noIssue 1500000000000000 (-15) False False) (ST_unchecked noIssue 1500000000000000 (-15) False False)) = ST_divide (ST_unchecked noIssue 1500000000000000 (-15) False False) (ST_unchecked noIssue 1500000000000000 (-15) False False) noIssue"
proof -
  let ?r = "ST_unchecked noIssue 1000000000000000 (-15) False False"
  have "bindE (muldiv 1500000000000000 tenTo17 1500000000000000) (\<lambda>q. ST_make noIssue (q + 5) (-17) False) = Inr ?r"
    using noIssue_not_SFC
    by (simp add: muldiv_def tenTo17_def tenTo14_def ST_make_def ST_canonicalize_def ST_unchecked_def
        ST_scaleUp.simps ST_scaleDown.simps ST_consts)
  then have d: "ST_divide (ST_unchecked noIssue 1500000000000000 (-15) False False) (ST_unchecked noIssue 1500000000000000 (-15) False False) noIssue = Inr ?r"
    by (simp add: ST_divide_def ST_isZero_def ST_signum_def ST_rangeOf_def ST_unchecked_def)
  moreover have "\<not> ST_isZero ?r" by (simp add: ST_isZero_def ST_signum_def ST_unchecked_def)
  ultimately show ?thesis using getRate_quality[OF d _ _ d] by simp
qed

text \<open>
  \<open>mulRatio\<close> on native amounts is exact: the product by the ratio rounded up or down to a
  whole number of drops as asked, or an overflow error from \<open>2 ^ 63\<close> on.
\<close>

theorem SFC_mulRatio_exact:
  assumes conv: "\<And>x. - (2 ^ 63) \<le> x \<Longrightarrow> x < 2 ^ 63 \<Longrightarrow> convert_to x = x" and den: "den \<noteq> 0"
    and low: "- (2 ^ 63) \<le> SFC_ratio drops num den roundUp"
  shows "SFC_mulRatio convert_to drops num den roundUp =
    (if SFC_ratio drops num den roundUp < 2 ^ 63 then Inr (SFC_ratio drops num den roundUp)
     else Inl (OverflowError ''SFC mulRatio overflow''))"
proof -
  define m d where "m = drops * uint num" and "d = uint den"
  have d: "0 < d" using den by (simp add: d_def order_less_le unsigned_eq_0_iff)
  have "drops < 0 \<Longrightarrow> m \<le> 0" "\<not> drops < 0 \<Longrightarrow> 0 \<le> m"
    by (simp_all add: m_def mult_nonpos_nonneg)
  note sd = sdiv_floor_ceiling[OF d, of m]
  have exact: "\<lceil>real_of_int m / of_int d\<rceil> = \<lfloor>real_of_int m / of_int d\<rfloor>" if "m mod d = 0"
    using that d by (auto simp: dvd_eq_mod_eq_0[symmetric])
  have r: "(if m smod d \<noteq> 0 then if \<not> drops < 0 \<and> roundUp then m sdiv d + 1 else if drops < 0 \<and> \<not> roundUp then m sdiv d - 1 else m sdiv d
      else m sdiv d) = SFC_ratio drops num den roundUp"
  proof (cases "m mod d = 0")
    case True
    then show ?thesis using sd exact[OF True] unfolding SFC_ratio_def m_def[symmetric] d_def[symmetric] by simp
  next
    case False
    then have "m \<noteq> 0" by auto
    then have "drops < 0 \<longleftrightarrow> m < 0" using \<open>drops < 0 \<Longrightarrow> m \<le> 0\<close> \<open>\<not> drops < 0 \<Longrightarrow> 0 \<le> m\<close> by fastforce
    then show ?thesis using sd False ceiling_floor_step[OF d False] unfolding SFC_ratio_def m_def[symmetric] d_def[symmetric] by auto
  qed
  show ?thesis
    unfolding SFC_mulRatio_def Let_def m_def[symmetric] d_def[symmetric] r using den conv[OF low] by auto
qed

theorem SFC_mulRatio_exact_witness:
  "SFC_mulRatio (\<lambda>x. x) (-7) 1 2 True = Inr (-3) \<and> SFC_mulRatio (\<lambda>x. x) (-7) 1 2 False = Inr (-4)"
  using SFC_mulRatio_exact[of "\<lambda>x. x" 2 "-7" 1 True] SFC_mulRatio_exact[of "\<lambda>x. x" 2 "-7" 1 False]
  by (simp add: SFC_ratio_def)

text \<open>
  C39: Canonicalizing a negative native amount whose drops round to zero leaves a negative zero;
  what \<open>STAmount::add\<close> writes for it is rejected by the reader.
\<close>

theorem canonicalize_negative_zero:
  "\<exists>a. ST_make sfcIssue 5 (-1) True = Inr a \<and> mValue a = 0 \<and> mIsNegative a \<and>
     ST_deserialize (SerialIter_make (mData (ST_serialize a Serializer_empty)))
       = Inl (RuntimeError ''negative zero is not canonical'')"
proof -
  let ?z = "ST_unchecked sfcIssue 0 0 True True"
  have "ST_make sfcIssue 5 (-1) True = Inr ?z"
    by (simp add: ST_make_def ST_canonicalize_def ST_unchecked_def sfcIssue_def isSFC_def ST_nativeDown.simps ST_nativeUp.simps)
  moreover have "mData (ST_serialize ?z Serializer_empty) = encoding (pure_add Serializer_add64) 0 @ []"
    by (simp add: ST_serialize_def ST_word_def ST_unchecked_def encoding_pure)
  then have "SerialIter_get64 (SerialIter_make (mData (ST_serialize ?z Serializer_empty))) =
      Inr (0, SerialIter_advance 8 (SerialIter_make (mData (ST_serialize ?z Serializer_empty))))"
    using readsD[OF reads_get64[of 0], of "SerialIter_make (mData (ST_serialize ?z Serializer_empty))" "[]"]
    by (simp add: encoding_add64_length)
  then have "ST_deserialize (SerialIter_make (mData (ST_serialize ?z Serializer_empty))) =
      Inl (RuntimeError ''negative zero is not canonical'')" by (simp add: ST_deserialize_def)
  ultimately show ?thesis by (intro exI[of _ ?z]) (simp add: ST_unchecked_def)
qed

text \<open>
  Canonicalizing a native amount with a large exponent wraps the mantissa instead of being out
  of range: \<open>10 ^ 64\<close> drops become zero drops.
\<close>

theorem canonicalize_wraps:
  "ST_make sfcIssue 1 64 False = Inr (ST_unchecked sfcIssue 0 0 True False)"
proof -
  have "(10 :: u64) ^ 64 = 0" by (rule word_uint_eqI) simp
  then have "ST_nativeUp 1 64 = (0, 0)" by (simp add: ST_nativeUp_mult del: power_numeral)
  then show ?thesis
    by (simp add: ST_make_def ST_canonicalize_def ST_unchecked_def sfcIssue_def isSFC_def ST_nativeDown.simps)
qed

text \<open>
  C40: \<open>mulRound\<close> asked to round up can give less than the exact product: of the digits beyond
  the sixteenth only the first is rounded up, the others are cut off before.
\<close>

theorem ST_mulRound_below:
  "\<exists>v1 v2 r. ST_canonical v1 \<and> ST_canonical v2 \<and> 0 < ST_val v1 \<and> 0 < ST_val v2 \<and>
     ST_mulRound so v1 v2 noIssue True = Inr r \<and> ST_val r < ST_val v1 * ST_val v2"
proof -
  let ?a = "ST_unchecked noIssue 9766276163023784 0 False False"
  let ?b = "ST_unchecked noIssue 5510805342071287 0 False False"
  let ?r = "ST_unchecked noIssue 5382004685133494 16 False False"
  note sfc = noIssue_not_SFC
  have cr: "canonicalizeRound False 538200468513349403 14 = (5382004685133494, 16)"
    by (simp add: canonicalizeRound_def canonRound_issued.simps cMaxValue_def)
  have mk: "ST_make noIssue 5382004685133494 16 False = Inr ?r"
    using sfc ST_canonicalize_id[of ?r] by (simp add: ST_make_def ST_unchecked_def ST_consts)
  have "muldiv_round 9766276163023784 5510805342071287 tenTo14 tenTo14m1 = Inr 538200468513349403"
    by (simp add: muldiv_round_def tenTo14_def tenTo14m1_def)
  then have "ST_mulRound so ?a ?b noIssue True = Inr ?r"
    using sfc cr mk by (simp add: ST_mulRound_def ST_roundResult_def ST_rangeOf_def ST_isZero_def ST_signum_def ST_unchecked_def)
  moreover have "ST_canonical ?a" "ST_canonical ?b" using sfc by (simp_all add: ST_canonical_def ST_unchecked_def ST_consts)
  moreover have "0 < ST_val ?a" "0 < ST_val ?b" "ST_val ?r < ST_val ?a * ST_val ?b"
    by (simp_all add: ST_val_def IOU_val_def ST_abs_def ST_unchecked_def)
  ultimately show ?thesis by blast
qed

end
