(* ===== verification/Uint256.thy ===== *)
theory Uint256
  imports Serializer
begin

text \<open>
  256-bit values (\<^verbatim>\<open>basics/base_uint.h\<close>): the bytes a value is stored and serialized as, and the value
  as a sequence of 64 four-bit digits, most significant first, with the numeric order as the
  lexicographic order of the digits.
\<close>

type_synonym uint256 = "256 word"

definition uint256_bytes :: "uint256 \<Rightarrow> Blob" where
  "uint256_bytes w = map (\<lambda>i. ucast (drop_bit (248 - 8 * i) w)) [0..<32]"

definition uint256_of_bytes :: "Blob \<Rightarrow> uint256" where
  "uint256_of_bytes bs = fold (\<lambda>b acc. push_bit 8 acc OR ucast b) bs 0"

section \<open>Bytes\<close>

lemma push_drop_byte:
  fixes x :: uint256
  shows "push_bit 8 (drop_bit 8 x) OR ucast (ucast x :: u8) = x"
  by (rule bit_word_eqI) (auto simp: bit_simps)

lemma uint256_prefix:
  "n \<le> 32 \<Longrightarrow> fold (\<lambda>b acc. push_bit 8 acc OR ucast b) (map (\<lambda>i. ucast (drop_bit (248 - 8 * i) w) :: u8) [0..<n]) 0
     = drop_bit (256 - 8 * n) (w :: uint256)"
proof (induction n)
  case 0
  show ?case by (rule bit_word_eqI) (simp add: bit_simps)
next
  case (Suc n)
  then have "drop_bit (256 - 8 * n) w = drop_bit 8 (drop_bit (248 - 8 * n) w)"
    by (simp add: drop_bit_drop_bit)
  then show ?case using Suc push_drop_byte[of "drop_bit (248 - 8 * n) w"] by simp
qed

lemma uint256_roundtrip [simp]: "uint256_of_bytes (uint256_bytes w) = w"
  using uint256_prefix[of 32 w] by (simp add: uint256_of_bytes_def uint256_bytes_def)

lemma length_uint256_bytes [simp]: "length (uint256_bytes w) = 32"
  by (simp add: uint256_bytes_def)

lemma uint256_bytes_nth: "i < 32 \<Longrightarrow> uint256_bytes w ! i = ucast (drop_bit (248 - 8 * i) w)"
  by (simp add: uint256_bytes_def)

lemma uint256_bytes_inj [simp]: "uint256_bytes v = uint256_bytes w \<longleftrightarrow> v = w"
  by (metis uint256_roundtrip)

lemma bit_of_bytes:
  "length bs \<le> 32 \<Longrightarrow> bit (uint256_of_bytes bs) n \<longleftrightarrow> n < 8 * length bs \<and> bit (bs ! (length bs - 1 - n div 8)) (n mod 8)"
proof (induction bs arbitrary: n rule: rev_induct)
  case (snoc b bs)
  have e: "uint256_of_bytes (bs @ [b]) = push_bit 8 (uint256_of_bytes bs) OR ucast b"
    by (simp add: uint256_of_bytes_def)
  show ?case
  proof (cases "n < 8")
    case True
    then show ?thesis unfolding e by (auto simp: bit_simps)
  next
    case False
    have "bit (uint256_of_bytes (bs @ [b])) n \<longleftrightarrow> n < 256 \<and> bit (uint256_of_bytes bs) (n - 8)"
      using False unfolding e by (auto simp: bit_simps dest: bit_imp_le_length)
    also have "\<dots> \<longleftrightarrow> n < 256 \<and> n - 8 < 8 * length bs \<and> bit (bs ! (length bs - 1 - (n - 8) div 8)) ((n - 8) mod 8)"
      using snoc by simp
    also have "(n - 8) mod 8 = n mod 8" using False by (simp add: mod_if)
    also have "(n - 8) div 8 = n div 8 - 1" using False by (simp add: div_if)
    finally show ?thesis using False snoc.prems by (auto simp: nth_append)
  qed
qed (simp add: uint256_of_bytes_def)

lemma uint256_bytes_of [simp]: "length bs = 32 \<Longrightarrow> uint256_bytes (uint256_of_bytes bs) = bs"
proof (rule nth_equalityI)
  fix i assume l: "length bs = 32" and "i < length (uint256_bytes (uint256_of_bytes bs))"
  then have i: "i < 32" by simp
  show "uint256_bytes (uint256_of_bytes bs) ! i = bs ! i"
  proof (rule bit_word_eqI)
    fix n assume "n < LENGTH(8)"
    then have n: "n < 8" by simp
    have "248 - 8 * i + n = 8 * (31 - i) + n" using i by simp
    then have "(248 - 8 * i + n) div 8 = 31 - i" "(248 - 8 * i + n) mod 8 = n" using n by simp_all
    then show "bit (uint256_bytes (uint256_of_bytes bs) ! i) n = bit (bs ! i) n"
      using i n l by (auto simp: uint256_bytes_nth bit_simps bit_of_bytes)
  qed
qed simp

section \<open>Digits\<close>

text \<open>The first \<open>d\<close> digits as a number, and digit \<open>d\<close>.\<close>

definition digits :: "nat \<Rightarrow> uint256 \<Rightarrow> nat" where
  "digits d w = unat w div 2 ^ (256 - 4 * d)"

definition digit :: "nat \<Rightarrow> uint256 \<Rightarrow> nat" where
  "digit d w = digits (Suc d) w mod 16"

lemma digits_0 [simp]: "digits 0 w = 0"
  using unsigned_less[of w, where 'a = nat] by (simp add: digits_def)

lemma digits_64 [simp]: "digits 64 w = unat w"
  by (simp add: digits_def)

lemma digit_less [simp]: "digit d w < 16"
  by (simp add: digit_def)

lemma digits_Suc: "d < 64 \<Longrightarrow> digits (Suc d) w = 16 * digits d w + digit d w"
proof -
  assume d: "d < 64"
  define n where "n = 252 - 4 * d"
  have e: "256 - 4 * d = n + 4" "256 - 4 * Suc d = n" using d by (simp_all add: n_def)
  have "digits d w = digits (Suc d) w div 16"
    unfolding digits_def e by (simp add: power_add div_mult2_eq)
  then show ?thesis by (simp add: digit_def)
qed

lemma digits_mono: "v \<le> w \<Longrightarrow> digits d v \<le> digits d w"
  by (simp add: digits_def div_le_mono word_le_nat_alt)

lemma digits_less: "digits d v < digits d w \<Longrightarrow> v < w"
  by (meson digits_mono leD not_le)

lemma radix16: "x < 16 \<Longrightarrow> y < 16 \<Longrightarrow> 16 * a + x = 16 * b + y \<longleftrightarrow> a = b \<and> x = y" for a b x y :: nat
  by arith

lemma digits_eq_Suc:
  assumes "d < 64"
  shows "digits (Suc d) v = digits (Suc d) w \<longleftrightarrow> digits d v = digits d w \<and> digit d v = digit d w"
  using assms by (simp add: digits_Suc radix16)

lemma digits_down: "digits d v = digits d w \<Longrightarrow> e \<le> d \<Longrightarrow> d \<le> 64 \<Longrightarrow> digits e v = digits e w"
proof (induction d)
  case (Suc d)
  then have "digits d v = digits d w" using digits_eq_Suc[of d] by simp
  then show ?case using Suc by (cases "e = Suc d") auto
qed simp

lemma digits_digit: "digits (Suc d) v = digits (Suc d) w \<Longrightarrow> digit d v = digit d w"
  by (simp add: digit_def)

lemma digits_differ:
  assumes "digits d v = digits d w" and "v \<noteq> w" and "d \<le> 64"
  shows "d < 64"
  using assms by (cases "d = 64") (auto simp: word_unat_eq_iff)

text \<open>Values that agree on the first digits are ordered by the next one.\<close>

lemma digit_order:
  assumes "d < 64" and "digits d v = digits d w" and "digit d v < digit d w"
  shows "v < w"
  by (rule digits_less[of "Suc d"]) (simp add: digits_Suc assms)

end
