(* ===== verification/Objects.thy ===== *)
theory Objects
  imports SFields Amount Uint256
begin

text \<open>
  Serialized objects: the values a field can hold (\<^verbatim>\<open>protocol/impl/STVar.cpp\<close> and the classes it
  constructs), objects with and without a template (\<^verbatim>\<open>protocol/STObject.h\<close>,
  \<^verbatim>\<open>protocol/impl/STObject.cpp\<close>), arrays (\<^verbatim>\<open>protocol/impl/STArray.cpp\<close>), path sets
  (\<^verbatim>\<open>protocol/impl/STPathSet.cpp\<close>) and ledger entries (\<^verbatim>\<open>protocol/impl/STLedgerEntry.cpp\<close>).

  An object is its list of named values and its template, if it has one.  A field that a template
  allows and that is absent holds the value \<open>V_NotPresent\<close>.  256-bit values are words, and shorter
  bit strings the bytes that the serializer writes.
\<close>

section \<open>Values\<close>

record STPathElement =
  pe_type :: u8
  pe_account :: uint160
  pe_currency :: uint160
  pe_issuer :: uint160

datatype STValue =
    V_NotPresent
  | V_UInt8 u8
  | V_UInt16 u16
  | V_UInt32 u32
  | V_UInt64 u64
  | V_Hash128 Blob
  | V_Hash160 uint160
  | V_Hash256 uint256
  | V_Amount STAmount
  | V_VL Blob
  | V_Account uint160 bool
  | V_PathSet "STPathElement list list"
  | V_Vector256 "uint256 list"
  | V_Object STObject
  | V_Array "(SField \<times> STObject) list"
and STObject = STObject (obj_v: "(SField \<times> STValue) list") (obj_type: "SOTemplate option")

type_synonym fields = "(SField \<times> STValue) list"

definition getSType :: "STValue \<Rightarrow> int" where
  "getSType v =
     (case v of
        V_NotPresent \<Rightarrow> STI_NOTPRESENT
      | V_UInt8 _ \<Rightarrow> STI_UINT8
      | V_UInt16 _ \<Rightarrow> STI_UINT16
      | V_UInt32 _ \<Rightarrow> STI_UINT32
      | V_UInt64 _ \<Rightarrow> STI_UINT64
      | V_Hash128 _ \<Rightarrow> STI_HASH128
      | V_Hash160 _ \<Rightarrow> STI_HASH160
      | V_Hash256 _ \<Rightarrow> STI_HASH256
      | V_Amount _ \<Rightarrow> STI_AMOUNT
      | V_VL _ \<Rightarrow> STI_VL
      | V_Account _ _ \<Rightarrow> STI_ACCOUNT
      | V_PathSet _ \<Rightarrow> STI_PATHSET
      | V_Vector256 _ \<Rightarrow> STI_VECTOR256
      | V_Object _ \<Rightarrow> STI_OBJECT
      | V_Array _ \<Rightarrow> STI_ARRAY)"

text \<open>\<open>isDefault\<close> of each class, and the virtual function.\<close>

definition STInteger_isDefault :: "'a::len word \<Rightarrow> bool" where "STInteger_isDefault x = (x = 0)"
definition STBitString_isDefault :: "Blob \<Rightarrow> bool" where "STBitString_isDefault x = (x = replicate (length x) 0)"
definition STAmount_isDefault :: "STAmount \<Rightarrow> bool" where "STAmount_isDefault a = (mValue a = 0 \<and> mIsNative a)"
definition STBlob_isDefault :: "Blob \<Rightarrow> bool" where "STBlob_isDefault x = (x = [])"
definition STAccount_isDefault :: "uint160 \<Rightarrow> bool \<Rightarrow> bool" where "STAccount_isDefault x dflt = dflt"
definition STPathSet_isDefault :: "STPathElement list list \<Rightarrow> bool" where "STPathSet_isDefault x = (x = [])"
definition STVector256_isDefault :: "uint256 list \<Rightarrow> bool" where "STVector256_isDefault x = (x = [])"
definition STObject_isDefault :: "STObject \<Rightarrow> bool" where "STObject_isDefault obj = (obj_v obj = [])"
definition STArray_isDefault :: "(SField \<times> STObject) list \<Rightarrow> bool" where "STArray_isDefault x = (x = [])"

definition isDefault :: "STValue \<Rightarrow> bool" where
  "isDefault v =
     (case v of
        V_NotPresent \<Rightarrow> True
      | V_UInt8 x \<Rightarrow> STInteger_isDefault x
      | V_UInt16 x \<Rightarrow> STInteger_isDefault x
      | V_UInt32 x \<Rightarrow> STInteger_isDefault x
      | V_UInt64 x \<Rightarrow> STInteger_isDefault x
      | V_Hash128 x \<Rightarrow> STBitString_isDefault x
      | V_Hash160 x \<Rightarrow> STBitString_isDefault x
      | V_Hash256 x \<Rightarrow> x = 0
      | V_Amount a \<Rightarrow> STAmount_isDefault a
      | V_VL x \<Rightarrow> STBlob_isDefault x
      | V_Account x dflt \<Rightarrow> STAccount_isDefault x dflt
      | V_PathSet x \<Rightarrow> STPathSet_isDefault x
      | V_Vector256 x \<Rightarrow> STVector256_isDefault x
      | V_Object obj \<Rightarrow> STObject_isDefault obj
      | V_Array x \<Rightarrow> STArray_isDefault x)"

lemmas isDefault_defs = isDefault_def STInteger_isDefault_def STBitString_isDefault_def STAmount_isDefault_def
  STBlob_isDefault_def STAccount_isDefault_def STPathSet_isDefault_def STVector256_isDefault_def
  STObject_isDefault_def STArray_isDefault_def

definition STVar_default :: "SField \<Rightarrow> STValue res" where
  "STVar_default name =
     (let ty = sf_type (SField_info name) in
      if ty = STI_NOTPRESENT then Inr V_NotPresent
      else if ty = STI_UINT8 then Inr (V_UInt8 0)
      else if ty = STI_UINT16 then Inr (V_UInt16 0)
      else if ty = STI_UINT32 then Inr (V_UInt32 0)
      else if ty = STI_UINT64 then Inr (V_UInt64 0)
      else if ty = STI_AMOUNT then Inr (V_Amount (ST_native 0 False))
      else if ty = STI_HASH128 then Inr (V_Hash128 (replicate 16 0))
      else if ty = STI_HASH160 then Inr (V_Hash160 zero160)
      else if ty = STI_HASH256 then Inr (V_Hash256 0)
      else if ty = STI_VECTOR256 then Inr (V_Vector256 [])
      else if ty = STI_VL then Inr (V_VL [])
      else if ty = STI_ACCOUNT then Inr (V_Account zero160 True)
      else if ty = STI_PATHSET then Inr (V_PathSet [])
      else if ty = STI_OBJECT then Inr (V_Object (STObject [] None))
      else if ty = STI_ARRAY then Inr (V_Array [])
      else Inl (RuntimeError ''Unknown object type''))"

section \<open>Path sets\<close>

definition typeNone :: u8 where "typeNone = 0"
definition typeAccount :: u8 where "typeAccount = 1"
definition typeCurrency :: u8 where "typeCurrency = 16"
definition typeIssuer :: u8 where "typeIssuer = 32"
definition typeBoundary :: u8 where "typeBoundary = 255"
definition typeAll :: u8 where "typeAll = typeAccount OR typeCurrency OR typeIssuer"

definition STPathElement_make :: "uint160 \<Rightarrow> uint160 \<Rightarrow> uint160 \<Rightarrow> bool \<Rightarrow> STPathElement" where
  "STPathElement_make acct cur issuer forceCurrency =
     \<lparr>pe_type =
        (if \<not> isSFC acct then typeAccount else 0) OR
        (if forceCurrency \<or> \<not> isSFC cur then typeCurrency else 0) OR
        (if \<not> isSFC issuer then typeIssuer else 0),
      pe_account = acct, pe_currency = cur, pe_issuer = issuer\<rparr>"

definition get160_if :: "bool \<Rightarrow> SerialIter \<Rightarrow> (uint160 \<times> SerialIter) res" where
  "get160_if b sit = (if b then SerialIter_getBitString 160 sit else Inr (zero160, sit))"

definition STPathElement_read :: "u8 \<Rightarrow> SerialIter \<Rightarrow> (STPathElement \<times> SerialIter) res" where
  "STPathElement_read iType sit =
     bindE (get160_if (iType AND typeAccount \<noteq> 0) sit) (\<lambda>(acct, sit).
     bindE (get160_if (iType AND typeCurrency \<noteq> 0) sit) (\<lambda>(cur, sit).
     bindE (get160_if (iType AND typeIssuer \<noteq> 0) sit) (\<lambda>(issuer, sit).
       Inr (STPathElement_make acct cur issuer (iType AND typeCurrency \<noteq> 0), sit))))"

text \<open>The loop of the reader; \<open>paths\<close> are the paths read, \<open>path\<close> the one being read.\<close>

partial_function (option) STPathSet_loop ::
  "STPathElement list list \<Rightarrow> STPathElement list \<Rightarrow> SerialIter \<Rightarrow>
     (STPathElement list list \<times> SerialIter) res option" where
  "STPathSet_loop paths path sit =
     (case SerialIter_get8 sit of
        Inl e \<Rightarrow> Some (Inl e)
      | Inr (iType, sit) \<Rightarrow>
          if iType = typeNone \<or> iType = typeBoundary then
            if path = [] then Some (Inl (RuntimeError ''empty path''))
            else if iType = typeNone then Some (Inr (paths @ [path], sit))
            else STPathSet_loop (paths @ [path]) [] sit
          else if iType AND NOT typeAll \<noteq> 0 then Some (Inl (RuntimeError ''bad path element''))
          else
            (case STPathElement_read iType sit of
               Inl e \<Rightarrow> Some (Inl e)
             | Inr (el, sit) \<Rightarrow> STPathSet_loop paths (path @ [el]) sit))"

definition STPathSet_read :: "SerialIter \<Rightarrow> (STPathElement list list \<times> SerialIter) res" where
  "STPathSet_read sit = bindE (returns (STPathSet_loop [] [] sit)) (\<lambda>r. r)"

definition STPathElement_add :: "STPathElement \<Rightarrow> Serializer \<Rightarrow> Serializer" where
  "STPathElement_add el s =
     (let s = snd (Serializer_add8 (pe_type el) s);
          s = (if pe_type el AND typeAccount \<noteq> 0 then snd (Serializer_addBitString (pe_account el) s) else s);
          s = (if pe_type el AND typeCurrency \<noteq> 0 then snd (Serializer_addBitString (pe_currency el) s) else s)
      in if pe_type el AND typeIssuer \<noteq> 0 then snd (Serializer_addBitString (pe_issuer el) s) else s)"

fun STPathSet_add_paths :: "bool \<Rightarrow> STPathElement list list \<Rightarrow> Serializer \<Rightarrow> Serializer" where
  "STPathSet_add_paths first [] s = s"
| "STPathSet_add_paths first (p # ps) s =
     STPathSet_add_paths False ps
       (fold STPathElement_add p (if first then s else snd (Serializer_add8 typeBoundary s)))"

definition STPathSet_add :: "STPathElement list list \<Rightarrow> Serializer \<Rightarrow> Serializer" where
  "STPathSet_add ps s = snd (Serializer_add8 typeNone (STPathSet_add_paths True ps s))"

section \<open>Objects\<close>

definition STObject_free :: STObject where
  "STObject_free = STObject [] None"

definition isFree :: "STObject \<Rightarrow> bool" where
  "isFree obj = (obj_type obj = None)"

text \<open>Setting a template gives every required field its default value.\<close>

definition set_element :: "SField \<times> SOEStyle \<Rightarrow> fields \<Rightarrow> fields res" where
  "set_element = (\<lambda>(f, style) v.
     if style \<noteq> soeREQUIRED then Inr (v @ [(f, V_NotPresent)])
     else bindE (STVar_default f) (\<lambda>x. Inr (v @ [(f, x)])))"

definition STObject_set_template :: "SOTemplate \<Rightarrow> STObject res" where
  "STObject_set_template t = bindE (forE set_element t []) (\<lambda>v. Inr (STObject v (Some t)))"

fun applyTemplate_loop :: "SOTemplate \<Rightarrow> fields \<Rightarrow> fields \<Rightarrow> (fields \<times> fields) res" where
  "applyTemplate_loop [] rest v = Inr (rest, v)"
| "applyTemplate_loop ((f, style) # t) rest v =
     (case index_of f rest of
        Some i \<Rightarrow>
          if style = soeDEFAULT \<and> isDefault (snd (rest ! i))
            then Inl (RuntimeError ''may not be explicitly set to default.'')
          else applyTemplate_loop t (take i rest @ drop (Suc i) rest) (v @ [rest ! i])
      | None \<Rightarrow>
          if style = soeREQUIRED then Inl (RuntimeError ''is required but missing.'')
          else applyTemplate_loop t rest (v @ [(f, V_NotPresent)]))"

definition applyTemplate :: "SOTemplate \<Rightarrow> STObject \<Rightarrow> STObject res" where
  "applyTemplate t obj =
     bindE (applyTemplate_loop t (obj_v obj) []) (\<lambda>(rest, v).
       if \<exists>e \<in> set rest. \<not> isDiscardable (fst e)
         then Inl (RuntimeError ''found in disallowed location.'')
       else Inr (STObject v (Some t)))"

definition applyTemplateFromSField :: "SField \<Rightarrow> STObject \<Rightarrow> STObject res" where
  "applyTemplateFromSField f obj =
     (case findByType InnerObjectFormats f of None \<Rightarrow> Inr obj | Some t \<Rightarrow> applyTemplate t obj)"

definition getFieldIndex :: "STObject \<Rightarrow> SField \<Rightarrow> nat option" where
  "getFieldIndex obj f =
     (case obj_type obj of Some t \<Rightarrow> SOTemplate_getIndex t f | None \<Rightarrow> index_of f (obj_v obj))"

definition peekAtIndex :: "STObject \<Rightarrow> nat \<Rightarrow> STValue res" where
  "peekAtIndex obj i = (if i < length (obj_v obj) then Inr (snd (obj_v obj ! i)) else Inl NullDereference)"

definition peekAtPField :: "STObject \<Rightarrow> SField \<Rightarrow> STValue option res" where
  "peekAtPField obj f =
     (case getFieldIndex obj f of None \<Rightarrow> Inr None | Some i \<Rightarrow> bindE (peekAtIndex obj i) (\<lambda>v. Inr (Some v)))"

definition peekAtField :: "STObject \<Rightarrow> SField \<Rightarrow> STValue res" where
  "peekAtField obj f =
     (case getFieldIndex obj f of
        None \<Rightarrow> Inl (RuntimeError ''Field not found'')
      | Some i \<Rightarrow> peekAtIndex obj i)"

definition getPField :: "SField \<Rightarrow> bool \<Rightarrow> STObject \<Rightarrow> (nat option \<times> STObject) res" where
  "getPField f createOkay obj =
     (case getFieldIndex obj f of
        None \<Rightarrow>
          if createOkay \<and> isFree obj
            then bindE (STVar_default f) (\<lambda>v.
              Inr (Some (length (obj_v obj)), STObject (obj_v obj @ [(f, v)]) (obj_type obj)))
          else Inr (None, obj)
      | Some i \<Rightarrow> Inr (Some i, obj))"

definition setAtIndex :: "nat \<Rightarrow> STValue \<Rightarrow> STObject \<Rightarrow> STObject" where
  "setAtIndex i v obj = STObject ((obj_v obj)[i := (fst (obj_v obj ! i), v)]) (obj_type obj)"

definition isFieldPresent :: "STObject \<Rightarrow> SField \<Rightarrow> bool res" where
  "isFieldPresent obj f =
     (case getFieldIndex obj f of
        None \<Rightarrow> Inr False
      | Some i \<Rightarrow> bindE (peekAtIndex obj i) (\<lambda>v. Inr (getSType v \<noteq> STI_NOTPRESENT)))"

definition makeFieldPresent :: "SField \<Rightarrow> STObject \<Rightarrow> (nat \<times> STObject) res" where
  "makeFieldPresent f obj =
     (case getFieldIndex obj f of
        None \<Rightarrow>
          if \<not> isFree obj then Inl (RuntimeError ''Field not found'')
          else Inr (length (obj_v obj), STObject (obj_v obj @ [(f, V_NotPresent)]) (obj_type obj))
      | Some i \<Rightarrow>
          bindE (peekAtIndex obj i) (\<lambda>v.
            if getSType v \<noteq> STI_NOTPRESENT then Inr (i, obj)
            else bindE (STVar_default (fst (obj_v obj ! i))) (\<lambda>d. Inr (i, setAtIndex i d obj))))"

definition makeFieldAbsent :: "SField \<Rightarrow> STObject \<Rightarrow> STObject res" where
  "makeFieldAbsent f obj =
     (case getFieldIndex obj f of
        None \<Rightarrow> Inl (RuntimeError ''Field not found'')
      | Some i \<Rightarrow>
          bindE (peekAtIndex obj i) (\<lambda>v.
            if getSType v = STI_NOTPRESENT then Inr obj else Inr (setAtIndex i V_NotPresent obj)))"

definition delField :: "SField \<Rightarrow> STObject \<Rightarrow> bool \<times> STObject" where
  "delField f obj =
     (case getFieldIndex obj f of
        None \<Rightarrow> (False, obj)
      | Some i \<Rightarrow> (True, STObject (take i (obj_v obj) @ drop (Suc i) (obj_v obj)) (obj_type obj)))"

text \<open>
  Getting: the two templates differ in where the value for an absent field comes from; \<open>cast\<close> is the
  downcast of the value.
\<close>

definition getFieldByValue :: "(STValue \<Rightarrow> 'a option) \<Rightarrow> 'a \<Rightarrow> STObject \<Rightarrow> SField \<Rightarrow> 'a res" where
  "getFieldByValue cast dflt obj f =
     bindE (peekAtPField obj f) (\<lambda>rf.
       case rf of
         None \<Rightarrow> Inl (RuntimeError ''Field not found'')
       | Some v \<Rightarrow>
           if getSType v = STI_NOTPRESENT then Inr dflt
           else (case cast v of None \<Rightarrow> Inl (RuntimeError ''Wrong field type'') | Some x \<Rightarrow> Inr x))"

definition getFieldByConstRef :: "(STValue \<Rightarrow> 'a option) \<Rightarrow> STObject \<Rightarrow> SField \<Rightarrow> 'a \<Rightarrow> 'a res" where
  "getFieldByConstRef cast obj f dflt =
     bindE (peekAtPField obj f) (\<lambda>rf.
       case rf of
         None \<Rightarrow> Inl (RuntimeError ''Field not found'')
       | Some v \<Rightarrow>
           if getSType v = STI_NOTPRESENT then Inr dflt
           else (case cast v of None \<Rightarrow> Inl (RuntimeError ''Wrong field type'') | Some x \<Rightarrow> Inr x))"

definition getFieldU8 :: "STObject \<Rightarrow> SField \<Rightarrow> u8 res" where
  "getFieldU8 = getFieldByValue (\<lambda>v. case v of V_UInt8 x \<Rightarrow> Some x | _ \<Rightarrow> None) 0"
definition getFieldU16 :: "STObject \<Rightarrow> SField \<Rightarrow> u16 res" where
  "getFieldU16 = getFieldByValue (\<lambda>v. case v of V_UInt16 x \<Rightarrow> Some x | _ \<Rightarrow> None) 0"
definition getFieldU32 :: "STObject \<Rightarrow> SField \<Rightarrow> u32 res" where
  "getFieldU32 = getFieldByValue (\<lambda>v. case v of V_UInt32 x \<Rightarrow> Some x | _ \<Rightarrow> None) 0"
definition getFieldU64 :: "STObject \<Rightarrow> SField \<Rightarrow> u64 res" where
  "getFieldU64 = getFieldByValue (\<lambda>v. case v of V_UInt64 x \<Rightarrow> Some x | _ \<Rightarrow> None) 0"
definition getFieldH128 :: "STObject \<Rightarrow> SField \<Rightarrow> Blob res" where
  "getFieldH128 = getFieldByValue (\<lambda>v. case v of V_Hash128 x \<Rightarrow> Some x | _ \<Rightarrow> None) (replicate 16 0)"
definition getFieldH160 :: "STObject \<Rightarrow> SField \<Rightarrow> uint160 res" where
  "getFieldH160 = getFieldByValue (\<lambda>v. case v of V_Hash160 x \<Rightarrow> Some x | _ \<Rightarrow> None) zero160"
definition getFieldH256 :: "STObject \<Rightarrow> SField \<Rightarrow> uint256 res" where
  "getFieldH256 = getFieldByValue (\<lambda>v. case v of V_Hash256 x \<Rightarrow> Some x | _ \<Rightarrow> None) 0"
definition getAccountID :: "STObject \<Rightarrow> SField \<Rightarrow> uint160 res" where
  "getAccountID = getFieldByValue (\<lambda>v. case v of V_Account x _ \<Rightarrow> Some x | _ \<Rightarrow> None) zero160"
definition getFieldVL :: "STObject \<Rightarrow> SField \<Rightarrow> Blob res" where
  "getFieldVL obj f = getFieldByConstRef (\<lambda>v. case v of V_VL x \<Rightarrow> Some x | _ \<Rightarrow> None) obj f []"
definition getFieldAmount :: "STObject \<Rightarrow> SField \<Rightarrow> STAmount res" where
  "getFieldAmount obj f = getFieldByConstRef (\<lambda>v. case v of V_Amount x \<Rightarrow> Some x | _ \<Rightarrow> None) obj f (ST_native_unnamed 0 False)"
definition getFieldPathSet :: "STObject \<Rightarrow> SField \<Rightarrow> STPathElement list list res" where
  "getFieldPathSet obj f = getFieldByConstRef (\<lambda>v. case v of V_PathSet x \<Rightarrow> Some x | _ \<Rightarrow> None) obj f []"
definition getFieldV256 :: "STObject \<Rightarrow> SField \<Rightarrow> uint256 list res" where
  "getFieldV256 obj f = getFieldByConstRef (\<lambda>v. case v of V_Vector256 x \<Rightarrow> Some x | _ \<Rightarrow> None) obj f []"
definition getFieldArray :: "STObject \<Rightarrow> SField \<Rightarrow> (SField \<times> STObject) list res" where
  "getFieldArray obj f = getFieldByConstRef (\<lambda>v. case v of V_Array x \<Rightarrow> Some x | _ \<Rightarrow> None) obj f []"

text \<open>
  Setting: both templates find or create the field and then store the value in an entry of its type.
\<close>

definition setFieldUsingSetValue :: "SField \<Rightarrow> STValue \<Rightarrow> STObject \<Rightarrow> STObject res" where
  "setFieldUsingSetValue f value obj =
     bindE (getPField f True obj) (\<lambda>(rf, obj).
       case rf of
         None \<Rightarrow> Inl (RuntimeError ''Field not found'')
       | Some i \<Rightarrow>
           bindE (peekAtIndex obj i) (\<lambda>v.
           bindE (if getSType v = STI_NOTPRESENT then makeFieldPresent f obj else Inr (i, obj)) (\<lambda>(i, obj).
           bindE (peekAtIndex obj i) (\<lambda>v.
             if getSType v \<noteq> getSType value then Inl (RuntimeError ''Wrong field type'')
             else Inr (setAtIndex i value obj)))))"

definition setFieldUsingAssignment :: "SField \<Rightarrow> STValue \<Rightarrow> STObject \<Rightarrow> STObject res" where
  "setFieldUsingAssignment f value obj =
     bindE (getPField f True obj) (\<lambda>(rf, obj).
       case rf of
         None \<Rightarrow> Inl (RuntimeError ''Field not found'')
       | Some i \<Rightarrow>
           bindE (peekAtIndex obj i) (\<lambda>v.
           bindE (if getSType v = STI_NOTPRESENT then makeFieldPresent f obj else Inr (i, obj)) (\<lambda>(i, obj).
           bindE (peekAtIndex obj i) (\<lambda>v.
             if getSType v \<noteq> getSType value then Inl (RuntimeError ''Wrong field type'')
             else Inr (setAtIndex i value obj)))))"

definition setFieldU8 :: "SField \<Rightarrow> u8 \<Rightarrow> STObject \<Rightarrow> STObject res" where
  "setFieldU8 f x = setFieldUsingSetValue f (V_UInt8 x)"
definition setFieldU16 :: "SField \<Rightarrow> u16 \<Rightarrow> STObject \<Rightarrow> STObject res" where
  "setFieldU16 f x = setFieldUsingSetValue f (V_UInt16 x)"
definition setFieldU32 :: "SField \<Rightarrow> u32 \<Rightarrow> STObject \<Rightarrow> STObject res" where
  "setFieldU32 f x = setFieldUsingSetValue f (V_UInt32 x)"
definition setFieldU64 :: "SField \<Rightarrow> u64 \<Rightarrow> STObject \<Rightarrow> STObject res" where
  "setFieldU64 f x = setFieldUsingSetValue f (V_UInt64 x)"
definition setFieldH128 :: "SField \<Rightarrow> Blob \<Rightarrow> STObject \<Rightarrow> STObject res" where
  "setFieldH128 f x = setFieldUsingSetValue f (V_Hash128 x)"
definition setFieldH160 :: "SField \<Rightarrow> uint160 \<Rightarrow> STObject \<Rightarrow> STObject res" where
  "setFieldH160 f x = setFieldUsingSetValue f (V_Hash160 x)"
definition setFieldH256 :: "SField \<Rightarrow> uint256 \<Rightarrow> STObject \<Rightarrow> STObject res" where
  "setFieldH256 f x = setFieldUsingSetValue f (V_Hash256 x)"
definition setFieldV256 :: "SField \<Rightarrow> uint256 list \<Rightarrow> STObject \<Rightarrow> STObject res" where
  "setFieldV256 f x = setFieldUsingSetValue f (V_Vector256 x)"
definition setAccountID :: "SField \<Rightarrow> uint160 \<Rightarrow> STObject \<Rightarrow> STObject res" where
  "setAccountID f x = setFieldUsingSetValue f (V_Account x False)"
definition setFieldVL :: "SField \<Rightarrow> Blob \<Rightarrow> STObject \<Rightarrow> STObject res" where
  "setFieldVL f x = setFieldUsingSetValue f (V_VL x)"
definition setFieldAmount :: "SField \<Rightarrow> STAmount \<Rightarrow> STObject \<Rightarrow> STObject res" where
  "setFieldAmount f x = setFieldUsingAssignment f (V_Amount x)"
definition setFieldPathSet :: "SField \<Rightarrow> STPathElement list list \<Rightarrow> STObject \<Rightarrow> STObject res" where
  "setFieldPathSet f x = setFieldUsingAssignment f (V_PathSet x)"
definition setFieldArray :: "SField \<Rightarrow> (SField \<times> STObject) list \<Rightarrow> STObject \<Rightarrow> STObject res" where
  "setFieldArray f x = setFieldUsingAssignment f (V_Array x)"

text \<open>\<open>STObject::set\<close> of a whole value under its name.\<close>

definition STObject_set_value :: "SField \<Rightarrow> STValue \<Rightarrow> STObject \<Rightarrow> STObject res" where
  "STObject_set_value f v obj =
     (case getFieldIndex obj f of
        Some i \<Rightarrow> Inr (STObject ((obj_v obj)[i := (f, v)]) (obj_type obj))
      | None \<Rightarrow>
          if \<not> isFree obj then Inl (RuntimeError ''missing field in templated STObject'')
          else Inr (STObject (obj_v obj @ [(f, v)]) (obj_type obj)))"

definition setFlag :: "u32 \<Rightarrow> STObject \<Rightarrow> (bool \<times> STObject) res" where
  "setFlag f obj =
     bindE (getPField sfFlags True obj) (\<lambda>(rf, obj).
       case rf of
         None \<Rightarrow> Inr (False, obj)
       | Some i \<Rightarrow>
           bindE (peekAtIndex obj i) (\<lambda>v.
             case v of V_UInt32 x \<Rightarrow> Inr (True, setAtIndex i (V_UInt32 (x OR f)) obj) | _ \<Rightarrow> Inr (False, obj)))"

definition clearFlag :: "u32 \<Rightarrow> STObject \<Rightarrow> (bool \<times> STObject) res" where
  "clearFlag f obj =
     bindE (getPField sfFlags False obj) (\<lambda>(rf, obj).
       case rf of
         None \<Rightarrow> Inr (False, obj)
       | Some i \<Rightarrow>
           bindE (peekAtIndex obj i) (\<lambda>v.
             case v of V_UInt32 x \<Rightarrow> Inr (True, setAtIndex i (V_UInt32 (x AND NOT f)) obj) | _ \<Rightarrow> Inr (False, obj)))"

definition getFlags :: "STObject \<Rightarrow> u32 res" where
  "getFlags obj =
     bindE (peekAtPField obj sfFlags) (\<lambda>rf. Inr (case rf of Some (V_UInt32 x) \<Rightarrow> x | _ \<Rightarrow> 0))"

definition isFlag :: "u32 \<Rightarrow> STObject \<Rightarrow> bool res" where
  "isFlag f obj = bindE (getFlags obj) (\<lambda>x. Inr (x AND f = f))"

section \<open>Proxies\<close>

text \<open>
  \<open>STObject::Proxy\<close> and the assignment through \<open>operator[]\<close>.  The serialized type \<open>T\<close> of the proxy
  is that of the value \<open>u\<close>; \<open>None\<close> stands for \<open>soeINVALID\<close>, the style of a field of a free object.
\<close>

definition is_value_type :: "STValue \<Rightarrow> bool" where
  "is_value_type u =
     (case u of
        V_UInt8 x \<Rightarrow> x = 0
      | V_UInt16 x \<Rightarrow> x = 0
      | V_UInt32 x \<Rightarrow> x = 0
      | V_UInt64 x \<Rightarrow> x = 0
      | V_Hash128 x \<Rightarrow> x = replicate 16 0
      | V_Hash160 x \<Rightarrow> x = zero160
      | V_Hash256 x \<Rightarrow> x = 0
      | V_Amount a \<Rightarrow> ST_eq a (ST_native_unnamed 0 False)
      | V_VL x \<Rightarrow> x = []
      | V_Account x _ \<Rightarrow> x = zero160
      | V_Vector256 x \<Rightarrow> x = []
      | _ \<Rightarrow> False)"

definition SOTemplate_style :: "SOTemplate \<Rightarrow> SField \<Rightarrow> SOEStyle res" where
  "SOTemplate_style t f = (case index_of f t of None \<Rightarrow> Inl NullDereference | Some i \<Rightarrow> Inr (snd (t ! i)))"

definition Proxy_make :: "STObject \<Rightarrow> SField \<Rightarrow> SOEStyle option res" where
  "Proxy_make obj f =
     (case obj_type obj of
        None \<Rightarrow> Inr None
      | Some t \<Rightarrow>
          bindE (peekAtPField obj f) (\<lambda>b.
            if b = None then Inl (RuntimeError ''Template field error'')
            else bindE (SOTemplate_style t f) (\<lambda>style. Inr (Some style))))"

definition Proxy_find :: "int \<Rightarrow> SField \<Rightarrow> STObject \<Rightarrow> STValue option res" where
  "Proxy_find ty f obj =
     bindE (peekAtPField obj f) (\<lambda>b.
       Inr (case b of Some v \<Rightarrow> if getSType v = ty then Some v else None | None \<Rightarrow> None))"

definition Proxy_value :: "STValue \<Rightarrow> SOEStyle option \<Rightarrow> SField \<Rightarrow> STObject \<Rightarrow> STValue res" where
  "Proxy_value value_type style f obj =
     bindE (Proxy_find (getSType value_type) f obj) (\<lambda>t.
       case t of
         Some v \<Rightarrow> Inr v
       | None \<Rightarrow> if style \<noteq> Some soeDEFAULT then Inl (RuntimeError ''Missing field'') else Inr value_type)"

definition Proxy_assign :: "SOEStyle option \<Rightarrow> SField \<Rightarrow> STValue \<Rightarrow> STObject \<Rightarrow> STObject res" where
  "Proxy_assign style f u obj =
     (if style = Some soeDEFAULT \<and> is_value_type u then makeFieldAbsent f obj
      else
        bindE (if style = None then getPField f True obj
               else bindE (makeFieldPresent f obj) (\<lambda>(i, obj). Inr (Some i, obj))) (\<lambda>(t, obj).
        bindE (deref t) (\<lambda>i.
        bindE (peekAtIndex obj i) (\<lambda>v.
          if getSType v \<noteq> getSType u then Inl NullDereference else Inr (setAtIndex i u obj)))))"

definition ValueProxy_assign :: "SField \<Rightarrow> STValue \<Rightarrow> STObject \<Rightarrow> STObject res" where
  "ValueProxy_assign f u obj = bindE (Proxy_make obj f) (\<lambda>style. Proxy_assign style f u obj)"

definition OptionalProxy_engaged :: "int \<Rightarrow> SOEStyle option \<Rightarrow> SField \<Rightarrow> STObject \<Rightarrow> bool res" where
  "OptionalProxy_engaged ty style f obj =
     (if style = Some soeDEFAULT then Inr True
      else bindE (Proxy_find ty f obj) (\<lambda>t. Inr (t \<noteq> None)))"

definition OptionalProxy_disengage :: "SOEStyle option \<Rightarrow> SField \<Rightarrow> STObject \<Rightarrow> STObject res" where
  "OptionalProxy_disengage style f obj =
     (if style = Some soeREQUIRED \<or> style = Some soeDEFAULT then Inl (RuntimeError ''Template field error'')
      else if style = None then Inr (snd (delField f obj))
      else makeFieldAbsent f obj)"

definition OptionalProxy_assign :: "SField \<Rightarrow> STValue option \<Rightarrow> STObject \<Rightarrow> STObject res" where
  "OptionalProxy_assign f v obj =
     bindE (Proxy_make obj f) (\<lambda>style.
       case v of Some u \<Rightarrow> Proxy_assign style f u obj | None \<Rightarrow> OptionalProxy_disengage style f obj)"

definition OptionalProxy_optional_value ::
    "STValue \<Rightarrow> SOEStyle option \<Rightarrow> SField \<Rightarrow> STObject \<Rightarrow> STValue option res" where
  "OptionalProxy_optional_value value_type style f obj =
     bindE (OptionalProxy_engaged (getSType value_type) style f obj) (\<lambda>e.
       if \<not> e then Inr None
       else bindE (Proxy_value value_type style f obj) (\<lambda>v. Inr (Some v)))"

text \<open>Reading through the constant \<open>operator[]\<close>.\<close>

definition STObject_at :: "STValue \<Rightarrow> SField \<Rightarrow> STObject \<Rightarrow> STValue res" where
  "STObject_at value_type f obj =
     bindE (peekAtPField obj f) (\<lambda>b.
       case b of
         None \<Rightarrow> Inl (RuntimeError ''Missing field'')
       | Some v \<Rightarrow>
           if getSType v = getSType value_type then Inr v
           else
             bindE (deref (obj_type obj)) (\<lambda>t.
             bindE (SOTemplate_style t f) (\<lambda>style.
               if style = soeOPTIONAL then Inl (RuntimeError ''Missing field'') else Inr value_type)))"

definition STObject_at_optional :: "STValue \<Rightarrow> SField \<Rightarrow> STObject \<Rightarrow> STValue option res" where
  "STObject_at_optional value_type f obj =
     bindE (peekAtPField obj f) (\<lambda>b.
       case b of
         None \<Rightarrow> Inr None
       | Some v \<Rightarrow>
           if getSType v = getSType value_type then Inr (Some v)
           else
             bindE (deref (obj_type obj)) (\<lambda>t.
             bindE (SOTemplate_style t f) (\<lambda>style.
               if style = soeOPTIONAL then Inr None else Inr (Some value_type))))"

section \<open>Setting a field\<close>

definition typed :: "STObject \<Rightarrow> bool" where
  "typed obj \<longleftrightarrow> (\<forall>(f, v) \<in> set (obj_v obj). v = V_NotPresent \<or> getSType v = sf_type (SField_info f))"

text \<open>Putting a value at the place of a field that is there.\<close>


section \<open>Where the fields are\<close>

lemma getSType_present: "getSType v \<noteq> STI_NOTPRESENT \<longleftrightarrow> v \<noteq> V_NotPresent"
  by (cases v) (simp_all add: getSType_def)

lemma index_of_Some: "index_of f xs = Some i \<Longrightarrow> i < length xs \<and> fst (xs ! i) = f"
  by (induction f xs arbitrary: i rule: index_of.induct) (auto split: if_splits)

definition element_ok :: "SOEStyle \<Rightarrow> STValue \<Rightarrow> bool" where
  "element_ok style v =
     (case style of
        soeREQUIRED \<Rightarrow> v \<noteq> V_NotPresent
      | soeOPTIONAL \<Rightarrow> True
      | soeDEFAULT \<Rightarrow> v = V_NotPresent \<or> \<not> isDefault v)"

definition templated :: "SOTemplate \<Rightarrow> STObject \<Rightarrow> bool" where
  "templated t obj \<longleftrightarrow> obj_type obj = Some t \<and>
     list_all2 (\<lambda>(f, style) (g, v). f = g \<and> element_ok style v) t (obj_v obj)"

definition value_of :: "fields \<Rightarrow> SField \<Rightarrow> STValue" where
  "value_of u f = (case map_of u f of None \<Rightarrow> V_NotPresent | Some v \<Rightarrow> v)"

lemma index_of_split:
  fixes u :: "(SField \<times> 'a) list"
  assumes "index_of f u = Some i"
  obtains a x b where "u = a @ (f, x) # b" "length a = i" "f \<notin> fst ` set a"
proof -
  have "\<exists>a x b. u = a @ (f, x) # b \<and> length a = i \<and> f \<notin> fst ` set a"
    using assms
  proof (induction f u arbitrary: i rule: index_of.induct)
    case (2 f g y u)
    show ?case
    proof (cases "g = f")
      case True
      then show ?thesis using 2(2) by (intro exI[of _ "[]"]) auto
    next
      case False
      then obtain j where "index_of f u = Some j" and i: "i = Suc j" using 2(2) by auto
      with 2(1)[OF False] obtain a x b where "u = a @ (f, x) # b" "length a = j" "f \<notin> fst ` set a" by blast
      then show ?thesis using False i by (intro exI[of _ "(g, y) # a"]) auto
    qed
  qed simp
  then show thesis using that by blast
qed

lemma templated_names: "templated t obj \<Longrightarrow> map fst (obj_v obj) = map fst t"
  unfolding templated_def by (intro nth_equalityI) (auto simp: list_all2_conv_all_nth case_prod_unfold)

text \<open>The fields of an object stand where its template says.\<close>

definition aligned :: "STObject \<Rightarrow> bool" where
  "aligned obj \<longleftrightarrow> (case obj_type obj of None \<Rightarrow> True | Some t \<Rightarrow> map fst (obj_v obj) = map fst t)"

lemma index_of_names: "map fst u = map fst w \<Longrightarrow> index_of f u = index_of f w"
proof (induction f u arbitrary: w rule: index_of.induct)
  case (2 f g x u)
  then show ?case by (cases w) auto
qed simp

lemma getFieldIndex_aligned: "aligned obj \<Longrightarrow> getFieldIndex obj f = index_of f (obj_v obj)"
  by (auto simp: aligned_def getFieldIndex_def SOTemplate_getIndex_def intro: index_of_names split: option.splits)

lemma peekAtPField_aligned:
  assumes "aligned obj"
  shows "peekAtPField obj f = Inr (map_of (obj_v obj) f)"
proof (cases "index_of f (obj_v obj)")
  case None
  then have "map_of (obj_v obj) f = None" by (simp add: index_of_None map_of_eq_None_iff)
  then show ?thesis using assms None by (simp add: peekAtPField_def getFieldIndex_aligned)
next
  case (Some i)
  then obtain a x b where "obj_v obj = a @ (f, x) # b" "length a = i" "f \<notin> fst ` set a" by (rule index_of_split)
  then show ?thesis using assms Some
    by (simp add: peekAtPField_def getFieldIndex_aligned peekAtIndex_def nth_append map_add_def map_of_eq_None_iff[THEN iffD2])
qed

lemma templated_aligned: "templated t obj \<Longrightarrow> aligned obj"
  using templated_names[of t obj] by (simp add: aligned_def templated_def)

lemma setAtIndex_field:
  assumes "index_of f (obj_v obj) = Some i"
  shows "map_of (obj_v (setAtIndex i v obj)) = (map_of (obj_v obj))(f \<mapsto> v)"
    and "map fst (obj_v (setAtIndex i v obj)) = map fst (obj_v obj)"
    and "obj_type (setAtIndex i v obj) = obj_type obj"
    and "obj_v obj ! i = (f, value_of (obj_v obj) f)" and "i < length (obj_v obj)"
proof -
  obtain a x b where u: "obj_v obj = a @ (f, x) # b" "length a = i" "f \<notin> fst ` set a"
    using assms by (rule index_of_split)
  have "map_of a f = None" using u(3) by (simp add: map_of_eq_None_iff)
  then show "map_of (obj_v (setAtIndex i v obj)) = (map_of (obj_v obj))(f \<mapsto> v)"
    "obj_v obj ! i = (f, value_of (obj_v obj) f)"
    using u(2) by (auto simp: setAtIndex_def u(1) nth_append list_update_append fun_eq_iff map_add_def value_of_def split: option.split)
  show "map fst (obj_v (setAtIndex i v obj)) = map fst (obj_v obj)" "obj_type (setAtIndex i v obj) = obj_type obj"
    "i < length (obj_v obj)"
    using u(2) by (auto simp: setAtIndex_def u(1) nth_append list_update_append)
qed

lemma setAtIndex_typed:
  assumes "typed obj" and "index_of f (obj_v obj) = Some i" and "v = V_NotPresent \<or> getSType v = sf_type (SField_info f)"
  shows "typed (setAtIndex i v obj)"
proof -
  have "set (obj_v (setAtIndex i v obj)) \<subseteq> insert (f, v) (set (obj_v obj))"
    using setAtIndex_field(4)[OF assms(2)] set_update_subset_insert[of "obj_v obj" i] by (simp add: setAtIndex_def)
  then show ?thesis using assms(1,3) by (fastforce simp: typed_def)
qed

lemma setAtIndex_aligned:
  assumes "aligned obj" and "index_of f (obj_v obj) = Some i"
  shows "aligned (setAtIndex i v obj)" and "index_of f (obj_v (setAtIndex i v obj)) = Some i"
  using assms setAtIndex_field(2,3)[OF assms(2), of v] index_of_names[OF setAtIndex_field(2)[OF assms(2), of v]]
  by (simp_all add: aligned_def split: option.splits)

lemma default_typed:
  assumes "STVar_default f = Inr d"
  shows "getSType d = sf_type (SField_info f)"
  using assms by (auto simp: STVar_default_def Let_def getSType_def split: if_splits)

lemma default_exists:
  assumes "getSType u = sf_type (SField_info f)" and "u \<noteq> V_NotPresent"
  obtains d where "STVar_default f = Inr d" and "getSType d = getSType u" and "d \<noteq> V_NotPresent"
  using assms by (cases u) (simp_all add: STVar_default_def getSType_def)

text \<open>
  What a setter does to an object: \<open>field_set f u obj obj'\<close> says that \<open>obj'\<close> is \<open>obj\<close> with the value
  \<open>u\<close> in the field \<open>f\<close>, in the shape that \<open>obj\<close> has.
\<close>

definition field_set :: "SField \<Rightarrow> STValue \<Rightarrow> STObject \<Rightarrow> STObject \<Rightarrow> bool" where
  "field_set f u obj obj' \<longleftrightarrow> obj_type obj' = obj_type obj \<and> aligned obj' \<and> typed obj' \<and>
     map_of (obj_v obj') = (map_of (obj_v obj))(f \<mapsto> u) \<and>
     (map fst (obj_v obj') = map fst (obj_v obj) \<or> obj_type obj = None \<and> f \<notin> fst ` set (obj_v obj) \<and>
        map fst (obj_v obj') = map fst (obj_v obj) @ [f])"

lemma field_set_at:
  assumes "aligned obj" and "typed obj" and "index_of f (obj_v obj) = Some i"
    and "u = V_NotPresent \<or> getSType u = sf_type (SField_info f)"
  shows "field_set f u obj (setAtIndex i u obj)"
  using setAtIndex_field(1-3)[OF assms(3), of u] setAtIndex_typed[OF assms(2,3,4)] setAtIndex_aligned(1)[OF assms(1,3)]
  by (simp add: field_set_def)

lemma field_set_trans:
  assumes "field_set f v obj obj1" and "field_set f u obj1 obj2"
  shows "field_set f u obj obj2"
proof -
  have "f \<in> fst ` set (obj_v obj1)"
    using assms(1) by (metis domI dom_map_of_conv_image_fst field_set_def fun_upd_same)
  then show ?thesis using assms by (auto simp: field_set_def)
qed

lemma peek_at_index:
  assumes "index_of f (obj_v obj) = Some i"
  shows "peekAtIndex obj i = Inr (value_of (obj_v obj) f)"
  using setAtIndex_field(4,5)[OF assms] by (simp add: peekAtIndex_def)

lemma value_typed: "typed obj \<Longrightarrow> value_of (obj_v obj) f = V_NotPresent \<or> getSType (value_of (obj_v obj) f) = sf_type (SField_info f)"
  by (auto simp: typed_def value_of_def dest: map_of_SomeD split: option.splits)

lemma makeFieldPresent_set:
  assumes "aligned obj" and "typed obj" and i: "index_of f (obj_v obj) = Some i"
    and "getSType u = sf_type (SField_info f)" and "u \<noteq> V_NotPresent"
  obtains obj' v where "makeFieldPresent f obj = Inr (i, obj')" and "field_set f v obj obj'" and "getSType v = getSType u"
    and "index_of f (obj_v obj') = Some i" and "peekAtIndex obj' i = Inr v"
proof (cases "value_of (obj_v obj) f = V_NotPresent")
  case True
  obtain d where d: "STVar_default f = Inr d" "getSType d = getSType u" "d \<noteq> V_NotPresent"
    using default_exists assms(4,5) by blast
  have f: "field_set f d obj (setAtIndex i d obj)" using d assms by (intro field_set_at) simp_all
  have "makeFieldPresent f obj = Inr (i, setAtIndex i d obj)"
    using assms(1) i d(1) True setAtIndex_field(4)[OF i] peek_at_index[OF i]
    by (simp add: makeFieldPresent_def getFieldIndex_aligned getSType_def)
  moreover have ix: "index_of f (obj_v (setAtIndex i d obj)) = Some i" by (rule setAtIndex_aligned(2)[OF assms(1) i])
  moreover have "peekAtIndex (setAtIndex i d obj) i = Inr d"
    using peek_at_index[OF ix] f by (simp add: field_set_def value_of_def)
  ultimately show thesis using that f d by blast
next
  case False
  let ?v = "value_of (obj_v obj) f"
  have t: "getSType ?v = getSType u" using value_typed[OF assms(2), of f] False assms(4) by simp
  have "map_of (obj_v obj) f = Some ?v" using False by (simp add: value_of_def split: option.splits)
  then have "field_set f ?v obj obj" using assms(1,2) by (auto simp: field_set_def)
  moreover have "makeFieldPresent f obj = Inr (i, obj)"
    using assms(1) i False peek_at_index[OF i] by (simp add: makeFieldPresent_def getFieldIndex_aligned getSType_present)
  ultimately show thesis using that t i peek_at_index[OF i] by blast
qed

lemma index_of_append: "f \<notin> fst ` set u \<Longrightarrow> index_of f (u @ [(f, d)]) = Some (length u)"
  by (induction f u rule: index_of.induct) auto

lemma getPField_set:
  assumes "aligned obj" and "typed obj" and "obj_type obj = None \<or> f \<in> fst ` set (obj_v obj)"
    and "getSType u = sf_type (SField_info f)" and "u \<noteq> V_NotPresent"
  obtains i obj' v where "getPField f True obj = Inr (Some i, obj')" and "index_of f (obj_v obj') = Some i"
    and "field_set f v obj obj'" and "v = V_NotPresent \<or> getSType v = getSType u" and "peekAtIndex obj' i = Inr v"
proof (cases "index_of f (obj_v obj)")
  case None
  then have n: "f \<notin> fst ` set (obj_v obj)" and free: "obj_type obj = None" using assms(3) by (auto simp: index_of_None)
  obtain d where d: "STVar_default f = Inr d" "getSType d = getSType u" "d \<noteq> V_NotPresent"
    using default_exists assms(4,5) by blast
  let ?o = "STObject (obj_v obj @ [(f, d)]) (obj_type obj)"
  have g: "getPField f True obj = Inr (Some (length (obj_v obj)), ?o)"
    using assms(1) None d(1) free by (simp add: getPField_def getFieldIndex_aligned isFree_def)
  have ix: "index_of f (obj_v ?o) = Some (length (obj_v obj))"
    using n by (simp add: index_of_append)
  have "map_of (obj_v obj) f = None" using n by (simp add: map_of_eq_None_iff)
  then have "map_of (obj_v ?o) = (map_of (obj_v obj))(f \<mapsto> d)"
    by (auto simp: fun_eq_iff map_add_def split: option.split)
  then have "field_set f d obj ?o"
    using assms(1,2,4) free n d(2) by (auto simp: field_set_def aligned_def typed_def)
  then show thesis using that[OF g ix, of d] d(2) by (simp add: peekAtIndex_def)
next
  case (Some i)
  let ?v = "value_of (obj_v obj) f"
  have "map_of (obj_v obj) f = Some ?v"
    using Some index_of_None[of f "obj_v obj"] map_of_eq_None_iff[of "obj_v obj" f] by (auto simp: value_of_def split: option.splits)
  then have "field_set f ?v obj obj" using assms(1,2) by (auto simp: field_set_def)
  moreover have "getPField f True obj = Inr (Some i, obj)"
    using assms(1) Some by (simp add: getPField_def getFieldIndex_aligned)
  ultimately show thesis using that Some peek_at_index[OF Some] value_typed[OF assms(2), of f] assms(4) by force
qed

lemma setField_ok:
  assumes "aligned obj" and "typed obj" and "obj_type obj = None \<or> f \<in> fst ` set (obj_v obj)"
    and "getSType u = sf_type (SField_info f)" and "u \<noteq> V_NotPresent"
  shows "\<exists>obj'. setFieldUsingSetValue f u obj = Inr obj' \<and> field_set f u obj obj'"
proof -
  obtain i obj1 v where g: "getPField f True obj = Inr (Some i, obj1)" "index_of f (obj_v obj1) = Some i"
    "field_set f v obj obj1" "v = V_NotPresent \<or> getSType v = getSType u" "peekAtIndex obj1 i = Inr v"
    using getPField_set[OF assms] by blast
  have o1: "aligned obj1" "typed obj1" using g(3) by (auto simp: field_set_def)
  obtain obj2 w where m: "makeFieldPresent f obj1 = Inr (i, obj2)" "field_set f w obj1 obj2" "getSType w = getSType u"
    "index_of f (obj_v obj2) = Some i" "peekAtIndex obj2 i = Inr w"
    using makeFieldPresent_set[OF o1 g(2) assms(4,5)] by blast
  have o2: "aligned obj2" "typed obj2" using m(2) by (auto simp: field_set_def)
  show ?thesis
  proof (cases "v = V_NotPresent")
    case True
    have "field_set f u obj2 (setAtIndex i u obj2)" using o2 m(4) assms(4) by (intro field_set_at) simp_all
    then have "field_set f u obj (setAtIndex i u obj2)" using field_set_trans[OF g(3) field_set_trans[OF m(2)]] by simp
    moreover have "setFieldUsingSetValue f u obj = Inr (setAtIndex i u obj2)"
      using g m True by (simp add: setFieldUsingSetValue_def getSType_def)
    ultimately show ?thesis by blast
  next
    case False
    have "field_set f u obj1 (setAtIndex i u obj1)" using o1 g(2) assms(4) by (intro field_set_at) simp_all
    then have "field_set f u obj (setAtIndex i u obj1)" using field_set_trans[OF g(3)] by simp
    moreover have "setFieldUsingSetValue f u obj = Inr (setAtIndex i u obj1)"
      using g False getSType_present[of v] by (simp add: setFieldUsingSetValue_def)
    ultimately show ?thesis by blast
  qed
qed

text \<open>Assigning through a proxy keeps the shape that the template prescribes.\<close>

lemma templated_field_set:
  assumes "templated t obj" and "distinct (map fst t)" and "(f, style) \<in> set t"
    and "field_set f u obj obj'" and "element_ok style u"
  shows "templated t obj'"
proof -
  have n: "map fst (obj_v obj) = map fst t" by (rule templated_names[OF assms(1)])
  have n': "map fst (obj_v obj') = map fst t"
    using assms(1,4) n by (auto simp: field_set_def templated_def)
  have l: "length (obj_v obj') = length t" "length (obj_v obj) = length t"
    using arg_cong[OF n, of length] arg_cong[OF n', of length] by simp_all
  have "fst (t ! i) = fst (obj_v obj' ! i) \<and> element_ok (snd (t ! i)) (snd (obj_v obj' ! i))" if i: "i < length t" for i
  proof -
    have g: "fst (obj_v obj' ! i) = fst (t ! i)" "fst (obj_v obj ! i) = fst (t ! i)"
      using arg_cong[OF n', of "\<lambda>l. l ! i"] arg_cong[OF n, of "\<lambda>l. l ! i"] l i by simp_all
    have "map_of (obj_v obj') (fst (obj_v obj' ! i)) = Some (snd (obj_v obj' ! i))"
      using l i n' assms(2) by (intro map_of_is_SomeI) simp_all
    moreover have "map_of (obj_v obj) (fst (obj_v obj ! i)) = Some (snd (obj_v obj ! i))"
      using l i n assms(2) by (intro map_of_is_SomeI) simp_all
    ultimately have v: "snd (obj_v obj' ! i) = (if fst (t ! i) = f then u else snd (obj_v obj ! i))"
      using assms(4) unfolding field_set_def g by (auto split: if_splits)
    have "element_ok (snd (t ! i)) (snd (obj_v obj ! i))"
      using assms(1) i by (auto simp: templated_def list_all2_conv_all_nth case_prod_unfold)
    moreover have "snd (t ! i) = style" if "fst (t ! i) = f"
      using eq_key_imp_eq_value[OF assms(2), of f "snd (t ! i)" style] assms(3) that i nth_mem[of i t] by force
    ultimately show ?thesis using g v assms(5) by auto
  qed
  then show ?thesis using assms(1,4) l
    by (auto simp: templated_def field_set_def list_all2_conv_all_nth case_prod_unfold)
qed

lemma SOTemplate_style_in:
  assumes "distinct (map fst t)" and "(f, style) \<in> set t"
  shows "SOTemplate_style t f = Inr style"
proof -
  obtain i where i: "index_of f t = Some i" using index_of_None[of f t] assms(2) by force
  then obtain a x b where t: "t = a @ (f, x) # b" "length a = i" by (rule index_of_split)
  then have "x = style" using assms eq_key_imp_eq_value[OF assms(1), of f x style] by auto
  then show ?thesis using i t by (simp add: SOTemplate_style_def nth_append)
qed

lemma names_in: "map fst u = map fst t \<Longrightarrow> (f, s) \<in> set t \<Longrightarrow> f \<in> fst ` set u"
  by (metis fst_conv image_eqI list.set_map)

lemma Proxy_make_templated:
  assumes "templated t obj" and "distinct (map fst t)" and "(f, style) \<in> set t"
  shows "Proxy_make obj f = Inr (Some style)"
proof -
  have "map_of (obj_v obj) f \<noteq> None"
    using names_in[OF templated_names[OF assms(1)] assms(3)] by (simp add: map_of_eq_None_iff)
  then show ?thesis using assms SOTemplate_style_in[OF assms(2,3)]
    by (simp add: Proxy_make_def templated_def peekAtPField_aligned[OF templated_aligned[OF assms(1)]])
qed

lemma index_in: "f \<in> fst ` set u \<Longrightarrow> \<exists>i. index_of f u = Some i"
  using index_of_None[of f u] by fastforce

lemma makeFieldAbsent_set:
  assumes "aligned obj" and "typed obj" and "f \<in> fst ` set (obj_v obj)"
  shows "\<exists>obj'. makeFieldAbsent f obj = Inr obj' \<and> field_set f V_NotPresent obj obj'"
proof -
  obtain i where i: "index_of f (obj_v obj) = Some i" using index_in[OF assms(3)] by blast
  show ?thesis
  proof (cases "value_of (obj_v obj) f = V_NotPresent")
    case True
    then have "map_of (obj_v obj) f = Some V_NotPresent"
      using i index_of_None[of f "obj_v obj"] map_of_eq_None_iff[of "obj_v obj" f] by (auto simp: value_of_def split: option.splits)
    then have "field_set f V_NotPresent obj obj" using assms(1,2) by (auto simp: field_set_def)
    then show ?thesis using assms(1) i True peek_at_index[OF i]
      by (simp add: makeFieldAbsent_def getFieldIndex_aligned getSType_def)
  next
    case False
    then show ?thesis using assms(1,2) i peek_at_index[OF i] field_set_at[OF assms(1,2) i, of V_NotPresent]
      getSType_present[of "value_of (obj_v obj) f"]
      by (simp add: makeFieldAbsent_def getFieldIndex_aligned)
  qed
qed

lemma ValueProxy_assign_set:
  assumes t: "templated t obj" "distinct (map fst t)" "(f, style) \<in> set t" and "typed obj"
    and u: "getSType u = sf_type (SField_info f)" "u \<noteq> V_NotPresent" and d: "isDefault u \<Longrightarrow> is_value_type u"
  shows "\<exists>obj'. ValueProxy_assign f u obj = Inr obj' \<and> templated t obj' \<and>
     field_set f (if style = soeDEFAULT \<and> is_value_type u then V_NotPresent else u) obj obj'"
proof -
  note a = templated_aligned[OF t(1)]
  have m: "f \<in> fst ` set (obj_v obj)" by (rule names_in[OF templated_names[OF t(1)] t(3)])
  then obtain i where i: "index_of f (obj_v obj) = Some i" using index_in by blast
  note p = Proxy_make_templated[OF t]
  show ?thesis
  proof (cases "style = soeDEFAULT \<and> is_value_type u")
    case True
    obtain obj' where "makeFieldAbsent f obj = Inr obj'" "field_set f V_NotPresent obj obj'"
      using makeFieldAbsent_set[OF a assms(4) m] by blast
    moreover from templated_field_set[OF t this(2)] have "templated t obj'" using True by (simp add: element_ok_def)
    ultimately show ?thesis using True p by (simp add: ValueProxy_assign_def Proxy_assign_def)
  next
    case False
    obtain obj1 v where m: "makeFieldPresent f obj = Inr (i, obj1)" "field_set f v obj obj1" "getSType v = getSType u"
      "index_of f (obj_v obj1) = Some i" "peekAtIndex obj1 i = Inr v"
      using makeFieldPresent_set[OF a assms(4) i u] by blast
    have "field_set f u obj1 (setAtIndex i u obj1)"
      using m(2,4) u by (intro field_set_at) (auto simp: field_set_def)
    then have s: "field_set f u obj (setAtIndex i u obj1)" by (rule field_set_trans[OF m(2)])
    moreover have "templated t (setAtIndex i u obj1)"
      using templated_field_set[OF t s] False d u(2) by (cases style) (auto simp: element_ok_def)
    moreover have "ValueProxy_assign f u obj = Inr (setAtIndex i u obj1)"
      using False p m by (auto simp: ValueProxy_assign_def Proxy_assign_def)
    ultimately show ?thesis using False by auto
  qed
qed


lemma setFieldUsingAssignment_eq: "setFieldUsingAssignment = setFieldUsingSetValue"
  by (simp add: fun_eq_iff setFieldUsingAssignment_def setFieldUsingSetValue_def)

lemma wrong_type:
  assumes a: "aligned obj" "typed obj" and i: "index_of f (obj_v obj) = Some i"
    and u: "getSType u \<noteq> sf_type (SField_info f)" "u \<noteq> V_NotPresent"
  shows "\<exists>e. setFieldUsingSetValue f u obj = Inl e"
proof -
  let ?v = "value_of (obj_v obj) f"
  have g: "getPField f True obj = Inr (Some i, obj)" using a(1) i by (simp add: getPField_def getFieldIndex_aligned)
  note p = peek_at_index[OF i]
  show ?thesis
  proof (cases "?v = V_NotPresent")
    case False
    then have "getSType ?v = sf_type (SField_info f)" "getSType ?v \<noteq> STI_NOTPRESENT"
      using value_typed[OF a(2)] getSType_present by blast+
    then show ?thesis using g p u(1) by (simp add: setFieldUsingSetValue_def)
  next
    case True
    show ?thesis
    proof (cases "STVar_default f")
      case (Inl e)
      then show ?thesis using g p True a(1) i setAtIndex_field(4)[OF i]
        by (simp add: setFieldUsingSetValue_def makeFieldPresent_def getFieldIndex_aligned getSType_def)
    next
      case (Inr d)
      have ix: "index_of f (obj_v (setAtIndex i d obj)) = Some i" by (rule setAtIndex_aligned(2)[OF a(1) i])
      have "peekAtIndex (setAtIndex i d obj) i = Inr d"
        using peek_at_index[OF ix] setAtIndex_field(1)[OF i, of d] by (simp add: value_of_def)
      then show ?thesis using g p True a(1) i Inr setAtIndex_field(4)[OF i] default_typed[OF Inr] u(1)
        by (simp add: setFieldUsingSetValue_def makeFieldPresent_def getFieldIndex_aligned getSType_def[of V_NotPresent])
    qed
  qed
qed

lemma wrong_type_new:
  assumes a: "aligned obj" "typed obj" and i: "index_of f (obj_v obj) = None" "obj_type obj = None"
    and u: "getSType u \<noteq> sf_type (SField_info f)" "u \<noteq> V_NotPresent"
  shows "\<exists>e. setFieldUsingSetValue f u obj = Inl e"
proof (cases "STVar_default f")
  case (Inl e)
  then show ?thesis using a(1) i by (simp add: setFieldUsingSetValue_def getPField_def getFieldIndex_aligned isFree_def)
next
  case (Inr d)
  let ?o = "STObject (obj_v obj @ [(f, d)]) None"
  have ix: "index_of f (obj_v ?o) = Some (length (obj_v obj))" using i(1) by (simp add: index_of_append index_of_None)
  have o: "aligned ?o" "typed ?o" using a(2) default_typed[OF Inr] by (auto simp: aligned_def typed_def)
  have "setFieldUsingSetValue f u obj = setFieldUsingSetValue f u ?o"
    using a(1) i Inr o(1) ix by (simp add: setFieldUsingSetValue_def getPField_def getFieldIndex_aligned isFree_def)
  then show ?thesis using wrong_type[OF o ix u] by simp
qed


section \<open>Properties\<close>

text \<open>
  C24: Setting a field of an object, when the object's fields stand where its template says and hold values
  of their own types.  A field that the template does not have is refused, and so is a value of
  another type than the field's.  Otherwise the field then holds the value, every other field holds
  what it held, and the object keeps its template and both properties.
\<close>

theorem setField_exact:
  assumes "aligned obj" and "typed obj" and "u \<noteq> V_NotPresent"
  shows "if obj_type obj \<noteq> None \<and> f \<notin> fst ` set (obj_v obj)
      then setFieldUsingSetValue f u obj = Inl (RuntimeError ''Field not found'')
    else if getSType u = sf_type (SField_info f)
      then \<exists>obj'. setFieldUsingSetValue f u obj = Inr obj' \<and> aligned obj' \<and> typed obj' \<and> obj_type obj' = obj_type obj \<and>
        (\<forall>g. peekAtPField obj' g = (if g = f then Inr (Some u) else peekAtPField obj g))
    else \<exists>e. setFieldUsingSetValue f u obj = Inl e"
proof (cases "obj_type obj \<noteq> None \<and> f \<notin> fst ` set (obj_v obj)")
  case True
  then have "\<not> isFree obj" "index_of f (obj_v obj) = None" by (auto simp: isFree_def index_of_None)
  then have "setFieldUsingSetValue f u obj = Inl (RuntimeError ''Field not found'')" using assms(1)
    by (simp add: setFieldUsingSetValue_def getPField_def getFieldIndex_aligned)
  then show ?thesis unfolding if_P[OF True] .
next
  case False
  show ?thesis
  proof (cases "getSType u = sf_type (SField_info f)")
    case True
    obtain obj' where "setFieldUsingSetValue f u obj = Inr obj'" "field_set f u obj obj'"
      using setField_ok[OF assms(1,2) _ True assms(3)] False by blast
    then have "setFieldUsingSetValue f u obj = Inr obj' \<and> aligned obj' \<and> typed obj' \<and> obj_type obj' = obj_type obj \<and>
        (\<forall>g. peekAtPField obj' g = (if g = f then Inr (Some u) else peekAtPField obj g))"
      using assms(1) by (simp add: field_set_def peekAtPField_aligned)
    then show ?thesis unfolding if_not_P[OF False] if_P[OF True] by blast
  next
    case ne: False
    have "\<exists>e. setFieldUsingSetValue f u obj = Inl e"
      using wrong_type[OF assms(1,2) _ ne assms(3)] wrong_type_new[OF assms(1,2) _ _ ne assms(3)] False
      by (cases "index_of f (obj_v obj)") (auto simp: index_of_None)
    then show ?thesis unfolding if_not_P[OF False] if_not_P[OF ne] .
  qed
qed


theorem setField_exact_witness:
  "\<exists>obj. setFieldUsingSetValue sfFlags (V_UInt32 9) (STObject [(sfSequence, V_UInt32 1)] None) = Inr obj \<and>
     peekAtPField obj sfFlags = Inr (Some (V_UInt32 9)) \<and> peekAtPField obj sfSequence = Inr (Some (V_UInt32 1))"
proof -
  let ?o = "STObject [(sfSequence, V_UInt32 1)] None"
  have t: "sf_type (SField_info sfFlags) = STI_UINT32" "sf_type (SField_info sfSequence) = STI_UINT32"
    using known_code(1)[of sfFlags] known_code(1)[of sfSequence] known_keys by simp_all
  have "aligned ?o" "typed ?o" "V_UInt32 9 \<noteq> V_NotPresent" using t by (simp_all add: aligned_def typed_def getSType_def)
  from setField_exact[OF this, of sfFlags] obtain obj where "setFieldUsingSetValue sfFlags (V_UInt32 9) ?o = Inr obj"
    "\<forall>g. peekAtPField obj g = (if g = sfFlags then Inr (Some (V_UInt32 9)) else peekAtPField ?o g)"
    using t by (auto simp: getSType_def)
  then show ?thesis by (simp add: peekAtPField_def getFieldIndex_def peekAtIndex_def)
qed

text \<open>
  C21: Assigning to a field of an object with a template through its proxy.  A field that the template does
  not have is refused.  Otherwise the assignment succeeds for a value of the field's type, and the
  object fits its template as before.  The default value makes a field of default style absent, any
  other assignment stores the value; no other field changes.  The proxy then reads back the value, which
  is the default of the type for the absent field.
\<close>

theorem assign_templated:
  assumes "templated t obj" and "distinct (map fst t)" and "typed obj" and "u \<noteq> V_NotPresent"
    and "getSType u = sf_type (SField_info f)" and "getSType d = getSType u" and "isDefault u \<Longrightarrow> is_value_type u"
  shows "(f \<notin> fst ` set t \<longrightarrow> ValueProxy_assign f u obj = Inl (RuntimeError ''Template field error'')) \<and>
    (\<forall>style. (f, style) \<in> set t \<longrightarrow> (\<exists>obj'. ValueProxy_assign f u obj = Inr obj' \<and> templated t obj' \<and> typed obj' \<and>
       (\<forall>g. peekAtPField obj' g = (if g = f then Inr (Some (if style = soeDEFAULT \<and> is_value_type u then V_NotPresent else u))
          else peekAtPField obj g)) \<and>
       bindE (Proxy_make obj' f) (\<lambda>style'. Proxy_value d style' f obj') =
         Inr (if style = soeDEFAULT \<and> is_value_type u then d else u)))"
proof (intro conjI impI allI)
  assume "f \<notin> fst ` set t"
  then have "map_of (obj_v obj) f = None" using templated_names[OF assms(1)] by (metis list.set_map map_of_eq_None_iff)
  then show "ValueProxy_assign f u obj = Inl (RuntimeError ''Template field error'')" using assms(1)
    by (simp add: ValueProxy_assign_def Proxy_make_def templated_def peekAtPField_aligned[OF templated_aligned[OF assms(1)]])
next
  fix style assume f: "(f, style) \<in> set t"
  let ?v = "if style = soeDEFAULT \<and> is_value_type u then V_NotPresent else u"
  obtain obj' where o: "ValueProxy_assign f u obj = Inr obj'" "templated t obj'" "field_set f ?v obj obj'"
    using ValueProxy_assign_set[OF assms(1,2) f assms(3,5,4,7)] by blast
  have peek: "peekAtPField obj' g = (if g = f then Inr (Some ?v) else peekAtPField obj g)" for g
    using o(3) by (simp add: peekAtPField_aligned templated_aligned[OF o(2)] templated_aligned[OF assms(1)] field_set_def)
  have "getSType u \<noteq> STI_NOTPRESENT" using assms(4) getSType_present by blast
  then have "bindE (Proxy_make obj' f) (\<lambda>style'. Proxy_value d style' f obj') = Inr (if style = soeDEFAULT \<and> is_value_type u then d else u)"
    using peek[of f] assms(6) by (simp add: Proxy_make_templated[OF o(2) assms(2) f] Proxy_value_def Proxy_find_def getSType_def[of V_NotPresent])
  moreover have "typed obj'" using o(3) by (simp add: field_set_def)
  ultimately show "\<exists>obj'. ValueProxy_assign f u obj = Inr obj' \<and> templated t obj' \<and> typed obj' \<and>
      (\<forall>g. peekAtPField obj' g = (if g = f then Inr (Some ?v) else peekAtPField obj g)) \<and>
      bindE (Proxy_make obj' f) (\<lambda>style'. Proxy_value d style' f obj') = Inr (if style = soeDEFAULT \<and> is_value_type u then d else u)"
    using o(1,2) peek by blast
qed

theorem assign_templated_witness:
  "\<exists>obj obj'. let t = [(sfFlags, soeREQUIRED), (sfSequence, soeDEFAULT)] in
     obj = STObject [(sfFlags, V_UInt32 9), (sfSequence, V_UInt32 1)] (Some t) \<and>
     ValueProxy_assign sfSequence (V_UInt32 0) obj = Inr obj' \<and> templated t obj' \<and>
     peekAtPField obj' sfSequence = Inr (Some V_NotPresent) \<and> peekAtPField obj' sfFlags = Inr (Some (V_UInt32 9)) \<and>
     bindE (Proxy_make obj' sfSequence) (\<lambda>style. Proxy_value (V_UInt32 0) style sfSequence obj') = Inr (V_UInt32 0)"
proof -
  let ?t = "[(sfFlags, soeREQUIRED), (sfSequence, soeDEFAULT)]"
  let ?o = "STObject [(sfFlags, V_UInt32 9), (sfSequence, V_UInt32 1)] (Some ?t)"
  have ty: "sf_type (SField_info sfFlags) = STI_UINT32" "sf_type (SField_info sfSequence) = STI_UINT32"
    using known_code(1)[of sfFlags] known_code(1)[of sfSequence] known_keys by simp_all
  have "templated ?t ?o" by (simp add: templated_def element_ok_def isDefault_def STInteger_isDefault_def)
  moreover have "typed ?o" using ty by (simp add: typed_def getSType_def)
  moreover have "distinct (map fst ?t)" by simp
  moreover have "is_value_type (V_UInt32 0)" "getSType (V_UInt32 0) = sf_type (SField_info sfSequence)"
    using ty by (simp_all add: is_value_type_def getSType_def)
  moreover have "peekAtPField ?o sfFlags = Inr (Some (V_UInt32 9))"
    using templated_aligned[OF \<open>templated ?t ?o\<close>] by (simp add: peekAtPField_aligned)
  ultimately show ?thesis
    using assign_templated[of ?t ?o "V_UInt32 0" sfSequence "V_UInt32 0"] by (auto simp: Let_def)
qed

end
