(* ===== verification/ObjectWire.thy ===== *)
theory ObjectWire
  imports Objects "HOL-Library.Multiset"
begin

text \<open>
  The wire form of objects: serialization (\<open>STObject::add\<close> and the \<open>add\<close> of the value classes),
  deserialization (\<open>STObject::set\<close>, \<open>STVar\<close>, \<open>STArray\<close>, \<open>STPathSet\<close>, \<open>STVector256\<close>,
  \<open>STAccount\<close>), and what relates them.

  The loops of the readers are \<open>partial_function\<close>s on the stream; the last section shows that they
  return on every stream.  The nesting of objects is bounded by the code itself: \<open>STVar_levels\<close>
  counts down from the eleven levels that the depth checks of the source allow.

  \<open>wire_value\<close> describes the values that the serializer writes in a form the reader accepts: of
  the type of their field, of the sizes that the length prefix can express, amounts in canonical
  form, path elements with at least one part, and inner objects in the shape of their template.
\<close>

section \<open>Serialization\<close>

definition getSortedFields :: "bool \<Rightarrow> STObject \<Rightarrow> fields" where
  "getSortedFields withAllFields obj =
     sort_key fst (filter (\<lambda>(f, v). getSType v \<noteq> STI_NOTPRESENT \<and> shouldInclude f withAllFields) (obj_v obj))"

definition addFieldID_of :: "SField \<Rightarrow> Serializer \<Rightarrow> Serializer" where
  "addFieldID_of f s = snd (Serializer_addFieldID (sf_type (SField_info f)) (sf_value (SField_info f)) s)"

lemma sorted_field_size:
  "(f, v) \<in> set (getSortedFields b obj) \<Longrightarrow> size v < size obj"
proof -
  assume "(f, v) \<in> set (getSortedFields b obj)"
  then have "(f, v) \<in> set (obj_v obj)" by (auto simp: getSortedFields_def)
  then have "size v < size_list (size_prod (\<lambda>_. 0) size) (obj_v obj)"
    using size_list_estimation[of "(f, v)" "obj_v obj" "size v" "size_prod (\<lambda>_. 0) size"] by simp
  then show ?thesis by (cases obj) simp
qed

lemma array_element_size: "(f, obj) \<in> set xs \<Longrightarrow> size obj < size (V_Array xs)"
  using size_list_estimation[of "(f, obj)" xs "size obj" "size_prod (\<lambda>_. 0) size"] by simp

definition STBlob_add :: "Blob \<Rightarrow> Serializer \<Rightarrow> Serializer res" where
  "STBlob_add x s = bindE (Serializer_addVL x s) (\<lambda>(_, s). Inr s)"

definition STAccount_add :: "uint160 \<Rightarrow> bool \<Rightarrow> Serializer \<Rightarrow> Serializer res" where
  "STAccount_add x dflt s =
     bindE (Serializer_addVL (if STAccount_isDefault x dflt then [] else x) s) (\<lambda>(_, s). Inr s)"

definition STVector256_add :: "uint256 list \<Rightarrow> Serializer \<Rightarrow> Serializer res" where
  "STVector256_add xs s = bindE (Serializer_addVL (concat (map uint256_bytes xs)) s) (\<lambda>(_, s). Inr s)"

function STValue_add :: "STValue \<Rightarrow> Serializer \<Rightarrow> Serializer res"
  and STObject_add :: "bool \<Rightarrow> STObject \<Rightarrow> Serializer \<Rightarrow> Serializer res" where
  "STValue_add v s =
     (case v of
        V_NotPresent \<Rightarrow> Inr s
      | V_UInt8 x \<Rightarrow> Inr (snd (Serializer_add8 x s))
      | V_UInt16 x \<Rightarrow> Inr (snd (Serializer_add16 x s))
      | V_UInt32 x \<Rightarrow> Inr (snd (Serializer_add32 x s))
      | V_UInt64 x \<Rightarrow> Inr (snd (Serializer_add64 x s))
      | V_Hash128 x \<Rightarrow> Inr (snd (Serializer_addBitString x s))
      | V_Hash160 x \<Rightarrow> Inr (snd (Serializer_addBitString x s))
      | V_Hash256 x \<Rightarrow> Inr (snd (Serializer_addBitString (uint256_bytes x) s))
      | V_Amount a \<Rightarrow> Inr (ST_serialize a s)
      | V_VL x \<Rightarrow> STBlob_add x s
      | V_Account x dflt \<Rightarrow> STAccount_add x dflt s
      | V_PathSet ps \<Rightarrow> Inr (STPathSet_add ps s)
      | V_Vector256 xs \<Rightarrow> STVector256_add xs s
      | V_Object obj \<Rightarrow> STObject_add True obj s
      | V_Array xs \<Rightarrow>
          forE (\<lambda>(f, obj) s.
            bindE (STObject_add True obj (addFieldID_of f s)) (\<lambda>s.
              Inr (snd (Serializer_addFieldID STI_OBJECT 1 s)))) xs s)"
| "STObject_add withAllFields obj s =
     forE (\<lambda>(f, v) s.
       bindE (STValue_add v (addFieldID_of f s)) (\<lambda>s.
         Inr (if getSType v = STI_ARRAY \<or> getSType v = STI_OBJECT
              then snd (Serializer_addFieldID (getSType v) 1 s) else s)))
       (getSortedFields withAllFields obj) s"
  by pat_completeness auto
termination
  by (relation "measure (\<lambda>x. case x of Inl (v, _) \<Rightarrow> size v | Inr (_, obj, _) \<Rightarrow> size obj)")
    (auto dest: sorted_field_size array_element_size)

declare STValue_add.simps [simp del] STObject_add.simps [simp del]

section \<open>Deserialization\<close>

definition STVector256_read :: "SerialIter \<Rightarrow> (uint256 list \<times> SerialIter) res" where
  "STVector256_read sit =
     bindE (SerialIter_getVL sit) (\<lambda>(data, sit).
       Inr (map (\<lambda>i. uint256_of_bytes (take 32 (drop (32 * i) data))) [0..<length data div 32], sit))"

definition STAccount_read :: "SerialIter \<Rightarrow> ((uint160 \<times> bool) \<times> SerialIter) res" where
  "STAccount_read sit =
     bindE (SerialIter_getVL sit) (\<lambda>(v, sit).
       if v = [] then Inr ((zero160, True), sit)
       else if length v \<noteq> 20 then Inl (RuntimeError ''Invalid STAccount size'')
       else Inr ((v, False), sit))"

definition applyTemplate_value :: "SField \<Rightarrow> STValue \<Rightarrow> STValue res" where
  "applyTemplate_value f v =
     (case v of
        V_Object obj \<Rightarrow> bindE (applyTemplateFromSField f obj) (\<lambda>obj. Inr (V_Object obj))
      | _ \<Rightarrow> Inr v)"

type_synonym value_reader = "SField \<Rightarrow> SerialIter \<Rightarrow> (STValue \<times> SerialIter) res"
type_synonym object_reader = "SField \<Rightarrow> SerialIter \<Rightarrow> (STObject \<times> SerialIter) res"

text \<open>The loop of \<open>STObject::set\<close>; \<open>rd\<close> constructs the value of a field one level deeper.\<close>

partial_function (option) STObject_loop ::
  "value_reader \<Rightarrow> fields \<Rightarrow> SerialIter \<Rightarrow> ((fields \<times> bool) \<times> SerialIter) res option" where
  "STObject_loop rd v sit =
     (if SerialIter_empty sit then Some (Inr ((v, False), sit))
      else
        (case SerialIter_getFieldID sit of
           Inl e \<Rightarrow> Some (Inl e)
         | Inr ((type, field), sit) \<Rightarrow>
             if type = STI_OBJECT \<and> field = 1 then Some (Inr ((v, True), sit))
             else if type = STI_ARRAY \<and> field = 1
               then Some (Inl (RuntimeError ''Illegal end-of-array marker in object''))
             else if isInvalid (getField (field_code type field))
               then Some (Inl (RuntimeError ''Unknown field''))
             else
               (case rd (getField (field_code type field)) sit of
                  Inl e \<Rightarrow> Some (Inl e)
                | Inr (x, sit) \<Rightarrow>
                    (case applyTemplate_value (getField (field_code type field)) x of
                       Inl e \<Rightarrow> Some (Inl e)
                     | Inr x \<Rightarrow> STObject_loop rd (v @ [(getField (field_code type field), x)]) sit))))"

fun adjacent_eq :: "fields \<Rightarrow> bool" where
  "adjacent_eq ((f, _) # (g, x) # xs) \<longleftrightarrow> f = g \<or> adjacent_eq ((g, x) # xs)"
| "adjacent_eq _ \<longleftrightarrow> False"

definition STObject_set :: "value_reader \<Rightarrow> SerialIter \<Rightarrow> ((STObject \<times> bool) \<times> SerialIter) res" where
  "STObject_set rd sit =
     bindE (returns (STObject_loop rd [] sit)) (\<lambda>r.
     bindE r (\<lambda>((v, reachedEndOfObject), sit).
       if adjacent_eq (getSortedFields True (STObject v None))
         then Inl (RuntimeError ''Duplicate field detected'')
       else Inr ((STObject v None, reachedEndOfObject), sit)))"

text \<open>The loop of the array constructor; \<open>rd\<close> constructs an object two levels deeper.\<close>

partial_function (option) STArray_loop ::
  "object_reader \<Rightarrow> (SField \<times> STObject) list \<Rightarrow> SerialIter \<Rightarrow>
     ((SField \<times> STObject) list \<times> SerialIter) res option" where
  "STArray_loop rd v sit =
     (if SerialIter_empty sit then Some (Inr (v, sit))
      else
        (case SerialIter_getFieldID sit of
           Inl e \<Rightarrow> Some (Inl e)
         | Inr ((type, field), sit) \<Rightarrow>
             if type = STI_ARRAY \<and> field = 1 then Some (Inr (v, sit))
             else if type = STI_OBJECT \<and> field = 1
               then Some (Inl (RuntimeError ''Illegal terminator in array''))
             else if isInvalid (getField (field_code type field))
               then Some (Inl (RuntimeError ''Unknown field''))
             else if sf_type (SField_info (getField (field_code type field))) \<noteq> STI_OBJECT
               then Some (Inl (RuntimeError ''Non-object in array''))
             else
               (case rd (getField (field_code type field)) sit of
                  Inl e \<Rightarrow> Some (Inl e)
                | Inr (obj, sit) \<Rightarrow>
                    (case applyTemplateFromSField (getField (field_code type field)) obj of
                       Inl e \<Rightarrow> Some (Inl e)
                     | Inr obj \<Rightarrow> STArray_loop rd (v @ [(getField (field_code type field), obj)]) sit))))"

text \<open>
  The constructor of \<open>STVar\<close> from a stream.  The source passes the depth and throws when it exceeds
  ten; \<open>levels\<close> is eleven less the depth.  An object reads its fields one level deeper, an array
  reads objects one level deeper, which read their fields two levels deeper.
\<close>

definition STObject_read :: "value_reader option \<Rightarrow> SerialIter \<Rightarrow> (STObject \<times> SerialIter) res" where
  "STObject_read rd sit =
     (case rd of
        None \<Rightarrow> Inl (RuntimeError ''Maximum nesting depth of STObject exceeded'')
      | Some rd \<Rightarrow> bindE (STObject_set rd sit) (\<lambda>((obj, _), sit). Inr (obj, sit)))"

definition STVar_construct :: "value_reader \<Rightarrow> value_reader option \<Rightarrow> value_reader" where
  "STVar_construct rd1 rd2 name sit =
     (let ty = sf_type (SField_info name) in
      if ty = STI_NOTPRESENT then Inr (V_NotPresent, sit)
      else if ty = STI_UINT8 then bindE (SerialIter_get8 sit) (\<lambda>(x, sit). Inr (V_UInt8 x, sit))
      else if ty = STI_UINT16 then bindE (SerialIter_get16 sit) (\<lambda>(x, sit). Inr (V_UInt16 x, sit))
      else if ty = STI_UINT32 then bindE (SerialIter_get32 sit) (\<lambda>(x, sit). Inr (V_UInt32 x, sit))
      else if ty = STI_UINT64 then bindE (SerialIter_get64 sit) (\<lambda>(x, sit). Inr (V_UInt64 x, sit))
      else if ty = STI_AMOUNT then bindE (ST_deserialize sit) (\<lambda>(x, sit). Inr (V_Amount x, sit))
      else if ty = STI_HASH128 then bindE (SerialIter_getBitString 128 sit) (\<lambda>(x, sit). Inr (V_Hash128 x, sit))
      else if ty = STI_HASH160 then bindE (SerialIter_getBitString 160 sit) (\<lambda>(x, sit). Inr (V_Hash160 x, sit))
      else if ty = STI_HASH256 then
        bindE (SerialIter_getBitString 256 sit) (\<lambda>(x, sit). Inr (V_Hash256 (uint256_of_bytes x), sit))
      else if ty = STI_VECTOR256 then bindE (STVector256_read sit) (\<lambda>(x, sit). Inr (V_Vector256 x, sit))
      else if ty = STI_VL then bindE (SerialIter_getVL sit) (\<lambda>(x, sit). Inr (V_VL x, sit))
      else if ty = STI_ACCOUNT then bindE (STAccount_read sit) (\<lambda>((x, dflt), sit). Inr (V_Account x dflt, sit))
      else if ty = STI_PATHSET then bindE (STPathSet_read sit) (\<lambda>(x, sit). Inr (V_PathSet x, sit))
      else if ty = STI_OBJECT then bindE (STObject_read (Some rd1) sit) (\<lambda>(x, sit). Inr (V_Object x, sit))
      else if ty = STI_ARRAY then
        bindE (returns (STArray_loop (\<lambda>_. STObject_read rd2) [] sit)) (\<lambda>r.
        bindE r (\<lambda>(x, sit). Inr (V_Array x, sit)))
      else Inl (RuntimeError ''Unknown object type''))"

fun STVar_levels :: "nat \<Rightarrow> value_reader" where
  "STVar_levels 0 = (\<lambda>name sit. Inl (RuntimeError ''Maximum nesting depth of STVar exceeded''))"
| "STVar_levels (Suc 0) = STVar_construct (STVar_levels 0) None"
| "STVar_levels (Suc (Suc n)) = STVar_construct (STVar_levels (Suc n)) (Some (STVar_levels n))"

definition STVar_read :: "nat \<Rightarrow> value_reader" where
  "STVar_read depth = STVar_levels (11 - depth)"

definition STObject_make :: "SerialIter \<Rightarrow> ((STObject \<times> bool) \<times> SerialIter) res" where
  "STObject_make sit = STObject_set (STVar_read 1) sit"


section \<open>Lists of 256-bit values as bytes\<close>

lemma split_chunks:
  "(\<And>x. x \<in> set xs \<Longrightarrow> length (g x) = k) \<Longrightarrow>
     map (\<lambda>i. take k (drop (k * i) (concat (map g xs)))) [0..<length xs] = map g xs"
proof (induction xs)
  case (Cons x xs)
  have k: "length (g x) = k" using Cons.prems by simp
  have "map (\<lambda>i. take k (drop (k * i) (concat (map g (x # xs))))) [0..<length (x # xs)] =
      map (\<lambda>i. take k (drop (k * i) (g x @ concat (map g xs)))) (0 # map Suc [0..<length xs])"
    by (simp only: list.map concat.simps length_Cons upt_conv_Cons map_Suc_upt zero_less_Suc)
  also have "\<dots> = g x # map (\<lambda>i. take k (drop (k * i) (concat (map g xs)))) [0..<length xs]"
    using k by (simp add: comp_def)
  finally show ?case using Cons by simp
qed simp

section \<open>Reading what was written\<close>

text \<open>A serialization step that appends fixed bytes and does not throw.\<close>

definition appends :: "(Serializer \<Rightarrow> Serializer res) \<Rightarrow> Blob \<Rightarrow> bool" where
  "appends put bs \<longleftrightarrow> (\<forall>s. put s = Inr (s\<lparr>mData := mData s @ bs\<rparr>))"

lemma appends_bind: "appends p1 bs \<Longrightarrow> appends p2 cs \<Longrightarrow> appends (\<lambda>s. bindE (p1 s) p2) (bs @ cs)"
  by (simp add: appends_def)

lemma appends_bind_pure: "appends p1 bs \<Longrightarrow> appends (\<lambda>s. Inr (p2 s)) cs \<Longrightarrow> appends (\<lambda>s. bindE (p1 s) (\<lambda>s. Inr (p2 s))) (bs @ cs)"
  by (simp add: appends_def)

lemma appends_pre: "appends (\<lambda>s. Inr (p1 s)) bs \<Longrightarrow> appends p2 cs \<Longrightarrow> appends (\<lambda>s. p2 (p1 s)) (bs @ cs)"
  by (simp add: appends_def)

lemma appends_forE:
  "(\<And>x. x \<in> set xs \<Longrightarrow> appends (f x) (enc x)) \<Longrightarrow> appends (forE f xs) (concat (map enc xs))"
proof (induction xs)
  case (Cons x xs)
  have "appends (\<lambda>s. bindE (f x s) (forE f xs)) (enc x @ concat (map enc xs))"
    using Cons by (intro appends_bind) auto
  then show ?case by simp
qed (simp add: appends_def)

lemma appends_push: "appends (\<lambda>s. Inr (snd (push_bytes bs s))) bs"
  by (simp add: appends_def push_bytes_def)

lemma appends_addVL: "length x \<le> 918744 \<Longrightarrow>
    appends (\<lambda>s. bindE (Serializer_addVL x s) (\<lambda>(_, s). Inr s)) (encoding Serializer_addVL x)"
  by (simp add: appends_def addVL_appends push_bytes_def)

lemma appends_addFieldID: "appends (\<lambda>s. Inr (snd (Serializer_addFieldID t v s))) (encoding (\<lambda>(t, v) s. Inr (Serializer_addFieldID t v s)) (t, v))"
  by (auto simp: appends_def encoding_def Serializer_addFieldID_def push_bytes_def split: prod.splits)

lemma encoding_appends: "appends (\<lambda>s. bindE (put x s) (\<lambda>(_, s). Inr s)) bs \<Longrightarrow> encoding put x = bs"
  by (auto simp: appends_def encoding_def bindE_eq_Inr dest!: spec[of _ Serializer_empty])

section \<open>Path sets\<close>

lemma typeAll_eq: "typeAll = 49"
  by (simp add: typeAll_def typeAccount_def typeCurrency_def typeIssuer_def)

lemmas path_types = typeNone_def typeAccount_def typeCurrency_def typeIssuer_def typeBoundary_def typeAll_eq

definition wire_element :: "STPathElement \<Rightarrow> bool" where
  "wire_element el \<longleftrightarrow> length (pe_account el) = 20 \<and> length (pe_currency el) = 20 \<and> length (pe_issuer el) = 20 \<and>
     pe_type el \<noteq> typeNone \<and>
     el = STPathElement_make (pe_account el) (pe_currency el) (pe_issuer el) (pe_type el AND typeCurrency \<noteq> 0)"

definition wire_paths :: "STPathElement list list \<Rightarrow> bool" where
  "wire_paths ps \<longleftrightarrow> ps \<noteq> [] \<and> (\<forall>p \<in> set ps. p \<noteq> [] \<and> (\<forall>el \<in> set p. wire_element el))"

text \<open>The type of an element says which identifiers follow it.\<close>

lemma make_bits:
  fixes el :: STPathElement
  assumes "el = STPathElement_make a c i b"
  shows "pe_type el AND typeAccount \<noteq> 0 \<longleftrightarrow> \<not> isSFC a"
    and "pe_type el AND typeCurrency \<noteq> 0 \<longleftrightarrow> b \<or> \<not> isSFC c"
    and "pe_type el AND typeIssuer \<noteq> 0 \<longleftrightarrow> \<not> isSFC i"
    and "pe_type el \<noteq> typeBoundary" and "pe_type el AND NOT typeAll = 0"
  using assms by (simp_all add: STPathElement_make_def path_types)

definition element_tail :: "STPathElement \<Rightarrow> Blob" where
  "element_tail el =
     (if pe_type el AND typeAccount \<noteq> 0 then pe_account el else []) @
     (if pe_type el AND typeCurrency \<noteq> 0 then pe_currency el else []) @
     (if pe_type el AND typeIssuer \<noteq> 0 then pe_issuer el else [])"

definition element_bytes :: "STPathElement \<Rightarrow> Blob" where
  "element_bytes el = pe_type el # element_tail el"

definition paths_tail :: "STPathElement list list \<Rightarrow> Blob" where
  "paths_tail ps = concat (map (\<lambda>p. typeBoundary # concat (map element_bytes p)) ps)"

definition paths_bytes :: "STPathElement list list \<Rightarrow> Blob" where
  "paths_bytes ps = concat (map element_bytes (hd ps)) @ paths_tail (tl ps) @ [typeNone]"

lemma reads_get160_if:
  "length x = 20 \<Longrightarrow> (\<not> b \<Longrightarrow> isSFC x) \<Longrightarrow> reads (get160_if b) (if b then x else []) x"
  by (auto simp: get160_if_def[abs_def] isSFC_def reads_return intro: reads_getBitString)

lemma reads_element:
  assumes "wire_element el"
  shows "reads (STPathElement_read (pe_type el)) (element_tail el) el"
proof -
  let ?t = "pe_type el"
  have len: "length (pe_account el) = 20" "length (pe_currency el) = 20" "length (pe_issuer el) = 20"
    and el: "el = STPathElement_make (pe_account el) (pe_currency el) (pe_issuer el) (?t AND typeCurrency \<noteq> 0)"
    using assms by (simp_all add: wire_element_def)
  note bits = make_bits[OF el]
  let ?e = "\<lambda>a c i it. Inr (STPathElement_make a c i (?t AND typeCurrency \<noteq> 0), it)"
  have 3: "reads (\<lambda>it. bindE (get160_if (?t AND typeIssuer \<noteq> 0) it) (\<lambda>(i, it). ?e (pe_account el) (pe_currency el) i it))
      ((if ?t AND typeIssuer \<noteq> 0 then pe_issuer el else []) @ []) el"
    using bits(3) len(3) reads_return[of el] el[symmetric]
    by (intro reads_bind[of _ _ "pe_issuer el" "?e (pe_account el) (pe_currency el)"] reads_get160_if) auto
  have 2: "reads (\<lambda>it. bindE (get160_if (?t AND typeCurrency \<noteq> 0) it) (\<lambda>(c, it).
      bindE (get160_if (?t AND typeIssuer \<noteq> 0) it) (\<lambda>(i, it). ?e (pe_account el) c i it)))
      ((if ?t AND typeCurrency \<noteq> 0 then pe_currency el else []) @
       (if ?t AND typeIssuer \<noteq> 0 then pe_issuer el else []) @ []) el"
    using bits(2) len(2)
    by (intro reads_bind[of _ _ "pe_currency el" "\<lambda>c it. bindE (get160_if (?t AND typeIssuer \<noteq> 0) it)
        (\<lambda>(i, it). ?e (pe_account el) c i it)", OF _ 3] reads_get160_if) auto
  have "reads (STPathElement_read ?t) ((if ?t AND typeAccount \<noteq> 0 then pe_account el else []) @
      (if ?t AND typeCurrency \<noteq> 0 then pe_currency el else []) @
      (if ?t AND typeIssuer \<noteq> 0 then pe_issuer el else []) @ []) el"
    unfolding STPathElement_read_def[abs_def] using bits(1) len(1)
    by (intro reads_bind[of _ _ "pe_account el" "\<lambda>a it. bindE (get160_if (?t AND typeCurrency \<noteq> 0) it) (\<lambda>(c, it).
        bindE (get160_if (?t AND typeIssuer \<noteq> 0) it) (\<lambda>(i, it). ?e a c i it))", OF _ 2] reads_get160_if) auto
  then show ?thesis by (simp add: element_tail_def)
qed

lemma path_loop_elements:
  assumes "\<forall>el \<in> set els. wire_element el" and "iter_wf it" and "unread it = concat (map element_bytes els) @ rest"
  shows "STPathSet_loop paths path it =
    STPathSet_loop paths (path @ els) (SerialIter_advance (length (concat (map element_bytes els))) it)"
  using assms
proof (induction els arbitrary: path it)
  case (Cons el els)
  let ?it1 = "SerialIter_advance 1 it" and ?it2 = "SerialIter_advance (length (element_tail el)) (SerialIter_advance 1 it)"
  have w: "wire_element el" using Cons.prems by simp
  have t: "pe_type el \<noteq> typeNone" "pe_type el \<noteq> typeBoundary" "pe_type el AND NOT typeAll = 0"
    using w make_bits(4,5)[of el "pe_account el" "pe_currency el" "pe_issuer el" "pe_type el AND typeCurrency \<noteq> 0"]
    by (simp_all add: wire_element_def)
  have un: "unread it = pe_type el # element_tail el @ concat (map element_bytes els) @ rest"
    using Cons.prems(3) by (simp add: element_bytes_def[of el])
  note g = get8_step[OF Cons.prems(2) un]
  have rd: "STPathElement_read (pe_type el) ?it1 = Inr (el, ?it2)"
    by (rule readsD[OF reads_element[OF w] g(2,3)])
  have "length (element_tail el) \<le> sit_remain ?it1" using length_unread[OF g(2)] g(3) by simp
  then have wf2: "iter_wf ?it2" using g(2) by (rule iter_wf_advance[rotated])
  have un2: "unread ?it2 = concat (map element_bytes els) @ rest" unfolding unread_advance[of _ ?it1] g(3) by simp
  have "STPathSet_loop paths path it = STPathSet_loop paths (path @ [el]) ?it2"
    using t by (simp add: STPathSet_loop.simps[of paths path it] g(1) rd[simplified])
  then show ?case using Cons.IH[OF _ wf2 un2, of "path @ [el]"] Cons.prems(1)
    by (simp add: element_bytes_def[of el] add.assoc add.commute add.left_commute)
qed simp

lemma path_loop_paths:
  assumes "wire_paths (p # ps)" and "iter_wf it"
    and "unread it = concat (map element_bytes p) @ paths_tail ps @ [typeNone] @ rest"
  shows "STPathSet_loop paths [] it =
    Some (Inr (paths @ p # ps, SerialIter_advance (length (paths_bytes (p # ps))) it))"
  using assms
proof (induction ps arbitrary: p paths it)
  case Nil
  let ?it = "SerialIter_advance (length (concat (map element_bytes p))) it"
  have un: "unread it = concat (map element_bytes p) @ typeNone # rest" using Nil by (simp add: paths_tail_def)
  then have "STPathSet_loop paths [] it = STPathSet_loop paths p ?it"
    using path_loop_elements[of p it "typeNone # rest" paths "[]"] Nil by (simp add: wire_paths_def)
  moreover have "iter_wf ?it" using Nil(2) length_unread[OF Nil(2)] un by (simp add: iter_wf_advance)
  moreover have "unread ?it = typeNone # rest" using un by (simp add: unread_advance)
  ultimately show ?case using get8_step[of ?it typeNone rest] Nil(1)
    by (simp add: STPathSet_loop.simps[of paths p ?it] wire_paths_def paths_bytes_def paths_tail_def)
next
  case (Cons q ps)
  let ?it = "SerialIter_advance (length (concat (map element_bytes p))) it"
  let ?rest = "concat (map element_bytes q) @ paths_tail ps @ [typeNone] @ rest"
  have un: "unread it = concat (map element_bytes p) @ typeBoundary # ?rest"
    using Cons.prems(3) by (simp add: paths_tail_def)
  then have "STPathSet_loop paths [] it = STPathSet_loop paths p ?it"
    using path_loop_elements[of p it "typeBoundary # ?rest" paths "[]"] Cons.prems by (simp add: wire_paths_def)
  moreover have wf: "iter_wf ?it" using Cons.prems(2) length_unread[OF Cons.prems(2)] un by (simp add: iter_wf_advance)
  moreover have un1: "unread ?it = typeBoundary # ?rest" using un by (simp add: unread_advance)
  moreover have "p \<noteq> []" using Cons.prems(1) by (simp add: wire_paths_def)
  ultimately have "STPathSet_loop paths [] it = STPathSet_loop (paths @ [p]) [] (SerialIter_advance 1 ?it)"
    using get8_step(1)[OF wf un1] by (simp add: STPathSet_loop.simps[of paths p ?it] path_types)
  also have "\<dots> = Some (Inr ((paths @ [p]) @ q # ps, SerialIter_advance (length (paths_bytes (q # ps))) (SerialIter_advance 1 ?it)))"
    using Cons.prems(1) get8_step(2,3)[OF wf un1] by (intro Cons.IH) (simp_all add: wire_paths_def)
  finally show ?case by (simp add: paths_bytes_def paths_tail_def add.assoc add.commute add.left_commute)
qed

lemma reads_paths: "wire_paths ps \<Longrightarrow> reads STPathSet_read (paths_bytes ps) ps"
  unfolding reads_def
proof (intro allI impI)
  fix it rest assume w: "wire_paths ps" and wf: "iter_wf it" and un: "unread it = paths_bytes ps @ rest"
  obtain p qs where ps: "ps = p # qs" using w by (cases ps) (auto simp: wire_paths_def)
  show "STPathSet_read it = Inr (ps, SerialIter_advance (length (paths_bytes ps)) it)"
    using path_loop_paths[of p qs it rest "[]"] w wf un by (simp add: ps paths_bytes_def STPathSet_read_def)
qed

text \<open>The writer appends these bytes.\<close>

lemma STPathElement_add_bytes: "STPathElement_add el s = s\<lparr>mData := mData s @ element_bytes el\<rparr>"
  by (simp add: STPathElement_add_def Serializer_add8_def Serializer_addBitString_def push_bytes_def Let_def
      element_bytes_def element_tail_def)

lemma fold_elements: "fold STPathElement_add p s = s\<lparr>mData := mData s @ concat (map element_bytes p)\<rparr>"
  by (induction p arbitrary: s) (simp_all add: STPathElement_add_bytes)

lemma add_paths_tail: "STPathSet_add_paths False ps s = s\<lparr>mData := mData s @ paths_tail ps\<rparr>"
  by (induction ps arbitrary: s)
    (simp_all add: fold_elements paths_tail_def Serializer_add8_def push_bytes_def)

lemma appends_paths: "ps \<noteq> [] \<Longrightarrow> appends (\<lambda>s. Inr (STPathSet_add ps s)) (paths_bytes ps)"
  by (cases ps)
    (simp_all add: appends_def STPathSet_add_def add_paths_tail fold_elements paths_bytes_def Serializer_add8_def push_bytes_def)

section \<open>Objects on the wire\<close>

definition field_ok :: "SField \<Rightarrow> bool" where
  "field_ok f \<longleftrightarrow> f \<in> fst ` set knownCodeToField \<and> isUseful f \<and> isBinary f"

abbreviation field_id :: "SField \<Rightarrow> int \<times> int" where
  "field_id f \<equiv> (sf_type (SField_info f), sf_value (SField_info f))"

definition field_header :: "SField \<Rightarrow> Blob" where
  "field_header f = encoding addFieldID (field_id f)"

definition end_marker :: "STValue \<Rightarrow> Blob" where
  "end_marker v = (if getSType v = STI_ARRAY \<or> getSType v = STI_OBJECT then encoding addFieldID (getSType v, 1) else [])"

lemma field_ok_id:
  assumes "field_ok f"
  shows "field_id_valid (field_id f)" and "getField (field_code (fst (field_id f)) (snd (field_id f))) = f"
    and "field_id f \<noteq> (STI_OBJECT, 1)" and "field_id f \<noteq> (STI_ARRAY, 1)" and "\<not> isInvalid f"
    and "shouldInclude f True"
proof -
  obtain i where i: "(f, i) \<in> set knownCodeToField" using assms by (auto simp: field_ok_def)
  have "SField_info f = i" using known_info[OF i] by simp
  moreover note k = known_field[OF i]
  ultimately show "field_id_valid (field_id f)" "getField (field_code (fst (field_id f)) (snd (field_id f))) = f"
    "shouldInclude f True" "\<not> isInvalid f"
    using assms by (auto simp: field_ok_def field_id_valid_def shouldInclude_def isBinary_def isInvalid_def isUseful_def)
  then have c: "f = field_code (fst (field_id f)) (snd (field_id f))"
    using assms k \<open>SField_info f = i\<close> by (simp add: field_ok_def getField_def isUseful_def split: option.splits)
  show "field_id f \<noteq> (STI_OBJECT, 1)" "field_id f \<noteq> (STI_ARRAY, 1)"
    using k assms c by (auto simp: field_ok_def)
qed

lemma field_ok_known:
  assumes "f \<in> fst ` set knownCodeToField" and "0 < f" and "f mod 65536 < 256"
  shows "field_ok f"
  using known_code[OF assms] assms(1) by (simp add: field_ok_def)

lemma field_ok_type: "field_ok f \<Longrightarrow> sf_type (SField_info f) = f div 65536"
proof -
  assume f: "field_ok f"
  then obtain i where i: "(f, i) \<in> set knownCodeToField" by (auto simp: field_ok_def)
  then have "0 < f" "sf_value i < 256" using f known_info[OF i] by (simp_all add: field_ok_def isBinary_def isUseful_def)
  then have "f = sf_type i * 65536 + sf_value i" using known_codes i by (auto simp: list_all_iff)
  then have "f mod 65536 = sf_value i" using \<open>sf_value i < 256\<close> known_codes i \<open>0 < f\<close> by (auto simp: list_all_iff)
  then show ?thesis using known_code(1)[of f] f \<open>sf_value i < 256\<close> \<open>0 < f\<close> by (simp add: field_ok_def)
qed

text \<open>
  A value that is written as some bytes and read back from them; an object is read free and then
  given the template of its field.
\<close>

definition codes :: "value_reader \<Rightarrow> SField \<Rightarrow> STValue \<Rightarrow> bool" where
  "codes rd f v \<longleftrightarrow> (\<exists>bs v0. appends (STValue_add v) bs \<and> reads (rd f) (bs @ end_marker v) v0 \<and>
     applyTemplate_value f v0 = Inr v)"

definition value_bytes :: "STValue \<Rightarrow> Blob" where
  "value_bytes v = (case STValue_add v Serializer_empty of Inl _ \<Rightarrow> [] | Inr s \<Rightarrow> mData s)"

lemma value_bytes_appends: "appends (STValue_add v) bs \<Longrightarrow> value_bytes v = bs"
  by (simp add: value_bytes_def appends_def)

lemma codesD:
  assumes "codes rd f v"
  shows "appends (STValue_add v) (value_bytes v)"
    and "\<exists>v0. reads (rd f) (value_bytes v @ end_marker v) v0 \<and> applyTemplate_value f v0 = Inr v"
  using assms by (auto simp: codes_def value_bytes_appends)

definition field_bytes :: "SField \<times> STValue \<Rightarrow> Blob" where
  "field_bytes = (\<lambda>(f, v). field_header f @ value_bytes v @ end_marker v)"

definition fields_bytes :: "fields \<Rightarrow> Blob" where
  "fields_bytes u = concat (map field_bytes u)"

definition wire_fields :: "(SField \<Rightarrow> STValue \<Rightarrow> bool) \<Rightarrow> fields \<Rightarrow> bool" where
  "wire_fields W u \<longleftrightarrow> sorted_wrt (<) (map fst u) \<and> (\<forall>(f, v) \<in> set u. field_ok f \<and> W f v \<and> v \<noteq> V_NotPresent)"

lemma appends_header: "appends (\<lambda>s. Inr (addFieldID_of f s)) (field_header f)"
  using appends_addFieldID[of "sf_type (SField_info f)" "sf_value (SField_info f)"]
  by (simp add: addFieldID_of_def field_header_def case_prod_unfold)

lemma appends_marker: "appends (\<lambda>s. Inr (snd (Serializer_addFieldID t 1 s))) (encoding addFieldID (t, 1))"
  using appends_addFieldID[of t 1] by (simp add: case_prod_unfold)

lemma appends_object:
  assumes "\<forall>(f, v) \<in> set (getSortedFields b obj). appends (STValue_add v) (value_bytes v)"
  shows "appends (STObject_add b obj) (fields_bytes (getSortedFields b obj))"
proof -
  have "appends ((\<lambda>(f, v) s. bindE (STValue_add v (addFieldID_of f s)) (\<lambda>s.
         Inr (if getSType v = STI_ARRAY \<or> getSType v = STI_OBJECT
              then snd (Serializer_addFieldID (getSType v) 1 s) else s))) x) (field_bytes x)"
    if "x \<in> set (getSortedFields b obj)" for x
  proof -
    obtain f v where x: "x = (f, v)" by fastforce
    have v: "appends (STValue_add v) (value_bytes v)" using assms that by (auto simp: x)
    have "appends (\<lambda>s. Inr (if getSType v = STI_ARRAY \<or> getSType v = STI_OBJECT
              then snd (Serializer_addFieldID (getSType v) 1 s) else s)) (end_marker v)"
      using appends_marker[of "getSType v"] by (simp add: end_marker_def appends_def)
    from appends_pre[OF appends_header[of f] appends_bind_pure[OF v this]] show ?thesis
      by (simp add: x field_bytes_def)
  qed
  from appends_forE[of "getSortedFields b obj", OF this] show ?thesis
    unfolding fields_bytes_def by (simp add: appends_def STObject_add.simps)
qed

text \<open>Sorting the fields of an object that already is in order changes nothing.\<close>

lemma sort_key_strict: "sorted_wrt (<) (map f xs) \<Longrightarrow> sort_key f xs = xs"
  by (rule sort_key_id_if_sorted) (simp add: strict_sorted_imp_sorted)

lemma getSortedFields_wire:
  assumes "wire_fields W u"
  shows "getSortedFields True (STObject u t) = u"
proof -
  have "filter (\<lambda>(f, v). getSType v \<noteq> STI_NOTPRESENT \<and> shouldInclude f True) u = u"
    using assms by (auto simp: filter_id_conv wire_fields_def getSType_present field_ok_id(6))
  then show ?thesis using assms by (simp add: getSortedFields_def wire_fields_def sort_key_strict)
qed

lemma adjacent_sorted: "sorted_wrt (<) (map fst u) \<Longrightarrow> \<not> adjacent_eq u"
  by (induction u rule: adjacent_eq.induct) auto

text \<open>An iterator positioned on given bytes, and moved past them.\<close>

lemma at_advance:
  assumes "iter_wf it" and "unread it = bs @ rest"
  shows "iter_wf (SerialIter_advance (length bs) it)" and "unread (SerialIter_advance (length bs) it) = rest"
  using assms length_unread[OF assms(1)] by (simp_all add: iter_wf_advance unread_advance)

lemma header_nonempty:
  assumes "field_id_valid p" shows "encoding addFieldID p \<noteq> []"
proof
  assume "encoding addFieldID p = []"
  then have "SerialIter_getFieldID (SerialIter_make []) = Inr (p, SerialIter_make [])"
    using readsD[OF reads_getFieldID[OF assms], of "SerialIter_make []" "[]"] by simp
  then show False by (simp add: SerialIter_getFieldID_def SerialIter_get8_def SerialIter_make_def)
qed

lemma not_empty_header:
  assumes "iter_wf it" and "unread it = encoding addFieldID p @ rest" and "field_id_valid p"
  shows "\<not> SerialIter_empty it"
proof -
  have "0 < length (encoding addFieldID p)" using header_nonempty[OF assms(3)] by blast
  moreover have "sit_remain it = length (encoding addFieldID p) + length rest"
    using length_unread[OF assms(1)] assms(2) by simp
  ultimately show ?thesis unfolding SerialIter_empty_def by linarith
qed

lemma loop_field:
  assumes "field_ok f" and "codes rd f v" and "iter_wf it" and "unread it = field_bytes (f, v) @ rest"
  shows "STObject_loop rd acc it = STObject_loop rd (acc @ [(f, v)]) (SerialIter_advance (length (field_bytes (f, v))) it)"
proof -
  note ok = field_ok_id[OF assms(1)]
  let ?it1 = "SerialIter_advance (length (field_header f)) it"
  let ?b = "value_bytes v @ end_marker v"
  let ?it2 = "SerialIter_advance (length ?b) ?it1"
  have un: "unread it = field_header f @ ?b @ rest" using assms(4) by (simp add: field_bytes_def)
  have g: "SerialIter_getFieldID it = Inr (field_id f, ?it1)"
    using readsD[OF reads_getFieldID[OF ok(1)] assms(3)] un by (simp add: field_header_def)
  note at1 = at_advance[OF assms(3) un]
  obtain v0 where rd: "reads (rd f) ?b v0" and t: "applyTemplate_value f v0 = Inr v"
    using codesD(2)[OF assms(2)] by blast
  have r: "rd f ?it1 = Inr (v0, ?it2)" by (rule readsD[OF rd at1])
  have ne: "\<not> SerialIter_empty it"
    using not_empty_header[OF assms(3) _ ok(1)] un by (simp add: field_header_def)
  have nm: "\<not> (fst (field_id f) = STI_OBJECT \<and> snd (field_id f) = 1)" "\<not> (fst (field_id f) = STI_ARRAY \<and> snd (field_id f) = 1)"
    using ok(3,4) by auto
  show ?thesis using ok(2,5) ne nm
    by (simp only: STObject_loop.simps[of rd acc it] g if_False sum.case prod.case fst_conv snd_conv r t)
      (simp add: field_bytes_def add.assoc)
qed

lemma loop_fields:
  assumes "\<forall>(f, v) \<in> set u. field_ok f \<and> codes rd f v" and "iter_wf it" and "unread it = fields_bytes u @ rest"
  shows "STObject_loop rd acc it = STObject_loop rd (acc @ u) (SerialIter_advance (length (fields_bytes u)) it)"
  using assms
proof (induction u arbitrary: acc it)
  case (Cons x u)
  obtain f v where x: "x = (f, v)" by fastforce
  have un: "unread it = field_bytes (f, v) @ fields_bytes u @ rest" using Cons.prems(3) by (simp add: fields_bytes_def x)
  have "STObject_loop rd acc it = STObject_loop rd (acc @ [x]) (SerialIter_advance (length (field_bytes x)) it)"
    using loop_field[OF _ _ Cons.prems(2) un] Cons.prems(1) by (simp add: x)
  then show ?case using Cons.IH[OF _ at_advance[OF Cons.prems(2) un], of "acc @ [x]"] Cons.prems(1)
    by (simp add: x fields_bytes_def)
qed (simp add: fields_bytes_def)

definition object_marker :: Blob where
  "object_marker = encoding addFieldID (STI_OBJECT, 1)"

definition array_marker :: Blob where
  "array_marker = encoding addFieldID (STI_ARRAY, 1)"

lemma marker_valid: "field_id_valid (STI_OBJECT, 1)" "field_id_valid (STI_ARRAY, 1)"
  by (simp_all add: field_id_valid_def)

lemma set_to_marker:
  assumes u: "wire_fields (codes rd) u" and wf: "iter_wf it" and un: "unread it = fields_bytes u @ object_marker @ rest"
  shows "STObject_set rd it = Inr ((STObject u None, True), SerialIter_advance (length (fields_bytes u @ object_marker)) it)"
proof -
  let ?it = "SerialIter_advance (length (fields_bytes u)) it"
  have c: "\<forall>(f, v) \<in> set u. field_ok f \<and> codes rd f v" using u by (auto simp: wire_fields_def)
  have adj: "\<not> adjacent_eq u" using u by (auto simp: wire_fields_def intro!: adjacent_sorted)
  note at = at_advance[OF wf un]
  have "SerialIter_getFieldID ?it = Inr ((STI_OBJECT, 1), SerialIter_advance (length object_marker) ?it)"
    using readsD[OF reads_getFieldID[OF marker_valid(1)] at(1)] at(2) by (simp add: object_marker_def)
  moreover have "\<not> SerialIter_empty ?it"
    using not_empty_header[OF at(1) _ marker_valid(1)] at(2) by (simp add: object_marker_def)
  ultimately have "STObject_loop rd u ?it = Some (Inr ((u, True), SerialIter_advance (length object_marker) ?it))"
    by (simp add: STObject_loop.simps[of rd u])
  then show ?thesis using loop_fields[OF c wf un, of "[]"] getSortedFields_wire[OF u] adj
    by (simp add: STObject_set_def)
qed

lemma set_to_end:
  assumes u: "wire_fields (codes rd) u" and wf: "iter_wf it" and un: "unread it = fields_bytes u"
  shows "STObject_set rd it = Inr ((STObject u None, False), SerialIter_advance (length (fields_bytes u)) it)"
proof -
  let ?it = "SerialIter_advance (length (fields_bytes u)) it"
  have c: "\<forall>(f, v) \<in> set u. field_ok f \<and> codes rd f v" using u by (auto simp: wire_fields_def)
  have adj: "\<not> adjacent_eq u" using u by (auto simp: wire_fields_def intro!: adjacent_sorted)
  have un': "unread it = fields_bytes u @ []" using un by simp
  note at = at_advance[OF wf un']
  have "SerialIter_empty ?it" using length_unread[OF at(1)] at(2) by (simp add: SerialIter_empty_def)
  then have "STObject_loop rd u ?it = Some (Inr ((u, False), ?it))"
    by (simp add: STObject_loop.simps[of rd u])
  then show ?thesis using loop_fields[OF c wf un', of "[]"] getSortedFields_wire[OF u] adj
    by (simp add: STObject_set_def)
qed

text \<open>Reading an object that ends with its marker.\<close>

lemma reads_object:
  assumes "wire_fields (codes rd) u"
  shows "reads (STObject_read (Some rd)) (fields_bytes u @ object_marker) (STObject u None)"
  unfolding reads_def
proof (intro allI impI)
  fix it rest assume "iter_wf it" and "unread it = (fields_bytes u @ object_marker) @ rest"
  then show "STObject_read (Some rd) it =
      Inr (STObject u None, SerialIter_advance (length (fields_bytes u @ object_marker)) it)"
    using set_to_marker[OF assms, of it rest] by (simp add: STObject_read_def)
qed

text \<open>
  Giving an object its template keeps its present fields: they are only moved to the places the
  template has for them.
\<close>

lemma mset_take_drop: "i < length xs \<Longrightarrow> mset (take i xs @ drop (Suc i) xs) + {#xs ! i#} = mset xs"
proof -
  assume "i < length xs"
  then have "mset xs = mset (take i xs @ xs ! i # drop (Suc i) xs)" by (simp add: id_take_nth_drop[symmetric])
  then show ?thesis by simp
qed

abbreviation present :: "fields \<Rightarrow> (SField \<times> STValue) multiset" where
  "present u \<equiv> filter_mset (\<lambda>(f, v). v \<noteq> V_NotPresent) (mset u)"

lemma applyTemplate_loop_present:
  "applyTemplate_loop t u acc = Inr (r, v) \<Longrightarrow> present v + present r = present acc + present u"
proof (induction t u acc rule: applyTemplate_loop.induct)
  case (2 f style t u acc)
  show ?case
  proof (cases "index_of f u")
    case None
    then show ?thesis using 2 by (auto split: if_splits)
  next
    case (Some i)
    then have i: "i < length u" using index_of_Some by blast
    have "present u = filter_mset (\<lambda>(f, v). v \<noteq> V_NotPresent) (mset (take i u @ drop (Suc i) u) + {#u ! i#})"
      using mset_take_drop[OF i] by simp
    then have "present (acc @ [u ! i]) + present (take i u @ drop (Suc i) u) = present acc + present u"
      by (simp add: ac_simps)
    moreover have "present v + present r = present (acc @ [u ! i]) + present (take i u @ drop (Suc i) u)"
      using 2(2)[OF Some] 2(3) Some by (simp split: if_splits)
    ultimately show ?thesis by simp
  qed
qed simp

lemma applyTemplate_loop_rest:
  "applyTemplate_loop t u acc = Inr (r, v) \<Longrightarrow> set r \<subseteq> set u"
proof (induction t u acc rule: applyTemplate_loop.induct)
  case (2 f style t u acc)
  then show ?case
    by (auto split: option.splits if_splits dest!: in_set_takeD in_set_dropD)
qed simp

lemma known_binary_not_discardable: "field_ok f \<Longrightarrow> \<not> isDiscardable f"
  by (simp add: field_ok_def isBinary_def isDiscardable_def)

lemma applyTemplate_present:
  assumes "wire_fields W u" and "applyTemplate t (STObject u None) = Inr obj"
  shows "present (obj_v obj) = mset u"
proof -
  obtain r v where l: "applyTemplate_loop t u [] = Inr (r, v)" and obj: "obj = STObject v (Some t)"
    and d: "\<forall>e \<in> set r. isDiscardable (fst e)"
    using assms(2) by (auto simp: applyTemplate_def split: if_splits)
  have "r = []"
  proof (rule ccontr)
    assume "r \<noteq> []"
    then obtain f x where "(f, x) \<in> set r" by (cases r) auto
    then show False using d applyTemplate_loop_rest[OF l] assms(1) known_binary_not_discardable
      by (fastforce simp: wire_fields_def)
  qed
  moreover have "present u = mset u"
    using assms(1) by (auto simp: wire_fields_def filter_mset_eq_conv)
  ultimately show ?thesis using applyTemplate_loop_present[OF l] by (simp add: obj)
qed

lemma sorted_fields_unique:
  assumes "wire_fields W u" and "present (obj_v obj) = mset u"
  shows "getSortedFields True obj = u"
proof -
  let ?P = "\<lambda>(f, v). getSType v \<noteq> STI_NOTPRESENT \<and> shouldInclude f True"
  have "mset (filter ?P (obj_v obj)) = filter_mset (\<lambda>(f, v). shouldInclude f True) (present (obj_v obj))"
    by (simp add: filter_filter_mset getSType_present case_prod_unfold conj_commute)
  also have "\<dots> = mset (filter (\<lambda>(f, v). shouldInclude f True) u)" using assms(2) by simp
  also have "filter (\<lambda>(f, v). shouldInclude f True) u = u"
    using assms(1) field_ok_id(6) by (auto simp: wire_fields_def filter_id_conv)
  finally have m: "mset (filter ?P (obj_v obj)) = mset u" .
  have u: "sorted_wrt (<) (map fst u)" using assms(1) by (simp add: wire_fields_def)
  then have "distinct (map fst u)" by (simp add: strict_sorted_iff)
  then have "inj_on fst (set (filter ?P (obj_v obj)))" using mset_eq_setD[OF m] by (simp add: distinct_map)
  moreover have "sorted (map fst u)" using u by (rule strict_sorted_imp_sorted)
  ultimately show ?thesis using sort_key_inj_key_eq[OF m] by (simp add: getSortedFields_def)
qed

lemma getSortedFields_template:
  assumes "wire_fields W u" and "applyTemplateFromSField f (STObject u None) = Inr obj"
  shows "getSortedFields True obj = u"
proof (cases "findByType InnerObjectFormats f")
  case None
  then show ?thesis using assms by (auto simp: applyTemplateFromSField_def getSortedFields_wire)
next
  case (Some t)
  then show ?thesis using assms sorted_fields_unique[OF assms(1) applyTemplate_present[OF assms(1)]]
    by (simp add: applyTemplateFromSField_def)
qed

section \<open>Values on the wire\<close>

definition wire_object :: "(SField \<Rightarrow> STValue \<Rightarrow> bool) \<Rightarrow> SField \<Rightarrow> STObject \<Rightarrow> bool" where
  "wire_object W f obj \<longleftrightarrow>
     wire_fields W (getSortedFields True obj) \<and>
     applyTemplateFromSField f (STObject (getSortedFields True obj) None) = Inr obj"

definition wire_construct :: "(SField \<Rightarrow> STValue \<Rightarrow> bool) \<Rightarrow> (SField \<Rightarrow> STValue \<Rightarrow> bool) option \<Rightarrow> SField \<Rightarrow> STValue \<Rightarrow> bool" where
  "wire_construct W1 W2 f v \<longleftrightarrow> getSType v = sf_type (SField_info f) \<and>
     (case v of
        V_NotPresent \<Rightarrow> False
      | V_Hash128 x \<Rightarrow> length x = 16
      | V_Hash160 x \<Rightarrow> length x = 20
      | V_Amount a \<Rightarrow> ST_wire a
      | V_VL x \<Rightarrow> length x \<le> 918744
      | V_Account x dflt \<Rightarrow> if dflt then x = zero160 else length x = 20
      | V_PathSet ps \<Rightarrow> wire_paths ps
      | V_Vector256 xs \<Rightarrow> 32 * length xs \<le> 918744
      | V_Object obj \<Rightarrow> wire_object W1 f obj
      | V_Array xs \<Rightarrow>
          (\<forall>(g, obj) \<in> set xs. field_ok g \<and> sf_type (SField_info g) = STI_OBJECT \<and>
             (case W2 of None \<Rightarrow> False | Some W \<Rightarrow> wire_object W g obj))
      | _ \<Rightarrow> True)"

fun wire_value :: "nat \<Rightarrow> SField \<Rightarrow> STValue \<Rightarrow> bool" where
  "wire_value 0 = (\<lambda>f v. False)"
| "wire_value (Suc 0) = wire_construct (wire_value 0) None"
| "wire_value (Suc (Suc n)) = wire_construct (wire_value (Suc n)) (Some (wire_value n))"

lemma wire_fields_mono: "wire_fields W u \<Longrightarrow> (\<And>f v. W f v \<Longrightarrow> W' f v) \<Longrightarrow> wire_fields W' u"
  by (auto simp: wire_fields_def)

lemma wire_object_mono: "wire_object W f obj \<Longrightarrow> (\<And>f v. W f v \<Longrightarrow> W' f v) \<Longrightarrow> wire_object W' f obj"
  unfolding wire_object_def using wire_fields_mono[of W _ W'] by blast

text \<open>An object that is on the wire is written as the bytes of its fields in order.\<close>

lemma wire_object_bytes:
  assumes "wire_object (codes rd) f obj"
  obtains u where "wire_fields (codes rd) u" "applyTemplateFromSField f (STObject u None) = Inr obj"
    "appends (STObject_add True obj) (fields_bytes u)"
proof -
  let ?u = "getSortedFields True obj"
  have "appends (STObject_add True obj) (fields_bytes ?u)"
    using assms codesD(1) by (intro appends_object) (auto simp: wire_object_def wire_fields_def)
  then show thesis using that[of ?u] assms by (simp add: wire_object_def)
qed

definition array_element_bytes :: "SField \<times> STObject \<Rightarrow> Blob" where
  "array_element_bytes = (\<lambda>(g, obj). field_header g @ value_bytes (V_Object obj) @ object_marker)"

lemma object_value_bytes: "appends (STObject_add True obj) bs \<Longrightarrow> value_bytes (V_Object obj) = bs"
  by (intro value_bytes_appends) (simp add: appends_def STValue_add.simps)

lemma appends_array:
  assumes "\<forall>(g, obj) \<in> set xs. appends (STObject_add True obj) (value_bytes (V_Object obj))"
  shows "appends (STValue_add (V_Array xs)) (concat (map array_element_bytes xs))"
proof -
  have "appends ((\<lambda>(f, obj) s. bindE (STObject_add True obj (addFieldID_of f s)) (\<lambda>s.
      Inr (snd (Serializer_addFieldID STI_OBJECT 1 s)))) x) (array_element_bytes x)" if "x \<in> set xs" for x
  proof -
    obtain g obj where x: "x = (g, obj)" by fastforce
    have "appends (STObject_add True obj) (value_bytes (V_Object obj))" using assms that by (auto simp: x)
    from appends_pre[OF appends_header[of g] appends_bind_pure[OF this appends_marker[of STI_OBJECT]]]
    show ?thesis by (simp add: x array_element_bytes_def object_marker_def)
  qed
  from appends_forE[of xs, OF this] show ?thesis by (simp add: appends_def STValue_add.simps)
qed

lemma array_loop:
  assumes "\<forall>(g, obj) \<in> set xs. field_ok g \<and> sf_type (SField_info g) = STI_OBJECT \<and>
      (\<exists>rd. rdo = Some rd \<and> wire_object (codes rd) g obj)"
    and "iter_wf it" and "unread it = concat (map array_element_bytes xs) @ array_marker @ rest"
  shows "STArray_loop (\<lambda>_. STObject_read rdo) acc it =
    Some (Inr (acc @ xs, SerialIter_advance (length (concat (map array_element_bytes xs) @ array_marker)) it))"
  using assms
proof (induction xs arbitrary: acc it)
  case Nil
  have un: "unread it = encoding addFieldID (STI_ARRAY, 1) @ rest" using Nil.prems(3) by (simp add: array_marker_def)
  have "SerialIter_getFieldID it = Inr ((STI_ARRAY, 1), SerialIter_advance (length array_marker) it)"
    using readsD[OF reads_getFieldID[OF marker_valid(2)] Nil.prems(2) un] by (simp add: array_marker_def)
  then show ?case using not_empty_header[OF Nil.prems(2) un marker_valid(2)]
    by (simp add: STArray_loop.simps[of _ acc it])
next
  case (Cons x xs)
  let ?rd = "\<lambda>_. STObject_read rdo"
  obtain g obj where x: "x = (g, obj)" by fastforce
  obtain rd where g: "field_ok g" "sf_type (SField_info g) = STI_OBJECT" and w: "wire_object (codes rd) g obj"
    and rdo: "rdo = Some rd"
    using Cons.prems(1) by (auto simp: x)
  note ok = field_ok_id[OF g(1)]
  obtain u where u: "wire_fields (codes rd) u" "applyTemplateFromSField g (STObject u None) = Inr obj"
    and b: "value_bytes (V_Object obj) = fields_bytes u"
    using wire_object_bytes[OF w] object_value_bytes by metis
  let ?rest = "concat (map array_element_bytes xs) @ array_marker @ rest"
  let ?it1 = "SerialIter_advance (length (field_header g)) it"
  let ?it2 = "SerialIter_advance (length (fields_bytes u @ object_marker)) ?it1"
  have un: "unread it = field_header g @ (fields_bytes u @ object_marker) @ ?rest"
    using Cons.prems(3) by (simp add: x array_element_bytes_def b)
  note at1 = at_advance[OF Cons.prems(2) un]
  note at2 = at_advance[OF at1]
  have gf: "SerialIter_getFieldID it = Inr (field_id g, ?it1)"
    using readsD[OF reads_getFieldID[OF ok(1)] Cons.prems(2)] un by (simp add: field_header_def)
  have ne: "\<not> SerialIter_empty it"
    using not_empty_header[OF Cons.prems(2) _ ok(1)] un by (simp add: field_header_def)
  have r: "STObject_read rdo ?it1 = Inr (STObject u None, ?it2)"
    unfolding rdo by (rule readsD[OF reads_object[OF u(1)] at1])
  have nm: "\<not> (fst (field_id g) = STI_OBJECT \<and> snd (field_id g) = 1)" "\<not> (fst (field_id g) = STI_ARRAY \<and> snd (field_id g) = 1)"
    using ok(3,4) by auto
  have "STArray_loop ?rd acc it = STArray_loop ?rd (acc @ [x]) ?it2"
    using ok(2,5) ne nm g(2) unfolding x
    by (simp only: STArray_loop.simps[of _ acc it] gf if_False sum.case prod.case fst_conv snd_conv r u(2) simp_thms)
  also have "\<dots> = Some (Inr ((acc @ [x]) @ xs,
      SerialIter_advance (length (concat (map array_element_bytes xs) @ array_marker)) ?it2))"
    using Cons.prems(1) at2 by (intro Cons.IH) auto
  finally show ?case by (simp add: x array_element_bytes_def b add.assoc)
qed

lemma reads_map: "reads get bs x \<Longrightarrow> reads (\<lambda>it. bindE (get it) (\<lambda>(x, it). Inr (g x, it))) bs (g x)"
  using reads_bind[of get bs x "\<lambda>x it. Inr (g x, it)" "[]" "g x"] reads_return[of "g x"] by simp

lemma codesI:
  assumes "appends (STValue_add v) bs" and "reads (rd f) bs v" and "getSType v \<noteq> STI_ARRAY" and "getSType v \<noteq> STI_OBJECT"
  shows "codes rd f v"
  using assms unfolding codes_def
  by (intro exI[of _ bs] exI[of _ v]) (cases v; simp add: end_marker_def applyTemplate_value_def getSType_def)

text \<open>A value that is written by an \<open>add\<close> method and read by the matching \<open>get\<close> method.\<close>

context wire_codec
begin

lemma codes_value:
  assumes "valid x" and "\<forall>s. STValue_add (g x) s = bindE (add x s) (\<lambda>(_, s). Inr s)"
    and "rd f = (\<lambda>it. bindE (get it) (\<lambda>(y, it). Inr (h y, it)))" and "h x = g x"
    and "getSType (g x) \<noteq> STI_ARRAY" and "getSType (g x) \<noteq> STI_OBJECT"
  shows "codes rd f (g x)"
  using assms(5,6) assms(2) add_appends[OF assms(1)] reads_map[OF get_reads[OF assms(1)], of h]
  by (intro codesI[of _ "encoding add x"]) (simp_all add: assms(3,4) appends_def push_bytes_def)

end

lemma reads_account:
  assumes "if dflt then x = zero160 else length x = 20"
  shows "reads STAccount_read (encoding Serializer_addVL (if dflt then [] else x)) (x, dflt)"
proof -
  let ?v = "if dflt then [] else x"
  let ?k = "\<lambda>v (it :: SerialIter). if v = [] then Inr ((zero160, True), it)
       else if length v \<noteq> 20 then Inl (RuntimeError ''Invalid STAccount size'') else Inr ((v, False), it)"
  have "reads SerialIter_getVL (encoding Serializer_addVL ?v) ?v" using assms by (intro reads_getVL) auto
  moreover have "?k ?v = (\<lambda>it. Inr ((x, dflt), it))"
    using assms by (cases dflt) (auto simp: fun_eq_iff)
  then have "reads (?k ?v) [] (x, dflt)" using reads_return[of "(x, dflt)"] by (simp only:)
  ultimately show ?thesis
    using reads_bind[where ?g1.0 = SerialIter_getVL and ?g2.0 = ?k and cs = "[]" and y = "(x, dflt)"]
    unfolding STAccount_read_def[abs_def] append_Nil2 by blast
qed

lemma vector_bytes_split:
  fixes xs :: "uint256 list"
  defines "b \<equiv> concat (map uint256_bytes xs)"
  shows "length b = 32 * length xs"
    and "map (\<lambda>i. uint256_of_bytes (take 32 (drop (32 * i) b))) [0..<length b div 32] = xs"
proof -
  show len: "length b = 32 * length xs" by (simp add: b_def length_concat comp_def sum_list_triv)
  have "map (\<lambda>i. uint256_of_bytes (take 32 (drop (32 * i) b))) [0..<length b div 32] =
      map uint256_of_bytes (map (\<lambda>i. take 32 (drop (32 * i) b)) [0..<length xs])"
    using len by simp
  also have "\<dots> = xs" unfolding b_def by (subst split_chunks) (simp_all add: comp_def)
  finally show "map (\<lambda>i. uint256_of_bytes (take 32 (drop (32 * i) b))) [0..<length b div 32] = xs" .
qed

lemma reads_vector:
  assumes "32 * length xs \<le> 918744"
  shows "reads STVector256_read (encoding Serializer_addVL (concat (map uint256_bytes xs))) xs"
proof -
  have "length (concat (map uint256_bytes xs)) \<le> 918744" using assms by (simp only: vector_bytes_split)
  from reads_map[OF reads_getVL[OF this],
    of "\<lambda>data. map (\<lambda>i. uint256_of_bytes (take 32 (drop (32 * i) data))) [0..<length data div 32]"]
  show ?thesis by (simp only: STVector256_read_def[abs_def] vector_bytes_split(2))
qed

text \<open>One level of nesting.\<close>

lemma wire_construct_simple:
  assumes "wire_construct W1 W2 f v" and "getSType v \<noteq> STI_ARRAY" and "getSType v \<noteq> STI_OBJECT"
  shows "codes (STVar_construct rd1 rd2) f v"
proof -
  have ty: "sf_type (SField_info f) = getSType v" using assms(1) by (simp add: wire_construct_def)
  note defs = STVar_construct_def[abs_def] ty getSType_def STValue_add.simps STBlob_add_def STAccount_add_def
    STVector256_add_def STAccount_isDefault_def
  show ?thesis
  proof (cases v)
    case (V_UInt8 x)
    show ?thesis unfolding V_UInt8
      by (rule codec8.codes_value[where x = "x" and g = "V_UInt8" and h = "V_UInt8"])
        (simp_all add: case_prod_unfold defs V_UInt8)
  next
    case (V_UInt16 x)
    show ?thesis unfolding V_UInt16
      by (rule codec16.codes_value[where x = "x" and g = "V_UInt16" and h = "V_UInt16"])
        (simp_all add: case_prod_unfold defs V_UInt16)
  next
    case (V_UInt32 x)
    show ?thesis unfolding V_UInt32
      by (rule codec32.codes_value[where x = "x" and g = "V_UInt32" and h = "V_UInt32"])
        (simp_all add: case_prod_unfold defs V_UInt32)
  next
    case (V_UInt64 x)
    show ?thesis unfolding V_UInt64
      by (rule codec64.codes_value[where x = "x" and g = "V_UInt64" and h = "V_UInt64"])
        (simp_all add: case_prod_unfold defs V_UInt64)
  next
    case (V_Hash128 x)
    then have ok: "length x = 128 div 8" using assms(1) by (simp add: wire_construct_def)
    show ?thesis unfolding V_Hash128
      by (rule codec_bits.codes_value[where x = "x" and g = "V_Hash128" and h = "V_Hash128"])
        (insert ok, simp_all add: case_prod_unfold defs V_Hash128)
  next
    case (V_Hash160 x)
    then have ok: "length x = 160 div 8" using assms(1) by (simp add: wire_construct_def)
    show ?thesis unfolding V_Hash160
      by (rule codec_bits.codes_value[where x = "x" and g = "V_Hash160" and h = "V_Hash160"])
        (insert ok, simp_all add: case_prod_unfold defs V_Hash160)
  next
    case (V_Hash256 x)
    show ?thesis unfolding V_Hash256
      by (rule codec_bits.codes_value[where x = "uint256_bytes x" and g = "\<lambda>_. V_Hash256 x" and h = "\<lambda>b. V_Hash256 (uint256_of_bytes b)"])
        (simp_all add: case_prod_unfold defs V_Hash256)
  next
    case (V_Amount a)
    then have ok: "ST_wire a" using assms(1) by (simp add: wire_construct_def)
    show ?thesis unfolding V_Amount
      by (rule codec_amount.codes_value[where x = "a" and g = "V_Amount" and h = "V_Amount"])
        (insert ok, simp_all add: case_prod_unfold defs V_Amount)
  next
    case (V_VL x)
    then have ok: "length x \<le> 918744" using assms(1) by (simp add: wire_construct_def)
    show ?thesis unfolding V_VL
      by (rule codec_vl.codes_value[where x = "x" and g = "V_VL" and h = "V_VL"])
        (insert ok, simp_all add: case_prod_unfold defs V_VL)
  next
    case (V_Vector256 xs)
    then have w: "32 * length xs \<le> 918744" using assms(1) by (simp add: wire_construct_def)
    show ?thesis using reads_map[OF reads_vector[OF w], of V_Vector256]
        appends_addVL[of "concat (map uint256_bytes xs)"] w unfolding V_Vector256
      by (intro codesI[of _ "encoding Serializer_addVL (concat (map uint256_bytes xs))"])
        (simp_all add: defs V_Vector256 vector_bytes_split appends_def)
  next
    case (V_Account x dflt)
    then have "if dflt then x = zero160 else length x = 20" using assms(1) by (simp add: wire_construct_def)
    then show ?thesis using reads_map[OF reads_account[of dflt x], of "\<lambda>(x, d). V_Account x d"]
        appends_addVL[of "if dflt then [] else x"] unfolding V_Account
      by (intro codesI[of _ "encoding Serializer_addVL (if dflt then [] else x)"])
        (simp_all add: case_prod_unfold defs V_Account appends_def case_prod_unfold split: if_splits)
  next
    case (V_PathSet ps)
    then have w: "wire_paths ps" using assms(1) by (simp add: wire_construct_def)
    show ?thesis using reads_map[OF reads_paths[OF w], of V_PathSet] appends_paths[of ps] w unfolding V_PathSet
      by (intro codesI[of _ "paths_bytes ps"]) (simp_all add: case_prod_unfold defs V_PathSet wire_paths_def appends_def)
  qed (use assms in \<open>auto simp: wire_construct_def getSType_def\<close>)
qed

lemma wire_construct_object:
  assumes "wire_construct W1 W2 f (V_Object obj)" and "\<And>f v. W1 f v \<Longrightarrow> codes rd1 f v"
  shows "codes (STVar_construct rd1 rd2) f (V_Object obj)"
proof -
  have ty: "sf_type (SField_info f) = STI_OBJECT" and "wire_object W1 f obj"
    using assms(1) by (auto simp: wire_construct_def getSType_def)
  then have "wire_object (codes rd1) f obj"
    using wire_object_mono assms(2) by blast
  then obtain u where u: "wire_fields (codes rd1) u" "applyTemplateFromSField f (STObject u None) = Inr obj"
    "appends (STObject_add True obj) (fields_bytes u)"
    by (rule wire_object_bytes)
  have "STVar_construct rd1 rd2 f = (\<lambda>it. bindE (STObject_read (Some rd1) it) (\<lambda>(x, it). Inr (V_Object x, it)))"
    by (simp add: STVar_construct_def[abs_def] ty)
  then have "reads (STVar_construct rd1 rd2 f) (fields_bytes u @ object_marker) (V_Object (STObject u None))"
    using reads_map[OF reads_object[OF u(1)]] by simp
  moreover have "appends (STValue_add (V_Object obj)) (fields_bytes u)"
    using u(3) by (simp add: appends_def STValue_add.simps)
  ultimately show ?thesis unfolding codes_def
    using u(2) by (intro exI[of _ "fields_bytes u"] exI[of _ "V_Object (STObject u None)"])
      (simp add: end_marker_def object_marker_def getSType_def applyTemplate_value_def)
qed

lemma wire_construct_array:
  assumes "wire_construct W1 W2 f (V_Array xs)"
    and "\<And>W. W2 = Some W \<Longrightarrow> \<exists>rd. rd2 = Some rd \<and> (\<forall>f v. W f v \<longrightarrow> codes rd f v)"
  shows "codes (STVar_construct rd1 rd2) f (V_Array xs)"
proof -
  have ty: "sf_type (SField_info f) = STI_ARRAY" using assms(1) by (simp add: wire_construct_def getSType_def)
  have w: "\<forall>(g, obj) \<in> set xs. field_ok g \<and> sf_type (SField_info g) = STI_OBJECT \<and>
      (\<exists>rd. rd2 = Some rd \<and> wire_object (codes rd) g obj)"
  proof (intro ballI, clarify)
    fix g obj assume "(g, obj) \<in> set xs"
    with assms(1) obtain W where W: "field_ok g" "sf_type (SField_info g) = STI_OBJECT" "W2 = Some W" "wire_object W g obj"
      by (fastforce simp: wire_construct_def split: option.splits)
    from assms(2)[OF W(3)] obtain rd where "rd2 = Some rd" "\<forall>f v. W f v \<longrightarrow> codes rd f v" by blast
    with W wire_object_mono[OF W(4), of "codes rd"] show "field_ok g \<and> sf_type (SField_info g) = STI_OBJECT \<and>
      (\<exists>rd. rd2 = Some rd \<and> wire_object (codes rd) g obj)" by blast
  qed
  let ?b = "concat (map array_element_bytes xs)"
  have "\<forall>(g, obj) \<in> set xs. appends (STObject_add True obj) (value_bytes (V_Object obj))"
  proof (intro ballI, clarify)
    fix g obj assume "(g, obj) \<in> set xs"
    then obtain rd where "wire_object (codes rd) g obj" using w by auto
    then obtain u where "appends (STObject_add True obj) (fields_bytes u)" by (rule wire_object_bytes)
    then show "appends (STObject_add True obj) (value_bytes (V_Object obj))" by (simp add: object_value_bytes)
  qed
  then have "appends (STValue_add (V_Array xs)) ?b" by (rule appends_array)
  moreover have "reads (STVar_construct rd1 rd2 f) (?b @ array_marker) (V_Array xs)"
    unfolding reads_def
  proof (intro allI impI)
    fix it rest assume "iter_wf it" and "unread it = (?b @ array_marker) @ rest"
    then have "STArray_loop (\<lambda>_. STObject_read rd2) [] it = Some (Inr ([] @ xs, SerialIter_advance (length (?b @ array_marker)) it))"
      by (intro array_loop[OF w]) simp_all
    then show "STVar_construct rd1 rd2 f it = Inr (V_Array xs, SerialIter_advance (length (?b @ array_marker)) it)"
      by (simp add: STVar_construct_def ty returns_def)
  qed
  ultimately show ?thesis unfolding codes_def
    by (intro exI[of _ ?b] exI[of _ "V_Array xs"])
      (simp add: end_marker_def array_marker_def getSType_def applyTemplate_value_def)
qed

lemma wire_construct_codes:
  assumes "wire_construct W1 W2 f v" and "\<And>f v. W1 f v \<Longrightarrow> codes rd1 f v"
    and "\<And>W. W2 = Some W \<Longrightarrow> \<exists>rd. rd2 = Some rd \<and> (\<forall>f v. W f v \<longrightarrow> codes rd f v)"
  shows "codes (STVar_construct rd1 rd2) f v"
proof (cases v)
  case (V_Object obj)
  then show ?thesis using wire_construct_object assms(1,2) by blast
next
  case (V_Array xs)
  then show ?thesis using wire_construct_array assms(1,3) by blast
qed (rule wire_construct_simple[OF assms(1)]; simp add: getSType_def)+

lemma wire_value_codes: "wire_value n f v \<Longrightarrow> codes (STVar_levels n) f v"
proof (induction n arbitrary: f v rule: wire_value.induct)
  case (3 n)
  from 3(3) show ?case unfolding wire_value.simps STVar_levels.simps
    by (rule wire_construct_codes) (use 3(1,2) in auto)
next
  case 2
  from 2(2) show ?case unfolding wire_value.simps STVar_levels.simps
    by (rule wire_construct_codes) (use 2(1) in auto)
qed simp

section \<open>Whole objects\<close>

definition wire_top :: "STObject \<Rightarrow> bool" where
  "wire_top obj \<longleftrightarrow> wire_fields (wire_value 10) (getSortedFields True obj)"

lemma STVar_read_1: "STVar_read 1 = STVar_levels 10"
  by (simp add: STVar_read_def)

lemma wire_top_codes: "wire_top obj \<Longrightarrow> wire_fields (codes (STVar_read 1)) (getSortedFields True obj)"
  unfolding STVar_read_1 wire_top_def by (erule wire_fields_mono) (rule wire_value_codes)

lemma object_appends:
  assumes "wire_top obj"
  shows "appends (STObject_add True obj) (fields_bytes (getSortedFields True obj))"
  using wire_top_codes[OF assms] codesD(1) by (intro appends_object) (auto simp: wire_fields_def)

lemma object_read_back:
  assumes "wire_top obj" and "STObject_add True obj Serializer_empty = Inr s"
  shows "STObject_make (SerialIter_make (mData s)) = Inr ((STObject (getSortedFields True obj) None, False),
     SerialIter_advance (length (mData s)) (SerialIter_make (mData s)))"
proof -
  have b: "mData s = fields_bytes (getSortedFields True obj)"
    using object_appends[OF assms(1)] assms(2) by (auto simp: appends_def Serializer_empty_def)
  have "iter_wf (SerialIter_make (mData s))" "unread (SerialIter_make (mData s)) = fields_bytes (getSortedFields True obj)"
    by (simp_all add: b)
  from set_to_end[OF wire_top_codes[OF assms(1)] this] show ?thesis by (simp add: STObject_make_def b)
qed

section \<open>Termination\<close>

text \<open>A reader that returns on every stream, and moves its cursor forward when it succeeds.\<close>

definition ends :: "'a res \<Rightarrow> bool" where
  "ends m \<longleftrightarrow> m \<noteq> Inl NonTermination"

lemma ends_bind: "ends m \<Longrightarrow> (\<And>x. ends (k x)) \<Longrightarrow> ends (bindE m k)"
  by (cases m) (auto simp: ends_def)

lemma ends_Inr [simp]: "ends (Inr x)" by (simp add: ends_def)
lemma ends_Inl [simp]: "ends (Inl e) \<longleftrightarrow> e \<noteq> NonTermination" by (simp add: ends_def)
lemma ends_if: "ends m \<Longrightarrow> ends m' \<Longrightarrow> ends (if b then m else m')" by simp
lemma ends_prod: "(\<And>x y. ends (f x y)) \<Longrightarrow> ends (case p of (x, y) \<Rightarrow> f x y)" by (cases p) simp

lemmas ends_intros = ends_bind ends_if ends_prod

definition total_reader :: "(SerialIter \<Rightarrow> ('a \<times> SerialIter) res) \<Rightarrow> bool" where
  "total_reader get \<longleftrightarrow> (\<forall>it. iter_wf it \<longrightarrow> ends (get it)) \<and> moves_forward get"

lemma total_bind:
  assumes "total_reader g1" and "\<And>x. total_reader (g2 x)"
  shows "total_reader (\<lambda>it. bindE (g1 it) (\<lambda>(x, it). g2 x it))"
proof -
  have "ends (bindE (g1 it) (\<lambda>(x, it). g2 x it))" if wf: "iter_wf it" for it
  proof (cases "g1 it")
    case (Inr r)
    obtain x it' where r: "r = (x, it')" by fastforce
    have "moves_forward g1" using assms(1) by (simp add: total_reader_def)
    then obtain n where "n \<le> sit_remain it" "it' = SerialIter_advance n it"
      using moves_forwardE[OF _ wf, of g1 x it'] Inr r by blast
    then have "iter_wf it'" using wf by (simp add: iter_wf_advance)
    then show ?thesis using assms(2)[of x] Inr r by (simp add: total_reader_def)
  next
    case (Inl e)
    then show ?thesis using assms(1) wf by (auto simp: total_reader_def ends_def)
  qed
  then show ?thesis using assms moves_forward_bind[of g1 g2] by (auto simp: total_reader_def)
qed

lemma total_return: "total_reader (\<lambda>it. Inr (x, it))"
  by (auto simp: total_reader_def intro!: moves_forwardI exI[of _ 0])

lemma total_throw: "e \<noteq> NonTermination \<Longrightarrow> total_reader (\<lambda>it. Inl e)"
  by (auto simp: total_reader_def intro!: moves_forwardI)

lemma total_pure: "ends m \<Longrightarrow> (\<And>x. total_reader (k x)) \<Longrightarrow> total_reader (\<lambda>it. bindE m (\<lambda>x. k x it))"
  by (cases m) (auto intro!: total_throw)

lemma total_if: "total_reader g1 \<Longrightarrow> total_reader g2 \<Longrightarrow> total_reader (\<lambda>it. if b then g1 it else g2 it)"
  by (cases b) auto

lemmas total_intros = total_bind total_return total_throw total_pure total_if

lemma total_primitives:
  "total_reader SerialIter_get8" "total_reader SerialIter_get16" "total_reader SerialIter_get32"
  "total_reader SerialIter_get64" "total_reader (SerialIter_getBitString bits)"
  by (simp_all add: total_reader_def moves_get8 moves_get16 moves_get32 moves_get64 moves_getBitString
      SerialIter_get8_def SerialIter_get16_def SerialIter_get32_def SerialIter_get64_def SerialIter_getBitString_def Let_def)

lemma ends_get8: "ends (SerialIter_get8 it)" by (simp add: SerialIter_get8_def)

lemma total_getVL: "total_reader SerialIter_getVL"
proof -
  have "ends (SerialIter_getVL it)" for it
    unfolding SerialIter_getVL_def SerialIter_getVLDataLength_def decodeLengthLength_def
      decodeVLLength1_def decodeVLLength2_def decodeVLLength3_def SerialIter_getRaw_def
    by (intro ends_intros ends_get8) simp_all
  then show ?thesis by (simp add: total_reader_def moves_getVL)
qed

lemma total_getFieldID: "total_reader SerialIter_getFieldID"
proof -
  have "ends (SerialIter_getFieldID it)" for it
    unfolding SerialIter_getFieldID_def getFieldID_uncommon_def Let_def
    by (intro ends_intros ends_get8) simp_all
  then show ?thesis using codec_field.get_moves by (simp add: total_reader_def)
qed

lemma ends_scaleDown: "ends (ST_scaleDown v off)"
  by (induction v off rule: ST_scaleDown.induct) (subst ST_scaleDown.simps, simp)

lemma ends_canonicalize: "ends (ST_canonicalize a)"
  unfolding ST_canonicalize_def Let_def by (intro ends_intros ends_scaleDown) simp_all

lemma total_amount: "total_reader ST_deserialize"
proof -
  have "ends (ST_decode_issued i v)" for i v
    unfolding ST_decode_issued_def Let_def by (intro ends_intros ends_canonicalize) simp_all
  then show ?thesis unfolding ST_deserialize_def[abs_def] ST_deserialize_issued_def
    by (intro total_intros total_primitives) simp_all
qed

lemma getFieldID_consumes:
  assumes "iter_wf it" and "SerialIter_getFieldID it = Inr (p, it')"
  obtains n where "0 < n" and "n \<le> sit_remain it" and "it' = SerialIter_advance n it"
proof -
  obtain bs where "unread it = bs @ unread it'" "it' = SerialIter_advance (length bs) it"
    "field_id_valid p \<and> bs = encoding addFieldID p"
    using reads_onlyE[OF reads_only_getFieldID assms] by blast
  then show thesis using that[of "length bs"] header_nonempty[of p] length_unread[OF assms(1)] by simp
qed

text \<open>A loop that returns from a position of the cursor, and then has moved it forward.\<close>

definition halts_from :: "SerialIter \<Rightarrow> ('a \<times> SerialIter) res option \<Rightarrow> bool" where
  "halts_from it m \<longleftrightarrow> (case m of
     None \<Rightarrow> False
   | Some (Inl e) \<Rightarrow> e \<noteq> NonTermination
   | Some (Inr (x, it')) \<Rightarrow> \<exists>n \<le> sit_remain it. it' = SerialIter_advance n it)"

lemma halts_here [simp]:
  "halts_from it (Some (Inl e)) \<longleftrightarrow> e \<noteq> NonTermination" "halts_from it (Some (Inr (x, it)))"
  by (auto simp: halts_from_def intro!: exI[of _ 0])

lemma halts_later:
  assumes "n \<le> sit_remain it" and "halts_from (SerialIter_advance n it) m"
  shows "halts_from it m"
proof -
  have "\<exists>k \<le> sit_remain it. SerialIter_advance j (SerialIter_advance n it) = SerialIter_advance k it"
    if "j \<le> sit_remain (SerialIter_advance n it)" for j
    using that assms(1) by (intro exI[of _ "n + j"]) (simp add: SerialIter_advance_def)
  then show ?thesis using assms by (fastforce simp: halts_from_def split: option.splits sum.splits)
qed

lemma total_halts:
  assumes "\<And>it. iter_wf it \<Longrightarrow> halts_from it (loop it)"
  shows "total_reader (\<lambda>it. bindE (returns (loop it)) (\<lambda>r. r))"
proof -
  have "ends (bindE (returns (loop it)) (\<lambda>r. r))" if "iter_wf it" for it
    using assms[OF that] by (auto simp: halts_from_def split: option.splits sum.splits)
  moreover have "moves_forward (\<lambda>it. bindE (returns (loop it)) (\<lambda>r. r))"
  proof (rule moves_forwardI)
    fix it x it' assume "iter_wf it" and "bindE (returns (loop it)) (\<lambda>r. r) = Inr (x, it')"
    then show "\<exists>n \<le> sit_remain it. it' = SerialIter_advance n it"
      using assms[of it] by (cases "loop it") (auto simp: halts_from_def)
  qed
  ultimately show ?thesis by (simp add: total_reader_def)
qed

lemma halts_at: "n \<le> sit_remain it \<Longrightarrow> halts_from it (Some (Inr (x, SerialIter_advance n it)))"
  by (auto simp: halts_from_def)

text \<open>One call of a reader.\<close>

lemma total_cases:
  assumes "total_reader get" and "iter_wf it"
  obtains (error) e where "get it = Inl e" and "e \<noteq> NonTermination"
    | (result) x n where "get it = Inr (x, SerialIter_advance n it)" and "n \<le> sit_remain it" and "iter_wf (SerialIter_advance n it)"
proof (cases "get it")
  case (Inl e)
  then show thesis using error assms by (auto simp: total_reader_def ends_def)
next
  case (Inr r)
  obtain x it' where r: "r = (x, it')" by fastforce
  have "moves_forward get" using assms(1) by (simp add: total_reader_def)
  then obtain n where "n \<le> sit_remain it" "it' = SerialIter_advance n it"
    using moves_forwardE[OF _ assms(2), of get x it'] Inr r by blast
  then show thesis using result Inr r assms(2) by (simp add: iter_wf_advance)
qed

lemma ends_applyTemplate: "ends (applyTemplate t obj)"
proof -
  have "ends (applyTemplate_loop t u acc)" for u acc
    by (induction t u acc rule: applyTemplate_loop.induct) (auto split: option.splits)
  then show ?thesis unfolding applyTemplate_def by (intro ends_intros) simp_all
qed

lemma ends_applyTemplateFromSField: "ends (applyTemplateFromSField f obj)"
  by (auto simp: applyTemplateFromSField_def ends_applyTemplate split: option.split)

lemma ends_applyTemplate_value: "ends (applyTemplate_value f v)"
  by (cases v) (auto simp: applyTemplate_value_def intro!: ends_bind ends_applyTemplateFromSField)

lemma remain_advance [simp]: "sit_remain (SerialIter_advance n it) = sit_remain it - n"
  by (simp add: SerialIter_advance_def)

lemma advance_inj: "SerialIter_advance n it = SerialIter_advance m it \<longleftrightarrow> n = m"
proof
  assume "SerialIter_advance n it = SerialIter_advance m it"
  from arg_cong[OF this, of sit_p] show "n = m" by (simp add: SerialIter_advance_def)
qed simp

lemma getFieldID_positive:
  assumes "iter_wf it" and "SerialIter_getFieldID it = Inr (p, SerialIter_advance n it)"
  shows "0 < n"
proof -
  obtain m where "0 < m" "m \<le> sit_remain it" "SerialIter_advance n it = SerialIter_advance m it"
    using getFieldID_consumes[OF assms(1,2)] by blast
  then show ?thesis by (simp add: advance_inj)
qed

lemma object_loop_halts:
  assumes "\<And>f. total_reader (rd f)" and "iter_wf it"
  shows "halts_from it (STObject_loop rd v it)"
  using assms(2)
proof (induction "sit_remain it" arbitrary: it v rule: less_induct)
  case less
  note unf = STObject_loop.simps[of rd v it] case_prod_unfold
  show ?case
  proof (rule total_cases[OF total_getFieldID less.prems])
    fix p n assume g: "SerialIter_getFieldID it = Inr (p, SerialIter_advance n it)"
      and n: "n \<le> sit_remain it" "iter_wf (SerialIter_advance n it)"
    let ?it1 = "SerialIter_advance n it"
    let ?f = "getField (field_code (fst p) (snd p))"
    show ?thesis
    proof (rule total_cases[OF assms(1)[of ?f] n(2)])
      fix x m assume r: "rd ?f ?it1 = Inr (x, SerialIter_advance m ?it1)"
        and m: "m \<le> sit_remain ?it1" "iter_wf (SerialIter_advance m ?it1)"
      have "halts_from (SerialIter_advance m ?it1) (STObject_loop rd (v @ [(?f, y)]) (SerialIter_advance m ?it1))" for y
        using less.hyps[OF _ m(2)] getFieldID_positive[OF less.prems g] n(1) by simp
      then have "halts_from it (STObject_loop rd (v @ [(?f, y)]) (SerialIter_advance m ?it1))" for y
        using halts_later[OF n(1)] halts_later[OF m(1)] by blast
      then show ?thesis using g r ends_applyTemplate_value[of ?f x]
        by (cases "applyTemplate_value ?f x") (simp_all add: unf halts_at[OF n(1)])
    qed (use g in \<open>simp add: unf halts_at[OF n(1)]\<close>)
  qed (simp add: unf)
qed

lemma array_loop_halts:
  assumes "\<And>f. total_reader (rd f)" and "iter_wf it"
  shows "halts_from it (STArray_loop rd v it)"
  using assms(2)
proof (induction "sit_remain it" arbitrary: it v rule: less_induct)
  case less
  note unf = STArray_loop.simps[of rd v it] case_prod_unfold
  show ?case
  proof (rule total_cases[OF total_getFieldID less.prems])
    fix p n assume g: "SerialIter_getFieldID it = Inr (p, SerialIter_advance n it)"
      and n: "n \<le> sit_remain it" "iter_wf (SerialIter_advance n it)"
    let ?it1 = "SerialIter_advance n it"
    let ?f = "getField (field_code (fst p) (snd p))"
    show ?thesis
    proof (rule total_cases[OF assms(1)[of ?f] n(2)])
      fix x m assume r: "rd ?f ?it1 = Inr (x, SerialIter_advance m ?it1)"
        and m: "m \<le> sit_remain ?it1" "iter_wf (SerialIter_advance m ?it1)"
      have "halts_from (SerialIter_advance m ?it1) (STArray_loop rd (v @ [(?f, y)]) (SerialIter_advance m ?it1))" for y
        using less.hyps[OF _ m(2)] getFieldID_positive[OF less.prems g] n(1) by simp
      then have "halts_from it (STArray_loop rd (v @ [(?f, y)]) (SerialIter_advance m ?it1))" for y
        using halts_later[OF n(1)] halts_later[OF m(1)] by blast
      then show ?thesis using g r ends_applyTemplateFromSField[of ?f x]
        by (cases "applyTemplateFromSField ?f x") (simp_all add: unf halts_at[OF n(1)])
    qed (use g in \<open>simp add: unf halts_at[OF n(1)]\<close>)
  qed (simp add: unf)
qed

lemma total_element: "total_reader (STPathElement_read b)"
  unfolding STPathElement_read_def[abs_def] get160_if_def
  by (intro total_intros total_primitives)

lemma path_loop_halts:
  assumes "iter_wf it"
  shows "halts_from it (STPathSet_loop ps path it)"
  using assms
proof (induction "sit_remain it" arbitrary: it ps path rule: less_induct)
  case less
  note unf = STPathSet_loop.simps[of ps path it] case_prod_unfold
  show ?case
  proof (rule total_cases[OF total_primitives(1) less.prems])
    fix b n assume g: "SerialIter_get8 it = Inr (b, SerialIter_advance n it)"
      and n: "n \<le> sit_remain it" "iter_wf (SerialIter_advance n it)"
    let ?it1 = "SerialIter_advance n it"
    have 1: "0 < n" using g by (auto simp: SerialIter_get8_def advance_inj split: if_splits)
    have "halts_from it (STPathSet_loop (ps @ [path]) [] ?it1)"
      using halts_later[OF n(1) less.hyps[OF _ n(2)]] 1 n(1) by simp
    note here = this
    show ?thesis
    proof (rule total_cases[OF total_element[of b] n(2)])
      fix x m assume r: "STPathElement_read b ?it1 = Inr (x, SerialIter_advance m ?it1)"
        and m: "m \<le> sit_remain ?it1" "iter_wf (SerialIter_advance m ?it1)"
      have "halts_from (SerialIter_advance m ?it1) (STPathSet_loop ps (path @ [x]) (SerialIter_advance m ?it1))"
        using less.hyps[OF _ m(2)] 1 n(1) by simp
      then have "halts_from it (STPathSet_loop ps (path @ [x]) (SerialIter_advance m ?it1))"
        using halts_later[OF n(1)] halts_later[OF m(1)] by blast
      then show ?thesis unfolding unf using g r here by (cases "path = []") (simp_all add: halts_at[OF n(1)])
    qed (use g here in \<open>simp add: unf halts_at[OF n(1)]\<close>)
  qed (simp add: unf)
qed

lemma total_loop:
  assumes "\<And>it. iter_wf it \<Longrightarrow> halts_from it (loop it)" and "\<And>x. total_reader (k x)"
  shows "total_reader (\<lambda>it. bindE (returns (loop it)) (\<lambda>r. bindE r (\<lambda>(x, it). k x it)))"
proof -
  have "bindE (returns (loop it)) (\<lambda>r. bindE r (\<lambda>(x, it). k x it)) =
     bindE (bindE (returns (loop it)) (\<lambda>r. r)) (\<lambda>(x, it). k x it)" for it
    by (cases "loop it") auto
  then show ?thesis using total_bind[OF total_halts[OF assms(1)] assms(2)] by simp
qed

lemma total_object_set:
  assumes "\<And>f. total_reader (rd f)"
  shows "total_reader (STObject_set rd)"
proof -
  have "total_reader (\<lambda>it. bindE (returns (STObject_loop rd [] it)) (\<lambda>r. bindE r (\<lambda>(p, it).
      if adjacent_eq (getSortedFields True (STObject (fst p) None)) then Inl (RuntimeError ''Duplicate field detected'')
      else Inr ((STObject (fst p) None, snd p), it))))"
    by (intro total_loop total_intros object_loop_halts assms) simp_all
  then show ?thesis by (simp add: STObject_set_def[abs_def] case_prod_unfold)
qed

lemma total_object_read:
  assumes "\<And>rd' f. rd = Some rd' \<Longrightarrow> total_reader (rd' f)"
  shows "total_reader (STObject_read rd)"
proof (cases rd)
  case (Some rd')
  have "total_reader (\<lambda>it. bindE (STObject_set rd' it) (\<lambda>(p, it). Inr (fst p, it)))"
    by (intro total_intros total_object_set assms[OF Some])
  then show ?thesis by (simp add: Some STObject_read_def[abs_def] case_prod_unfold)
qed (simp add: STObject_read_def[abs_def] total_throw)

lemma total_path_set: "total_reader STPathSet_read"
  unfolding STPathSet_read_def[abs_def] using path_loop_halts by (rule total_halts)

lemma total_vector: "total_reader STVector256_read"
  unfolding STVector256_read_def[abs_def] by (intro total_intros total_getVL)

lemma total_account: "total_reader STAccount_read"
  unfolding STAccount_read_def[abs_def] by (intro total_intros total_getVL) simp_all

lemma total_construct:
  assumes "\<And>f. total_reader (rd1 f)" and "\<And>rd f. rd2 = Some rd \<Longrightarrow> total_reader (rd f)"
  shows "total_reader (STVar_construct rd1 rd2 f)"
proof -
  have "total_reader (\<lambda>it. bindE (returns (STArray_loop (\<lambda>_. STObject_read rd2) [] it)) (\<lambda>r.
        bindE r (\<lambda>(x, it). Inr (V_Array x, it))))"
    by (intro total_loop array_loop_halts total_object_read total_return assms(2))
  then show ?thesis unfolding STVar_construct_def[abs_def] Let_def
    by (intro total_if total_return total_throw total_bind total_primitives total_getVL total_amount total_path_set
        total_vector total_object_read) (auto simp: assms total_account total_return)
qed

lemma total_levels: "total_reader (STVar_levels n f)"
proof (induction n arbitrary: f rule: STVar_levels.induct)
  case (2 f)
  then show ?case unfolding STVar_levels.simps by (intro total_construct) auto
next
  case (3 n f)
  then show ?case unfolding STVar_levels.simps by (intro total_construct) auto
qed (simp add: total_throw)

lemma total_object: "total_reader STObject_make"
  unfolding STObject_make_def[abs_def] STVar_read_def using total_object_set[OF total_levels] by simp

lemma STObject_add_inj:
  assumes "wire_top obj" and "wire_top obj'"
    and "STObject_add True obj Serializer_empty = STObject_add True obj' Serializer_empty"
  shows "getSortedFields True obj = getSortedFields True obj'"
proof -
  obtain s where "STObject_add True obj Serializer_empty = Inr s" 
    using object_appends[OF assms(1)] by (auto simp: appends_def)
  with assms object_read_back[of obj s] object_read_back[of obj' s] show ?thesis by simp
qed

section \<open>An example\<close>

text \<open>A signer list: an array of inner objects that have a template.\<close>

definition signer_template :: SOTemplate where
  "signer_template = [(sfAccount, soeREQUIRED), (sfSignerWeight, soeREQUIRED)]"

definition example_signer :: STObject where
  "example_signer = STObject [(sfAccount, V_Account (replicate 20 7) False), (sfSignerWeight, V_UInt16 3)] (Some signer_template)"

definition example_object :: STObject where
  "example_object = STObject
     [(sfSignerEntries, V_Array [(sfSignerEntry, example_signer)]), (sfDomain, V_VL [1, 2, 3]), (sfFlags, V_UInt32 9),
      (sfBalance, V_Amount (ST_native 100 False)), (sfSequence, V_NotPresent)] None"

abbreviation example_fields :: "SField set" where
  "example_fields \<equiv> {sfFlags, sfDomain, sfBalance, sfSignerEntries, sfSignerEntry, sfAccount, sfSignerWeight}"

lemma example_known: "\<forall>f \<in> example_fields. field_ok f \<and> sf_type (SField_info f) = f div 65536 \<and> shouldInclude f True"
proof
  fix f assume f: "f \<in> example_fields"
  have "example_fields \<subseteq> fst ` set knownCodeToField" using known_keys by simp
  then have "f \<in> fst ` set knownCodeToField" using f by (rule subsetD)
  moreover have "0 < f" "f mod 65536 < 256" using f by auto
  ultimately show "field_ok f \<and> sf_type (SField_info f) = f div 65536 \<and> shouldInclude f True"
    by (intro conjI field_ok_known known_code)
qed

lemmas example_info = example_known[simplified]

lemma wire_value_step: "2 \<le> n \<Longrightarrow> wire_value n = wire_construct (wire_value (n - 1)) (Some (wire_value (n - 2)))"
  by (cases n rule: wire_value.cases) auto

lemma example_sorted:
  "getSortedFields True example_object =
     [(sfFlags, V_UInt32 9), (sfBalance, V_Amount (ST_native 100 False)), (sfDomain, V_VL [1, 2, 3]),
      (sfSignerEntries, V_Array [(sfSignerEntry, example_signer)])]"
  using example_info by (simp add: getSortedFields_def example_object_def getSType_def)

lemma example_signer_sorted:
  "getSortedFields True example_signer = [(sfSignerWeight, V_UInt16 3), (sfAccount, V_Account (replicate 20 7) False)]"
  using example_info by (simp add: getSortedFields_def example_signer_def getSType_def)

lemma example_template:
  "applyTemplateFromSField sfSignerEntry (STObject [(sfSignerWeight, V_UInt16 3), (sfAccount, V_Account (replicate 20 7) False)] None) =
   Inr example_signer"
  by (simp add: applyTemplateFromSField_def findByType_def InnerObjectFormats_def applyTemplate_def signer_template_def example_signer_def)

lemma example_wire: "wire_top example_object"
proof -
  have a: "ST_wire (ST_native 100 False)"
    by (simp add: ST_wire_parts ST_canonical_def ST_native_def ST_unchecked_def sfcIssue_def isSFC_def)
  have "wire_fields (wire_value 8) [(sfSignerWeight, V_UInt16 3), (sfAccount, V_Account (replicate 20 7) False)]"
    using example_info by (simp add: wire_fields_def wire_value_step[of 8] wire_construct_def getSType_def)
  then have "wire_object (wire_value 8) sfSignerEntry example_signer"
    by (simp add: wire_object_def example_signer_sorted example_template)
  with a example_info show ?thesis
    unfolding wire_top_def example_sorted wire_fields_def
    by (simp add: wire_value_step[of 10] wire_construct_def getSType_def)
qed

section \<open>Properties\<close>

text \<open>
  C13: Serializing an object whose fields can be written and constructing an object from the bytes gives
  the same fields back, in the order of their codes, inner objects with the template of their field,
  and consumes all the bytes.  The object may have a template, absent fields and its fields in any
  order.
\<close>

theorem STObject_roundtrip:
  assumes "wire_top obj"
  shows "\<exists>s. STObject_add True obj Serializer_empty = Inr s \<and>
     STObject_make (SerialIter_make (mData s)) = Inr ((STObject (getSortedFields True obj) None, False),
       SerialIter_advance (length (mData s)) (SerialIter_make (mData s)))"
  using object_read_back[OF assms] object_appends[OF assms] by (auto simp: appends_def)

theorem STObject_roundtrip_witness:
  "wire_top example_object \<and>
   (\<exists>s. STObject_add True example_object Serializer_empty = Inr s \<and>
      STObject_make (SerialIter_make (mData s)) = Inr ((STObject
       [(sfFlags, V_UInt32 9), (sfBalance, V_Amount (ST_native 100 False)), (sfDomain, V_VL [1, 2, 3]),
        (sfSignerEntries, V_Array [(sfSignerEntry, example_signer)])] None, False),
       SerialIter_advance (length (mData s)) (SerialIter_make (mData s))))"
  using STObject_roundtrip[OF example_wire] example_wire by (simp add: example_sorted)

text \<open>
  C16: Constructing an object from bytes always returns: the loops over fields, array elements, paths and
  path elements end on every stream, well-formed or not, at every level of nesting.  When it
  succeeds, the cursor has moved forward within the stream.
\<close>

theorem STObject_make_returns:
  assumes "iter_wf it"
  shows "STObject_make it \<noteq> Inl NonTermination \<and>
    (\<forall>r it'. STObject_make it = Inr (r, it') \<longrightarrow> (\<exists>n \<le> sit_remain it. it' = SerialIter_advance n it))"
  using total_object assms by (simp add: total_reader_def moves_forward_def ends_def)

theorem STObject_make_returns_witness:
  "iter_wf (SerialIter_make [0x22, 0, 0]) \<and> STObject_make (SerialIter_make [0x22, 0, 0]) \<noteq> Inl NonTermination"
  using STObject_make_returns[of "SerialIter_make [0x22, 0, 0]"] by simp

text \<open>
  C38: The reader of path sets accepts a path element whose account is announced and all zero.  The element
  it makes of it has no part, so serializing the path set writes the end marker in its place, and the
  reader refuses these bytes.
\<close>

theorem STPathSet_zero_account:
  "\<exists>el it. STPathSet_read (SerialIter_make (1 # zero160 @ [0])) = Inr ([[el]], it) \<and>
     STPathSet_read (SerialIter_make (mData (STPathSet_add [[el]] Serializer_empty))) = Inl (RuntimeError ''empty path'')"
proof -
  let ?it = "SerialIter_make (1 # zero160 @ [0])"
  have 1: "SerialIter_get8 ?it = Inr (1, SerialIter_advance 1 ?it)"
    by (simp add: SerialIter_get8_def SerialIter_make_def)
  let ?el = "STPathElement_make zero160 zero160 zero160 False"
  have 2: "STPathElement_read 1 (SerialIter_advance 1 ?it) = Inr (?el, SerialIter_advance 21 ?it)"
    by (simp add: STPathElement_read_def get160_if_def typeAccount_def typeCurrency_def typeIssuer_def
        SerialIter_getBitString_def SerialIter_make_def SerialIter_advance_def zero160_def)
  have 3: "SerialIter_get8 (SerialIter_advance 21 ?it) = Inr (0, SerialIter_advance 22 ?it)"
    by (simp add: SerialIter_get8_def SerialIter_make_def SerialIter_advance_def zero160_def nth_append)
  have r: "STPathSet_read ?it = Inr ([[?el]], SerialIter_advance 22 ?it)"
    by (simp add: STPathSet_read_def STPathSet_loop.simps[of "[]" "[]" ?it] 1[simplified] 2[simplified] 3[simplified] typeNone_def typeBoundary_def typeAll_def
        typeAccount_def typeCurrency_def typeIssuer_def STPathSet_loop.simps[of "[]" "[?el]" "SerialIter_advance 21 ?it"])
  have w: "mData (STPathSet_add [[?el]] Serializer_empty) = [0, 0]"
    by (simp add: STPathSet_add_def STPathElement_add_def STPathElement_make_def isSFC_def Serializer_add8_def push_bytes_def
        Serializer_empty_def typeNone_def)
  have "SerialIter_get8 (SerialIter_make [0, 0]) = Inr (0, SerialIter_advance 1 (SerialIter_make [0, 0]))"
    by (simp add: SerialIter_get8_def SerialIter_make_def)
  then have "STPathSet_read (SerialIter_make [0, 0]) = Inl (RuntimeError ''empty path'')"
    by (simp add: STPathSet_read_def STPathSet_loop.simps[of "[]" "[]" "SerialIter_make [0, 0]"] typeNone_def)
  with r w show ?thesis by auto
qed

end
