(* ===== verification/Entries.thy ===== *)
theory Entries
  imports ObjectWire
begin

text \<open>
  Ledger entries (\<^verbatim>\<open>protocol/impl/STLedgerEntry.cpp\<close>, \<^verbatim>\<open>protocol/Keylet.h\<close>): construction from a keylet and
  from bytes, and threading.  \<open>SLE_valid\<close> is the invariant of an entry: the shape that its format
  prescribes, with values that can be serialized.  The lemmas show that constructing an entry
  establishes it, that assignments through proxies keep it, and that a valid entry is read back from
  its serialization.
\<close>

section \<open>Ledger entries\<close>

record SLE =
  sle_key :: uint256
  sle_type :: int
  sle_obj :: STObject

record Keylet =
  kl_type :: int
  kl_key :: uint256

definition SLE_make :: "Keylet \<Rightarrow> SLE res" where
  "SLE_make k =
     (if \<not> (0 \<le> kl_type k \<and> kl_type k \<le> 65535)
        then Inl (RuntimeError ''invalid ledger entry type: out of range'')
      else (case findByType LedgerFormats (kl_type k) of
              None \<Rightarrow> Inl (RuntimeError ''invalid ledger entry type'')
            | Some t \<Rightarrow>
                bindE (STObject_set_template t) (\<lambda>obj.
                bindE (setFieldU16 sfLedgerEntryType (word_of_int (kl_type k)) obj) (\<lambda>obj.
                  Inr \<lparr>sle_key = kl_key k, sle_type = kl_type k, sle_obj = obj\<rparr>))))"

definition setSLEType :: "uint256 \<Rightarrow> STObject \<Rightarrow> SLE res" where
  "setSLEType index obj =
     bindE (getFieldU16 obj sfLedgerEntryType) (\<lambda>ty.
       case findByType LedgerFormats (uint ty) of
         None \<Rightarrow> Inl (RuntimeError ''invalid ledger entry type'')
       | Some t \<Rightarrow>
           bindE (applyTemplate t obj) (\<lambda>obj.
             Inr \<lparr>sle_key = index, sle_type = uint ty, sle_obj = obj\<rparr>))"

definition SLE_read :: "SerialIter \<Rightarrow> uint256 \<Rightarrow> SLE res" where
  "SLE_read sit index = bindE (STObject_make sit) (\<lambda>((obj, _), _). setSLEType index obj)"

definition isThreadedType :: "SLE \<Rightarrow> bool" where
  "isThreadedType sle = (getFieldIndex (sle_obj sle) sfPreviousTxnID \<noteq> None)"

definition SLE_thread :: "uint256 \<Rightarrow> u32 \<Rightarrow> SLE \<Rightarrow> ((uint256 \<times> u32) option \<times> SLE) res" where
  "SLE_thread txID ledgerSeq sle =
     bindE (getFieldH256 (sle_obj sle) sfPreviousTxnID) (\<lambda>oldPrevTxID.
       if oldPrevTxID = txID then Inr (None, sle)
       else
         bindE (getFieldU32 (sle_obj sle) sfPreviousTxnLgrSeq) (\<lambda>prevLedgerID.
         bindE (setFieldH256 sfPreviousTxnID txID (sle_obj sle)) (\<lambda>obj.
         bindE (setFieldU32 sfPreviousTxnLgrSeq ledgerSeq obj) (\<lambda>obj.
           Inr (Some (oldPrevTxID, prevLedgerID), sle\<lparr>sle_obj := obj\<rparr>)))))"

lemma applyTemplate_loop_ok:
  assumes "distinct (map fst t)" and "distinct (map fst u)"
    and "\<forall>(f, style) \<in> set t. element_ok style (value_of u f)" and "\<forall>(f, v) \<in> set u. v \<noteq> V_NotPresent"
  shows "applyTemplate_loop t u acc =
     Inr (filter (\<lambda>(f, _). f \<notin> fst ` set t) u, acc @ map (\<lambda>(f, _). (f, value_of u f)) t)"
  using assms
proof (induction t u acc rule: applyTemplate_loop.induct)
  case (2 f style t u acc)
  have ft: "f \<notin> fst ` set t" using 2(3) by simp
  show ?case
  proof (cases "index_of f u")
    case None
    then have n: "value_of u f = V_NotPresent" "f \<notin> fst ` set u"
      by (auto simp: index_of_None value_of_def map_of_eq_None_iff[THEN iffD2])
    have "style \<noteq> soeREQUIRED" using 2(5) n by (auto simp: element_ok_def)
    moreover have "filter (\<lambda>(g, _). g \<noteq> f \<and> g \<notin> fst ` set t) u = filter (\<lambda>(g, _). g \<notin> fst ` set t) u"
      using n(2) by (intro filter_cong) force+
    ultimately show ?thesis using 2(1)[OF None] 2(3-6) None n(1) by simp
  next
    case (Some i)
    then obtain a x b where u: "u = a @ (f, x) # b" "length a = i" "f \<notin> fst ` set a" by (rule index_of_split)
    have d: "distinct (map fst (a @ b))" "f \<notin> fst ` set (a @ b)" using 2(4) u(3) by (auto simp: u(1))
    have v: "value_of (a @ b) g = value_of u g" if "g \<noteq> f" for g
      using that by (auto simp: u(1) value_of_def map_add_def split: option.split)
    have vf: "value_of u f = x" using u(3) by (auto simp: u(1) value_of_def map_add_def map_of_eq_None_iff[THEN iffD2] split: option.split)
    have tl: "\<forall>(g, style) \<in> set t. element_ok style (value_of (a @ b) g)"
      using 2(5) ft v by fastforce
    have e: "\<not> (style = soeDEFAULT \<and> isDefault (snd (u ! i)))"
      using 2(5) 2(6) vf u(2) by (auto simp: u(1) element_ok_def nth_append)
    have r: "take i u @ drop (Suc i) u = a @ b" "u ! i = (f, x)" using u(2) by (auto simp: u(1) nth_append)
    have "applyTemplate_loop t (a @ b) (acc @ [(f, x)]) =
       Inr (filter (\<lambda>(f, _). f \<notin> fst ` set t) (a @ b), (acc @ [(f, x)]) @ map (\<lambda>(f, _). (f, value_of (a @ b) f)) t)"
      using 2(2)[OF Some e] 2(3,6) d(1) tl unfolding r by (simp add: u(1))
    moreover have "map (\<lambda>(f, _). (f, value_of (a @ b) f)) t = map (\<lambda>(f, _). (f, value_of u f)) t"
      using ft v by (intro map_cong) force+
    moreover have "filter (\<lambda>(g, _). g \<notin> fst ` set t) (a @ b) = filter (\<lambda>(g, _). g \<notin> fst ` set ((f, style) # t)) u"
    proof -
      have "filter (\<lambda>(g, _). g \<notin> fst ` set ((f, style) # t)) c = filter (\<lambda>(g, _). g \<notin> fst ` set t) c"
        if "f \<notin> fst ` set c" for c :: fields using that by (intro filter_cong) force+
      then show ?thesis using d(2) by (simp add: u(1) image_Un)
    qed
    ultimately show ?thesis using Some e r vf by simp
  qed
qed simp

lemma present_sorted:
  assumes "distinct (map fst (obj_v obj))" and "\<forall>(f, v) \<in> set (obj_v obj). v \<noteq> V_NotPresent \<longrightarrow> shouldInclude f True"
  shows "value_of (getSortedFields True obj) f = value_of (obj_v obj) f"
    and "distinct (map fst (getSortedFields True obj))"
    and "\<forall>(f, v) \<in> set (getSortedFields True obj). v \<noteq> V_NotPresent"
proof -
  let ?P = "\<lambda>(f, v). getSType v \<noteq> STI_NOTPRESENT \<and> shouldInclude f True"
  have d: "distinct (map fst (filter ?P (obj_v obj)))" using assms(1) by (rule distinct_map_filter)
  then show d': "distinct (map fst (getSortedFields True obj))"
    unfolding getSortedFields_def using mset_eq_imp_distinct_iff[of "map fst (sort_key fst (filter ?P (obj_v obj)))" "map fst (filter ?P (obj_v obj))"]
    by simp
  have s: "set (getSortedFields True obj) = set (filter ?P (obj_v obj))" by (simp add: getSortedFields_def)
  then show "\<forall>(f, v) \<in> set (getSortedFields True obj). v \<noteq> V_NotPresent"
    by (auto simp: getSType_present)
  have m: "map_of (getSortedFields True obj) f = Some v \<longleftrightarrow> map_of (obj_v obj) f = Some v \<and> v \<noteq> V_NotPresent" for v
    using assms s unfolding map_of_eq_Some_iff[OF d'] map_of_eq_Some_iff[OF assms(1)] by (auto simp: getSType_present)
  show "value_of (getSortedFields True obj) f = value_of (obj_v obj) f"
  proof (cases "map_of (getSortedFields True obj) f")
    case None
    then show ?thesis using m[of "value_of (obj_v obj) f"] by (cases "map_of (obj_v obj) f") (simp_all add: value_of_def)
  next
    case (Some v)
    then show ?thesis using m[of v] by (simp add: value_of_def)
  qed
qed


lemma applyTemplate_sorted:
  assumes "templated t obj" and "distinct (map fst t)" and "\<forall>(f, v) \<in> set (obj_v obj). v \<noteq> V_NotPresent \<longrightarrow> shouldInclude f True"
  shows "applyTemplate t (STObject (getSortedFields True obj) None) = Inr obj"
proof -
  let ?u = "getSortedFields True obj"
  note n = templated_names[OF assms(1)]
  have d: "distinct (map fst (obj_v obj))" using assms(2) n by simp
  note s = present_sorted[OF d assms(3)]
  have v: "map (\<lambda>(f, _). (f, value_of (obj_v obj) f)) t = obj_v obj"
  proof (rule nth_equalityI)
    fix i assume "i < length (map (\<lambda>(f, _). (f, value_of (obj_v obj) f)) t)"
    then have i: "i < length t" "i < length (obj_v obj)" using arg_cong[OF n, of length] by simp_all
    have "fst (obj_v obj ! i) = fst (t ! i)" using arg_cong[OF n, of "\<lambda>l. l ! i"] i by simp
    moreover have "map_of (obj_v obj) (fst (obj_v obj ! i)) = Some (snd (obj_v obj ! i))"
      using d i(2) by (intro map_of_is_SomeI) auto
    ultimately show "map (\<lambda>(f, _). (f, value_of (obj_v obj) f)) t ! i = obj_v obj ! i"
      using i by (simp add: value_of_def case_prod_unfold prod_eq_iff)
  qed (use arg_cong[OF n, of length] in simp)
  have "\<forall>(f, style) \<in> set t. element_ok style (value_of ?u f)"
  proof (intro ballI, clarify)
    fix f style assume "(f, style) \<in> set t"
    then obtain i where i: "i < length t" "t ! i = (f, style)" by (auto simp: in_set_conv_nth)
    then have "obj_v obj ! i = (f, value_of (obj_v obj) f)" using arg_cong[OF v, of "\<lambda>l. l ! i"] by simp
    then show "element_ok style (value_of ?u f)"
      using assms(1) i unfolding s(1) templated_def by (auto simp: list_all2_conv_all_nth dest!: spec[of _ i])
  qed
  from applyTemplate_loop_ok[OF assms(2) s(2) this s(3), of "[]"]
  have l: "applyTemplate_loop t ?u [] = Inr (filter (\<lambda>(f, _). f \<notin> fst ` set t) ?u, obj_v obj)"
    by (simp add: s(1) v)
  have "fst ` set ?u \<subseteq> fst ` set t"
    using arg_cong[OF n, of set] by (auto simp: getSortedFields_def)
  then have "filter (\<lambda>(f, _). f \<notin> fst ` set t) ?u = []" by (force simp: filter_empty_conv)
  then show ?thesis using l assms(1) by (cases obj) (simp add: applyTemplate_def templated_def)
qed

lemma getFieldU16_sorted:
  assumes "aligned obj" and "distinct (map fst (obj_v obj))"
    and "\<forall>(f, v) \<in> set (obj_v obj). v \<noteq> V_NotPresent \<longrightarrow> shouldInclude f True"
    and "map_of (obj_v obj) f = Some (V_UInt16 x)"
  shows "getFieldU16 (STObject (getSortedFields True obj) None) f = Inr x"
proof -
  have "value_of (getSortedFields True obj) f = V_UInt16 x"
    using present_sorted(1)[OF assms(2,3)] assms(4) by (simp add: value_of_def)
  then have "map_of (getSortedFields True obj) f = Some (V_UInt16 x)"
    by (simp add: value_of_def split: option.splits)
  moreover have "aligned (STObject (getSortedFields True obj) None)" by (simp add: aligned_def)
  ultimately show ?thesis
    by (simp add: getFieldU16_def getFieldByValue_def peekAtPField_aligned getSType_def)
qed

text \<open>A ledger entry in the shape that its format prescribes.\<close>

definition SLE_ok :: "SLE \<Rightarrow> bool" where
  "SLE_ok sle \<longleftrightarrow>
     (case findByType LedgerFormats (sle_type sle) of
        None \<Rightarrow> False
      | Some t \<Rightarrow> templated t (sle_obj sle) \<and> 0 \<le> sle_type sle \<and> sle_type sle \<le> 65535 \<and>
          map_of (obj_v (sle_obj sle)) sfLedgerEntryType = Some (V_UInt16 (word_of_int (sle_type sle))))"

lemma SLE_ok_set:
  assumes "SLE_ok sle"
  shows "setSLEType (sle_key sle) (STObject (getSortedFields True (sle_obj sle)) None) = Inr sle"
proof -
  obtain t where t: "findByType LedgerFormats (sle_type sle) = Some t" "templated t (sle_obj sle)"
    and r: "0 \<le> sle_type sle" "sle_type sle \<le> 65535"
    and ty: "map_of (obj_v (sle_obj sle)) sfLedgerEntryType = Some (V_UInt16 (word_of_int (sle_type sle)))"
    using assms by (auto simp: SLE_ok_def split: option.splits)
  note f = ledger_format[OF t(1)]
  note n = templated_names[OF t(2)]
  have inc: "\<forall>(f, v) \<in> set (obj_v (sle_obj sle)). v \<noteq> V_NotPresent \<longrightarrow> shouldInclude f True"
    using f(3) arg_cong[OF n, of set] by (auto simp: set_eq_iff image_iff) (metis (mono_tags, lifting) case_prod_unfold fst_conv)
  have "getFieldU16 (STObject (getSortedFields True (sle_obj sle)) None) sfLedgerEntryType = Inr (word_of_int (sle_type sle))"
    using getFieldU16_sorted[OF templated_aligned[OF t(2)] _ inc ty] f(2) n by simp
  moreover have "uint (word_of_int (sle_type sle) :: u16) = sle_type sle"
    using r by (simp add: uint_word_of_int take_bit_int_eq_self)
  ultimately show ?thesis using applyTemplate_sorted[OF t(2) f(2) inc] t(1)
    by (simp add: setSLEType_def)
qed

text \<open>On a template whose fields are all serialized, being on the wire is a matter of each field.\<close>

definition fields_wire :: "fields \<Rightarrow> bool" where
  "fields_wire u \<longleftrightarrow> (\<forall>(f, v) \<in> set u. v \<noteq> V_NotPresent \<longrightarrow> wire_value 10 f v)"

lemma template_field_ok:
  assumes "template_ok t" and "\<forall>(f, _) \<in> set t. shouldInclude f True" and "(f, s) \<in> set t"
  shows "field_ok f"
  using assms by (force simp: template_ok_def list_all_iff field_ok_def shouldInclude_def isBinary_def isUseful_def)

lemma wire_top_fields:
  assumes "template_ok t" and "\<forall>(f, _) \<in> set t. shouldInclude f True" and "map fst (obj_v obj) = map fst t"
    and "fields_wire (obj_v obj)"
  shows "wire_top obj"
proof -
  have n: "field_ok f" if "(f, v) \<in> set (obj_v obj)" for f v
    using template_field_ok[OF assms(1,2)] names_in[OF assms(3)[symmetric] that] by auto
  have d: "distinct (map fst (obj_v obj))" using assms(1,3) by (simp add: template_ok_def)
  have inc: "\<forall>(f, v) \<in> set (obj_v obj). v \<noteq> V_NotPresent \<longrightarrow> shouldInclude f True"
    using n field_ok_id(6) by blast
  have "sorted_wrt (<) (map fst (getSortedFields True obj))"
    using present_sorted(2)[OF d inc] by (simp add: strict_sorted_iff getSortedFields_def)
  moreover have "set (getSortedFields True obj) \<subseteq> set (obj_v obj)" by (auto simp: getSortedFields_def)
  ultimately show ?thesis using present_sorted(3)[OF d inc] n assms(4)
    unfolding wire_top_def wire_fields_def fields_wire_def by blast
qed

lemma wire_value_type: "wire_value n f v \<Longrightarrow> getSType v = sf_type (SField_info f) \<and> v \<noteq> V_NotPresent"
  by (cases n rule: wire_value.cases) (auto simp: wire_construct_def)

lemma fields_wire_typed: "fields_wire (obj_v obj) \<Longrightarrow> typed obj"
  using wire_value_type unfolding fields_wire_def typed_def by blast

lemma fields_wire_set:
  assumes "fields_wire (obj_v obj)" and "field_set f u obj obj'" and "u = V_NotPresent \<or> wire_value 10 f u"
    and "distinct (map fst (obj_v obj'))"
  shows "fields_wire (obj_v obj')"
  unfolding fields_wire_def
proof (intro ballI, clarify)
  fix g v assume g: "(g, v) \<in> set (obj_v obj')" "v \<noteq> V_NotPresent"
  then have "map_of (obj_v obj') g = Some v" using assms(4) by simp
  then have "if g = f then v = u else map_of (obj_v obj) g = Some v"
    using assms(2) by (auto simp: field_set_def split: if_splits)
  then show "wire_value 10 g v"
    using assms(1,3) g(2) by (auto simp: fields_wire_def split: if_splits dest!: map_of_SomeD)
qed

text \<open>A ledger entry in the shape of its format, with values that can be serialized.\<close>

definition SLE_valid :: "SLE \<Rightarrow> bool" where
  "SLE_valid sle \<longleftrightarrow> SLE_ok sle \<and> fields_wire (obj_v (sle_obj sle))"

lemma SLE_valid_template:
  assumes "SLE_valid sle"
  shows "\<exists>t. findByType LedgerFormats (sle_type sle) = Some t \<and> templated t (sle_obj sle) \<and>
     template_ok t \<and> distinct (map fst t) \<and> (\<forall>(f, _) \<in> set t. shouldInclude f True)"
    and "wire_top (sle_obj sle)" and "typed (sle_obj sle)"
proof -
  obtain t where t: "findByType LedgerFormats (sle_type sle) = Some t" "templated t (sle_obj sle)"
    using assms by (auto simp: SLE_valid_def SLE_ok_def split: option.splits)
  note f = ledger_format[OF t(1)]
  have w: "fields_wire (obj_v (sle_obj sle))" using assms by (simp add: SLE_valid_def)
  show "wire_top (sle_obj sle)" by (rule wire_top_fields[OF f(1,3) templated_names[OF t(2)] w])
  show "typed (sle_obj sle)" by (rule fields_wire_typed[OF w])
  show "\<exists>t. findByType LedgerFormats (sle_type sle) = Some t \<and> templated t (sle_obj sle) \<and>
     template_ok t \<and> distinct (map fst t) \<and> (\<forall>(f, _) \<in> set t. shouldInclude f True)"
    by (intro exI[of _ t] conjI t f)
qed

lemma SLE_valid_read:
  assumes "SLE_valid sle"
  shows "\<exists>s. STObject_add True (sle_obj sle) Serializer_empty = Inr s \<and>
     SLE_read (SerialIter_make (mData s)) (sle_key sle) = Inr sle"
proof -
  note w = SLE_valid_template(2)[OF assms]
  obtain s where s: "STObject_add True (sle_obj sle) Serializer_empty = Inr s"
    using object_appends[OF w] by (auto simp: appends_def)
  have "setSLEType (sle_key sle) (STObject (getSortedFields True (sle_obj sle)) None) = Inr sle"
    using assms SLE_ok_set by (simp add: SLE_valid_def)
  then have "SLE_read (SerialIter_make (mData s)) (sle_key sle) = Inr sle"
    unfolding SLE_read_def object_read_back[OF w s] by simp
  with s show ?thesis by blast
qed

definition typed_field_value :: "STValue \<Rightarrow> bool" where
  "typed_field_value u = (case u of V_PathSet _ \<Rightarrow> False | V_Object _ \<Rightarrow> False | V_Array _ \<Rightarrow> False | V_NotPresent \<Rightarrow> False | _ \<Rightarrow> True)"

lemma wire_default:
  assumes "wire_value n f u" and "typed_field_value u" and "isDefault u"
  shows "is_value_type u"
proof -
  obtain W1 W2 where "wire_construct W1 W2 f u" using assms(1) by (cases n rule: wire_value.cases) auto
  then show ?thesis using assms(2,3)
    by (cases u) (auto simp: wire_construct_def typed_field_value_def isDefault_defs zero160_def is_value_type_def ST_eq_def areComparable_def
        ST_wire_parts ST_canonical_def ST_native_unnamed_def ST_unchecked_def split: if_splits)
qed

abbreviation defaultable :: "int set" where
  "defaultable \<equiv> {STI_UINT8, STI_UINT16, STI_UINT32, STI_UINT64, STI_HASH128, STI_HASH160, STI_HASH256,
     STI_AMOUNT, STI_VL, STI_ACCOUNT, STI_VECTOR256, STI_ARRAY}"

lemma ledger_formats_required:
  "list_all (\<lambda>(ty, t). 0 \<le> ty \<and> ty \<le> 65535 \<and> (sfLedgerEntryType, soeREQUIRED) \<in> set t \<and>
     list_all (\<lambda>(f, style). style = soeREQUIRED \<longrightarrow> f div 65536 \<in> defaultable) t) LedgerFormats"
  by (simp add: LedgerFormats_def lf_defs)

lemma wire_value_construct: "0 < n \<Longrightarrow> \<exists>W1 W2. wire_value n = wire_construct W1 W2"
  by (cases n rule: wire_value.cases) auto

lemma default_wire:
  assumes "sf_type (SField_info f) \<in> defaultable"
  shows "\<exists>d. STVar_default f = Inr d \<and> d \<noteq> V_NotPresent \<and> wire_value (Suc n) f d"
proof -
  have "ST_wire (ST_native 0 False)"
    by (simp add: ST_wire_parts ST_canonical_def ST_native_def ST_unchecked_def sfcIssue_def isSFC_def)
  moreover obtain W1 W2 where "wire_value (Suc n) = wire_construct W1 W2" using wire_value_construct[of "Suc n"] by auto
  ultimately show ?thesis using assms
    by (auto simp: STVar_default_def wire_construct_def getSType_def zero160_def)
qed

definition fresh_value :: "SField \<times> SOEStyle \<Rightarrow> SField \<times> STValue" where
  "fresh_value = (\<lambda>(f, style). (f, if style = soeREQUIRED then projr (STVar_default f) else V_NotPresent))"

lemma set_template_fresh:
  assumes "\<forall>(f, style) \<in> set t. style = soeREQUIRED \<longrightarrow> (\<exists>d. STVar_default f = Inr d)"
  shows "STObject_set_template t = Inr (STObject (map fresh_value t) (Some t))"
proof -
  have "forE set_element t acc = Inr (acc @ map fresh_value t)" for acc
    using assms
  proof (induction t arbitrary: acc)
    case (Cons e t)
    then show ?case by (cases e) (auto simp: set_element_def fresh_value_def)
  qed simp
  then show ?thesis by (simp add: STObject_set_template_def)
qed

lemma set_template_valid:
  assumes "template_ok t" and "\<forall>(f, _) \<in> set t. shouldInclude f True"
    and "list_all (\<lambda>(f, style). style = soeREQUIRED \<longrightarrow> f div 65536 \<in> defaultable) t"
  shows "\<exists>obj. STObject_set_template t = Inr obj \<and> templated t obj \<and> fields_wire (obj_v obj)"
proof -
  have d: "\<exists>d. STVar_default f = Inr d \<and> d \<noteq> V_NotPresent \<and> wire_value 10 f d" if "(f, soeREQUIRED) \<in> set t" for f
    using default_wire[of f 9, simplified] assms(3) that field_ok_type[OF template_field_ok[OF assms(1,2) that]]
    by (auto simp: list_all_iff)
  have "STObject_set_template t = Inr (STObject (map fresh_value t) (Some t))"
    using d by (intro set_template_fresh) blast
  moreover have "templated t (STObject (map fresh_value t) (Some t))"
  proof -
    have "f = fst (fresh_value (f, style)) \<and> element_ok style (snd (fresh_value (f, style)))" if "(f, style) \<in> set t" for f style
      using d[of f] that by (cases style) (auto simp: fresh_value_def element_ok_def)
    then show ?thesis by (auto simp: templated_def list.rel_map list_all2_same case_prod_unfold)
  qed
  moreover have "fields_wire (map fresh_value t)"
    using d by (fastforce simp: fields_wire_def fresh_value_def split: if_splits)
  ultimately show ?thesis by simp
qed

lemma SLE_make_valid:
  assumes t: "findByType LedgerFormats (kl_type k) = Some t"
  shows "\<exists>sle. SLE_make k = Inr sle \<and> SLE_valid sle \<and> sle_key sle = kl_key k \<and> sle_type sle = kl_type k"
proof -
  note f = ledger_format[OF t]
  have "(kl_type k, t) \<in> set LedgerFormats" using t by (auto simp: findByType_def dest: map_of_SomeD)
  then have req: "(sfLedgerEntryType, soeREQUIRED) \<in> set t" and r: "0 \<le> kl_type k" "kl_type k \<le> 65535"
    and dflt: "list_all (\<lambda>(f, style). style = soeREQUIRED \<longrightarrow> f div 65536 \<in> defaultable) t"
    using ledger_formats_required by (auto simp: list_all_iff)
  obtain obj where obj: "STObject_set_template t = Inr obj" "templated t obj" "fields_wire (obj_v obj)"
    using set_template_valid[OF f(1,3) dflt] by blast
  let ?u = "V_UInt16 (word_of_int (kl_type k))"
  have ty: "getSType ?u = sf_type (SField_info sfLedgerEntryType)"
    using field_ok_type[OF template_field_ok[OF f(1,3) req]] by (simp add: getSType_def)
  obtain obj' where s: "setFieldU16 sfLedgerEntryType (word_of_int (kl_type k)) obj = Inr obj'" "field_set sfLedgerEntryType ?u obj obj'"
    using setField_ok[OF templated_aligned[OF obj(2)] fields_wire_typed[OF obj(3)] _ ty]
      names_in[OF templated_names[OF obj(2)] req] by (auto simp: setFieldU16_def)
  have t': "templated t obj'" using templated_field_set[OF obj(2) f(2) req s(2)] by (simp add: element_ok_def)
  obtain W1 W2 where "wire_value 10 = wire_construct W1 W2" using wire_value_construct[of 10] by auto
  then have w: "fields_wire (obj_v obj')"
    using ty f(2) templated_names[OF t'] by (intro fields_wire_set[OF obj(3) s(2)]) (simp_all add: wire_construct_def)
  let ?sle = "\<lparr>sle_key = kl_key k, sle_type = kl_type k, sle_obj = obj'\<rparr>"
  have "SLE_make k = Inr ?sle" using r t obj(1) s(1) by (simp add: SLE_make_def)
  moreover have "SLE_valid ?sle" using t t' w r s(2) by (simp add: SLE_valid_def SLE_ok_def field_set_def)
  ultimately show ?thesis by force
qed

lemma SLE_make_unknown:
  assumes "findByType LedgerFormats (kl_type k) = None"
  shows "\<exists>e. SLE_make k = Inl (RuntimeError e)"
  using assms by (simp add: SLE_make_def)

text \<open>The ledger formats have no field of default style, so a valid entry stores what is assigned to it.\<close>

lemma ledger_no_default:
  assumes "findByType LedgerFormats ty = Some t"
  shows "(f, soeDEFAULT) \<notin> set t"
proof -
  have "list_all (\<lambda>(_, t). list_all (\<lambda>(_, style). style \<noteq> soeDEFAULT) t) LedgerFormats" by (simp add: LedgerFormats_def lf_defs)
  then show ?thesis using map_of_SomeD[of LedgerFormats ty t] assms by (auto simp: findByType_def list_all_iff)
qed

lemma SLE_assign:
  assumes "SLE_valid sle" and "findByType LedgerFormats (sle_type sle) = Some t" and "(f, style) \<in> set t"
    and "f \<noteq> sfLedgerEntryType" and "wire_value 10 f u" and "typed_field_value u"
  shows "\<exists>obj. ValueProxy_assign f u (sle_obj sle) = Inr obj \<and> SLE_valid (sle\<lparr>sle_obj := obj\<rparr>) \<and>
     (\<forall>g. peekAtPField obj g = (if g = f then Inr (Some u) else peekAtPField (sle_obj sle) g))"
proof -
  have "style \<noteq> soeDEFAULT" using ledger_no_default[OF assms(2)] assms(3) by auto
  have t: "templated t (sle_obj sle)" "distinct (map fst t)" and w: "fields_wire (obj_v (sle_obj sle))"
    using assms(1,2) SLE_valid_template(1)[OF assms(1)] by (auto simp: SLE_valid_def)
  note ty = wire_value_type[OF assms(5)]
  obtain obj where o: "ValueProxy_assign f u (sle_obj sle) = Inr obj" "templated t obj" "field_set f u (sle_obj sle) obj"
    using ValueProxy_assign_set[OF t assms(3) fields_wire_typed[OF w], of u] ty wire_default[OF assms(5,6)] \<open>style \<noteq> soeDEFAULT\<close> by auto
  have "fields_wire (obj_v obj)"
    using t(2) templated_names[OF o(2)] assms(5) by (intro fields_wire_set[OF w o(3)]) auto
  moreover have "map_of (obj_v obj) sfLedgerEntryType = map_of (obj_v (sle_obj sle)) sfLedgerEntryType"
    using o(3) assms(4) by (auto simp: field_set_def)
  ultimately have "SLE_valid (sle\<lparr>sle_obj := obj\<rparr>)"
    using assms(1,2) o(2) by (simp add: SLE_valid_def SLE_ok_def)
  moreover have "peekAtPField obj g = (if g = f then Inr (Some u) else peekAtPField (sle_obj sle) g)" for g
    using o(3) by (simp add: peekAtPField_aligned templated_aligned[OF o(2)] templated_aligned[OF t(1)] field_set_def)
  ultimately show ?thesis using o(1) by blast
qed

lemma check_format: "findByType LedgerFormats ltCHECK = Some lf_Check"
  by (simp add: findByType_def LedgerFormats_def)

section \<open>Properties\<close>

text \<open>
  C18: A valid ledger entry is serialized without an error, and constructing an entry from the bytes under
  its key gives the same entry: type, template and every field, absent ones included.
\<close>

theorem SLE_roundtrip:
  assumes "SLE_valid sle"
  shows "\<exists>s. STObject_add True (sle_obj sle) Serializer_empty = Inr s \<and>
     SLE_read (SerialIter_make (mData s)) (sle_key sle) = Inr sle"
  using assms by (rule SLE_valid_read)

theorem SLE_roundtrip_witness:
  "\<exists>sle s. SLE_make \<lparr>kl_type = ltCHECK, kl_key = 5\<rparr> = Inr sle \<and>
     STObject_add True (sle_obj sle) Serializer_empty = Inr s \<and> SLE_read (SerialIter_make (mData s)) 5 = Inr sle"
proof -
  obtain sle where "SLE_make \<lparr>kl_type = ltCHECK, kl_key = 5\<rparr> = Inr sle" "SLE_valid sle" "sle_key sle = 5"
    using SLE_make_valid[of "\<lparr>kl_type = ltCHECK, kl_key = 5\<rparr>"] check_format by auto
  then show ?thesis using SLE_roundtrip[of sle] by auto
qed

text \<open>
  C20: Constructing an entry from a keylet succeeds for every type that has a format, and then gives a valid
  entry under the keylet's key and type: the required fields are there with values that can be
  serialized.  For every other type it throws.
\<close>

theorem SLE_make_exact:
  "if kl_type k \<in> fst ` set LedgerFormats
   then \<exists>sle. SLE_make k = Inr sle \<and> SLE_valid sle \<and> sle_key sle = kl_key k \<and> sle_type sle = kl_type k
   else \<exists>e. SLE_make k = Inl (RuntimeError e)"
proof (cases "kl_type k \<in> fst ` set LedgerFormats")
  case True
  then obtain t where "findByType LedgerFormats (kl_type k) = Some t"
    using map_of_eq_None_iff[of LedgerFormats "kl_type k"] by (cases "map_of LedgerFormats (kl_type k)") (auto simp: findByType_def)
  then show ?thesis unfolding if_P[OF True] by (rule SLE_make_valid)
next
  case False
  then have "findByType LedgerFormats (kl_type k) = None" by (simp add: findByType_def map_of_eq_None_iff)
  then show ?thesis unfolding if_not_P[OF False] by (rule SLE_make_unknown)
qed

end
