(* ===== verification/View.thy ===== *)
theory View
  imports Stdmap Entries
begin

text \<open>
  Keylets, and the two interfaces that every ledger view implements (\<^verbatim>\<open>ledger/ReadView.h\<close>,
  \<^verbatim>\<open>ledger/RawView.h\<close>) as records of operations, with their contracts as locales.  The contract of a
  \<open>ReadView\<close> names the finite map of entries the view stands for; the contract of a \<open>RawView\<close> is that of
  the comments in \<open>RawView.h\<close>.  Every operation may throw, since a view may read a node store.
\<close>

section \<open>Keylets\<close>

type_synonym key256 = uint256

definition Keylet_check :: "Keylet \<Rightarrow> SLE \<Rightarrow> bool" where
  "Keylet_check k sle =
     (if kl_type k = ltANY then True
      else if kl_type k = ltINVALID then False
      else if kl_type k = ltCHILD then sle_type sle \<noteq> ltDIR_NODE
      else sle_type sle = kl_type k)"

section \<open>The interfaces\<close>

text \<open>
  A \<open>ReadView\<close> offers \<open>exists\<close>, \<open>read\<close>, \<open>succ\<close> and the ranges of its entries from the first one
  and from the first one above a key.  Views are stacked, so an operation that throws or does not
  return in a base shows in the views above it.
\<close>

record ReadView =
  rv_exists :: "Keylet \<Rightarrow> bool res"
  rv_read :: "Keylet \<Rightarrow> SLE option res"
  rv_succ :: "key256 \<Rightarrow> key256 option \<Rightarrow> key256 option res"
  rv_sles :: "SLE list res"
  rv_slesUpperBound :: "key256 \<Rightarrow> SLE list res"

record 's RawView =
  rw_erase :: "SLE \<Rightarrow> 's \<Rightarrow> 's res"
  rw_insert :: "SLE \<Rightarrow> 's \<Rightarrow> 's res"
  rw_replace :: "SLE \<Rightarrow> 's \<Rightarrow> 's res"
  rw_destroySFC :: "int \<Rightarrow> 's \<Rightarrow> 's res"

record 's TxsRawView = "'s RawView" +
  rw_txInsert :: "key256 \<Rightarrow> Blob \<Rightarrow> Blob option \<Rightarrow> 's \<Rightarrow> 's res"

text \<open>The least key of \<open>D\<close> above \<open>key\<close> and below \<open>last\<close>.\<close>

definition candidates :: "key256 set \<Rightarrow> key256 \<Rightarrow> key256 option \<Rightarrow> key256 set" where
  "candidates D key last1 = {k \<in> D. key < k \<and> (\<forall>l. last1 = Some l \<longrightarrow> k < l)}"

definition next_key :: "key256 set \<Rightarrow> key256 \<Rightarrow> key256 option \<Rightarrow> key256 option" where
  "next_key D key last1 =
     (let C = candidates D key last1 in if C = {} then None else Some (Min C))"

text \<open>What \<open>read\<close> gives for a map of entries, and the entries of a map in key order.\<close>

definition read_map :: "(key256 \<rightharpoonup> SLE) \<Rightarrow> Keylet \<Rightarrow> SLE option" where
  "read_map M k =
     (case M (kl_key k) of None \<Rightarrow> None | Some sle \<Rightarrow> if Keylet_check k sle then Some sle else None)"

definition sles_of :: "(key256 \<rightharpoonup> SLE) \<Rightarrow> SLE list" where
  "sles_of M = map (the \<circ> M) (sorted_list_of_set (dom M))"

definition keyed :: "(key256 \<rightharpoonup> SLE) \<Rightarrow> bool" where
  "keyed M \<longleftrightarrow> M 0 = None \<and> (\<forall>k sle. M k = Some sle \<longrightarrow> sle_key sle = k)"

locale read_view =
  fixes view :: "'s \<Rightarrow> ReadView" and abs :: "'s \<Rightarrow> key256 \<rightharpoonup> SLE" and ok :: "'s \<Rightarrow> bool"
  assumes keyed: "ok s \<Longrightarrow> keyed (abs s)"
    and read: "ok s \<Longrightarrow> rv_read (view s) k = Inr (read_map (abs s) k)"
    and exists_not: "ok s \<Longrightarrow> abs s (kl_key k) = None \<Longrightarrow> rv_exists (view s) k = Inr False"
    and exists_typed: "ok s \<Longrightarrow> abs s (kl_key k) = Some sle \<Longrightarrow> Keylet_check k sle \<Longrightarrow>
      rv_exists (view s) k = Inr True"
    and succ: "ok s \<Longrightarrow> rv_succ (view s) key last1 = Inr (next_key (dom (abs s)) key last1)"
    and sles: "ok s \<Longrightarrow> rv_sles (view s) = Inr (sles_of (abs s))"
    and slesUpperBound: "ok s \<Longrightarrow>
      rv_slesUpperBound (view s) key = Inr (sles_of (abs s |` {key<..}))"

text \<open>A view may be able to take only some entries, those that are \<open>storable\<close>.\<close>

locale raw_view =
  fixes R :: "('s, 'z) RawView_scheme" and abs :: "'s \<Rightarrow> key256 \<rightharpoonup> SLE"
    and burned :: "'s \<Rightarrow> int" and ok :: "'s \<Rightarrow> bool" and storable :: "SLE \<Rightarrow> bool"
  assumes insert_ok: "ok s \<Longrightarrow> storable sle \<Longrightarrow> sle_key sle \<noteq> 0 \<Longrightarrow> abs s (sle_key sle) = None \<Longrightarrow>
      \<exists>s'. rw_insert R sle s = Inr s' \<and> ok s' \<and> abs s' = (abs s)(sle_key sle \<mapsto> sle) \<and>
        burned s' = burned s"
    and replace_ok: "ok s \<Longrightarrow> storable sle \<Longrightarrow> abs s (sle_key sle) \<noteq> None \<Longrightarrow>
      \<exists>s'. rw_replace R sle s = Inr s' \<and> ok s' \<and> abs s' = (abs s)(sle_key sle \<mapsto> sle) \<and>
        burned s' = burned s"
    and erase_ok: "ok s \<Longrightarrow> abs s (sle_key sle) \<noteq> None \<Longrightarrow>
      \<exists>s'. rw_erase R sle s = Inr s' \<and> ok s' \<and> abs s' = (abs s)(sle_key sle := None) \<and>
        burned s' = burned s"
    and destroy_ok: "ok s \<Longrightarrow>
      \<exists>s'. rw_destroySFC R fee s = Inr s' \<and> ok s' \<and> abs s' = abs s \<and> burned s' = burned s + fee"

section \<open>Lemmas\<close>

lemma next_key_Some:
  "next_key D key last1 = Some k \<longleftrightarrow>
     k \<in> candidates D key last1 \<and> (\<forall>k' \<in> candidates D key last1. k \<le> k')"
proof (cases "candidates D key last1 = {}")
  case False
  then show ?thesis using Min_eq_iff[of "candidates D key last1" k]
    by (auto simp: next_key_def Let_def)
qed (simp add: next_key_def)

lemma next_key_None: "next_key D key last1 = None \<longleftrightarrow> candidates D key last1 = {}"
  by (simp add: next_key_def Let_def)

lemma keyed_update: "keyed M \<Longrightarrow> sle_key sle \<noteq> 0 \<Longrightarrow> keyed (M(sle_key sle \<mapsto> sle))"
  by (auto simp: keyed_def)

lemma keyed_delete: "keyed M \<Longrightarrow> keyed (M(k := None))"
  by (auto simp: keyed_def)

lemma keyed_nonzero: "keyed M \<Longrightarrow> M k = Some sle \<Longrightarrow> k \<noteq> 0"
  by (auto simp: keyed_def)

lemma keyed_key: "keyed M \<Longrightarrow> M k = Some sle \<Longrightarrow> sle_key sle = k"
  by (simp add: keyed_def)

text \<open>The range of a map is the only list of its entries in strictly increasing key order.\<close>

lemma sles_of_unique:
  assumes "keyed M" and "sorted_wrt (<) (map sle_key xs)" and "set xs = ran M"
  shows "sles_of M = xs"
proof -
  have x: "M (sle_key x) = Some x" if "x \<in> set xs" for x
    using that assms(1,3) by (auto simp: ran_def dest: keyed_key)
  then have "set (map sle_key xs) = dom M"
    using assms(1,3) by (fastforce simp: ran_def dest: keyed_key)
  then have "sorted_list_of_set (dom M) = map sle_key xs"
    using assms(2) by (metis strict_sorted_equal strict_sorted_list_of_set finite set_sorted_list_of_set)
  moreover have "map (the \<circ> M \<circ> sle_key) xs = xs"
    by (rule map_idI) (simp add: x)
  ultimately show ?thesis by (simp add: sles_of_def)
qed

lemma keyed_restrict: "keyed M \<Longrightarrow> keyed (M |` K)"
  by (auto simp: keyed_def restrict_map_def)

lemma sles_of_smap:
  assumes "smap_wf m" and "keyed (map_of m)"
  shows "sles_of (map_of m) = map snd m"
proof (rule sles_of_unique[OF assms(2)])
  have "map sle_key (map snd m) = map fst m"
    using assms by (auto simp: keyed_def smap_find_Some)
  then show "sorted_wrt (<) (map sle_key (map snd m))" using assms(1) unfolding smap_wf_def by argo
  show "set (map snd m) = ran (map_of m)"
    using assms(1) by (simp add: ran_distinct smap_wf_distinct)
qed

lemma map_of_filter_keys: "smap_wf m \<Longrightarrow> map_of (filter (\<lambda>(k, _). k \<in> K) m) = map_of m |` K"
  by (induction m) (auto simp: restrict_map_def fun_eq_iff smap_find_None)

lemma map_of_upper_bound: "smap_wf m \<Longrightarrow> map_of (smap_upper_bound key m) = map_of m |` {key<..}"
  using map_of_filter_keys[of m "{key<..}"] by (simp add: smap_upper_bound_filter)

text \<open>
  The first entry of an ordered map above a key is the least key of its domain; \<open>last\<close> bounds it.
\<close>

lemma next_key_upper_bound:
  assumes "smap_wf m"
  shows "next_key (dom (map_of m)) key last1 =
    (case smap_upper_bound key m of
       [] \<Rightarrow> None
     | (k, _) # _ \<Rightarrow> if (case last1 of None \<Rightarrow> False | Some e \<Rightarrow> e \<le> k) then None else Some k)"
proof -
  have dom: "k \<in> dom (map_of m) \<and> key < k \<longleftrightarrow> k \<in> fst ` set (smap_upper_bound key m)" for k
    using assms by (auto simp: dom_map_of_conv_image_fst smap_upper_bound_filter)
  show ?thesis
  proof (cases "smap_upper_bound key m")
    case Nil
    then have "candidates (dom (map_of m)) key last1 = {}" using dom by (auto simp: candidates_def)
    then show ?thesis using Nil by (simp add: next_key_None)
  next
    case (Cons p ps)
    obtain k v where p: "p = (k, v)" by fastforce
    have "smap_wf (smap_upper_bound key m)" using assms by simp
    then have least: "k \<le> k'" if "k' \<in> candidates (dom (map_of m)) key last1" for k'
      using that dom[of k'] unfolding Cons p by (auto simp: candidates_def intro: less_imp_le)
    show ?thesis
    proof (cases "\<exists>e. last1 = Some e \<and> e \<le> k")
      case True
      then have "candidates (dom (map_of m)) key last1 = {}" using least by (fastforce simp: candidates_def)
      then show ?thesis using True Cons p by (auto simp: next_key_None)
    next
      case False
      then have "k \<in> candidates (dom (map_of m)) key last1"
        using dom[of k] Cons p by (auto simp: candidates_def not_le)
      then have "next_key (dom (map_of m)) key last1 = Some k" using least by (auto simp: next_key_Some)
      then show ?thesis using False Cons p by (auto split: option.splits)
    qed
  qed
qed

end
