(* ===== verification/RawTable.thy ===== *)
theory RawTable
  imports View
begin

text \<open>
  The table of raw changes over a base view (\<^verbatim>\<open>ledger/impl/RawStateTable.cpp\<close>) and the open view
  that owns one (\<^verbatim>\<open>ledger/impl/OpenView.cpp\<close>): every operation, the iterator that merges the base
  with the table, and the application of the table to another view.

  The lemmas show that a table over a base stands for the base map with the changes laid over it,
  as a \<open>ReadView\<close> (lookup, existence, successor, both ranges) and as a \<open>RawView\<close>, and that applying the
  table to a view that stands for the base map makes it stand for the overlaid map.
\<close>

section \<open>The table\<close>

datatype RawAction = Raw_erase | Raw_insert | Raw_replace

type_synonym raw_items_t = "(key256, RawAction \<times> SLE) stdmap"

record RawStateTable =
  raw_items :: raw_items_t
  raw_dropsDestroyed :: int

definition raw_action :: "('s, 'z) RawView_scheme \<Rightarrow> key256 \<times> RawAction \<times> SLE \<Rightarrow> 's \<Rightarrow> 's res" where
  "raw_action to = (\<lambda>(_, action, sle).
     (case action of
        Raw_erase \<Rightarrow> rw_erase to sle
      | Raw_insert \<Rightarrow> rw_insert to sle
      | Raw_replace \<Rightarrow> rw_replace to sle))"

definition RawStateTable_apply :: "('s, 'z) RawView_scheme \<Rightarrow> RawStateTable \<Rightarrow> 's \<Rightarrow> 's res" where
  "RawStateTable_apply to t s =
     bindE (rw_destroySFC to (raw_dropsDestroyed t) s) (forE (raw_action to) (raw_items t))"

definition RawStateTable_exists :: "ReadView \<Rightarrow> RawStateTable \<Rightarrow> Keylet \<Rightarrow> bool res" where
  "RawStateTable_exists base t k =
     (case smap_find (kl_key k) (raw_items t) of
        None \<Rightarrow> rv_exists base k
      | Some (action, sle) \<Rightarrow>
          if action = Raw_erase then Inr False
          else if \<not> Keylet_check k sle then Inr False
          else Inr True)"

text \<open>
  The successor in the base that is not erased in the table: a loop that is left when the base
  has no successor.
\<close>

partial_function (option) succ_base ::
  "ReadView \<Rightarrow> (key256 \<Rightarrow> bool) \<Rightarrow> key256 \<Rightarrow> key256 option \<Rightarrow> key256 option res option" where
  "succ_base base erased key last1 =
     (case rv_succ base key last1 of
        Inl e \<Rightarrow> Some (Inl e)
      | Inr None \<Rightarrow> Some (Inr None)
      | Inr (Some next) \<Rightarrow>
          if erased next then succ_base base erased next last1 else Some (Inr (Some next)))"

definition raw_erased :: "raw_items_t \<Rightarrow> key256 \<Rightarrow> bool" where
  "raw_erased items k =
     (case smap_find k items of None \<Rightarrow> False | Some (action, _) \<Rightarrow> action = Raw_erase)"

text \<open>
  The rest of \<open>succ\<close>, common to both tables: the lower of the base successor and the first entry
  of the table above the key that is not erased, bounded by \<open>last\<close>.
\<close>

definition succ_merge ::
  "('a \<Rightarrow> bool) \<Rightarrow> (key256, 'a) stdmap \<Rightarrow> key256 \<Rightarrow> key256 option \<Rightarrow> key256 option \<Rightarrow> key256 option" where
  "succ_merge live items key last1 next =
     (let next =
        (case find (\<lambda>(_, item). live item) (smap_upper_bound key items) of
           None \<Rightarrow> next
         | Some (k, _) \<Rightarrow>
             if (case next of None \<Rightarrow> True | Some n \<Rightarrow> k < n) then Some k else next)
      in (case (last1, next) of
            (Some l, Some n) \<Rightarrow> if l \<le> n then None else next
          | _ \<Rightarrow> next))"

definition RawStateTable_succ ::
  "ReadView \<Rightarrow> RawStateTable \<Rightarrow> key256 \<Rightarrow> key256 option \<Rightarrow> key256 option res" where
  "RawStateTable_succ base t key last1 =
     bindE (returns (succ_base base (raw_erased (raw_items t)) key last1)) (\<lambda>r.
     bindE r (\<lambda>next.
       Inr (succ_merge (\<lambda>(action, _). action \<noteq> Raw_erase) (raw_items t) key last1 next)))"

definition RawStateTable_erase :: "SLE \<Rightarrow> RawStateTable \<Rightarrow> RawStateTable res" where
  "RawStateTable_erase sle t =
     (case smap_find (sle_key sle) (raw_items t) of
        None \<Rightarrow> Inr (t\<lparr>raw_items := smap_set (sle_key sle) (Raw_erase, sle) (raw_items t)\<rparr>)
      | Some (action, _) \<Rightarrow>
          (case action of
             Raw_erase \<Rightarrow> Inl (LogicError ''RawStateTable::erase: already erased'')
           | Raw_insert \<Rightarrow> Inr (t\<lparr>raw_items := smap_erase (sle_key sle) (raw_items t)\<rparr>)
           | Raw_replace \<Rightarrow>
               Inr (t\<lparr>raw_items := smap_set (sle_key sle) (Raw_erase, sle) (raw_items t)\<rparr>)))"

definition RawStateTable_insert :: "SLE \<Rightarrow> RawStateTable \<Rightarrow> RawStateTable res" where
  "RawStateTable_insert sle t =
     (case smap_find (sle_key sle) (raw_items t) of
        None \<Rightarrow> Inr (t\<lparr>raw_items := smap_set (sle_key sle) (Raw_insert, sle) (raw_items t)\<rparr>)
      | Some (action, _) \<Rightarrow>
          (case action of
             Raw_erase \<Rightarrow>
               Inr (t\<lparr>raw_items := smap_set (sle_key sle) (Raw_replace, sle) (raw_items t)\<rparr>)
           | Raw_insert \<Rightarrow> Inl (LogicError ''RawStateTable::insert: already inserted'')
           | Raw_replace \<Rightarrow> Inl (LogicError ''RawStateTable::insert: already exists'')))"

definition RawStateTable_replace :: "SLE \<Rightarrow> RawStateTable \<Rightarrow> RawStateTable res" where
  "RawStateTable_replace sle t =
     (case smap_find (sle_key sle) (raw_items t) of
        None \<Rightarrow> Inr (t\<lparr>raw_items := smap_set (sle_key sle) (Raw_replace, sle) (raw_items t)\<rparr>)
      | Some (action, _) \<Rightarrow>
          (case action of
             Raw_erase \<Rightarrow> Inl (LogicError ''RawStateTable::replace: was erased'')
           | _ \<Rightarrow> Inr (t\<lparr>raw_items := smap_set (sle_key sle) (action, sle) (raw_items t)\<rparr>)))"

definition RawStateTable_read :: "ReadView \<Rightarrow> RawStateTable \<Rightarrow> Keylet \<Rightarrow> SLE option res" where
  "RawStateTable_read base t k =
     (case smap_find (kl_key k) (raw_items t) of
        None \<Rightarrow> rv_read base k
      | Some (action, sle) \<Rightarrow>
          if action = Raw_erase then Inr None
          else if \<not> Keylet_check k sle then Inr None
          else Inr (Some sle))"

definition RawStateTable_destroySFC :: "int \<Rightarrow> RawStateTable \<Rightarrow> RawStateTable res" where
  "RawStateTable_destroySFC fee t = Inr (t\<lparr>raw_dropsDestroyed := raw_dropsDestroyed t + fee\<rparr>)"

section \<open>The iterator\<close>

text \<open>
  An iterator position is the rest of its range; the two ends are empty rests.  Moving past an
  end and using a null entry are errors.
\<close>

record sles_iter =
  sle0 :: "SLE option"
  iter0 :: "SLE list"
  sle1 :: "SLE option"
  iter1 :: raw_items_t

definition sles_iter_inc0 :: "sles_iter \<Rightarrow> sles_iter res" where
  "sles_iter_inc0 it =
     (case iter0 it of
        [] \<Rightarrow> Inl NullDereference
      | _ # rest \<Rightarrow> Inr (it\<lparr>iter0 := rest, sle0 := (case rest of [] \<Rightarrow> None | x # _ \<Rightarrow> Some x)\<rparr>))"

definition sles_iter_inc1 :: "sles_iter \<Rightarrow> sles_iter res" where
  "sles_iter_inc1 it =
     (case iter1 it of
        [] \<Rightarrow> Inl NullDereference
      | _ # rest \<Rightarrow>
          Inr (it\<lparr>iter1 := rest, sle1 := (case rest of [] \<Rightarrow> None | (_, _, x) # _ \<Rightarrow> Some x)\<rparr>))"

function sles_iter_skip :: "sles_iter \<Rightarrow> sles_iter res" where
  "sles_iter_skip it =
     (case iter1 it of
        [] \<Rightarrow> Inr it
      | (_, action, _) # _ \<Rightarrow>
          if action \<noteq> Raw_erase then Inr it
          else
            bindE (deref (sle0 it)) (\<lambda>s0.
            bindE (deref (sle1 it)) (\<lambda>s1.
              if sle_key s0 \<noteq> sle_key s1 then Inr it
              else
                bindE (sles_iter_inc1 it) (\<lambda>it1.
                bindE (sles_iter_inc0 it1) (\<lambda>it2.
                  if sle0 it2 = None then Inr it2 else sles_iter_skip it2)))))"
  by pat_completeness auto
termination
  by (relation "measure (\<lambda>it. length (iter1 it))")
    (auto simp: sles_iter_inc0_def sles_iter_inc1_def split: list.splits)

declare sles_iter_skip.simps [simp del]

definition sles_iter_make :: "raw_items_t \<Rightarrow> SLE list \<Rightarrow> sles_iter res" where
  "sles_iter_make i1 i0 =
     (let it = \<lparr>sle0 = (case i0 of [] \<Rightarrow> None | x # _ \<Rightarrow> Some x), iter0 = i0, sle1 = None, iter1 = i1\<rparr>
      in (case i1 of
            [] \<Rightarrow> Inr it
          | (_, _, x) # _ \<Rightarrow> sles_iter_skip (it\<lparr>sle1 := Some x\<rparr>)))"

definition sles_iter_increment :: "sles_iter \<Rightarrow> sles_iter res" where
  "sles_iter_increment it =
     (if sle1 it \<noteq> None \<and> sle0 it = None then sles_iter_inc1 it
      else if sle0 it \<noteq> None \<and> sle1 it = None then sles_iter_inc0 it
      else
        bindE (deref (sle1 it)) (\<lambda>s1.
        bindE (deref (sle0 it)) (\<lambda>s0.
        bindE (if sle_key s1 = sle_key s0 then bindE (sles_iter_inc1 it) sles_iter_inc0
               else if sle_key s1 < sle_key s0 then sles_iter_inc1 it
               else sles_iter_inc0 it)
          sles_iter_skip)))"

definition sles_iter_dereference :: "sles_iter \<Rightarrow> SLE option" where
  "sles_iter_dereference it =
     (case (sle1 it, sle0 it) of
        (None, _) \<Rightarrow> sle0 it
      | (_, None) \<Rightarrow> sle1 it
      | (Some s1, Some s0) \<Rightarrow> if sle_key s1 \<le> sle_key s0 then sle1 it else sle0 it)"

definition sles_iter_at_end :: "sles_iter \<Rightarrow> bool" where
  "sles_iter_at_end it \<longleftrightarrow> iter1 it = [] \<and> iter0 it = []"

text \<open>A loop over the range visits the iterator's entries until it equals the end.\<close>

lemma skip_shrinks:
  "sles_iter_skip it = Inr it' \<Longrightarrow>
     length (iter0 it') + length (iter1 it') \<le> length (iter0 it) + length (iter1 it)"
proof (induction it rule: sles_iter_skip.induct)
  case (1 it)
  show ?case using 1(2) unfolding sles_iter_skip.simps[of it]
    by (fastforce simp: sles_iter_inc0_def sles_iter_inc1_def split: list.splits if_splits dest: 1(1)[rotated -1])
qed

lemma increment_shrinks:
  assumes "sles_iter_increment it = Inr it'"
  shows "length (iter0 it') + length (iter1 it') < length (iter0 it) + length (iter1 it)"
  using assms
  by (auto simp: sles_iter_increment_def sles_iter_inc0_def sles_iter_inc1_def
      dest!: skip_shrinks split: if_splits list.splits)

function sles_range :: "sles_iter \<Rightarrow> SLE list res" where
  "sles_range it =
     (if sles_iter_at_end it then Inr []
      else
        bindE (deref (sles_iter_dereference it)) (\<lambda>x.
        bindE (sles_iter_increment it) (\<lambda>it'.
        bindE (sles_range it') (\<lambda>xs. Inr (x # xs)))))"
  by pat_completeness auto
termination
  by (relation "measure (\<lambda>it. length (iter0 it) + length (iter1 it))") (auto dest: increment_shrinks)

declare sles_range.simps [simp del]

definition RawStateTable_sles :: "ReadView \<Rightarrow> RawStateTable \<Rightarrow> SLE list res" where
  "RawStateTable_sles base t =
     bindE (rv_sles base) (\<lambda>i0. bindE (sles_iter_make (raw_items t) i0) sles_range)"

definition RawStateTable_slesUpperBound :: "ReadView \<Rightarrow> RawStateTable \<Rightarrow> key256 \<Rightarrow> SLE list res" where
  "RawStateTable_slesUpperBound base t key =
     bindE (rv_slesUpperBound base key) (\<lambda>i0.
     bindE (sles_iter_make (smap_upper_bound key (raw_items t)) i0) sles_range)"

section \<open>The open view\<close>

record OpenView =
  ov_items :: RawStateTable
  ov_txs :: "(key256, Blob \<times> Blob option) stdmap"

definition OpenView_txCount :: "OpenView \<Rightarrow> nat" where
  "OpenView_txCount v = length (ov_txs v)"

definition OpenView_apply :: "('s, 'z) TxsRawView_scheme \<Rightarrow> OpenView \<Rightarrow> 's \<Rightarrow> 's res" where
  "OpenView_apply to v s =
     bindE (RawStateTable_apply to (ov_items v) s)
       (forE (\<lambda>(key, txn, metaData). rw_txInsert to key txn metaData) (ov_txs v))"

definition OpenView_view :: "ReadView \<Rightarrow> OpenView \<Rightarrow> ReadView" where
  "OpenView_view base v =
     \<lparr>rv_exists = RawStateTable_exists base (ov_items v),
      rv_read = RawStateTable_read base (ov_items v),
      rv_succ = RawStateTable_succ base (ov_items v),
      rv_sles = RawStateTable_sles base (ov_items v),
      rv_slesUpperBound = RawStateTable_slesUpperBound base (ov_items v)\<rparr>"

definition OpenView_txExists :: "OpenView \<Rightarrow> key256 \<Rightarrow> bool" where
  "OpenView_txExists v key = (smap_find key (ov_txs v) \<noteq> None)"

definition OpenView_rawErase :: "SLE \<Rightarrow> OpenView \<Rightarrow> OpenView res" where
  "OpenView_rawErase sle v =
     bindE (RawStateTable_erase sle (ov_items v)) (\<lambda>t. Inr (v\<lparr>ov_items := t\<rparr>))"

definition OpenView_rawInsert :: "SLE \<Rightarrow> OpenView \<Rightarrow> OpenView res" where
  "OpenView_rawInsert sle v =
     bindE (RawStateTable_insert sle (ov_items v)) (\<lambda>t. Inr (v\<lparr>ov_items := t\<rparr>))"

definition OpenView_rawReplace :: "SLE \<Rightarrow> OpenView \<Rightarrow> OpenView res" where
  "OpenView_rawReplace sle v =
     bindE (RawStateTable_replace sle (ov_items v)) (\<lambda>t. Inr (v\<lparr>ov_items := t\<rparr>))"

definition OpenView_rawDestroySFC :: "int \<Rightarrow> OpenView \<Rightarrow> OpenView res" where
  "OpenView_rawDestroySFC fee v =
     bindE (RawStateTable_destroySFC fee (ov_items v)) (\<lambda>t. Inr (v\<lparr>ov_items := t\<rparr>))"

definition OpenView_rawTxInsert :: "key256 \<Rightarrow> Blob \<Rightarrow> Blob option \<Rightarrow> OpenView \<Rightarrow> OpenView res" where
  "OpenView_rawTxInsert key txn metaData v =
     (if smap_find key (ov_txs v) \<noteq> None
        then Inl (LogicError ''rawTxInsert: duplicate TX id'')
      else Inr (v\<lparr>ov_txs := smap_set key (txn, metaData) (ov_txs v)\<rparr>))"

definition OpenView_raw :: "OpenView TxsRawView" where
  "OpenView_raw =
     \<lparr>rw_erase = OpenView_rawErase, rw_insert = OpenView_rawInsert,
      rw_replace = OpenView_rawReplace, rw_destroySFC = OpenView_rawDestroySFC,
      rw_txInsert = OpenView_rawTxInsert\<rparr>"

section \<open>What a table stands for\<close>

definition raw_overlay :: "raw_items_t \<Rightarrow> (key256 \<rightharpoonup> SLE) \<Rightarrow> key256 \<rightharpoonup> SLE" where
  "raw_overlay items M k =
     (case smap_find k items of
        None \<Rightarrow> M k
      | Some (action, sle) \<Rightarrow> if action = Raw_erase then None else Some sle)"

text \<open>
  A table fits the base map \<open>M\<close>: entries are stored under their own key, an insertion is of a key
  the base does not have, an erasure or replacement of one it has.
\<close>

definition raw_ok :: "(key256 \<rightharpoonup> SLE) \<Rightarrow> raw_items_t \<Rightarrow> bool" where
  "raw_ok M items \<longleftrightarrow> smap_wf items \<and>
     (\<forall>k action sle. smap_find k items = Some (action, sle) \<longrightarrow>
        sle_key sle = k \<and> k \<noteq> 0 \<and> (action = Raw_insert \<longleftrightarrow> M k = None))"

lemma raw_ok_item:
  assumes "raw_ok M items" and "smap_find k items = Some (action, sle)"
  shows "sle_key sle = k" and "k \<noteq> 0" and "action = Raw_insert \<longleftrightarrow> M k = None"
  using assms unfolding raw_ok_def by blast+

lemma raw_ok_set:
  assumes "raw_ok M items" and "sle_key sle \<noteq> 0" and "action = Raw_insert \<longleftrightarrow> M (sle_key sle) = None"
  shows "raw_ok M (smap_set (sle_key sle) (action, sle) items)"
  using assms by (auto simp: raw_ok_def smap_find_set)

lemma raw_ok_erase: "raw_ok M items \<Longrightarrow> raw_ok M (smap_erase k items)"
  by (auto simp: raw_ok_def smap_simps split: if_splits)

lemma raw_overlay_set:
  "raw_overlay (smap_set k (action, sle) items) M =
     (raw_overlay items M)(k := if action = Raw_erase then None else Some sle)"
  by (auto simp: raw_overlay_def smap_find_set)

lemma raw_overlay_erase: "M k = None \<Longrightarrow> raw_overlay (smap_erase k items) M = (raw_overlay items M)(k := None)"
  by (auto simp: raw_overlay_def smap_simps)

lemma raw_overlay_keyed: "keyed M \<Longrightarrow> raw_ok M items \<Longrightarrow> keyed (raw_overlay items M)"
  by (fastforce simp: keyed_def raw_overlay_def raw_ok_def split: option.splits if_splits)

definition open_abs :: "(key256 \<rightharpoonup> SLE) \<Rightarrow> OpenView \<Rightarrow> key256 \<rightharpoonup> SLE" where
  "open_abs M v = raw_overlay (raw_items (ov_items v)) M"

definition open_ok :: "(key256 \<rightharpoonup> SLE) \<Rightarrow> OpenView \<Rightarrow> bool" where
  "open_ok M v \<longleftrightarrow> keyed M \<and> raw_ok M (raw_items (ov_items v)) \<and> smap_wf (ov_txs v)"

lemmas open_raw_defs = OpenView_raw_def OpenView_rawErase_def OpenView_rawInsert_def
  OpenView_rawReplace_def OpenView_rawDestroySFC_def RawStateTable_erase_def
  RawStateTable_insert_def RawStateTable_replace_def RawStateTable_destroySFC_def

lemma open_insert:
  assumes ok: "open_ok M v" and k: "sle_key sle \<noteq> 0" and new: "open_abs M v (sle_key sle) = None"
  shows "\<exists>v'. rw_insert OpenView_raw sle v = Inr v' \<and> open_ok M v' \<and>
    open_abs M v' = (open_abs M v)(sle_key sle \<mapsto> sle) \<and>
    raw_dropsDestroyed (ov_items v') = raw_dropsDestroyed (ov_items v)"
proof (cases "smap_find (sle_key sle) (raw_items (ov_items v))")
  case None
  then show ?thesis using assms
    by (auto simp: open_raw_defs open_ok_def open_abs_def raw_overlay_set raw_overlay_def[of _ M "sle_key sle"]
        intro!: raw_ok_set)
next
  case (Some item)
  moreover obtain action old where item: "item = (action, old)" by fastforce
  moreover have "action = Raw_erase" using Some item new
    by (auto simp: open_abs_def raw_overlay_def split: if_splits)
  ultimately show ?thesis using assms raw_ok_item(3)[of M]
    by (fastforce simp: open_raw_defs open_ok_def open_abs_def raw_overlay_set intro!: raw_ok_set)
qed

lemma open_replace:
  assumes ok: "open_ok M v" and old: "open_abs M v (sle_key sle) \<noteq> None"
  shows "\<exists>v'. rw_replace OpenView_raw sle v = Inr v' \<and> open_ok M v' \<and>
    open_abs M v' = (open_abs M v)(sle_key sle \<mapsto> sle) \<and>
    raw_dropsDestroyed (ov_items v') = raw_dropsDestroyed (ov_items v)"
proof -
  have k: "sle_key sle \<noteq> 0" using assms raw_overlay_keyed keyed_nonzero
    unfolding open_ok_def open_abs_def by blast
  show ?thesis
  proof (cases "smap_find (sle_key sle) (raw_items (ov_items v))")
    case None
    then show ?thesis using assms k
      by (auto simp: open_raw_defs open_ok_def open_abs_def raw_overlay_set
          raw_overlay_def[of _ M "sle_key sle"] intro!: raw_ok_set)
  next
    case (Some item)
    moreover obtain action sle0 where item: "item = (action, sle0)" by fastforce
    moreover have "action \<noteq> Raw_erase" using Some item old
      by (auto simp: open_abs_def raw_overlay_def split: if_splits)
    ultimately show ?thesis using assms k raw_ok_item(3)[of M]
      by (cases action)
        (fastforce simp: open_raw_defs open_ok_def open_abs_def raw_overlay_set intro!: raw_ok_set)+
  qed
qed

lemma open_erase:
  assumes ok: "open_ok M v" and old: "open_abs M v (sle_key sle) \<noteq> None"
  shows "\<exists>v'. rw_erase OpenView_raw sle v = Inr v' \<and> open_ok M v' \<and>
    open_abs M v' = (open_abs M v)(sle_key sle := None) \<and>
    raw_dropsDestroyed (ov_items v') = raw_dropsDestroyed (ov_items v)"
proof -
  have k: "sle_key sle \<noteq> 0" using assms raw_overlay_keyed keyed_nonzero
    unfolding open_ok_def open_abs_def by blast
  show ?thesis
  proof (cases "smap_find (sle_key sle) (raw_items (ov_items v))")
    case None
    then show ?thesis using assms k
      by (auto simp: open_raw_defs open_ok_def open_abs_def raw_overlay_set
          raw_overlay_def[of _ M "sle_key sle"] intro!: raw_ok_set)
  next
    case (Some item)
    moreover obtain action sle0 where item: "item = (action, sle0)" by fastforce
    moreover have "action \<noteq> Raw_erase" using Some item old
      by (auto simp: open_abs_def raw_overlay_def split: if_splits)
    moreover have "action = Raw_insert \<longleftrightarrow> M (sle_key sle) = None"
      using ok Some item raw_ok_item(3) by (fastforce simp: open_ok_def)
    ultimately show ?thesis using assms k
      by (cases action)
        (auto simp: open_raw_defs open_ok_def open_abs_def raw_overlay_set raw_overlay_erase
          intro!: raw_ok_set raw_ok_erase)
  qed
qed

interpretation open_raw: raw_view OpenView_raw "open_abs M" "\<lambda>v. raw_dropsDestroyed (ov_items v)" "open_ok M"
  "\<lambda>_. True"
  for M
  by unfold_locales
    ((rule open_insert open_replace open_erase; assumption)+,
     simp add: open_raw_defs open_ok_def open_abs_def)

section \<open>Applying a table\<close>

text \<open>
  A view that stands for the base map and takes the changes of a table in order stands for the
  overlaid map; only the keys of the table change, and the destroyed drops are added up.
\<close>

lemma raw_ok_Cons:
  assumes "raw_ok M ((k, action, sle) # items)"
  shows "sle_key sle = k" and "k \<noteq> 0" and "action = Raw_insert \<longleftrightarrow> M k = None"
    and "raw_ok (M(k := x)) items"
    and "raw_overlay ((k, action, sle) # items) M =
      raw_overlay items (M(k := if action = Raw_erase then None else Some sle))"
proof -
  have k: "smap_find k items = None" using assms by (auto simp: raw_ok_def smap_find_None)
  show "sle_key sle = k" "k \<noteq> 0" "action = Raw_insert \<longleftrightarrow> M k = None"
    using raw_ok_item[OF assms, of k action sle] by simp_all
  have "sle_key sle' = k' \<and> k' \<noteq> 0 \<and> (action' = Raw_insert \<longleftrightarrow> (M(k := x)) k' = None)"
    if "smap_find k' items = Some (action', sle')" for k' action' sle'
    using raw_ok_item[OF assms, of k' action' sle'] that k by (cases "k' = k") simp_all
  moreover have "smap_wf items" using assms by (simp add: raw_ok_def)
  ultimately show "raw_ok (M(k := x)) items" unfolding raw_ok_def by blast
  show "raw_overlay ((k, action, sle) # items) M =
      raw_overlay items (M(k := if action = Raw_erase then None else Some sle))"
    using k by (auto simp: raw_overlay_def fun_eq_iff split: option.split)
qed

text \<open>The entries that a table makes a view store.\<close>

definition items_storable :: "(SLE \<Rightarrow> bool) \<Rightarrow> raw_items_t \<Rightarrow> bool" where
  "items_storable storable items \<longleftrightarrow> list_all (\<lambda>(_, action, sle). action \<noteq> Raw_erase \<longrightarrow> storable sle) items"

context raw_view
begin

lemma run_items:
  assumes "ok s" and "raw_ok (abs s) items" and "items_storable storable items"
  shows "\<exists>s'. forE (raw_action R) items s = Inr s' \<and> ok s' \<and> abs s' = raw_overlay items (abs s) \<and>
    burned s' = burned s"
  using assms
proof (induction items arbitrary: s)
  case Nil
  then show ?case by (auto simp: raw_overlay_def)
next
  case (Cons item items)
  obtain k action sle where item: "item = (k, action, sle)" by (cases item) auto
  note c = raw_ok_Cons[OF Cons.prems(2)[unfolded item]]
  have "\<exists>s1. raw_action R item s = Inr s1 \<and> ok s1 \<and>
    abs s1 = (abs s)(k := if action = Raw_erase then None else Some sle) \<and> burned s1 = burned s"
    using c(1-3) insert_ok[OF Cons.prems(1), of sle] replace_ok[OF Cons.prems(1), of sle]
      erase_ok[OF Cons.prems(1), of sle]
      Cons.prems(3)
    by (cases action) (simp_all add: raw_action_def item items_storable_def)
  then obtain s1 where s1: "raw_action R item s = Inr s1" "ok s1"
    "abs s1 = (abs s)(k := if action = Raw_erase then None else Some sle)" "burned s1 = burned s"
    by blast
  have "raw_ok (abs s1) items" unfolding s1(3) by (rule c(4))
  then obtain s2 where "forE (raw_action R) items s1 = Inr s2" "ok s2"
    "abs s2 = raw_overlay items (abs s1)" "burned s2 = burned s1"
    using Cons.IH[OF s1(2)] Cons.prems(3) by (auto simp: items_storable_def)
  then show ?case using s1 c(5) unfolding item by (intro exI[of _ s2]) simp
qed

lemma raw_table_applied:
  assumes "ok s" and "raw_ok (abs s) (raw_items t)" and "items_storable storable (raw_items t)"
  shows "\<exists>s'. RawStateTable_apply R t s = Inr s' \<and> ok s' \<and> abs s' = raw_overlay (raw_items t) (abs s) \<and>
    burned s' = burned s + raw_dropsDestroyed t"
proof -
  obtain s1 where "rw_destroySFC R (raw_dropsDestroyed t) s = Inr s1" "ok s1" "abs s1 = abs s"
    "burned s1 = burned s + raw_dropsDestroyed t"
    using destroy_ok[OF assms(1)] by blast
  then show ?thesis using run_items[of s1 "raw_items t"] assms(2,3)
    by (simp add: RawStateTable_apply_def)
qed

end

section \<open>The overlay as a view\<close>

lemma card_above: "key < (k :: key256) \<Longrightarrow> card {k<..} < card {key<..}"
  by (rule psubset_card_mono) auto

text \<open>The loop over the base ends and finds the least key of the base that is not erased.\<close>

lemma succ_base_next_key:
  assumes "\<And>key. rv_succ base key last1 = Inr (next_key D key last1)"
  shows "succ_base base erased key last1 = Some (Inr (next_key (D - {k. erased k}) key last1))"
proof (induction "card {key<..}" arbitrary: key rule: less_induct)
  case less
  note unf = succ_base.simps[of base erased key last1] assms[of key]
  show ?case
  proof (cases "next_key D key last1")
    case None
    then have "candidates D key last1 = {}" by (simp add: next_key_None)
    then have "candidates (D - {k. erased k}) key last1 = {}" by (auto simp: candidates_def)
    then show ?thesis using None by (simp add: unf next_key_def)
  next
    case (Some n)
    then have n: "n \<in> D" "key < n" "\<And>l. last1 = Some l \<Longrightarrow> n < l"
      and least: "\<And>k. k \<in> candidates D key last1 \<Longrightarrow> n \<le> k"
      by (auto simp: next_key_Some candidates_def)
    show ?thesis
    proof (cases "erased n")
      case True
      have "candidates (D - {k. erased k}) n last1 = candidates (D - {k. erased k}) key last1"
      proof (rule set_eqI)
        fix k
        have "k \<in> candidates D key last1 \<Longrightarrow> k \<noteq> n \<Longrightarrow> n < k" using least[of k] by simp
        then show "k \<in> candidates (D - {k. erased k}) n last1 \<longleftrightarrow> k \<in> candidates (D - {k. erased k}) key last1"
          using n(2) True unfolding candidates_def by (auto intro: less_trans)
      qed
      then have "next_key (D - {k. erased k}) n last1 = next_key (D - {k. erased k}) key last1"
        by (simp add: next_key_def)
      then show ?thesis using Some True less[OF card_above[OF n(2)]] by (simp add: unf)
    next
      case False
      then have "next_key (D - {k. erased k}) key last1 = Some n"
        using n least by (auto simp: next_key_Some candidates_def)
      then show ?thesis using Some False by (simp add: unf)
    qed
  qed
qed

lemma find_first_filter: "find P xs = (case filter P xs of [] \<Rightarrow> None | x # _ \<Rightarrow> Some x)"
  by (induction xs) auto

lemma find_live:
  assumes "smap_wf items"
  shows "map_option fst (find (\<lambda>(_, item). live item) (smap_upper_bound key items)) =
    next_key {k. \<exists>item. smap_find k items = Some item \<and> live item} key None"
proof -
  let ?m = "filter (\<lambda>(_, item). live item) items"
  have wf: "smap_wf ?m" using assms by (rule smap_wf_filter)
  have "{k. \<exists>item. smap_find k items = Some item \<and> live item} = dom (map_of ?m)"
    using assms wf by (auto simp: smap_find_Some dom_def)
  moreover have "smap_upper_bound key ?m = filter (\<lambda>(_, item). live item) (smap_upper_bound key items)"
    using assms wf by (simp add: smap_upper_bound_filter conj_commute case_prod_unfold)
  ultimately show ?thesis
    by (simp add: next_key_upper_bound[OF wf] find_first_filter split: list.split)
qed

lemma succ_merge_next_key:
  assumes "smap_wf items" and B: "B = {k. \<exists>item. smap_find k items = Some item \<and> live item}"
  shows "succ_merge live items key last1 (next_key A key last1) = next_key (A \<union> B) key last1"
proof -
  let ?r = "succ_merge live items key last1 (next_key A key last1)"
  have Bk: "map_option fst (find (\<lambda>(_, item). live item) (smap_upper_bound key items)) = next_key B key None"
    using find_live[OF assms(1)] B by simp
  have eq: "?r = (let n = (case next_key B key None of None \<Rightarrow> next_key A key last1
         | Some k \<Rightarrow> if (case next_key A key last1 of None \<Rightarrow> True | Some n \<Rightarrow> k < n) then Some k else next_key A key last1)
       in (case (last1, n) of (Some l, Some n') \<Rightarrow> if l \<le> n' then None else n | _ \<Rightarrow> n))"
    unfolding succ_merge_def Bk[symmetric] by (auto split: option.split)
  show ?thesis
  proof (cases "next_key (A \<union> B) key last1")
    case None
    then have e: "candidates (A \<union> B) key last1 = {}" by (simp add: next_key_None)
    then have a: "next_key A key last1 = None" by (auto simp: next_key_None candidates_def)
    have "?r = None"
    proof (cases "next_key B key None")
      case None
      then show ?thesis unfolding eq by (simp add: a split: option.split)
    next
      case (Some k)
      then have "k \<in> B" "key < k" by (auto simp: next_key_Some candidates_def)
      then have "\<exists>l. last1 = Some l \<and> l \<le> k" using e by (force simp: candidates_def)
      then show ?thesis using Some a unfolding eq by auto
    qed
    then show ?thesis using None by simp
  next
    case (Some n)
    then have n: "n \<in> A \<union> B" "key < n" "\<And>l. last1 = Some l \<Longrightarrow> n < l"
      and least: "\<And>k. k \<in> candidates (A \<union> B) key last1 \<Longrightarrow> n \<le> k"
      by (auto simp: next_key_Some candidates_def)
    have a: "n \<le> k" if "next_key A key last1 = Some k" for k
      using that by (intro least) (auto simp: next_key_Some candidates_def)
    have b: "n \<le> k" if "next_key B key None = Some k" for k
    proof (cases "\<exists>l. last1 = Some l \<and> l \<le> k")
      case True
      then show ?thesis using n(3) by (auto intro: order.strict_implies_order order_less_le_trans)
    next
      case False
      then show ?thesis using that by (intro least) (auto simp: next_key_Some candidates_def not_le)
    qed
    have "next_key A key last1 = Some n \<or> next_key B key None = Some n"
    proof (cases "n \<in> A")
      case True
      then have "next_key A key last1 = Some n" using n(2,3) least
        by (auto simp: next_key_Some candidates_def)
      then show ?thesis ..
    next
      case False
      then have "n \<in> candidates B key None" using n by (auto simp: candidates_def)
      then obtain k where k: "next_key B key None = Some k" "k \<le> n"
        by (cases "next_key B key None") (auto simp: next_key_None next_key_Some)
      then show ?thesis using b by fastforce
    qed
    then have "?r = Some n" using a b n(3) unfolding eq
      by (auto simp: Let_def not_le split: option.split if_splits)
    then show ?thesis using Some by simp
  qed
qed

lemma dom_raw_overlay:
  "dom (raw_overlay items M) = (dom M - {k. raw_erased items k}) \<union>
     {k. \<exists>item. smap_find k items = Some item \<and> (\<lambda>(action, _). action \<noteq> Raw_erase) item}"
  by (auto simp: raw_overlay_def raw_erased_def dom_def split: option.splits if_splits)

lemma RawStateTable_succ_next_key:
  assumes "\<And>key. rv_succ base key last1 = Inr (next_key (dom M) key last1)" and "raw_ok M (raw_items t)"
  shows "RawStateTable_succ base t key last1 = Inr (next_key (dom (raw_overlay (raw_items t) M)) key last1)"
proof -
  have "smap_wf (raw_items t)" using assms(2) unfolding raw_ok_def by blast
  then show ?thesis
    by (simp add: RawStateTable_succ_def succ_base_next_key[OF assms(1)]
        succ_merge_next_key[OF _ refl] dom_raw_overlay)
qed

section \<open>The iterator as a merge\<close>

text \<open>
  The reference: a merge of the base range with the table in which an entry of the table hides the
  base entry with the same key and an erased key gives nothing.
\<close>

fun sles_merge :: "SLE list \<Rightarrow> raw_items_t \<Rightarrow> SLE list" where
  "sles_merge [] items = map (snd \<circ> snd) items"
| "sles_merge xs [] = xs"
| "sles_merge (x # xs) ((k, action, sle) # items) =
     (if k = sle_key x then
        (if action = Raw_erase then sles_merge xs items else sle # sles_merge xs items)
      else if k < sle_key x then sle # sles_merge (x # xs) items
      else x # sles_merge xs ((k, action, sle) # items))"

text \<open>
  What holds between the two rests of an iterator: both in key order, and every erased key of the
  table is still in the base.
\<close>

definition ranges_ok :: "SLE list \<Rightarrow> raw_items_t \<Rightarrow> bool" where
  "ranges_ok xs items \<longleftrightarrow> sorted_wrt (<) (map sle_key xs) \<and> smap_wf items \<and>
     (\<forall>(k, action, sle) \<in> set items. sle_key sle = k \<and> (action = Raw_erase \<longrightarrow> k \<in> sle_key ` set xs))"

definition iter_ok :: "sles_iter \<Rightarrow> bool" where
  "iter_ok it \<longleftrightarrow> ranges_ok (iter0 it) (iter1 it) \<and>
     sle0 it = (case iter0 it of [] \<Rightarrow> None | x # _ \<Rightarrow> Some x) \<and>
     sle1 it = (case iter1 it of [] \<Rightarrow> None | (_, _, x) # _ \<Rightarrow> Some x)"

text \<open>After \<open>skip\<close> the iterator does not stand on an erased entry.\<close>

definition iter_ready :: "sles_iter \<Rightarrow> bool" where
  "iter_ready it \<longleftrightarrow> iter_ok it \<and>
     (case (iter0 it, iter1 it) of
        (x # _, (k, action, _) # _) \<Rightarrow> k \<noteq> sle_key x \<or> action \<noteq> Raw_erase
      | _ \<Rightarrow> True)"

lemma ranges_ok_drop_both:
  "ranges_ok (x # xs) ((sle_key x, action, sle) # items) \<Longrightarrow> ranges_ok xs items"
  by (fastforce simp: ranges_ok_def)

lemma ranges_ok_drop0:
  "ranges_ok (x # xs) ((k, action, sle) # items) \<Longrightarrow> sle_key x < k \<Longrightarrow> ranges_ok xs ((k, action, sle) # items)"
  by (fastforce simp: ranges_ok_def)

lemma ranges_ok_drop1: "ranges_ok xs (item # items) \<Longrightarrow> ranges_ok xs items"
  by (cases item) (simp add: ranges_ok_def)

lemma ranges_ok_drop0_Nil: "ranges_ok (x # xs) [] \<Longrightarrow> ranges_ok xs []"
  by (simp add: ranges_ok_def)

text \<open>An erased key at the front of the table is at or after the front of the base.\<close>

lemma ranges_ok_erase:
  assumes "ranges_ok xs ((k, Raw_erase, sle) # items)"
  obtains x ys where "xs = x # ys" "sle_key x \<le> k"
  using assms by (cases xs) (auto simp: ranges_ok_def intro: less_imp_le)

lemma skip_ready:
  "iter_ok it \<Longrightarrow> \<exists>it'. sles_iter_skip it = Inr it' \<and> iter_ready it' \<and>
     sles_merge (iter0 it') (iter1 it') = sles_merge (iter0 it) (iter1 it)"
proof (induction "length (iter1 it)" arbitrary: it rule: less_induct)
  case less
  note unf = sles_iter_skip.simps[of it]
  show ?case
  proof (cases "iter1 it")
    case Nil
    then show ?thesis using less.prems by (auto simp: unf iter_ready_def split: list.split)
  next
    case (Cons item items)
    obtain k action sle where item: "item = (k, action, sle)" by (cases item) auto
    show ?thesis
    proof (cases "action = Raw_erase")
      case False
      then show ?thesis using less.prems Cons item by (auto simp: unf iter_ready_def split: list.split)
    next
      case True
      obtain x xs where x: "iter0 it = x # xs" "sle_key x \<le> k"
        using less.prems ranges_ok_erase[of "iter0 it" k sle items] unfolding iter_ok_def Cons item True
        by auto
      have c: "sle0 it = Some x" "sle1 it = Some sle" "sle_key sle = k"
        using less.prems x Cons item by (auto simp: iter_ok_def ranges_ok_def)
      show ?thesis
      proof (cases "sle_key x = k")
        case False
        then show ?thesis using less.prems Cons item x True c by (auto simp: unf iter_ready_def)
      next
        case eq: True
        define it2 where "it2 = it\<lparr>iter1 := items, sle1 := (case items of [] \<Rightarrow> None | (_, _, x) # _ \<Rightarrow> Some x),
          iter0 := xs, sle0 := (case xs of [] \<Rightarrow> None | x # _ \<Rightarrow> Some x)\<rparr>"
        have ok2: "iter_ok it2"
          using less.prems ranges_ok_drop_both[of x xs action sle items] x eq
          by (auto simp: iter_ok_def it2_def Cons item)
        have step: "sles_iter_skip it = (if sle0 it2 = None then Inr it2 else sles_iter_skip it2)"
          using c eq x True by (simp add: unf Cons item sles_iter_inc0_def sles_iter_inc1_def it2_def)
        have same: "sles_merge (iter0 it2) (iter1 it2) = sles_merge (iter0 it) (iter1 it)"
          using x eq True by (simp add: it2_def Cons item)
        show ?thesis
        proof (cases "sle0 it2 = None")
          case True
          then have "xs = []" by (auto simp: it2_def split: list.splits)
          then have "iter_ready it2" using ok2 by (simp add: iter_ready_def it2_def)
          then show ?thesis using step same True by auto
        next
          case False
          have "length (iter1 it2) < length (iter1 it)" by (simp add: it2_def Cons)
          from less.hyps[OF this ok2] show ?thesis using step same False by auto
        qed
      qed
    qed
  qed
qed

lemma make_ready:
  assumes "ranges_ok xs items"
  shows "\<exists>it. sles_iter_make items xs = Inr it \<and> iter_ready it \<and>
    sles_merge (iter0 it) (iter1 it) = sles_merge xs items"
proof (cases items)
  case Nil
  then show ?thesis using assms by (simp add: sles_iter_make_def iter_ready_def iter_ok_def split: list.split)
next
  case (Cons item rest)
  then show ?thesis using assms skip_ready[of "\<lparr>sle0 = (case xs of [] \<Rightarrow> None | x # _ \<Rightarrow> Some x), iter0 = xs,
      sle1 = Some (snd (snd item)), iter1 = items\<rparr>"]
    by (cases item) (simp add: sles_iter_make_def iter_ok_def)
qed

text \<open>One increment emits the head of the merge.\<close>

lemma increment_ready:
  assumes "iter_ready it" and "\<not> sles_iter_at_end it"
  shows "\<exists>x it'. sles_iter_dereference it = Some x \<and> sles_iter_increment it = Inr it' \<and> iter_ready it' \<and>
    sles_merge (iter0 it) (iter1 it) = x # sles_merge (iter0 it') (iter1 it')"
proof -
  have ok: "ranges_ok (iter0 it) (iter1 it)"
    and c0: "sle0 it = (case iter0 it of [] \<Rightarrow> None | x # _ \<Rightarrow> Some x)"
    and c1: "sle1 it = (case iter1 it of [] \<Rightarrow> None | (_, _, x) # _ \<Rightarrow> Some x)"
    using assms(1) by (simp_all add: iter_ready_def iter_ok_def)
  note defs = sles_iter_dereference_def sles_iter_increment_def sles_iter_inc0_def sles_iter_inc1_def
  show ?thesis
  proof (cases "iter0 it")
    case Nil
    then obtain k action sle items where i1: "iter1 it = (k, action, sle) # items"
      using assms(2) by (cases "iter1 it") (auto simp: sles_iter_at_end_def)
    then show ?thesis using Nil c0 c1 ranges_ok_drop1[OF ok[unfolded i1]]
      by (simp add: defs iter_ready_def iter_ok_def)
  next
    case i0: (Cons x xs)
    show ?thesis
    proof (cases "iter1 it")
      case Nil
      then show ?thesis using i0 c0 c1 ok ranges_ok_drop0_Nil[of x xs]
        by (cases xs) (simp_all add: defs iter_ready_def iter_ok_def)
    next
      case (Cons item items)
      obtain k action sle where i1: "iter1 it = (k, action, sle) # items" using Cons by (cases item) auto
      have k: "sle_key sle = k" using ok i1 by (simp add: ranges_ok_def)
      define n0 :: "sles_iter \<Rightarrow> sles_iter" where "n0 = (\<lambda>it. it\<lparr>iter0 := xs, sle0 := (case xs of [] \<Rightarrow> None | x # _ \<Rightarrow> Some x)\<rparr>)"
      define n1 :: "sles_iter \<Rightarrow> sles_iter" where "n1 = (\<lambda>it. it\<lparr>iter1 := items, sle1 := (case items of [] \<Rightarrow> None | (_, _, x) # _ \<Rightarrow> Some x)\<rparr>)"
      note n = n0_def n1_def
      consider (both) "k = sle_key x" "action \<noteq> Raw_erase" | (one) "k < sle_key x" | (zero) "sle_key x < k"
        using linorder_less_linear[of k "sle_key x"] assms(1) i0 i1 by (auto simp: iter_ready_def)
      then show ?thesis
      proof cases
        case both
        have "iter_ok (n0 (n1 it))"
          using ranges_ok_drop_both[of x xs action sle items] ok i0 i1 both(1) by (simp add: iter_ok_def n)
        from skip_ready[OF this] show ?thesis
          using both i0 i1 c0 c1 k by (auto simp: defs n)
      next
        case one
        then have ne: "k \<noteq> sle_key x" "\<not> sle_key x < k" "k \<le> sle_key x" by auto
        have "iter_ok (n1 it)"
          using ranges_ok_drop1[of "iter0 it" "(k, action, sle)" items] ok i1 c0 by (simp add: iter_ok_def n)
        from skip_ready[OF this] show ?thesis
          using one ne i0 i1 c0 c1 k by (auto simp: defs n)
      next
        case zero
        then have ne: "k \<noteq> sle_key x" "\<not> k < sle_key x" "\<not> k \<le> sle_key x" by auto
        have "iter_ok (n0 it)"
          using ranges_ok_drop0[of x xs k action sle items] ok i0 i1 zero c1 by (simp add: iter_ok_def n)
        from skip_ready[OF this] show ?thesis
          using zero ne i0 i1 c0 c1 k by (auto simp: defs n)
      qed
    qed
  qed
qed


lemma range_merge: "iter_ready it \<Longrightarrow> sles_range it = Inr (sles_merge (iter0 it) (iter1 it))"
proof (induction "length (iter0 it) + length (iter1 it)" arbitrary: it rule: less_induct)
  case less
  show ?case
  proof (cases "sles_iter_at_end it")
    case True
    then show ?thesis by (simp add: sles_range.simps[of it] sles_iter_at_end_def)
  next
    case False
    obtain x it' where s: "sles_iter_dereference it = Some x" "sles_iter_increment it = Inr it'" "iter_ready it'"
      "sles_merge (iter0 it) (iter1 it) = x # sles_merge (iter0 it') (iter1 it')"
      using increment_ready[OF less.prems False] by blast
    then show ?thesis using less.hyps[OF increment_shrinks[OF s(2)] s(3)] False
      by (simp add: sles_range.simps[of it])
  qed
qed

definition base_only :: "SLE list \<Rightarrow> raw_items_t \<Rightarrow> SLE set" where
  "base_only xs items = {x \<in> set xs. smap_find (sle_key x) items = None}"

definition live_items :: "raw_items_t \<Rightarrow> SLE set" where
  "live_items items = {sle. \<exists>k action. (k, action, sle) \<in> set items \<and> action \<noteq> Raw_erase}"

lemma live_items_Cons:
  "live_items ((k, action, sle) # items) = (if action = Raw_erase then {} else {sle}) \<union> live_items items"
  by (auto simp: live_items_def)

lemma live_items_all: "\<forall>item \<in> set items. fst (snd item) \<noteq> Raw_erase \<Longrightarrow> live_items items = (snd \<circ> snd) ` set items"
proof (induction items)
  case (Cons item items)
  then show ?case by (cases item) (simp add: live_items_Cons)
qed (simp add: live_items_def)

lemma sles_merge_set:
  "ranges_ok xs items \<Longrightarrow> set (sles_merge xs items) = base_only xs items \<union> live_items items"
proof (induction xs items rule: sles_merge.induct)
  case (1 items)
  then have "\<forall>item \<in> set items. fst (snd item) \<noteq> Raw_erase" by (auto simp: ranges_ok_def)
  then show ?case by (simp add: base_only_def live_items_all)
next
  case (3 x xs k action sle items)
  have above: "\<forall>k' \<in> fst ` set items. k < k'" using 3(5) by (simp add: ranges_ok_def)
  have above0: "\<forall>y \<in> set xs. sle_key x < sle_key y" using 3(5) by (simp add: ranges_ok_def)
  note IH = 3(1-4)
  consider (both) "k = sle_key x" | (one) "k < sle_key x" | (zero) "sle_key x < k" by (rule linorder_cases)
  then show ?case
  proof cases
    case both
    have ok: "ranges_ok xs items" using ranges_ok_drop_both 3(5) both by blast
    have "base_only (x # xs) ((k, action, sle) # items) = base_only xs items"
      using above0 both unfolding base_only_def by auto
    then show ?thesis using IH(1,2)[OF both] ok both by (simp add: live_items_Cons)
  next
    case one
    then have ne: "k \<noteq> sle_key x" by simp
    have ok: "ranges_ok (x # xs) items" using ranges_ok_drop1 3(5) by blast
    have "action \<noteq> Raw_erase"
    proof
      assume "action = Raw_erase"
      then show False using ranges_ok_erase[of "x # xs" k sle items] 3(5) one by (metis list.inject not_le)
    qed
    moreover have "base_only (x # xs) ((k, action, sle) # items) = base_only (x # xs) items"
      using above0 one ne unfolding base_only_def by auto
    ultimately show ?thesis using IH(3)[OF ne one ok] one ne by (simp add: live_items_Cons)
  next
    case zero
    then have ne: "k \<noteq> sle_key x" "\<not> k < sle_key x" by auto
    have ok: "ranges_ok xs ((k, action, sle) # items)" using ranges_ok_drop0 3(5) zero by blast
    have "smap_find (sle_key x) ((k, action, sle) # items) = None"
      using ne above zero unfolding smap_find_None by auto
    then have "base_only (x # xs) ((k, action, sle) # items) = insert x (base_only xs ((k, action, sle) # items))"
      by (auto simp: base_only_def)
    then show ?thesis using IH(4)[OF ne ok] ne by simp
  qed
qed (auto simp: base_only_def live_items_def)

lemma sles_merge_keys:
  "ranges_ok xs items \<Longrightarrow> sle_key ` set (sles_merge xs items) \<subseteq> sle_key ` set xs \<union> fst ` set items"
proof
  fix k assume ok: "ranges_ok xs items" and "k \<in> sle_key ` set (sles_merge xs items)"
  then obtain y where y: "y \<in> set (sles_merge xs items)" "k = sle_key y" by blast
  have "sle_key y \<in> fst ` set items" if "(k', action, y) \<in> set items" for k' action
    using ok that by (force simp: ranges_ok_def)
  then show "k \<in> sle_key ` set xs \<union> fst ` set items"
    using y unfolding sles_merge_set[OF ok] base_only_def live_items_def by blast
qed

lemma sles_merge_sorted:
  "ranges_ok xs items \<Longrightarrow> sorted_wrt (<) (map sle_key (sles_merge xs items))"
proof (induction xs items rule: sles_merge.induct)
  case (1 items)
  then have "map sle_key (map (snd \<circ> snd) items) = map fst items" by (auto simp: ranges_ok_def)
  then show ?case using 1 unfolding ranges_ok_def smap_wf_def sles_merge.simps by argo
next
  case (3 x xs k action sle items)
  have k: "sle_key sle = k" using 3(5) by (simp add: ranges_ok_def)
  have above: "\<forall>k' \<in> fst ` set items. k < k'" using 3(5) by (simp add: ranges_ok_def)
  have above0: "\<forall>k' \<in> sle_key ` set xs. sle_key x < k'" using 3(5) by (simp add: ranges_ok_def)
  consider (both) "k = sle_key x" | (one) "k < sle_key x" | (zero) "sle_key x < k" by (rule linorder_cases)
  then show ?case
  proof cases
    case both
    have ok: "ranges_ok xs items" using ranges_ok_drop_both 3(5) both by blast
    then have "\<forall>k' \<in> sle_key ` set (sles_merge xs items). k < k'"
      using sles_merge_keys[OF ok] above above0 both by blast
    then show ?thesis using 3(1,2)[OF both] ok both k by simp
  next
    case one
    then have ne: "k \<noteq> sle_key x" by simp
    have ok: "ranges_ok (x # xs) items" using ranges_ok_drop1 3(5) by blast
    have "\<forall>k' \<in> sle_key ` set (x # xs). k < k'" using above0 one by (auto intro: less_trans)
    then have "\<forall>k' \<in> sle_key ` set (sles_merge (x # xs) items). k < k'"
      using sles_merge_keys[OF ok] above by blast
    then show ?thesis using 3(3)[OF ne one ok] one ne k by simp
  next
    case zero
    then have ne: "k \<noteq> sle_key x" "\<not> k < sle_key x" by auto
    have ok: "ranges_ok xs ((k, action, sle) # items)" using ranges_ok_drop0 3(5) zero by blast
    have "\<forall>k' \<in> fst ` set ((k, action, sle) # items). sle_key x < k'"
      using above zero by (auto intro: less_trans)
    then have "\<forall>k' \<in> sle_key ` set (sles_merge xs ((k, action, sle) # items)). sle_key x < k'"
      using sles_merge_keys[OF ok] above0 by blast
    then show ?thesis using 3(4)[OF ne ok] ne by simp
  qed
qed (simp add: ranges_ok_def)

lemma sles_of_sorted: "keyed M \<Longrightarrow> sorted_wrt (<) (map sle_key (sles_of M))"
proof -
  assume "keyed M"
  then have "map sle_key (sles_of M) = sorted_list_of_set (dom M)"
    by (auto simp: sles_of_def comp_def dom_def keyed_key intro!: map_idI)
  then show ?thesis by simp
qed

lemma sles_of_set: "set (sles_of M) = ran M"
  by (auto simp: sles_of_def ran_def dom_def image_iff) force

text \<open>
  For a table that fits the base map, both ranges satisfy the relation between the two rests, and
  the merge is the range of the overlaid map.
\<close>

lemma sles_merge_overlay:
  assumes "keyed M" and "raw_ok M items"
  shows "ranges_ok (sles_of M) items" and "sles_merge (sles_of M) items = sles_of (raw_overlay items M)"
proof -
  have wf: "smap_wf items" using assms(2) unfolding raw_ok_def by blast
  have item: "sle_key sle = k" "action = Raw_insert \<longleftrightarrow> M k = None" if "(k, action, sle) \<in> set items" for k action sle
    using raw_ok_item[OF assms(2), of k action sle] that wf by (simp_all add: smap_find_Some)
  have keys: "sle_key ` set (sles_of M) = dom M"
    unfolding sles_of_set using keyed_key[OF assms(1)] by (auto simp: ran_def dom_def image_iff)
  have erased: "sle_key sle = k \<and> (action = Raw_erase \<longrightarrow> k \<in> dom M)" if "(k, action, sle) \<in> set items" for k action sle
    using item[OF that] by auto
  show ok: "ranges_ok (sles_of M) items"
    using sles_of_sorted[OF assms(1)] wf erased by (auto simp: ranges_ok_def keys)
  have "set (sles_merge (sles_of M) items) = ran (raw_overlay items M)"
  proof (rule set_eqI)
    fix sle
    have "sle \<in> base_only (sles_of M) items \<longleftrightarrow> (\<exists>k. M k = Some sle \<and> smap_find k items = None)"
      unfolding base_only_def sles_of_set using assms(1) by (auto simp: ran_def dest: keyed_key)
    moreover have "sle \<in> live_items items \<longleftrightarrow>
        (\<exists>k action. smap_find k items = Some (action, sle) \<and> action \<noteq> Raw_erase)"
      by (simp add: live_items_def smap_find_Some[OF wf])
    moreover have "raw_overlay items M k = Some sle \<longleftrightarrow> M k = Some sle \<and> smap_find k items = None \<or>
        (\<exists>action. smap_find k items = Some (action, sle) \<and> action \<noteq> Raw_erase)" for k
      by (auto simp: raw_overlay_def split: option.splits if_splits)
    ultimately show "sle \<in> set (sles_merge (sles_of M) items) \<longleftrightarrow> sle \<in> ran (raw_overlay items M)"
      unfolding sles_merge_set[OF ok] ran_def by blast
  qed
  then show "sles_merge (sles_of M) items = sles_of (raw_overlay items M)"
    using sles_of_unique[OF raw_overlay_keyed[OF assms] sles_merge_sorted[OF ok]] by simp
qed

lemma iterate_overlay:
  assumes "keyed M" and "raw_ok M items"
  shows "bindE (sles_iter_make items (sles_of M)) sles_range = Inr (sles_of (raw_overlay items M))"
  using make_ready[OF sles_merge_overlay(1)[OF assms]] sles_merge_overlay(2)[OF assms]
  by (auto simp: range_merge)

lemma raw_ok_upper_bound: "raw_ok M items \<Longrightarrow> raw_ok (M |` {key<..}) (smap_upper_bound key items)"
  by (simp add: raw_ok_def map_of_upper_bound restrict_map_def)

lemma raw_overlay_upper_bound:
  "raw_ok M items \<Longrightarrow> raw_overlay (smap_upper_bound key items) (M |` {key<..}) = raw_overlay items M |` {key<..}"
  by (auto simp: raw_ok_def raw_overlay_def map_of_upper_bound restrict_map_def fun_eq_iff)

context read_view
begin

lemma open_view:
  "read_view (\<lambda>(s, v). OpenView_view (view s) v) (\<lambda>(s, v). open_abs (abs s) v)
     (\<lambda>(s, v). ok s \<and> open_ok (abs s) v)"
proof (unfold_locales, goal_cases)
  case (1 p)
  then show ?case by (cases p) (simp add: open_ok_def open_abs_def raw_overlay_keyed)
next
  case (2 p k)
  then show ?case
    by (cases p) (simp add: OpenView_view_def RawStateTable_read_def open_abs_def read read_map_def
        raw_overlay_def split: option.split)
next
  case (3 p k)
  then show ?case using exists_not[of "fst p" k]
    by (cases p) (auto simp: OpenView_view_def RawStateTable_exists_def open_abs_def
        raw_overlay_def split: option.splits if_splits)
next
  case (4 p k sle)
  then show ?case using exists_typed[of "fst p" k sle]
    by (cases p) (auto simp: OpenView_view_def RawStateTable_exists_def open_abs_def
        raw_overlay_def split: option.splits if_splits)
next
  case (5 p key last1)
  then show ?case
    by (cases p) (simp add: OpenView_view_def open_abs_def open_ok_def RawStateTable_succ_next_key succ)
next
  case (6 p)
  then show ?case
    by (cases p) (simp add: OpenView_view_def open_abs_def open_ok_def RawStateTable_sles_def sles iterate_overlay)
next
  case (7 p key)
  then show ?case
    by (cases p) (simp add: OpenView_view_def open_abs_def open_ok_def RawStateTable_slesUpperBound_def
        slesUpperBound iterate_overlay keyed_restrict raw_ok_upper_bound raw_overlay_upper_bound)
qed

end

section \<open>Fitting a base\<close>

text \<open>The part of \<^const>\<open>raw_ok\<close> that does not depend on the base, and the part that does.\<close>

definition items_keyed :: "raw_items_t \<Rightarrow> bool" where
  "items_keyed items \<longleftrightarrow> smap_wf items \<and> list_all (\<lambda>(k, _, sle). sle_key sle = k \<and> k \<noteq> 0) items"

definition items_fit :: "(key256 \<rightharpoonup> SLE) \<Rightarrow> raw_items_t \<Rightarrow> bool" where
  "items_fit M items \<longleftrightarrow> list_all (\<lambda>(k, action, _). action = Raw_insert \<longleftrightarrow> M k = None) items"

lemma raw_ok_items: "raw_ok M items \<longleftrightarrow> items_keyed items \<and> items_fit M items"
proof (cases "smap_wf items")
  case True
  then show ?thesis
    by (auto simp: raw_ok_def items_keyed_def items_fit_def smap_find_Some list_all_iff)
qed (simp add: raw_ok_def items_keyed_def)

lemma items_fit_update: "k \<notin> fst ` set items \<Longrightarrow> items_fit (M(k := x)) items \<longleftrightarrow> items_fit M items"
  by (induction items) (auto simp: items_fit_def)

end
