(* ===== verification/SHAMapNode.thy ===== *)
theory SHAMapNode
  imports Uint256
begin

text \<open>
  The nodes of a \<open>SHAMap\<close> (\<^verbatim>\<open>shamap/SHAMapTreeNode.h\<close>, \<^verbatim>\<open>shamap/impl/SHAMapTreeNode.cpp\<close>,
  \<^verbatim>\<open>shamap/impl/SHAMapNodeID.cpp\<close>, \<^verbatim>\<open>protocol/HashPrefix.h\<close>): leaves that hold an item, inner
  nodes with sixteen branches of version 1 and of version 2 (which skip the levels their children
  share), their hashes, and their two serialized forms.  \<open>sha512Half\<close> of the bytes fed to the
  hasher is the parameter \<open>h\<close> of every definition that hashes.

  A node is a value: a child pointer is the child, and a null pointer \<open>None\<close>.  The sequence number
  that marks which map may modify a node, and the hashes cached in it, are part of the value.
\<close>

section \<open>Node identifiers\<close>

record SHAMapNodeID =
  nid_id :: uint256
  nid_depth :: nat

definition root_id :: SHAMapNodeID where
  "root_id = \<lparr>nid_id = 0, nid_depth = 0\<rparr>"

definition isRoot :: "SHAMapNodeID \<Rightarrow> bool" where
  "isRoot nid \<longleftrightarrow> nid_depth nid = 0"

definition getChildNodeID :: "SHAMapNodeID \<Rightarrow> nat \<Rightarrow> SHAMapNodeID" where
  "getChildNodeID nid m =
     (let child = uint256_bytes (nid_id nid);
          i = nid_depth nid div 2;
          child = child[i := child ! i OR (if odd (nid_depth nid) then word_of_nat m else push_bit 4 (word_of_nat m))]
      in \<lparr>nid_id = uint256_of_bytes child, nid_depth = nid_depth nid + 1\<rparr>)"

definition selectBranch :: "SHAMapNodeID \<Rightarrow> uint256 \<Rightarrow> nat" where
  "selectBranch nid hash =
     (let branch = uint256_bytes hash ! (nid_depth nid div 2)
      in if odd (nid_depth nid) then unat (branch AND 0xf) else unat (drop_bit 4 branch))"

section \<open>Hash prefixes\<close>

definition HashPrefix_make :: "char \<Rightarrow> char \<Rightarrow> char \<Rightarrow> u32" where
  "HashPrefix_make a b c =
     (let m_prefix = of_char a;
          m_prefix = push_bit 8 m_prefix + of_char b;
          m_prefix = push_bit 8 m_prefix + of_char c
      in push_bit 8 m_prefix)"

definition HashPrefix_transactionID :: u32 where
  "HashPrefix_transactionID = HashPrefix_make CHR ''T'' CHR ''X'' CHR ''N''"

definition HashPrefix_txNode :: u32 where
  "HashPrefix_txNode = HashPrefix_make CHR ''S'' CHR ''N'' CHR ''D''"

definition HashPrefix_leafNode :: u32 where
  "HashPrefix_leafNode = HashPrefix_make CHR ''M'' CHR ''L'' CHR ''N''"

definition HashPrefix_innerNode :: u32 where
  "HashPrefix_innerNode = HashPrefix_make CHR ''M'' CHR ''I'' CHR ''N''"

definition HashPrefix_innerNodeV2 :: u32 where
  "HashPrefix_innerNodeV2 = HashPrefix_make CHR ''I'' CHR ''N'' CHR ''R''"

lemma HashPrefix_values:
  "HashPrefix_transactionID = 0x54584E00" "HashPrefix_txNode = 0x534E4400"
  "HashPrefix_leafNode = 0x4D4C4E00" "HashPrefix_innerNode = 0x4D494E00"
  "HashPrefix_innerNodeV2 = 0x494E5200"
  by code_simp+

section \<open>Nodes\<close>

record SHAMapItem =
  tag :: uint256
  item_data :: Blob

datatype TNType = tnTRANSACTION_NM | tnTRANSACTION_MD | tnACCOUNT_STATE

datatype SHANodeFormat = snfPREFIX | snfWIRE | snfHASH

text \<open>
  The type of a leaf is one of the three above; inner nodes have the type \<open>tnINNER\<close>, and no node is
  given the type \<open>tnERROR\<close>.  The last argument of an inner node is \<open>None\<close> in version 1, and the
  depth and the common prefix of a node of version 2.
\<close>

datatype SHAMapNode =
    SHAMapTreeNode (mSeq: u32) (mHash: uint256) (mType: TNType) (mItem: SHAMapItem)
  | SHAMapInnerNode (mSeq: u32) (mHash: uint256) (mHashes: "uint256 list") (mIsBranch: u32)
      (mChildren: "SHAMapNode option list") (mPrefix: "(nat \<times> uint256) option")

fun isLeaf :: "SHAMapNode \<Rightarrow> bool" where
  "isLeaf (SHAMapTreeNode _ _ _ _) = True"
| "isLeaf (SHAMapInnerNode _ _ _ _ _ _) = False"

abbreviation isInner :: "SHAMapNode \<Rightarrow> bool" where
  "isInner n \<equiv> \<not> isLeaf n"

definition SHAMapInnerNode_new :: "u32 \<Rightarrow> SHAMapNode" where
  "SHAMapInnerNode_new seq = SHAMapInnerNode seq 0 (replicate 16 0) 0 (replicate 16 None) None"

definition SHAMapInnerNodeV2_new :: "u32 \<Rightarrow> nat \<Rightarrow> SHAMapNode" where
  "SHAMapInnerNodeV2_new seq depth = SHAMapInnerNode seq 0 (replicate 16 0) 0 (replicate 16 None) (Some (depth, 0))"

fun clone :: "u32 \<Rightarrow> SHAMapNode \<Rightarrow> SHAMapNode" where
  "clone seq (SHAMapTreeNode _ hash ty item) = SHAMapTreeNode seq hash ty item"
| "clone seq (SHAMapInnerNode _ hash hashes isBranch children pre) =
     SHAMapInnerNode seq hash hashes isBranch children pre"

fun setSeq :: "u32 \<Rightarrow> SHAMapNode \<Rightarrow> SHAMapNode" where
  "setSeq seq (SHAMapTreeNode _ hash ty item) = SHAMapTreeNode seq hash ty item"
| "setSeq seq (SHAMapInnerNode _ hash hashes isBranch children pre) =
     SHAMapInnerNode seq hash hashes isBranch children pre"

subsection \<open>Inner nodes\<close>

text \<open>These are members of inner nodes only.\<close>

definition isEmptyBranch :: "SHAMapNode \<Rightarrow> nat \<Rightarrow> bool" where
  "isEmptyBranch n m \<longleftrightarrow> \<not> bit (mIsBranch n) m"

definition isEmptyInner :: "SHAMapNode \<Rightarrow> bool" where
  "isEmptyInner n \<longleftrightarrow> mIsBranch n = 0"

definition getBranchCount :: "SHAMapNode \<Rightarrow> nat" where
  "getBranchCount n = length (filter (\<lambda>i. \<not> isEmptyBranch n i) [0..<16])"

fun getChild :: "SHAMapNode \<Rightarrow> nat \<Rightarrow> SHAMapNode option" where
  "getChild (SHAMapInnerNode seq hash hashes isBranch children pre) branch =
     (if branch < length children then children ! branch else None)"
| "getChild (SHAMapTreeNode seq hash ty item) branch = None"

lemma getChild_size: "getChild n b = Some c \<Longrightarrow> size c < size n"
proof (induction n b rule: getChild.induct)
  case (1 seq hash hashes isBranch children pre branch)
  then have "Some c \<in> set children" by (metis getChild.simps(1) nth_mem option.distinct(1))
  then have "size c < size_list (size_option size) children" by (induction children) auto
  then show ?case by simp
qed simp

fun setChild :: "nat \<Rightarrow> SHAMapNode option \<Rightarrow> SHAMapNode \<Rightarrow> SHAMapNode" where
  "setChild m child (SHAMapInnerNode seq hash hashes isBranch children pre) =
     SHAMapInnerNode seq 0 (hashes[m := 0])
       (if child \<noteq> None then set_bit m isBranch else unset_bit m isBranch) (children[m := child]) pre"
| "setChild m child (SHAMapTreeNode seq hash ty item) = SHAMapTreeNode seq hash ty item"

fun shareChild :: "nat \<Rightarrow> SHAMapNode \<Rightarrow> SHAMapNode \<Rightarrow> SHAMapNode" where
  "shareChild m child (SHAMapInnerNode seq hash hashes isBranch children pre) =
     SHAMapInnerNode seq hash hashes isBranch (children[m := Some child]) pre"
| "shareChild m child (SHAMapTreeNode seq hash ty item) = SHAMapTreeNode seq hash ty item"

fun set_common :: "nat \<Rightarrow> uint256 \<Rightarrow> SHAMapNode \<Rightarrow> SHAMapNode" where
  "set_common depth common (SHAMapInnerNode seq hash hashes isBranch children pre) =
     SHAMapInnerNode seq hash hashes isBranch children (Some (depth, common))"
| "set_common depth common (SHAMapTreeNode seq hash ty item) = SHAMapTreeNode seq hash ty item"

subsection \<open>Serialized forms\<close>

definition add256 :: "uint256 \<Rightarrow> Serializer \<Rightarrow> Serializer" where
  "add256 x s = snd (Serializer_addBitString (uint256_bytes x) s)"

definition TreeNode_addRaw :: "SHANodeFormat \<Rightarrow> uint256 \<Rightarrow> TNType \<Rightarrow> SHAMapItem \<Rightarrow> Serializer \<Rightarrow> Serializer" where
  "TreeNode_addRaw format hash ty item s =
     (if format = snfHASH then add256 hash s
      else (case ty of
          tnACCOUNT_STATE \<Rightarrow>
            if format = snfPREFIX then
              add256 (tag item) (snd (Serializer_addRaw (item_data item) (snd (Serializer_add32 HashPrefix_leafNode s))))
            else
              snd (Serializer_add8 1 (add256 (tag item) (snd (Serializer_addRaw (item_data item) s))))
        | tnTRANSACTION_NM \<Rightarrow>
            if format = snfPREFIX then
              snd (Serializer_addRaw (item_data item) (snd (Serializer_add32 HashPrefix_transactionID s)))
            else snd (Serializer_add8 0 (snd (Serializer_addRaw (item_data item) s)))
        | tnTRANSACTION_MD \<Rightarrow>
            if format = snfPREFIX then
              add256 (tag item) (snd (Serializer_addRaw (item_data item) (snd (Serializer_add32 HashPrefix_txNode s))))
            else
              snd (Serializer_add8 4 (add256 (tag item) (snd (Serializer_addRaw (item_data item) s))))))"

definition InnerNode_addRaw :: "SHANodeFormat \<Rightarrow> uint256 \<Rightarrow> uint256 list \<Rightarrow> u32 \<Rightarrow> Serializer \<Rightarrow> Serializer" where
  "InnerNode_addRaw format hash hashes isBranch s =
     (case format of
        snfHASH \<Rightarrow> add256 hash s
      | snfPREFIX \<Rightarrow> fold add256 hashes (snd (Serializer_add32 HashPrefix_innerNode s))
      | snfWIRE \<Rightarrow>
          if length (filter (\<lambda>i. bit isBranch i) [0..<16]) < 12 then
            snd (Serializer_add8 3 (fold (\<lambda>i s.
              if bit isBranch i then snd (Serializer_add8 (word_of_nat i) (add256 (hashes ! i) s)) else s)
              [0..<length hashes] s))
          else snd (Serializer_add8 2 (fold add256 hashes s)))"

definition InnerNodeV2_addRaw ::
  "SHANodeFormat \<Rightarrow> uint256 \<Rightarrow> uint256 list \<Rightarrow> u32 \<Rightarrow> nat \<Rightarrow> uint256 \<Rightarrow> Serializer \<Rightarrow> Serializer" where
  "InnerNodeV2_addRaw format hash hashes isBranch depth common s =
     (if format = snfPREFIX then
        fold (\<lambda>i s. snd (Serializer_add8 (uint256_bytes common ! i) s)) [0..<(depth + 1) div 2]
          (snd (Serializer_add8 (word_of_nat depth)
            (fold (\<lambda>i. add256 (hashes ! i)) [0..<16] (snd (Serializer_add32 HashPrefix_innerNodeV2 s)))))
      else
        let s = InnerNode_addRaw format hash hashes isBranch s
        in if format = snfWIRE then s\<lparr>mData := (mData s)[length (mData s) - 1 := last (mData s) + 3]\<rparr> else s)"

fun addRaw :: "SHANodeFormat \<Rightarrow> SHAMapNode \<Rightarrow> Serializer \<Rightarrow> Serializer" where
  "addRaw format (SHAMapTreeNode seq hash ty item) s = TreeNode_addRaw format hash ty item s"
| "addRaw format (SHAMapInnerNode seq hash hashes isBranch children None) s =
     InnerNode_addRaw format hash hashes isBranch s"
| "addRaw format (SHAMapInnerNode seq hash hashes isBranch children (Some (depth, common))) s =
     InnerNodeV2_addRaw format hash hashes isBranch depth common s"

subsection \<open>Hashes\<close>

text \<open>The hasher is big-endian: an integer is fed as its bytes, most significant first.\<close>

type_synonym hasher = "Blob \<Rightarrow> uint256"

definition be_bytes :: "u32 \<Rightarrow> Blob" where
  "be_bytes w = [ucast (drop_bit 24 w), ucast (drop_bit 16 w), ucast (drop_bit 8 w), ucast w]"

definition TreeNode_hash :: "hasher \<Rightarrow> TNType \<Rightarrow> SHAMapItem \<Rightarrow> uint256" where
  "TreeNode_hash h ty item =
     (case ty of
        tnTRANSACTION_NM \<Rightarrow> h (be_bytes HashPrefix_transactionID @ item_data item)
      | tnACCOUNT_STATE \<Rightarrow> h (be_bytes HashPrefix_leafNode @ item_data item @ uint256_bytes (tag item))
      | tnTRANSACTION_MD \<Rightarrow> h (be_bytes HashPrefix_txNode @ item_data item @ uint256_bytes (tag item)))"

definition InnerNode_hash :: "hasher \<Rightarrow> uint256 list \<Rightarrow> u32 \<Rightarrow> uint256" where
  "InnerNode_hash h hashes isBranch =
     (if isBranch \<noteq> 0 then h (be_bytes HashPrefix_innerNode @ concat (map uint256_bytes hashes)) else 0)"

definition InnerNodeV2_hash :: "hasher \<Rightarrow> uint256 list \<Rightarrow> u32 \<Rightarrow> nat \<Rightarrow> uint256 \<Rightarrow> uint256" where
  "InnerNodeV2_hash h hashes isBranch depth common =
     (if isBranch \<noteq> 0
      then h (mData (InnerNodeV2_addRaw snfPREFIX 0 hashes isBranch depth common Serializer_empty)) else 0)"

text \<open>\<open>updateHash\<close> returns whether the hash has changed.\<close>

fun updateHash :: "hasher \<Rightarrow> SHAMapNode \<Rightarrow> bool \<times> SHAMapNode" where
  "updateHash h (SHAMapTreeNode seq hash ty item) =
     (let nh = TreeNode_hash h ty item in (nh \<noteq> hash, SHAMapTreeNode seq nh ty item))"
| "updateHash h (SHAMapInnerNode seq hash hashes isBranch children None) =
     (let nh = InnerNode_hash h hashes isBranch
      in (nh \<noteq> hash, SHAMapInnerNode seq nh hashes isBranch children None))"
| "updateHash h (SHAMapInnerNode seq hash hashes isBranch children (Some (depth, common))) =
     (let nh = InnerNodeV2_hash h hashes isBranch depth common
      in (nh \<noteq> hash, SHAMapInnerNode seq nh hashes isBranch children (Some (depth, common))))"

fun updateHashDeep :: "hasher \<Rightarrow> SHAMapNode \<Rightarrow> SHAMapNode" where
  "updateHashDeep h (SHAMapInnerNode seq hash hashes isBranch children pre) =
     snd (updateHash h (SHAMapInnerNode seq hash
       (map (\<lambda>pos. case children ! pos of Some c \<Rightarrow> mHash c | None \<Rightarrow> hashes ! pos) [0..<16])
       isBranch children pre))"
| "updateHashDeep h (SHAMapTreeNode seq hash ty item) = SHAMapTreeNode seq hash ty item"

definition SHAMapTreeNode_new :: "hasher \<Rightarrow> SHAMapItem \<Rightarrow> TNType \<Rightarrow> u32 \<Rightarrow> SHAMapNode" where
  "SHAMapTreeNode_new h item ty seq = snd (updateHash h (SHAMapTreeNode seq 0 ty item))"

fun setItem :: "hasher \<Rightarrow> SHAMapItem \<Rightarrow> TNType \<Rightarrow> SHAMapNode \<Rightarrow> bool \<times> SHAMapNode" where
  "setItem h i ty (SHAMapTreeNode seq hash ty0 i0) = updateHash h (SHAMapTreeNode seq hash ty i)"
| "setItem h i ty (SHAMapInnerNode seq hash hashes isBranch children pre) =
     (False, SHAMapInnerNode seq hash hashes isBranch children pre)"

end
