(* ===== verification/SHAMapTree.thy ===== *)
theory SHAMapTree
  imports SHAMapNode Stdmap
begin

text \<open>
  The \<open>SHAMap\<close> (\<^verbatim>\<open>shamap/SHAMap.h\<close>, \<^verbatim>\<open>shamap/impl/SHAMap.cpp\<close>): a radix tree of fan-out sixteen over
  256-bit keys that is also a Merkle tree, in both versions.  Every operation on the items, the
  iterator, and the flushing of modified nodes that brings the cached hashes up to date.

  A path through the tree is a stack, its top first.  Nodes are values, so a node that the source
  modifies in place is put back into its parents, along the path, by the operation that modified it.
  A child that a branch bit announces and that is not in memory is missing: fetching it from the
  node store is not modelled.
\<close>

section \<open>State\<close>

datatype SHAMapState = Modifying | Immutable | Synching | Floating | Invalid

record SHAMap =
  sm_seq :: u32
  sm_root :: SHAMapNode
  sm_state :: SHAMapState
  sm_backed :: bool

type_synonym NodeStack = "(SHAMapNode \<times> SHAMapNodeID) list"

definition SHAMap_new :: "bool \<Rightarrow> SHAMap" where
  "SHAMap_new v2 =
     \<lparr>sm_seq = 1, sm_root = (if v2 then SHAMapInnerNodeV2_new 1 0 else SHAMapInnerNode_new 1),
      sm_state = Modifying, sm_backed = True\<rparr>"

fun is_v2_node :: "SHAMapNode \<Rightarrow> bool" where
  "is_v2_node (SHAMapInnerNode _ _ _ _ _ pre) \<longleftrightarrow> pre \<noteq> None"
| "is_v2_node (SHAMapTreeNode _ _ _ _) \<longleftrightarrow> False"

definition is_v2 :: "SHAMap \<Rightarrow> bool" where
  "is_v2 m = is_v2_node (sm_root m)"

section \<open>Common prefixes\<close>

definition has_common_prefix :: "nat \<Rightarrow> uint256 \<Rightarrow> uint256 \<Rightarrow> bool" where
  "has_common_prefix depth common key \<longleftrightarrow>
     (let x = uint256_bytes common; y = uint256_bytes key in
      if \<not> list_all (\<lambda>i. x ! i = y ! i) [0..<depth div 2] then False
      else if odd depth then x ! (depth div 2) AND 0xF0 = y ! (depth div 2) AND 0xF0
      else True)"

text \<open>The loop over whole bytes, which returns early at the first that differs.\<close>

fun common_bytes :: "(u8 \<times> u8) list \<Rightarrow> nat \<Rightarrow> nat option \<times> nat" where
  "common_bytes [] r = (None, r)"
| "common_bytes ((x, y) # ps) r =
     (if x \<noteq> y then (Some (if x AND 0xF0 = y AND 0xF0 then r + 1 else r), r)
      else common_bytes ps (r + 2))"

definition get_common_prefix :: "nat \<Rightarrow> uint256 \<Rightarrow> uint256 \<Rightarrow> nat" where
  "get_common_prefix depth common key =
     (let x = uint256_bytes common; y = uint256_bytes key in
      case common_bytes (take (depth div 2) (zip x y)) 0 of
        (Some r, _) \<Rightarrow> r
      | (None, r) \<Rightarrow>
          if odd depth \<and> x ! (depth div 2) AND 0xF0 = y ! (depth div 2) AND 0xF0 then r + 1 else r)"

definition prefix :: "nat \<Rightarrow> uint256 \<Rightarrow> uint256" where
  "prefix depth key =
     (let y = uint256_bytes key;
          r = take (depth div 2) y @ replicate (32 - depth div 2) 0
      in uint256_of_bytes (if odd depth then r[depth div 2 := y ! (depth div 2) AND 0xF0] else r))"

text \<open>
  \<open>setChildren\<close> of a new inner node of version 2: the number of leading bytes the two keys share, and
  the node they are the children of.  Equal keys are read past their end.
\<close>

fun equal_bytes :: "(u8 \<times> u8) list \<Rightarrow> nat" where
  "equal_bytes [] = 0"
| "equal_bytes ((x, y) # ps) = (if x = y then Suc (equal_bytes ps) else 0)"

definition setChildren :: "u32 \<Rightarrow> SHAMapNode \<Rightarrow> uint256 \<Rightarrow> SHAMapNode \<Rightarrow> uint256 \<Rightarrow> SHAMapNode res" where
  "setChildren seq child1 key1 child2 key2 =
     (let k1 = uint256_bytes key1; k2 = uint256_bytes key2;
          d = equal_bytes (zip k1 k2)
      in if d \<ge> 32 then Inl OutOfBounds
         else
           let same = (k1 ! d AND 0xF0 = k2 ! d AND 0xF0);
               common = uint256_of_bytes (take d k1 @ [if same then k1 ! d AND 0xF0 else 0] @ replicate (31 - d) 0);
               b1 = (if same then unat (k1 ! d AND 0x0F) else unat (drop_bit 4 (k1 ! d)));
               b2 = (if same then unat (k2 ! d AND 0x0F) else unat (drop_bit 4 (k2 ! d)));
               depth = (if same then 2 * d + 1 else 2 * d)
           in Inr (SHAMapInnerNode seq 0 (replicate 16 0) (set_bit b2 (set_bit b1 0))
                     ((replicate 16 None)[b1 := Some child1, b2 := Some child2]) (Some (depth, common))))"

section \<open>Descending\<close>

definition descendThrow :: "SHAMapNode \<Rightarrow> nat \<Rightarrow> SHAMapNode option res" where
  "descendThrow parent branch =
     (case getChild parent branch of
        Some c \<Rightarrow> Inr (Some c)
      | None \<Rightarrow> if isEmptyBranch parent branch then Inr None else Inl (RuntimeError ''Missing Node''))"

definition unshareNode :: "u32 \<Rightarrow> SHAMapNode \<Rightarrow> SHAMapNode" where
  "unshareNode seq node = (if mSeq node \<noteq> seq then clone seq node else node)"

text \<open>The identifier under which a node of version 2 is put on the stack.\<close>

fun id_v2 :: "SHAMapNode \<Rightarrow> SHAMapNodeID" where
  "id_v2 (SHAMapTreeNode _ _ _ item) = \<lparr>nid_id = tag item, nid_depth = 64\<rparr>"
| "id_v2 (SHAMapInnerNode _ _ _ _ _ (Some (depth, common))) = \<lparr>nid_id = common, nid_depth = depth\<rparr>"
| "id_v2 (SHAMapInnerNode _ _ _ _ _ None) = root_id"

definition lacks_prefix :: "SHAMapNode \<Rightarrow> uint256 \<Rightarrow> bool" where
  "lacks_prefix node key =
     (case mPrefix node of None \<Rightarrow> False | Some (depth, common) \<Rightarrow> \<not> has_common_prefix depth common key)"

lemma descendThrow_size: "descendThrow n b = Inr (Some c) \<Longrightarrow> size c < size n"
  by (auto simp: descendThrow_def split: option.splits if_splits dest: getChild_size)

function walkTowardsKey_loop ::
  "bool \<Rightarrow> uint256 \<Rightarrow> SHAMapNode \<Rightarrow> SHAMapNodeID \<Rightarrow> NodeStack \<Rightarrow> (SHAMapNode option \<times> NodeStack) res" where
  "walkTowardsKey_loop isv2 key inNode nodeID stack =
     (if isLeaf inNode then Inr (Some inNode, (inNode, nodeID) # stack)
      else
        let stack = (inNode, nodeID) # stack in
        if isv2 \<and> lacks_prefix inNode key then Inr (None, stack)
        else
          let branch = selectBranch nodeID key in
          if isEmptyBranch inNode branch then Inr (None, stack)
          else
            bindE (descendThrow inNode branch) (\<lambda>child.
            case child of
              None \<Rightarrow> Inl NullDereference
            | Some child \<Rightarrow>
                if isv2 then
                  if isInner child \<and> \<not> is_v2_node child then Inr (None, stack)
                  else walkTowardsKey_loop isv2 key child (id_v2 child) stack
                else walkTowardsKey_loop isv2 key child (getChildNodeID nodeID branch) stack))"
  by pat_completeness auto
termination
  by (relation "measure (\<lambda>(_, _, n, _, _). size n)") (auto dest: descendThrow_size)

declare walkTowardsKey_loop.simps [simp del]

definition walkTowardsKey :: "SHAMap \<Rightarrow> uint256 \<Rightarrow> (SHAMapNode option \<times> NodeStack) res" where
  "walkTowardsKey m key = walkTowardsKey_loop (is_v2 m) key (sm_root m) root_id []"

definition findKey :: "SHAMap \<Rightarrow> uint256 \<Rightarrow> SHAMapNode option res" where
  "findKey m key =
     bindE (walkTowardsKey m key) (\<lambda>(leaf, _).
       Inr (case leaf of None \<Rightarrow> None | Some l \<Rightarrow> if tag (mItem l) \<noteq> key then None else Some l))"

definition peekItem :: "SHAMap \<Rightarrow> uint256 \<Rightarrow> SHAMapItem option res" where
  "peekItem m key = bindE (findKey m key) (\<lambda>leaf. Inr (map_option mItem leaf))"

definition hasItem :: "SHAMap \<Rightarrow> uint256 \<Rightarrow> bool res" where
  "hasItem m key = bindE (findKey m key) (\<lambda>leaf. Inr (leaf \<noteq> None))"

section \<open>Iteration\<close>

function firstBelow_loop :: "bool \<Rightarrow> nat \<Rightarrow> SHAMapNode \<Rightarrow> NodeStack \<Rightarrow> (SHAMapNode option \<times> NodeStack) res" where
  "firstBelow_loop isv2 branch inner stack =
     (case find (\<lambda>i. \<not> isEmptyBranch inner i) [0..<16] of
        None \<Rightarrow> Inr (None, stack)
      | Some i \<Rightarrow>
          bindE (descendThrow inner i) (\<lambda>node.
          case node of
            None \<Rightarrow> Inl NullDereference
          | Some node \<Rightarrow>
              if isLeaf node then
                Inr (Some node, (node, \<lparr>nid_id = tag (mItem node), nid_depth = 64\<rparr>) # stack)
              else
                firstBelow_loop isv2 branch node
                  ((node, if isv2 then id_v2 node else getChildNodeID (snd (hd stack)) branch) # stack)))"
  by pat_completeness auto
termination
  by (relation "measure (\<lambda>(_, _, n, _). size n)") (auto dest: descendThrow_size)

declare firstBelow_loop.simps [simp del]

definition firstBelow :: "bool \<Rightarrow> SHAMapNode \<Rightarrow> NodeStack \<Rightarrow> nat \<Rightarrow> (SHAMapNode option \<times> NodeStack) res" where
  "firstBelow isv2 node stack branch =
     (if isLeaf node then
        Inr (Some node, (node, \<lparr>nid_id = tag (mItem node), nid_depth = 64\<rparr>) # stack)
      else
        let nodeID = (if stack = [] then root_id
                      else if isv2 then id_v2 node
                      else getChildNodeID (snd (hd stack)) branch)
        in firstBelow_loop isv2 branch node ((node, nodeID) # stack))"

definition peekFirstItem :: "SHAMap \<Rightarrow> (SHAMapNode option \<times> NodeStack) res" where
  "peekFirstItem m =
     bindE (firstBelow (is_v2 m) (sm_root m) [] 0) (\<lambda>(node, stack).
       Inr (if node = None then (None, []) else (node, stack)))"

text \<open>The first non-empty branch from \<open>i\<close> on, and what is first below it.\<close>

definition first_from :: "bool \<Rightarrow> SHAMapNode \<Rightarrow> NodeStack \<Rightarrow> nat \<Rightarrow> (SHAMapNode \<times> NodeStack) option res" where
  "first_from isv2 inner stack i0 =
     (case find (\<lambda>i. \<not> isEmptyBranch inner i) [i0..<16] of
        None \<Rightarrow> Inr None
      | Some i \<Rightarrow>
          bindE (descendThrow inner i) (\<lambda>node.
          bindE (deref node) (\<lambda>node.
          bindE (firstBelow isv2 node stack i) (\<lambda>(leaf, stack).
            case leaf of
              None \<Rightarrow> Inl (RuntimeError ''Missing Node'')
            | Some leaf \<Rightarrow> Inr (Some (leaf, stack))))))"

fun peekNextItem_loop :: "bool \<Rightarrow> uint256 \<Rightarrow> NodeStack \<Rightarrow> (SHAMapNode option \<times> NodeStack) res" where
  "peekNextItem_loop isv2 key [] = Inr (None, [])"
| "peekNextItem_loop isv2 key ((node, nodeID) # stack) =
     bindE (first_from isv2 node ((node, nodeID) # stack) (selectBranch nodeID key + 1)) (\<lambda>r.
     case r of
       Some (leaf, stack) \<Rightarrow> Inr (Some leaf, stack)
     | None \<Rightarrow> peekNextItem_loop isv2 key stack)"

definition peekNextItem :: "SHAMap \<Rightarrow> uint256 \<Rightarrow> NodeStack \<Rightarrow> (SHAMapNode option \<times> NodeStack) res" where
  "peekNextItem m key stack =
     (case stack of [] \<Rightarrow> Inl NullDereference | _ # stack \<Rightarrow> peekNextItem_loop (is_v2 m) key stack)"

text \<open>An iterator is the item it stands on and its stack; without an item it is at the end.\<close>

type_synonym const_iterator = "SHAMapItem option \<times> NodeStack"

definition iterator_at :: "SHAMapNode option \<times> NodeStack \<Rightarrow> const_iterator" where
  "iterator_at r = (map_option mItem (fst r), snd r)"

definition SHAMap_begin :: "SHAMap \<Rightarrow> const_iterator res" where
  "SHAMap_begin m = bindE (peekFirstItem m) (\<lambda>r. Inr (iterator_at r))"

definition const_iterator_next :: "SHAMap \<Rightarrow> const_iterator \<Rightarrow> const_iterator res" where
  "const_iterator_next m it =
     bindE (deref (fst it)) (\<lambda>item.
     bindE (peekNextItem m (tag item) (snd it)) (\<lambda>r. Inr (iterator_at r)))"

fun upper_bound_loop :: "bool \<Rightarrow> uint256 \<Rightarrow> NodeStack \<Rightarrow> (SHAMapNode option \<times> NodeStack) res" where
  "upper_bound_loop isv2 key [] = Inr (None, [])"
| "upper_bound_loop isv2 key ((node, nodeID) # stack) =
     (if isLeaf node then
        if tag (mItem node) > key then Inr (Some node, (node, nodeID) # stack)
        else upper_bound_loop isv2 key stack
      else
        let branch =
          (if isv2 then
             if \<not> lacks_prefix node key then selectBranch nodeID key + 1
             else if key < (case mPrefix node of None \<Rightarrow> 0 | Some (_, common) \<Rightarrow> common) then 0 else 16
           else selectBranch nodeID key + 1)
        in bindE (first_from isv2 node ((node, nodeID) # stack) branch) (\<lambda>r.
           case r of
             Some (leaf, stack) \<Rightarrow> Inr (Some leaf, stack)
           | None \<Rightarrow> upper_bound_loop isv2 key stack))"

definition SHAMap_upper_bound :: "SHAMap \<Rightarrow> uint256 \<Rightarrow> const_iterator res" where
  "SHAMap_upper_bound m key =
     bindE (walkTowardsKey m key) (\<lambda>(_, stack).
     bindE (upper_bound_loop (is_v2 m) key stack) (\<lambda>r. Inr (iterator_at r)))"

text \<open>A loop over the items from an iterator on, until it is at the end.\<close>

partial_function (option) items_from :: "SHAMap \<Rightarrow> const_iterator \<Rightarrow> SHAMapItem list res option" where
  "items_from m it =
     (case fst it of
        None \<Rightarrow> Some (Inr [])
      | Some item \<Rightarrow>
          (case const_iterator_next m it of
             Inl e \<Rightarrow> Some (Inl e)
           | Inr it \<Rightarrow> Option.bind (items_from m it) (\<lambda>r. Some (bindE r (\<lambda>is. Inr (item # is))))))"

section \<open>Modification\<close>

fun dirtyUp :: "u32 \<Rightarrow> uint256 \<Rightarrow> NodeStack \<Rightarrow> SHAMapNode \<Rightarrow> SHAMapNode" where
  "dirtyUp seq target [] child = child"
| "dirtyUp seq target ((node, nodeID) # stack) child =
     dirtyUp seq target stack (setChild (selectBranch nodeID target) (Some child) (unshareNode seq node))"

definition tn_type :: "bool \<Rightarrow> bool \<Rightarrow> TNType" where
  "tn_type isTransaction hasMeta =
     (if \<not> isTransaction then tnACCOUNT_STATE else if hasMeta then tnTRANSACTION_MD else tnTRANSACTION_NM)"

function onlyBelow :: "SHAMapNode \<Rightarrow> SHAMapItem option res" where
  "onlyBelow node =
     (if isLeaf node then Inr (Some (mItem node))
      else (case filter (\<lambda>i. \<not> isEmptyBranch node i) [0..<16] of
          [] \<Rightarrow> Inr None
        | i # rest \<Rightarrow>
            bindE (descendThrow node i) (\<lambda>nextNode.
            if rest \<noteq> [] then Inr None
            else (case nextNode of None \<Rightarrow> Inr None | Some node \<Rightarrow> onlyBelow node))))"
  by pat_completeness auto
termination
  by (relation "measure size") (auto dest: descendThrow_size)

declare onlyBelow.simps [simp del]

text \<open>
  The way up after a deletion: \<open>prevNode\<close> is what is attached to the end of the chain.  The result is
  the root; \<open>root\<close> is the root so far.
\<close>

fun delItem_loop ::
  "hasher \<Rightarrow> bool \<Rightarrow> u32 \<Rightarrow> uint256 \<Rightarrow> TNType \<Rightarrow> SHAMapNode \<Rightarrow> NodeStack \<Rightarrow> SHAMapNode option \<Rightarrow> SHAMapNode res" where
  "delItem_loop h isv2 seq key ty root [] prevNode = Inr root"
| "delItem_loop h isv2 seq key ty root ((node, nodeID) # stack) prevNode =
     (let node = setChild (selectBranch nodeID key) prevNode (unshareNode seq node) in
      if isRoot nodeID then delItem_loop h isv2 seq key ty node stack prevNode
      else
        let bc = getBranchCount node in
        if isv2 then
          if bc = 1 then
            (case find (\<lambda>i. \<not> isEmptyBranch node i) [0..<16] of
               None \<Rightarrow> delItem_loop h isv2 seq key ty root stack prevNode
             | Some i \<Rightarrow> bindE (descendThrow node i) (delItem_loop h isv2 seq key ty root stack))
          else delItem_loop h isv2 seq key ty root stack (Some node)
        else if bc = 0 then delItem_loop h isv2 seq key ty root stack None
        else if bc = 1 then
          bindE (onlyBelow node) (\<lambda>item.
          case item of
            Some item \<Rightarrow> delItem_loop h isv2 seq key ty root stack (Some (SHAMapTreeNode_new h item ty (mSeq node)))
          | None \<Rightarrow> delItem_loop h isv2 seq key ty root stack (Some node))
        else delItem_loop h isv2 seq key ty root stack (Some node))"

definition delItem :: "hasher \<Rightarrow> uint256 \<Rightarrow> SHAMap \<Rightarrow> (bool \<times> SHAMap) res" where
  "delItem h key m =
     bindE (walkTowardsKey m key) (\<lambda>(_, stack).
     case stack of
       [] \<Rightarrow> Inl (RuntimeError ''Missing Node'')
     | (leaf, _) # stack \<Rightarrow>
         if isInner leaf \<or> tag (mItem leaf) \<noteq> key then Inr (False, m)
         else
           bindE (delItem_loop h (is_v2 m) (sm_seq m) key (mType leaf) (sm_root m) stack None) (\<lambda>root.
             Inr (True, m\<lparr>sm_root := root\<rparr>)))"

text \<open>
  A leaf that has to become an inner node with two items: new inner nodes are stacked while both keys
  take the same branch.
\<close>

function addGiveItem_split ::
  "u32 \<Rightarrow> uint256 \<Rightarrow> uint256 \<Rightarrow> SHAMapNode \<Rightarrow> SHAMapNodeID \<Rightarrow> NodeStack \<Rightarrow> (SHAMapNode \<times> SHAMapNodeID \<times> NodeStack) res" where
  "addGiveItem_split seq key other node nodeID stack =
     (if nid_depth nodeID \<ge> 64 then Inl OutOfBounds
      else if selectBranch nodeID key = selectBranch nodeID other then
        addGiveItem_split seq key other (SHAMapInnerNode_new seq)
          (getChildNodeID nodeID (selectBranch nodeID key)) ((node, nodeID) # stack)
      else Inr (node, nodeID, stack))"
  by pat_completeness auto
termination
  by (relation "measure (\<lambda>(_, _, _, _, nid, _). 64 - nid_depth nid)") (auto simp: getChildNodeID_def Let_def)

declare addGiveItem_split.simps [simp del]

text \<open>Where the walk ended on a node of version 2: what takes its place, and the path to it.\<close>

definition addGiveItem_v2 ::
  "hasher \<Rightarrow> u32 \<Rightarrow> SHAMapItem \<Rightarrow> TNType \<Rightarrow> SHAMapNode \<Rightarrow> SHAMapNodeID \<Rightarrow> NodeStack \<Rightarrow> (SHAMapNode \<times> NodeStack) res" where
  "addGiveItem_v2 h seq item ty node nodeID stack =
     (let newNode = SHAMapTreeNode_new h item ty seq in
      if isInner node then
        if \<not> lacks_prefix node (tag item) then
          Inr (setChild (selectBranch nodeID (tag item)) (Some newNode) node, stack)
        else
          (case (stack, mPrefix node) of
             ((parent, parentID) # stack, Some (depth0, common)) \<Rightarrow>
               let parent = unshareNode seq parent;
                   depth = get_common_prefix depth0 common (tag item);
                   newID = \<lparr>nid_id = prefix depth common, nid_depth = depth\<rparr>;
                   new_inner = setChild (selectBranch newID common) (Some node) (SHAMapInnerNodeV2_new seq 64);
                   new_inner = setChild (selectBranch newID (tag item)) (Some newNode) new_inner;
                   new_inner = set_common depth (prefix depth (tag item)) new_inner;
                   parent_depth = (case mPrefix parent of None \<Rightarrow> 0 | Some (d, _) \<Rightarrow> d);
                   parent = setChild (selectBranch \<lparr>nid_id = prefix parent_depth (tag item), nid_depth = parent_depth\<rparr> (tag item))
                     (Some new_inner) parent
               in Inr (new_inner, (parent, parentID) # stack)
           | _ \<Rightarrow> Inl NullDereference)
      else
        bindE (setChildren seq node (tag (mItem node)) newNode (tag item)) (\<lambda>inner.
        case stack of
          [] \<Rightarrow> Inl NullDereference
        | (parent, parentID) # stack \<Rightarrow> Inr (inner, (unshareNode seq parent, parentID) # stack)))"

definition addGiveItem_v1 ::
  "hasher \<Rightarrow> u32 \<Rightarrow> SHAMapItem \<Rightarrow> TNType \<Rightarrow> SHAMapNode \<Rightarrow> SHAMapNodeID \<Rightarrow> NodeStack \<Rightarrow> (SHAMapNode \<times> NodeStack) res" where
  "addGiveItem_v1 h seq item ty node nodeID stack =
     (if isInner node then
        Inr (setChild (selectBranch nodeID (tag item)) (Some (SHAMapTreeNode_new h item ty seq)) node, stack)
      else
        let otherItem = mItem node in
        bindE (addGiveItem_split seq (tag item) (tag otherItem) (SHAMapInnerNode_new (mSeq node)) nodeID stack) (\<lambda>(node, nodeID, stack).
          let inner = setChild (selectBranch nodeID (tag item)) (Some (SHAMapTreeNode_new h item ty seq)) node;
              inner = setChild (selectBranch nodeID (tag otherItem)) (Some (SHAMapTreeNode_new h otherItem ty seq)) inner
          in Inr (inner, stack)))"

definition addGiveItem :: "hasher \<Rightarrow> SHAMapItem \<Rightarrow> bool \<Rightarrow> bool \<Rightarrow> SHAMap \<Rightarrow> (bool \<times> SHAMap) res" where
  "addGiveItem h item isTransaction hasMeta m =
     bindE (walkTowardsKey m (tag item)) (\<lambda>(_, stack).
     case stack of
       [] \<Rightarrow> Inl (RuntimeError ''Missing Node'')
     | (node, nodeID) # stack \<Rightarrow>
         if isLeaf node \<and> tag (mItem node) = tag item then Inr (False, m)
         else
           let node = unshareNode (sm_seq m) node;
               add = (if is_v2 m then addGiveItem_v2 else addGiveItem_v1)
           in bindE (add h (sm_seq m) item (tn_type isTransaction hasMeta) node nodeID stack) (\<lambda>(node, stack).
                Inr (True, m\<lparr>sm_root := dirtyUp (sm_seq m) (tag item) stack node\<rparr>)))"

text \<open>
  A leaf that is replaced without a change of its hash: if it is the map's own node it has been
  modified in place, and the tree holds the modified node; otherwise the modified copy is dropped.
\<close>

fun put_back :: "uint256 \<Rightarrow> NodeStack \<Rightarrow> SHAMapNode \<Rightarrow> SHAMapNode" where
  "put_back target [] child = child"
| "put_back target ((node, nodeID) # stack) child =
     put_back target stack (shareChild (selectBranch nodeID target) child node)"

definition updateGiveItem :: "hasher \<Rightarrow> SHAMapItem \<Rightarrow> bool \<Rightarrow> bool \<Rightarrow> SHAMap \<Rightarrow> (bool \<times> SHAMap) res" where
  "updateGiveItem h item isTransaction hasMeta m =
     bindE (walkTowardsKey m (tag item)) (\<lambda>(_, stack).
     case stack of
       [] \<Rightarrow> Inl (RuntimeError ''Missing Node'')
     | (node, nodeID) # stack \<Rightarrow>
         if isInner node \<or> tag (mItem node) \<noteq> tag item then Inr (False, m)
         else
           let (changed, node') = setItem h item (tn_type isTransaction hasMeta) (unshareNode (sm_seq m) node)
           in if \<not> changed then
                Inr (True, if mSeq node = sm_seq m then m\<lparr>sm_root := put_back (tag item) stack node'\<rparr> else m)
              else Inr (True, m\<lparr>sm_root := dirtyUp (sm_seq m) (tag item) stack node'\<rparr>))"

section \<open>Flushing\<close>

definition preFlushNode :: "u32 \<Rightarrow> SHAMapNode \<Rightarrow> SHAMapNode" where
  "preFlushNode seq node = (if mSeq node \<noteq> seq then clone seq node else node)"

text \<open>
  Flushing a modified node: its modified children first, then its own hash; it becomes shareable.
  The second result is the nodes flushed, in order, with the bytes that are stored for them.
\<close>

definition flushed_node :: "SHAMapNode \<Rightarrow> SHAMapNode \<times> (uint256 \<times> Blob) list" where
  "flushed_node node = (setSeq 0 node, [(mHash node, mData (addRaw snfPREFIX node Serializer_empty))])"

function flushNode :: "hasher \<Rightarrow> u32 \<Rightarrow> SHAMapNode \<Rightarrow> SHAMapNode \<times> (uint256 \<times> Blob) list" where
  "flushNode h seq node =
     (if isLeaf node then flushed_node (snd (updateHash h (preFlushNode seq node)))
      else
        let rs = map (\<lambda>pos.
              if isEmptyBranch node pos then None
              else (case getChild node pos of
                  None \<Rightarrow> None
                | Some child \<Rightarrow> if mSeq child \<noteq> 0 then Some (flushNode h seq child) else None)) [0..<16];
            node' = fold (\<lambda>pos node.
              case rs ! pos of None \<Rightarrow> node | Some (child, _) \<Rightarrow> shareChild pos child node) [0..<16]
              (preFlushNode seq node);
            (node', own) = flushed_node (updateHashDeep h node')
        in (node', concat (map (\<lambda>r. case r of None \<Rightarrow> [] | Some (_, written) \<Rightarrow> written) rs) @ own))"
  by pat_completeness auto
termination
  by (relation "measure (\<lambda>(_, _, n). size n)") (auto dest: getChild_size)

declare flushNode.simps [simp del]

text \<open>The number of nodes flushed, the map, and what is stored if the flush is to the node store.\<close>

definition walkSubTree :: "hasher \<Rightarrow> bool \<Rightarrow> SHAMap \<Rightarrow> nat \<times> SHAMap \<times> (uint256 \<times> Blob) list" where
  "walkSubTree h doWrite m =
     (if mSeq (sm_root m) = 0 then (0, m, [])
      else if isInner (sm_root m) \<and> isEmptyInner (sm_root m) then
        (1, m\<lparr>sm_root := if is_v2 m then SHAMapInnerNodeV2_new 0 0 else SHAMapInnerNode_new 0\<rparr>, [])
      else
        let (root, written) = flushNode h (sm_seq m) (sm_root m)
        in (length written, m\<lparr>sm_root := root\<rparr>, if doWrite \<and> sm_backed m then written else []))"

definition unshare :: "hasher \<Rightarrow> SHAMap \<Rightarrow> SHAMap" where
  "unshare h m = fst (snd (walkSubTree h False m))"

definition getHash :: "hasher \<Rightarrow> SHAMap \<Rightarrow> uint256 \<times> SHAMap" where
  "getHash h m =
     (if mHash (sm_root m) = 0 then let m = unshare h m in (mHash (sm_root m), m)
      else (mHash (sm_root m), m))"

definition snapShot :: "hasher \<Rightarrow> bool \<Rightarrow> SHAMap \<Rightarrow> SHAMap" where
  "snapShot h isMutable m =
     (let newMap = \<lparr>sm_seq = sm_seq m + 1, sm_root = sm_root m,
            sm_state = (if isMutable then Modifying else Immutable), sm_backed = sm_backed m\<rparr>
      in if sm_state m \<noteq> Immutable \<or> \<not> isMutable then unshare h newMap else newMap)"

end
