(* ===== verification/SHAMapWalk.thy ===== *)
theory SHAMapWalk
  imports SHAMapTree
begin

text \<open>
  When the tree of a \<open>SHAMap\<close> is well-formed, what it holds, and that walking towards a key finds
  it: the branch taken at a depth is a hexadecimal digit of the key, an inner node's keys share the
  digits above it, and the items in the order of the branches are in the order of their keys.
\<close>

section \<open>Branches are digits of the key\<close>

lemma unat_drop: "unat (drop_bit n (w :: 'a::len word)) = unat w div 2 ^ n"
  using unat_drop_bit_eq[of n w] by (simp only: drop_bit_eq_div[of n "unat w"])

lemma unat_low: "unat (w AND 0xf :: u8) = unat w mod 16"
proof -
  have "w AND 0xf = take_bit 4 w" by (simp add: take_bit_eq_mask mask_eq_exp_minus_1)
  then show ?thesis by (simp only: unsigned_take_bit_eq) (simp add: take_bit_eq_mod)
qed

lemma unat_byte: "unat (ucast (drop_bit n (w :: uint256)) :: u8) = unat w div 2 ^ n mod 256"
  by (simp only: unsigned_ucast_eq unat_drop) (simp add: take_bit_eq_mod)

lemma selectBranch_digit:
  assumes "nid_depth nid < 64"
  shows "selectBranch nid key = digit (nid_depth nid) key"
proof -
  define i where "i = nid_depth nid div 2"
  have i: "i < 32" using assms by (simp add: i_def)
  have byte: "unat (uint256_bytes key ! i) = unat key div 2 ^ (248 - 8 * i) mod 256"
    using i by (simp only: uint256_bytes_nth unat_byte)
  show ?thesis
  proof (cases "odd (nid_depth nid)")
    case True
    then have d: "nid_depth nid = 2 * i + 1" by (simp add: i_def)
    then show ?thesis using True byte i
      by (simp add: selectBranch_def Let_def digit_def digits_def unat_low mod_mod_cancel)
  next
    case False
    then have d: "nid_depth nid = 2 * i" by (simp add: i_def)
    have "2 ^ (252 - 8 * i) = (2 ^ (248 - 8 * i) * 16 :: nat)"
    proof -
      have "252 - 8 * i = (248 - 8 * i) + 4" using i by simp
      then show ?thesis by (simp only: power_add) simp
    qed
    then have "unat key div 2 ^ (252 - 8 * i) = unat key div 2 ^ (248 - 8 * i) div 16"
      by (simp only: div_mult2_eq)
    moreover have "x mod 256 div 16 = x div 16 mod 16" for x :: nat
      using mod_mult2_eq[of x 16 16] by simp
    ultimately show ?thesis using False d byte i
      by (simp add: selectBranch_def Let_def digit_def digits_def unat_drop)
  qed
qed

section \<open>What a tree holds, and when it is well-formed\<close>

text \<open>The items in the order of the branches, as a map from keys to types and data.\<close>

function entries :: "SHAMapNode \<Rightarrow> (uint256, TNType \<times> Blob) stdmap" where
  "entries n =
     (if isLeaf n then [(tag (mItem n), mType n, item_data (mItem n))]
      else concat (map (\<lambda>i. case getChild n i of None \<Rightarrow> [] | Some c \<Rightarrow> entries c) [0..<16]))"
  by pat_completeness auto
termination
  by (relation "measure size") (auto dest: getChild_size)

declare entries.simps [simp del]

text \<open>The depth of an inner node and the digits its keys start with.\<close>

definition inner_depth :: "nat \<Rightarrow> SHAMapNode \<Rightarrow> nat" where
  "inner_depth d n = (case mPrefix n of None \<Rightarrow> d | Some (e, _) \<Rightarrow> e)"

definition inner_path :: "nat \<Rightarrow> SHAMapNode \<Rightarrow> nat" where
  "inner_path P n = (case mPrefix n of None \<Rightarrow> P | Some (e, c) \<Rightarrow> digits e c)"

text \<open>
  An inner node at depth \<open>d\<close> below the digits \<open>P\<close>: its branch bits say which children it has; in version
  2 the common prefix extends \<open>P\<close>; below the root it holds at least two items, and in version 2 has at
  least two children.
\<close>

fun inner_shape :: "SHAMapNode \<Rightarrow> bool" where
  "inner_shape (SHAMapInnerNode seq hash hashes isBranch children pre) \<longleftrightarrow>
     length hashes = 16 \<and> length children = 16 \<and> (\<forall>i. bit isBranch i \<longleftrightarrow> i < 16 \<and> children ! i \<noteq> None)"
| "inner_shape (SHAMapTreeNode seq hash ty item) \<longleftrightarrow> False"

definition prefix_ok :: "bool \<Rightarrow> nat \<Rightarrow> nat \<Rightarrow> (nat \<times> uint256) option \<Rightarrow> bool" where
  "prefix_ok v2 d P pre \<longleftrightarrow>
     (case pre of
        None \<Rightarrow> \<not> v2 \<and> d < 64
      | Some (e, c) \<Rightarrow> v2 \<and> d \<le> e \<and> e < 64 \<and> digits d c = P \<and> prefix e c = c)"

definition merged :: "bool \<Rightarrow> SHAMapNode \<Rightarrow> bool" where
  "merged v2 n \<longleftrightarrow> 2 \<le> length (entries n) \<and> (v2 \<longrightarrow> 2 \<le> getBranchCount n)"

function wf_node :: "bool \<Rightarrow> bool \<Rightarrow> nat \<Rightarrow> nat \<Rightarrow> SHAMapNode \<Rightarrow> bool" where
  "wf_node v2 rt d P n \<longleftrightarrow>
     (if isLeaf n then \<not> rt \<and> d \<le> 64 \<and> digits d (tag (mItem n)) = P
      else
        inner_shape n \<and> prefix_ok v2 d P (mPrefix n) \<and> (rt \<or> merged v2 n) \<and>
        (\<forall>i \<in> {..<16}. case getChild n i of
           None \<Rightarrow> True
         | Some c \<Rightarrow> wf_node v2 False (Suc (inner_depth d n)) (16 * inner_path P n + i) c))"
  by pat_completeness auto
termination
  by (relation "measure (\<lambda>(_, _, _, _, n). size n)") (auto dest: getChild_size)

declare wf_node.simps [simp del]

abbreviation keys :: "SHAMapNode \<Rightarrow> uint256 set" where
  "keys n \<equiv> fst ` set (entries n)"

subsection \<open>Inner nodes\<close>

lemma entries_leaf [simp]: "isLeaf n \<Longrightarrow> entries n = [(tag (mItem n), mType n, item_data (mItem n))]"
  by (simp add: entries.simps)

definition slot :: "SHAMapNode \<Rightarrow> nat \<Rightarrow> (uint256 \<times> TNType \<times> Blob) list" where
  "slot n i = (case getChild n i of None \<Rightarrow> [] | Some c \<Rightarrow> entries c)"

lemma slot_Some [simp]: "getChild n i = Some c \<Longrightarrow> slot n i = entries c"
  by (simp add: slot_def)

lemma slot_None [simp]: "getChild n i = None \<Longrightarrow> slot n i = []"
  by (simp add: slot_def)

lemma entries_inner: "isInner n \<Longrightarrow> entries n = concat (map (slot n) [0..<16])"
  by (subst entries.simps) (simp add: slot_def[abs_def])

lemma entries_inner_set: "isInner n \<Longrightarrow> set (entries n) = (\<Union>i < 16. set (slot n i))"
  by (auto simp: entries_inner)

definition others :: "SHAMapNode \<Rightarrow> nat \<Rightarrow> (uint256 \<times> TNType \<times> Blob) set" where
  "others n b = (\<Union>i \<in> {..<16} - {b}. set (slot n i))"

lemma entries_split: "isInner n \<Longrightarrow> b < 16 \<Longrightarrow> set (entries n) = set (slot n b) \<union> others n b"
  by (auto simp: entries_inner_set others_def)

lemma isLeaf_simps [simp]:
  "isLeaf (setChild b c n) = isLeaf n" "isLeaf (shareChild b x n) = isLeaf n"
  "isLeaf (clone seq n) = isLeaf n" "isLeaf (unshareNode seq n) = isLeaf n"
  by (cases n; simp add: unshareNode_def)+

lemma mPrefix_simps [simp]:
  "isInner n \<Longrightarrow> mPrefix (setChild b c n) = mPrefix n"
  "isInner n \<Longrightarrow> mPrefix (clone seq n) = mPrefix n" "isInner n \<Longrightarrow> mPrefix (unshareNode seq n) = mPrefix n"
  by (cases n; simp add: unshareNode_def)+

lemma clone_simps [simp]:
  "getChild (clone seq n) i = getChild n i" "isInner n \<Longrightarrow> mIsBranch (clone seq n) = mIsBranch n"
  "inner_shape (clone seq n) \<longleftrightarrow> inner_shape n" "mSeq (clone seq n) = seq"
  "isLeaf n \<Longrightarrow> mItem (clone seq n) = mItem n" "isLeaf n \<Longrightarrow> mType (clone seq n) = mType n"
  "mHash (clone seq n) = mHash n"
  by (cases n; simp)+

lemma getChild_setChild:
  "inner_shape n \<Longrightarrow> b < 16 \<Longrightarrow> getChild (setChild b c n) i = (if i = b then c else getChild n i)"
  by (cases n) auto

lemma isEmptyBranch_child: "inner_shape n \<Longrightarrow> i < 16 \<Longrightarrow> isEmptyBranch n i \<longleftrightarrow> getChild n i = None"
  by (cases n) (auto simp: isEmptyBranch_def)

lemma inner_shape_setChild: "inner_shape n \<Longrightarrow> b < 16 \<Longrightarrow> inner_shape (setChild b c n)"
  by (cases n) (auto simp: bit_set_bit_iff bit_unset_bit_iff nth_list_update)

lemma inner_shape_inner: "inner_shape n \<Longrightarrow> isInner n"
  by (cases n) auto

lemma slot_clone [simp]: "slot (clone seq n) = slot n"
  by (simp add: slot_def fun_eq_iff)

lemma entries_clone [simp]: "entries (clone seq n) = entries n"
  by (cases "isLeaf n") (simp_all add: entries_inner)

lemma getBranchCount_clone [simp]: "isInner n \<Longrightarrow> getBranchCount (clone seq n) = getBranchCount n"
  by (simp add: getBranchCount_def isEmptyBranch_def)

lemma wf_node_clone [simp]: "wf_node v2 rt d P (clone seq n) \<longleftrightarrow> wf_node v2 rt d P n"
proof (cases "isLeaf n")
  case False
  then have "inner_depth d (clone seq n) = inner_depth d n" "inner_path P (clone seq n) = inner_path P n"
    "merged v2 (clone seq n) \<longleftrightarrow> merged v2 n"
    by (simp_all add: merged_def inner_depth_def inner_path_def)
  then show ?thesis using False
    by (simp add: wf_node.simps[of _ _ _ _ "clone seq n"] wf_node.simps[of _ _ _ _ n] cong: option.case_cong)
qed (simp add: wf_node.simps)

text \<open>Unsharing a node copies it, or is the node itself.\<close>

lemma unshare_cases: "unshareNode seq n = n \<or> unshareNode seq n = clone seq n"
  by (simp add: unshareNode_def)

lemma unshare_simps [simp]:
  "getChild (unshareNode seq n) i = getChild n i" "entries (unshareNode seq n) = entries n"
  "wf_node v2 rt d P (unshareNode seq n) \<longleftrightarrow> wf_node v2 rt d P n" "inner_shape (unshareNode seq n) \<longleftrightarrow> inner_shape n"
  "mSeq (unshareNode seq n) = seq" "isLeaf n \<Longrightarrow> mItem (unshareNode seq n) = mItem n"
  "isLeaf n \<Longrightarrow> mType (unshareNode seq n) = mType n" "isInner n \<Longrightarrow> mIsBranch (unshareNode seq n) = mIsBranch n"
  by (simp_all add: unshareNode_def)

subsection \<open>Well-formed trees\<close>

lemma wf_leaf: "isLeaf n \<Longrightarrow> wf_node v2 rt d P n \<longleftrightarrow> \<not> rt \<and> d \<le> 64 \<and> digits d (tag (mItem n)) = P"
  by (simp add: wf_node.simps)

lemma wf_inner:
  "isInner n \<Longrightarrow> wf_node v2 rt d P n \<longleftrightarrow>
     inner_shape n \<and> prefix_ok v2 d P (mPrefix n) \<and> (rt \<or> merged v2 n) \<and>
     (\<forall>i c. i < 16 \<and> getChild n i = Some c \<longrightarrow> wf_node v2 False (Suc (inner_depth d n)) (16 * inner_path P n + i) c)"
  by (subst wf_node.simps) (auto split: option.splits)

lemma wf_innerD:
  assumes "wf_node v2 rt d P n" and "isInner n"
  shows "inner_shape n" and "prefix_ok v2 d P (mPrefix n)" and "\<not> rt \<Longrightarrow> merged v2 n"
    and "getChild n i = Some c \<Longrightarrow> i < 16 \<Longrightarrow> wf_node v2 False (Suc (inner_depth d n)) (16 * inner_path P n + i) c"
  using assms by (auto simp: wf_inner)

lemma inner_depth_bounds:
  assumes "prefix_ok v2 d P (mPrefix n)"
  shows "d \<le> inner_depth d n" and "inner_depth d n < 64"
  using assms by (auto simp: prefix_ok_def inner_depth_def split: option.splits)

text \<open>The path of an inner node extends the path to it.\<close>

lemma inner_path_digits:
  assumes "prefix_ok v2 d P (mPrefix n)" and "digits (inner_depth d n) k = inner_path P n"
  shows "digits d k = P"
  using assms digits_down[of "inner_depth d n" k _ d]
  by (auto simp: prefix_ok_def inner_depth_def inner_path_def split: option.splits)

lemma child_digits:
  assumes "d < 64" and "digits (Suc d) k = 16 * P + i" and "i < 16"
  shows "digits d k = P" and "digit d k = i"
proof -
  have "16 * digits d k + digit d k = 16 * P + i" using assms by (simp add: digits_Suc)
  then show "digits d k = P" "digit d k = i" using radix16[OF digit_less assms(3)] by simp_all
qed

lemma wf_keys: "wf_node v2 rt d P n \<Longrightarrow> k \<in> keys n \<Longrightarrow> digits d k = P"
proof (induction v2 rt d P n rule: wf_node.induct)
  case (1 v2 rt d P n)
  show ?case
  proof (cases "isLeaf n")
    case True
    then show ?thesis using "1.prems" by (simp add: wf_leaf)
  next
    case False
    note D = wf_innerD[OF "1.prems"(1) False]
    obtain i where i: "i < 16" "k \<in> fst ` set (slot n i)"
      using "1.prems"(2) False by (auto simp: entries_inner_set)
    then obtain c where c: "getChild n i = Some c" "k \<in> keys c" by (cases "getChild n i") auto
    have "digits (Suc (inner_depth d n)) k = 16 * inner_path P n + i"
      using "1.IH"[OF False _ c(1)] i(1) D(4)[OF c(1)] c(2) by simp
    then have "digits (inner_depth d n) k = inner_path P n"
      by (rule child_digits(1)[OF inner_depth_bounds(2)[OF D(2)] _ i(1)])
    then show ?thesis by (rule inner_path_digits[OF D(2)])
  qed
qed

lemma wf_slot_keys:
  assumes "wf_node v2 rt d P n" and "isInner n" and "i < 16" and "k \<in> fst ` set (slot n i)"
  shows "digits (inner_depth d n) k = inner_path P n" and "digit (inner_depth d n) k = i"
proof -
  note D = wf_innerD[OF assms(1,2)]
  obtain c where c: "getChild n i = Some c" "k \<in> keys c" using assms(4) by (cases "getChild n i") auto
  have "digits (Suc (inner_depth d n)) k = 16 * inner_path P n + i"
    by (rule wf_keys[OF D(4)[OF c(1) assms(3)] c(2)])
  then show "digits (inner_depth d n) k = inner_path P n" "digit (inner_depth d n) k = i"
    by (rule child_digits[OF inner_depth_bounds(2)[OF D(2)] _ assms(3)])+
qed

lemma others_keys:
  assumes "wf_node v2 rt d P n" and "isInner n" and "k \<in> fst ` others n b"
  shows "digit (inner_depth d n) k \<noteq> b"
  using assms wf_slot_keys(2)[OF assms(1,2)] by (fastforce simp: others_def)

text \<open>The items of a well-formed tree are in strictly increasing order of their keys.\<close>

lemma wf_sorted: "wf_node v2 rt d P n \<Longrightarrow> smap_wf (entries n)"
proof (induction v2 rt d P n rule: wf_node.induct)
  case (1 v2 rt d P n)
  show ?case
  proof (cases "isLeaf n")
    case False
    note D = wf_innerD[OF "1.prems" False]
    have "smap_wf (slot n i)" if "i < 16" for i
      using "1.IH"[OF False, of i] D(4)[of i] that by (cases "getChild n i") auto
    moreover have "k < k'" if "i < 16" "j < 16" "i < j" "k \<in> fst ` set (slot n i)" "k' \<in> fst ` set (slot n j)" for i j k k'
      using wf_slot_keys[OF "1.prems" False that(1,4)] wf_slot_keys[OF "1.prems" False that(2,5)] that(3)
      by (intro digit_order[OF inner_depth_bounds(2)[OF D(2)]]) simp_all
    ultimately show ?thesis unfolding entries_inner[OF False]
      by (intro smap_wf_concat) auto
  qed simp
qed

section \<open>Prefixes are leading digits\<close>

lemma byte_digits:
  assumes "i < 32"
  shows "unat (uint256_bytes w ! i) = 16 * digit (2 * i) w + digit (2 * i + 1) w"
proof -
  have "unat (uint256_bytes w ! i) = digits (2 * i + 2) w mod 256"
    using assms by (simp add: uint256_bytes_nth unat_byte digits_def)
  also have "digits (2 * i + 2) w = 256 * digits (2 * i) w + (16 * digit (2 * i) w + digit (2 * i + 1) w)"
    using assms digits_Suc[of "2 * i" w] digits_Suc[of "2 * i + 1" w] by simp
  finally have "unat (uint256_bytes w ! i) = (16 * digit (2 * i) w + digit (2 * i + 1) w) mod 256" by simp
  moreover have "16 * digit (2 * i) w + digit (2 * i + 1) w < 256"
    using digit_less[of "2 * i" w] digit_less[of "2 * i + 1" w] by linarith
  ultimately show ?thesis by simp
qed

lemma byte_eq:
  assumes "i < 32"
  shows "uint256_bytes v ! i = uint256_bytes w ! i \<longleftrightarrow>
    digit (2 * i) v = digit (2 * i) w \<and> digit (2 * i + 1) v = digit (2 * i + 1) w"
  using byte_digits[OF assms, of v] byte_digits[OF assms, of w] radix16[OF digit_less digit_less]
  by (metis word_unat_eq_iff)

lemma unat_high: "unat (b AND 0xF0 :: u8) = 16 * (unat b div 16)"
proof -
  have "b AND 0xF0 = push_bit 4 (drop_bit 4 b)"
  proof (rule bit_word_eqI)
    fix n assume "n < LENGTH(8)"
    then consider "n = 0" | "n = 1" | "n = 2" | "n = 3" | "n = 4" | "n = 5" | "n = 6" | "n = 7" by force
    then show "bit (b AND 0xF0) n = bit (push_bit 4 (drop_bit 4 b)) n" by cases (simp_all add: bit_simps)
  qed
  moreover have "unat (push_bit 4 (drop_bit 4 b)) = 16 * unat (drop_bit 4 b)"
    using unsigned_less[of b, where 'a = nat] unat_drop[of 4 b]
    by (simp only: unsigned_push_bit_eq) (simp add: take_bit_nat_eq_self push_bit_eq_mult)
  ultimately show ?thesis by (simp add: unat_drop)
qed

lemma high_eq:
  assumes "i < 32"
  shows "uint256_bytes v ! i AND 0xF0 = uint256_bytes w ! i AND 0xF0 \<longleftrightarrow> digit (2 * i) v = digit (2 * i) w"
  using byte_digits[OF assms, of v] byte_digits[OF assms, of w] digit_less[of "2 * i + 1" v] digit_less[of "2 * i + 1" w]
  by (simp add: word_unat_eq_iff unat_high)

lemma digits_bytes:
  "n \<le> 32 \<Longrightarrow> digits (2 * n) v = digits (2 * n) w \<longleftrightarrow> (\<forall>i < n. uint256_bytes v ! i = uint256_bytes w ! i)"
proof (induction n)
  case (Suc n)
  have "digits (2 * Suc n) v = digits (2 * Suc n) w \<longleftrightarrow>
      digits (2 * n) v = digits (2 * n) w \<and> uint256_bytes v ! n = uint256_bytes w ! n"
    using Suc.prems digits_eq_Suc[of "2 * n" v w] digits_eq_Suc[of "2 * n + 1" v w] byte_eq[of n v w] by auto
  then show ?case using Suc by (auto simp: less_Suc_eq)
qed simp

lemma has_common_prefix_digits:
  assumes "depth \<le> 64"
  shows "has_common_prefix depth common key \<longleftrightarrow> digits depth common = digits depth key"
proof -
  define n where "n = depth div 2"
  have bytes: "list_all (\<lambda>i. uint256_bytes common ! i = uint256_bytes key ! i) [0..<n] \<longleftrightarrow>
      digits (2 * n) common = digits (2 * n) key"
    using assms digits_bytes[of n common key] by (auto simp: n_def list_all_iff)
  show ?thesis
  proof (cases "odd depth")
    case True
    then have d: "depth = 2 * n + 1" by (simp add: n_def)
    then have "n < 32" using assms by simp
    with d show ?thesis using True bytes high_eq[of n common key] digits_eq_Suc[of "2 * n" common key]
      by (simp add: has_common_prefix_def Let_def)
  next
    case False
    then have "depth = 2 * n" by (simp add: n_def)
    then show ?thesis using False bytes by (simp add: has_common_prefix_def Let_def)
  qed
qed

section \<open>Walking towards a key\<close>

definition id_for :: "bool \<Rightarrow> nat \<Rightarrow> SHAMapNode \<Rightarrow> SHAMapNodeID \<Rightarrow> bool" where
  "id_for v2 d n nid \<longleftrightarrow> nid_depth nid = (if isLeaf n then (if v2 then 64 else d) else inner_depth d n)"

lemma getChildNodeID_depth [simp]: "nid_depth (getChildNodeID nid m) = Suc (nid_depth nid)"
  by (simp add: getChildNodeID_def Let_def)

text \<open>Whether the walk goes on from an inner node, and to which child.\<close>

definition walk_child :: "bool \<Rightarrow> nat \<Rightarrow> nat \<Rightarrow> uint256 \<Rightarrow> SHAMapNode \<Rightarrow> SHAMapNode option" where
  "walk_child v2 d P key n =
     (if digits (inner_depth d n) key = inner_path P n then getChild n (digit (inner_depth d n) key) else None)"

lemma lacks_prefix_digits:
  assumes "prefix_ok v2 d P (mPrefix n)" and "digits d key = P"
  shows "lacks_prefix n key \<longleftrightarrow> digits (inner_depth d n) key \<noteq> inner_path P n"
  using assms has_common_prefix_digits
  by (auto simp: lacks_prefix_def prefix_ok_def inner_depth_def inner_path_def split: option.splits)

lemma prefix_v1: "prefix_ok v2 d P (mPrefix n) \<Longrightarrow> \<not> v2 \<Longrightarrow> mPrefix n = None"
  by (auto simp: prefix_ok_def split: option.splits)

lemma walk_leaf: "isLeaf n \<Longrightarrow> walkTowardsKey_loop v2 key n nid st = Inr (Some n, (n, nid) # st)"
  by (simp add: walkTowardsKey_loop.simps)

text \<open>The walk for \<open>key\<close> is at the inner node \<open>n\<close>.\<close>

definition walk_at :: "bool \<Rightarrow> bool \<Rightarrow> nat \<Rightarrow> nat \<Rightarrow> uint256 \<Rightarrow> SHAMapNode \<Rightarrow> SHAMapNodeID \<Rightarrow> bool" where
  "walk_at v2 rt d P key n nid \<longleftrightarrow> wf_node v2 rt d P n \<and> isInner n \<and> digits d key = P \<and> id_for v2 d n nid"

lemma walk_atD:
  assumes "walk_at v2 rt d P key n nid"
  shows "wf_node v2 rt d P n" "isInner n" "digits d key = P" "id_for v2 d n nid"
  using assms by (simp_all add: walk_at_def)

lemma walk_branch:
  assumes "walk_at v2 rt d P key n nid"
  shows "selectBranch nid key = digit (inner_depth d n) key"
  using wf_innerD(2)[OF walk_atD(1,2)[OF assms]] inner_depth_bounds(2) walk_atD(2,4)[OF assms]
  by (simp add: id_for_def selectBranch_digit)

lemma walk_lacks:
  assumes "walk_at v2 rt d P key n nid"
  shows "v2 \<and> lacks_prefix n key \<longleftrightarrow> digits (inner_depth d n) key \<noteq> inner_path P n"
proof (cases v2)
  case False
  then have "mPrefix n = None" using wf_innerD(2)[OF walk_atD(1,2)[OF assms]] prefix_v1 by blast
  then show ?thesis using False walk_atD(3)[OF assms] by (simp add: inner_depth_def inner_path_def)
qed (simp add: lacks_prefix_digits[OF wf_innerD(2)[OF walk_atD(1,2)[OF assms]] walk_atD(3)[OF assms]])

lemma walk_stop:
  assumes w: "walk_at v2 rt d P key n nid" and "walk_child v2 d P key n = None"
  shows "walkTowardsKey_loop v2 key n nid st = Inr (None, (n, nid) # st)"
proof (cases "v2 \<and> lacks_prefix n key")
  case True
  then show ?thesis using walk_atD(2)[OF w] by (simp add: walkTowardsKey_loop.simps Let_def)
next
  case False
  then have "getChild n (digit (inner_depth d n) key) = None"
    using assms walk_lacks[OF w] by (simp add: walk_child_def split: if_splits)
  then have "isEmptyBranch n (digit (inner_depth d n) key)"
    using isEmptyBranch_child[OF wf_innerD(1)[OF walk_atD(1,2)[OF w]]] by simp
  then show ?thesis using walk_atD(2)[OF w] False
    by (subst walkTowardsKey_loop.simps) (simp only: Let_def walk_branch[OF w] if_False if_True)
qed

lemma walk_step:
  assumes w: "walk_at v2 rt d P key n nid" and "walk_child v2 d P key n = Some c"
  shows "\<exists>nid'. walkTowardsKey_loop v2 key n nid st = walkTowardsKey_loop v2 key c nid' ((n, nid) # st) \<and>
      id_for v2 (Suc (inner_depth d n)) c nid'"
    and "wf_node v2 False (Suc (inner_depth d n)) (16 * inner_path P n + digit (inner_depth d n) key) c"
    and "digits (Suc (inner_depth d n)) key = 16 * inner_path P n + digit (inner_depth d n) key"
proof -
  note wf = walk_atD(1)[OF w] and inner = walk_atD(2)[OF w] and nid = walk_atD(4)[OF w]
  have path: "digits (inner_depth d n) key = inner_path P n"
    and c: "getChild n (digit (inner_depth d n) key) = Some c"
    using assms by (simp_all add: walk_child_def split: if_splits)
  show wfc: "wf_node v2 False (Suc (inner_depth d n)) (16 * inner_path P n + digit (inner_depth d n) key) c"
    by (rule wf_innerD(4)[OF wf inner c]) simp
  show "digits (Suc (inner_depth d n)) key = 16 * inner_path P n + digit (inner_depth d n) key"
    using digits_Suc inner_depth_bounds(2)[OF wf_innerD(2)[OF wf inner]] path by simp
  have "\<not> isEmptyBranch n (digit (inner_depth d n) key)"
    using isEmptyBranch_child[OF wf_innerD(1)[OF wf inner]] c by simp
  moreover have "descendThrow n (digit (inner_depth d n) key) = Inr (Some c)" by (simp add: descendThrow_def c)
  moreover have "\<not> (v2 \<and> lacks_prefix n key)" using walk_lacks[OF w] path by simp
  ultimately have walk: "walkTowardsKey_loop v2 key n nid st =
      (if v2 then if isInner c \<and> \<not> is_v2_node c then Inr (None, (n, nid) # st)
         else walkTowardsKey_loop v2 key c (id_v2 c) ((n, nid) # st)
       else walkTowardsKey_loop v2 key c (getChildNodeID nid (digit (inner_depth d n) key)) ((n, nid) # st))"
    using inner by (subst walkTowardsKey_loop.simps)
      (simp only: Let_def walk_branch[OF w] if_False if_True bindE_Inr option.case)
  show "\<exists>nid'. walkTowardsKey_loop v2 key n nid st = walkTowardsKey_loop v2 key c nid' ((n, nid) # st) \<and>
      id_for v2 (Suc (inner_depth d n)) c nid'"
  proof (cases v2)
    case True
    have pre: "mPrefix c \<noteq> None" if "isInner c"
      using wf_innerD(2)[OF wfc that] True by (auto simp: prefix_ok_def split: option.splits)
    have "\<not> (isInner c \<and> \<not> is_v2_node c)" using pre by (cases c) auto
    moreover have "id_for v2 (Suc (inner_depth d n)) c (id_v2 c)"
      using True pre by (cases c) (auto simp: id_for_def inner_depth_def)
    ultimately show ?thesis using walk True by auto
  next
    case False
    have "id_for v2 (Suc (inner_depth d n)) c (getChildNodeID nid (digit (inner_depth d n) key))"
    proof (cases "isLeaf c")
      case True
      then show ?thesis using nid inner False by (simp add: id_for_def)
    next
      case inner_c: False
      then have "mPrefix c = None" using wf_innerD(2)[OF wfc inner_c] False prefix_v1 by blast
      then show ?thesis using nid inner inner_c by (simp add: id_for_def inner_depth_def)
    qed
    then show ?thesis using walk False by auto
  qed
qed

lemma walk_induct [consumes 3, case_names leaf stop step]:
  assumes "wf_node v2 rt d P n" and "digits d key = P" and "id_for v2 d n nid"
    and leaf: "\<And>rt d P n nid st. wf_node v2 rt d P n \<Longrightarrow> digits d key = P \<Longrightarrow> id_for v2 d n nid \<Longrightarrow> isLeaf n \<Longrightarrow>
      Q rt d P n nid st"
    and stop: "\<And>rt d P n nid st. walk_at v2 rt d P key n nid \<Longrightarrow> walk_child v2 d P key n = None \<Longrightarrow> Q rt d P n nid st"
    and step: "\<And>rt d P n nid st c nid'. walk_at v2 rt d P key n nid \<Longrightarrow> walk_child v2 d P key n = Some c \<Longrightarrow>
      walkTowardsKey_loop v2 key n nid st = walkTowardsKey_loop v2 key c nid' ((n, nid) # st) \<Longrightarrow>
      wf_node v2 False (Suc (inner_depth d n)) (16 * inner_path P n + digit (inner_depth d n) key) c \<Longrightarrow>
      id_for v2 (Suc (inner_depth d n)) c nid' \<Longrightarrow>
      Q False (Suc (inner_depth d n)) (16 * inner_path P n + digit (inner_depth d n) key) c nid' ((n, nid) # st) \<Longrightarrow>
      Q rt d P n nid st"
  shows "Q rt d P n nid st"
  using assms(1-3)
proof (induction "size n" arbitrary: rt d P n nid st rule: less_induct)
  case (less n rt d P nid st)
  show ?case
  proof (cases "isLeaf n")
    case True
    then show ?thesis using leaf less.prems by blast
  next
    case False
    then have w: "walk_at v2 rt d P key n nid" using less.prems by (simp add: walk_at_def)
    show ?thesis
    proof (cases "walk_child v2 d P key n")
      case None
      then show ?thesis by (rule stop[OF w])
    next
      case (Some c)
      then have "size c < size n" by (auto simp: walk_child_def dest: getChild_size split: if_splits)
      moreover obtain nid' where nid': "walkTowardsKey_loop v2 key n nid st = walkTowardsKey_loop v2 key c nid' ((n, nid) # st)"
        "id_for v2 (Suc (inner_depth d n)) c nid'" using walk_step(1)[OF w Some] by blast
      ultimately show ?thesis
        using step[OF w Some nid'(1) walk_step(2)[OF w Some] nid'(2)] less.hyps walk_step(2,3)[OF w Some] by blast
    qed
  qed
qed

section \<open>Lookup\<close>

lemma lookup_child:
  assumes "walk_at v2 rt d P key n nid"
  shows "map_of (entries n) key = (case walk_child v2 d P key n of None \<Rightarrow> None | Some c \<Rightarrow> map_of (entries c) key)"
proof -
  note wf = walk_atD(1)[OF assms] and inner = walk_atD(2)[OF assms]
  have mem: "(key, v) \<in> set (entries n) \<longleftrightarrow> (key, v) \<in> set (slot n (digit (inner_depth d n) key))" for v
    using entries_split[OF inner digit_less] others_keys[OF wf inner, of key "digit (inner_depth d n) key"] by force
  show ?thesis
  proof (cases "walk_child v2 d P key n")
    case None
    have "(key, v) \<notin> set (entries n)" for v
    proof
      assume "(key, v) \<in> set (entries n)"
      then have "(key, v) \<in> set (slot n (digit (inner_depth d n) key))" using mem by simp
      then have "key \<in> fst ` set (slot n (digit (inner_depth d n) key))" by (metis fst_conv image_eqI)
      then show False using wf_slot_keys(1)[OF wf inner digit_less] None
        by (auto simp: walk_child_def)
    qed
    then show ?thesis using None by (auto simp: map_of_eq_None_iff)
  next
    case (Some c)
    then have "set (slot n (digit (inner_depth d n) key)) = set (entries c)"
      by (auto simp: walk_child_def split: if_splits)
    then show ?thesis using Some mem smap_eqI[OF wf_sorted[OF wf] wf_sorted[OF walk_step(2)[OF assms Some]]] by simp
  qed
qed

lemma walk_find:
  assumes "wf_node v2 rt d P n" and "digits d key = P" and "id_for v2 d n nid"
  shows "\<exists>r st'. walkTowardsKey_loop v2 key n nid st = Inr (r, st') \<and> st' \<noteq> [] \<and>
    (\<forall>l. r = Some l \<longrightarrow> isLeaf l \<and> fst (hd st') = l) \<and> (r = None \<longrightarrow> isInner (fst (hd st'))) \<and>
    map_of (entries n) key =
      (case r of None \<Rightarrow> None | Some l \<Rightarrow> if tag (mItem l) = key then Some (mType l, item_data (mItem l)) else None)"
  using assms
proof (induction rule: walk_induct[where st = st])
  case (leaf rt d P n nid st)
  then show ?case by (simp add: walk_leaf)
next
  case (stop rt d P n nid st)
  then show ?case by (simp add: walk_stop lookup_child walk_atD(2))
next
  case (step rt d P n nid st c nid')
  then show ?case by (simp add: lookup_child)
qed

definition sham_ok :: "SHAMap \<Rightarrow> bool" where
  "sham_ok m \<longleftrightarrow> wf_node (is_v2 m) True 0 0 (sm_root m) \<and> inner_depth 0 (sm_root m) = 0"

abbreviation content :: "SHAMap \<Rightarrow> (uint256, TNType \<times> Blob) stdmap" where
  "content m \<equiv> entries (sm_root m)"

lemma sham_ok_inner: "sham_ok m \<Longrightarrow> isInner (sm_root m)"
  by (auto simp: sham_ok_def wf_leaf)

lemma root_id_for: "sham_ok m \<Longrightarrow> id_for (is_v2 m) 0 (sm_root m) root_id"
  using sham_ok_inner by (simp add: sham_ok_def id_for_def root_id_def)

lemma walk_root:
  assumes "sham_ok m"
  shows "\<exists>r st'. walkTowardsKey m key = Inr (r, st') \<and> st' \<noteq> [] \<and>
    (\<forall>l. r = Some l \<longrightarrow> isLeaf l \<and> fst (hd st') = l) \<and> (r = None \<longrightarrow> isInner (fst (hd st'))) \<and>
    map_of (content m) key =
      (case r of None \<Rightarrow> None | Some l \<Rightarrow> if tag (mItem l) = key then Some (mType l, item_data (mItem l)) else None)"
  unfolding walkTowardsKey_def
  by (rule walk_find[where rt = True and d = 0 and P = 0])
    (use assms root_id_for[OF assms] in \<open>simp_all add: sham_ok_def\<close>)

lemma findKey_content:
  assumes "sham_ok m"
  shows "\<exists>r. findKey m key = Inr r \<and>
    map_of (content m) key = map_option (\<lambda>l. (mType l, item_data (mItem l))) r \<and>
    (\<forall>l. r = Some l \<longrightarrow> isLeaf l \<and> tag (mItem l) = key)"
proof -
  obtain r st' where r: "walkTowardsKey m key = Inr (r, st')" "\<forall>l. r = Some l \<longrightarrow> isLeaf l"
    "map_of (content m) key =
      (case r of None \<Rightarrow> None | Some l \<Rightarrow> if tag (mItem l) = key then Some (mType l, item_data (mItem l)) else None)"
    using walk_root[OF assms, of key] by blast
  then show ?thesis by (cases r) (simp_all add: findKey_def)
qed

lemma hasItem_content: "sham_ok m \<Longrightarrow> hasItem m key = Inr (map_of (content m) key \<noteq> None)"
  using findKey_content[of m key] by (auto simp: hasItem_def)

lemma peekItem_content:
  "sham_ok m \<Longrightarrow> peekItem m key = Inr (map_option (\<lambda>(_, b). \<lparr>tag = key, item_data = b\<rparr>) (map_of (content m) key))"
proof -
  assume "sham_ok m"
  then obtain r where r: "findKey m key = Inr r" "map_of (content m) key = map_option (\<lambda>l. (mType l, item_data (mItem l))) r"
    "\<forall>l. r = Some l \<longrightarrow> isLeaf l \<and> tag (mItem l) = key" using findKey_content by blast
  then show ?thesis by (cases r) (auto simp: peekItem_def)
qed

end
