(* ===== verification/SHAMapModify.thy ===== *)
theory SHAMapModify
  imports SHAMapWalk
begin

text \<open>
  Adding, deleting and replacing items of a \<open>SHAMap\<close>, in both versions: each operation is the
  corresponding operation on the ordered map of its items, keeps the tree well-formed and leaves
  every cached hash up to date or reset.
\<close>

section \<open>Cached hashes\<close>

text \<open>The Merkle hash of a tree, recomputed from its leaves.\<close>

function merkle :: "hasher \<Rightarrow> SHAMapNode \<Rightarrow> uint256" where
  "merkle h n =
     (if isLeaf n then TreeNode_hash h (mType n) (mItem n)
      else
        let hashes = map (\<lambda>i. case getChild n i of None \<Rightarrow> 0 | Some c \<Rightarrow> merkle h c) [0..<16]
        in (case mPrefix n of
              None \<Rightarrow> InnerNode_hash h hashes (mIsBranch n)
            | Some (depth, common) \<Rightarrow> InnerNodeV2_hash h hashes (mIsBranch n) depth common))"
  by pat_completeness auto
termination
  by (relation "measure (\<lambda>(_, n). size n)") (auto dest: getChild_size)

declare merkle.simps [simp del]

text \<open>
  What is always true of the hashes stored in a tree: a leaf's hash is up to date; an inner node has its
  Merkle hash, or it may be modified and its hash is reset; a shareable inner node (sequence number
  zero) has only shareable children, and empty branches have no hash.
\<close>

function cached :: "hasher \<Rightarrow> SHAMapNode \<Rightarrow> bool" where
  "cached h n \<longleftrightarrow>
     (if isLeaf n then mHash n = TreeNode_hash h (mType n) (mItem n)
      else
        (mHash n = merkle h n \<or> mSeq n \<noteq> 0 \<and> mHash n = 0) \<and>
        (\<forall>i \<in> {..<16}. isEmptyBranch n i \<longrightarrow> mHashes n ! i = 0) \<and>
        (\<forall>i \<in> {..<16}. case getChild n i of
           None \<Rightarrow> True
         | Some c \<Rightarrow> cached h c \<and> (mSeq n = 0 \<longrightarrow> mSeq c = 0)))"
  by pat_completeness auto
termination
  by (relation "measure (\<lambda>(_, n). size n)") (auto dest: getChild_size)

declare cached.simps [simp del]

lemma cached_inner:
  "isInner n \<Longrightarrow> cached h n \<longleftrightarrow>
     (mHash n = merkle h n \<or> mSeq n \<noteq> 0 \<and> mHash n = 0) \<and> (\<forall>i < 16. isEmptyBranch n i \<longrightarrow> mHashes n ! i = 0) \<and>
     (\<forall>i c. i < 16 \<and> getChild n i = Some c \<longrightarrow> cached h c \<and> (mSeq n = 0 \<longrightarrow> mSeq c = 0))"
  by (subst cached.simps) (auto split: option.splits)

lemma cached_leaf: "isLeaf n \<Longrightarrow> cached h n \<longleftrightarrow> mHash n = TreeNode_hash h (mType n) (mItem n)"
  by (simp add: cached.simps)

lemma cached_child: "cached h n \<Longrightarrow> isInner n \<Longrightarrow> i < 16 \<Longrightarrow> getChild n i = Some c \<Longrightarrow> cached h c"
  by (simp add: cached_inner)

section \<open>Changing a child\<close>

lemma mHash_setChild: "isInner n \<Longrightarrow> mHash (setChild b c n) = 0"
  by (cases n) auto

lemma mSeq_setChild [simp]: "mSeq (setChild b c n) = mSeq n"
  by (cases n) auto

lemma mHashes_setChild: "isInner n \<Longrightarrow> mHashes (setChild b c n) = (mHashes n)[b := 0]"
  by (cases n) auto

lemma mHashes_unshare [simp]: "isInner n \<Longrightarrow> mHashes (unshareNode seq n) = mHashes n"
  by (cases n) (auto simp: unshareNode_def)

lemma length_mHashes: "inner_shape n \<Longrightarrow> length (mHashes n) = 16"
  by (cases n) auto

lemma cached_setChild:
  assumes "inner_shape n" and "cached h n" and "seq \<noteq> 0" and "b < 16" and "\<And>x. c = Some x \<Longrightarrow> cached h x"
  shows "cached h (setChild b c (unshareNode seq n))"
proof -
  let ?n = "setChild b c (unshareNode seq n)"
  have inner: "isInner n" by (rule inner_shape_inner[OF assms(1)])
  have shape: "inner_shape (unshareNode seq n)" using assms(1) by simp
  have "mHashes ?n ! i = 0" if "i < 16" "isEmptyBranch ?n i" for i
    using assms that inner isEmptyBranch_child[OF inner_shape_setChild[OF shape assms(4)] that(1), of c]
      getChild_setChild[OF shape assms(4)] isEmptyBranch_child[OF assms(1) that(1)] length_mHashes[OF assms(1)]
    by (auto simp: mHashes_setChild nth_list_update cached_inner split: if_splits)
  moreover have "cached h x" if "i < 16" "getChild ?n i = Some x" for i x
    using that assms inner getChild_setChild[OF shape assms(4)] by (auto simp: cached_inner split: if_splits)
  ultimately show ?thesis using inner assms(3) by (subst cached_inner) (auto simp: mHash_setChild)
qed

lemma slot_setChild:
  "inner_shape n \<Longrightarrow> b < 16 \<Longrightarrow>
     slot (setChild b c (unshareNode seq n)) i = (if i = b then (case c of None \<Rightarrow> [] | Some x \<Rightarrow> entries x) else slot n i)"
  using getChild_setChild[of "unshareNode seq n" b c i] by (simp add: slot_def)

lemma others_setChild:
  "inner_shape n \<Longrightarrow> b < 16 \<Longrightarrow> others (setChild b c (unshareNode seq n)) b = others n b"
  by (auto simp: others_def slot_setChild)

lemma entries_setChild:
  assumes "inner_shape n" and "b < 16"
  shows "set (entries (setChild b c (unshareNode seq n))) =
    (case c of None \<Rightarrow> {} | Some x \<Rightarrow> set (entries x)) \<union> others n b"
  using assms inner_shape_inner[OF assms(1)]
  by (subst entries_split[OF _ assms(2)]) (auto simp: others_setChild slot_setChild split: option.splits)

lemma length_entries: "isInner n \<Longrightarrow> length (entries n) = (\<Sum>i < 16. length (slot n i))"
  by (simp add: entries_inner length_concat interv_sum_list_conv_sum_set_nat atLeast0LessThan comp_def)

lemma length_setChild:
  assumes "inner_shape n" and "b < 16"
  shows "length (entries (setChild b c (unshareNode seq n))) + length (slot n b) =
    length (entries n) + (case c of None \<Rightarrow> 0 | Some x \<Rightarrow> length (entries x))"
proof -
  let ?n = "setChild b c (unshareNode seq n)"
  have inner: "isInner n" "isInner ?n" using inner_shape_inner[OF assms(1)] by simp_all
  have split: "(\<Sum>i < 16. length (slot m i)) = length (slot m b) + (\<Sum>i \<in> {..<16} - {b}. length (slot m i))" for m
    using assms(2) by (simp add: sum.remove)
  have "(\<Sum>i \<in> {..<16} - {b}. length (slot ?n i)) = (\<Sum>i \<in> {..<16} - {b}. length (slot n i))"
    using assms by (intro sum.cong) (auto simp: slot_setChild)
  then show ?thesis using split[of n] split[of ?n] inner assms
    by (simp add: length_entries slot_setChild split: option.splits)
qed

lemma getBranchCount_card: "inner_shape n \<Longrightarrow> getBranchCount n = card {i. i < 16 \<and> getChild n i \<noteq> None}"
proof -
  assume n: "inner_shape n"
  have "getBranchCount n = card (set (filter (\<lambda>i. \<not> isEmptyBranch n i) [0..<16]))"
    unfolding getBranchCount_def by (rule distinct_card[symmetric]) simp
  also have "set (filter (\<lambda>i. \<not> isEmptyBranch n i) [0..<16]) = {i. i < 16 \<and> getChild n i \<noteq> None}"
    using isEmptyBranch_child[OF n] by auto
  finally show ?thesis .
qed

lemma getBranchCount_setChild:
  assumes "inner_shape n" and "b < 16"
  shows "getBranchCount n \<le> getBranchCount (setChild b (Some c) (unshareNode seq n))"
    and "getBranchCount (setChild b None (unshareNode seq n)) = getBranchCount n - (if getChild n b = None then 0 else 1)"
proof -
  have shape: "inner_shape (unshareNode seq n)" "inner_shape (setChild b x (unshareNode seq n))" for x
    using assms inner_shape_setChild by simp_all
  have g: "getChild (setChild b x (unshareNode seq n)) i = (if i = b then x else getChild n i)" for x i
    using getChild_setChild[OF shape(1) assms(2)] by simp
  show "getBranchCount n \<le> getBranchCount (setChild b (Some c) (unshareNode seq n))"
    unfolding getBranchCount_card[OF assms(1)] getBranchCount_card[OF shape(2)] g by (intro card_mono) auto
  have e: "{i. i < 16 \<and> (if i = b then None else getChild n i) \<noteq> None} = {i. i < 16 \<and> getChild n i \<noteq> None} - {b}"
    by auto
  show "getBranchCount (setChild b None (unshareNode seq n)) = getBranchCount n - (if getChild n b = None then 0 else 1)"
    unfolding getBranchCount_card[OF assms(1)] getBranchCount_card[OF shape(2)] g e using assms(2) by auto
qed

text \<open>The tree with a child changed.\<close>

lemma wf_setChild:
  assumes wf: "wf_node v2 rt d P n" and inner: "isInner n" and b: "b < 16"
    and c: "\<And>x. c = Some x \<Longrightarrow> wf_node v2 False (Suc (inner_depth d n)) (16 * inner_path P n + b) x"
    and m: "rt \<or> merged v2 (setChild b c (unshareNode seq n))"
  shows "wf_node v2 rt d P (setChild b c (unshareNode seq n))"
proof -
  let ?n = "setChild b c (unshareNode seq n)"
  note D = wf_innerD[OF wf inner]
  have inner': "isInner ?n" using inner by simp
  have same: "mPrefix ?n = mPrefix n" "inner_depth d ?n = inner_depth d n" "inner_path P ?n = inner_path P n"
    using inner by (simp_all add: inner_depth_def inner_path_def)
  have g: "getChild ?n i = (if i = b then c else getChild n i)" for i
    using getChild_setChild[of "unshareNode seq n" b c i] D(1) b by simp
  have "inner_shape ?n" using inner_shape_setChild[of "unshareNode seq n"] D(1) b by simp
  then show ?thesis using D(2,4) m c unfolding wf_inner[OF inner'] same g by auto
qed

section \<open>Adding an item\<close>

lemma wf_below: "wf_node v2 True d P n \<Longrightarrow> isInner n \<Longrightarrow> merged v2 n \<Longrightarrow> wf_node v2 False d P n"
  by (auto simp: wf_inner prefix_ok_def split: option.splits)

lemma new_leaf [simp]:
  "isLeaf (SHAMapTreeNode_new h item ty seq)" "mItem (SHAMapTreeNode_new h item ty seq) = item"
  "mType (SHAMapTreeNode_new h item ty seq) = ty" "cached h (SHAMapTreeNode_new h item ty seq)"
  by (simp_all add: SHAMapTreeNode_new_def Let_def cached_leaf)

lemma new_leaf_wf: "d \<le> 64 \<Longrightarrow> digits d (tag item) = P \<Longrightarrow> wf_node v2 False d P (SHAMapTreeNode_new h item ty seq)"
  by (simp add: wf_leaf)

definition grown :: "hasher \<Rightarrow> SHAMapItem \<Rightarrow> TNType \<Rightarrow> bool \<Rightarrow> bool \<Rightarrow> nat \<Rightarrow> nat \<Rightarrow> SHAMapNode \<Rightarrow> SHAMapNode \<Rightarrow> bool" where
  "grown h item ty v2 rt d P n n' \<longleftrightarrow>
     wf_node v2 rt d P n' \<and> cached h n' \<and>
     set (entries n') = insert (tag item, ty, item_data item) (set (entries n)) \<and>
     length (entries n') = Suc (length (entries n)) \<and> (rt \<longrightarrow> mPrefix n' = mPrefix n)"

text \<open>A child that has grown makes its parent grow; so does a new child in an empty branch.\<close>

lemma grown_parent:
  assumes w: "walk_at v2 rt d P (tag item) n nid" and path: "digits (inner_depth d n) (tag item) = inner_path P n"
    and "cached h n" and "seq \<noteq> 0" and old: "slot n (digit (inner_depth d n) (tag item)) = old"
    and wfc: "wf_node v2 False (Suc (inner_depth d n)) (16 * inner_path P n + digit (inner_depth d n) (tag item)) c"
    and "cached h c" and ents: "set (entries c) = insert (tag item, ty, item_data item) (set old)"
    and len: "length (entries c) = Suc (length old)"
  shows "grown h item ty v2 rt d P n (setChild (digit (inner_depth d n) (tag item)) (Some c) (unshareNode seq n))"
proof -
  let ?b = "digit (inner_depth d n) (tag item)"
  let ?n = "setChild ?b (Some c) (unshareNode seq n)"
  note D = wf_innerD[OF walk_atD(1,2)[OF w]] and inner = walk_atD(2)[OF w]
  have l: "length (entries ?n) = Suc (length (entries n))"
    using length_setChild[OF D(1) digit_less[of "inner_depth d n" "tag item"], of "Some c" seq] len old by simp
  have "rt \<or> merged v2 ?n"
    using D(3) l getBranchCount_setChild(1)[OF D(1) digit_less[of "inner_depth d n" "tag item"], of c seq]
    by (auto simp: merged_def)
  then have "wf_node v2 rt d P ?n" 
    by (intro wf_setChild[OF walk_atD(1,2)[OF w] digit_less]) (use wfc in auto)
  moreover have "cached h ?n" by (rule cached_setChild[OF D(1)]) (use assms in auto)
  moreover have "set (entries ?n) = insert (tag item, ty, item_data item) (set (entries n))"
    using entries_setChild[OF D(1) digit_less[of "inner_depth d n" "tag item"], of "Some c" seq] entries_split[OF inner digit_less[of "inner_depth d n" "tag item"]] ents old by auto
  ultimately show ?thesis using l inner by (simp add: grown_def)
qed

lemma grown_step:
  assumes w: "walk_at v2 rt d P (tag item) n nid" and c: "walk_child v2 d P (tag item) n = Some c"
    and "cached h n" and "seq \<noteq> 0"
    and g: "grown h item ty v2 False (Suc (inner_depth d n)) (16 * inner_path P n + digit (inner_depth d n) (tag item)) c c'"
  shows "grown h item ty v2 rt d P n (setChild (digit (inner_depth d n) (tag item)) (Some c') (unshareNode seq n))"
  using c g by (intro grown_parent[OF w _ assms(3,4)]) (auto simp: walk_child_def grown_def split: if_splits)

lemma grown_empty:
  assumes w: "walk_at v2 rt d P (tag item) n nid" and path: "digits (inner_depth d n) (tag item) = inner_path P n"
    and "getChild n (digit (inner_depth d n) (tag item)) = None" and "cached h n" and "seq \<noteq> 0"
  shows "grown h item ty v2 rt d P n
    (setChild (digit (inner_depth d n) (tag item)) (Some (SHAMapTreeNode_new h item ty seq)) (unshareNode seq n))"
proof -
  have e: "inner_depth d n < 64" using inner_depth_bounds(2) wf_innerD(2)[OF walk_atD(1,2)[OF w]] by blast
  show ?thesis
    by (rule grown_parent[OF w path assms(4,5) refl])
      (use assms e path in \<open>auto intro!: new_leaf_wf simp: digits_Suc\<close>)
qed

text \<open>A new inner node.\<close>

definition fresh :: "u32 \<Rightarrow> (nat \<times> uint256) option \<Rightarrow> SHAMapNode" where
  "fresh seq pre = SHAMapInnerNode seq 0 (replicate 16 0) 0 (replicate 16 None) pre"

lemma fresh_simps [simp]:
  "isInner (fresh seq pre)" "inner_shape (fresh seq pre)" "mSeq (fresh seq pre) = seq"
  "getChild (fresh seq pre) i = None" "mPrefix (fresh seq pre) = pre"
  "seq \<noteq> 0 \<Longrightarrow> cached h (fresh seq pre)" "unshareNode seq (fresh seq pre) = fresh seq pre"
  by (auto simp: fresh_def cached_inner unshareNode_def)

lemma fresh_entries [simp]: "entries (fresh seq pre) = []" "slot (fresh seq pre) i = []" "others (fresh seq pre) b = {}"
  by (simp_all add: entries_inner others_def)

lemma new_inner_fresh: "SHAMapInnerNode_new seq = fresh seq None"
  by (simp add: fresh_def SHAMapInnerNode_new_def)

lemma wf_fresh: "prefix_ok v2 d P pre \<Longrightarrow> wf_node v2 True d P (fresh seq pre)"
  by (simp add: wf_inner)

lemma fresh_depth: "inner_depth d (fresh seq pre) = (case pre of None \<Rightarrow> d | Some (e, _) \<Rightarrow> e)"
  "inner_path P (fresh seq pre) = (case pre of None \<Rightarrow> P | Some (e, c) \<Rightarrow> digits e c)"
  by (simp_all add: inner_depth_def inner_path_def)

text \<open>A new inner node with one child, and with two.\<close>

lemma fresh_one:
  assumes "prefix_ok v2 d P pre" and "b < 16" and "seq \<noteq> 0"
    and "wf_node v2 False (Suc (inner_depth d (fresh seq pre))) (16 * inner_path P (fresh seq pre) + b) c" and "cached h c"
  shows "wf_node v2 True d P (setChild b (Some c) (fresh seq pre))"
    and "cached h (setChild b (Some c) (fresh seq pre))"
    and "set (entries (setChild b (Some c) (fresh seq pre))) = set (entries c)"
    and "length (entries (setChild b (Some c) (fresh seq pre))) = length (entries c)"
    and "unshareNode seq (setChild b (Some c) (fresh seq pre)) = setChild b (Some c) (fresh seq pre)"
proof -
  show "wf_node v2 True d P (setChild b (Some c) (fresh seq pre))"
    using wf_setChild[OF wf_fresh[OF assms(1)], of seq b "Some c" seq] assms(2,4) by simp
  show "cached h (setChild b (Some c) (fresh seq pre))"
    using cached_setChild[of "fresh seq pre" h seq b "Some c"] assms by simp
  show "set (entries (setChild b (Some c) (fresh seq pre))) = set (entries c)"
    using entries_setChild[of "fresh seq pre" b "Some c" seq] assms(2) by simp
  show "length (entries (setChild b (Some c) (fresh seq pre))) = length (entries c)"
    using length_setChild[of "fresh seq pre" b "Some c" seq] assms(2) by simp
  show "unshareNode seq (setChild b (Some c) (fresh seq pre)) = setChild b (Some c) (fresh seq pre)"
    by (simp add: unshareNode_def)
qed

lemma wf_nonempty: "wf_node v2 False d P n \<Longrightarrow> 1 \<le> length (entries n)"
  by (cases "isLeaf n") (auto simp: merged_def dest: wf_innerD(3))

lemma fresh_two:
  assumes pre: "prefix_ok v2 d P pre" and b: "b1 < 16" "b2 < 16" "b1 \<noteq> b2" and seq: "seq \<noteq> 0"
    and c1: "wf_node v2 False (Suc (inner_depth d (fresh seq pre))) (16 * inner_path P (fresh seq pre) + b1) c1" "cached h c1"
    and c2: "wf_node v2 False (Suc (inner_depth d (fresh seq pre))) (16 * inner_path P (fresh seq pre) + b2) c2" "cached h c2"
  defines "n \<equiv> setChild b2 (Some c2) (setChild b1 (Some c1) (fresh seq pre))"
  shows "wf_node v2 False d P n" and "cached h n" and "length (entries n) = length (entries c1) + length (entries c2)"
    and "set (entries n) = set (entries c1) \<union> set (entries c2)"
proof -
  let ?n1 = "setChild b1 (Some c1) (fresh seq pre)"
  note one = fresh_one[OF pre b(1) seq c1]
  have shape1: "inner_shape ?n1" using inner_shape_setChild[of "fresh seq pre"] b(1) by simp
  have depth1: "inner_depth d ?n1 = inner_depth d (fresh seq pre)" "inner_path P ?n1 = inner_path P (fresh seq pre)"
    by (simp_all add: inner_depth_def inner_path_def)
  have g: "getChild ?n1 i = (if i = b1 then Some c1 else None)" for i
    using getChild_setChild[of "fresh seq pre" b1] b(1) by simp
  have none: "slot ?n1 b2 = []" using g b(3) by (simp add: slot_def)
  have n: "n = setChild b2 (Some c2) (unshareNode seq ?n1)" by (simp add: n_def one(5))
  show len: "length (entries n) = length (entries c1) + length (entries c2)"
    using length_setChild[OF shape1 b(2), of "Some c2" seq] one(4) none by (simp add: n)
  have "2 \<le> getBranchCount n"
  proof -
    have "inner_shape n" using inner_shape_setChild[of "unshareNode seq ?n1"] shape1 b(2) by (simp add: n)
    moreover have "getChild n i = (if i = b2 then Some c2 else if i = b1 then Some c1 else None)" for i
      using getChild_setChild[OF shape1 b(2)] g by (simp add: n_def)
    then have "{i. i < 16 \<and> getChild n i \<noteq> None} = {b1, b2}" using b by auto
    ultimately show ?thesis using b(3) by (simp add: getBranchCount_card)
  qed
  then have "merged v2 n" using len wf_nonempty[OF c1(1)] wf_nonempty[OF c2(1)] by (simp add: merged_def)
  moreover have "wf_node v2 True d P n"
    unfolding n by (rule wf_setChild[OF one(1) _ b(2)]) (use c2 depth1 in simp_all)
  ultimately show "wf_node v2 False d P n" by (intro wf_below) (simp_all add: n_def)
  show "cached h n" unfolding n by (rule cached_setChild[OF shape1 one(2) seq b(2)]) (use c2 in simp)
  have "others ?n1 b2 = set (entries c1)" using entries_split[of ?n1 b2] none one(3) b(2) by simp
  then show "set (entries n) = set (entries c1) \<union> set (entries c2)"
    using entries_setChild[OF shape1 b(2), of "Some c2" seq] by (auto simp: n)
qed

subsection \<open>Version 1\<close>

text \<open>The subtree that takes the place of a leaf whose key shares the path of the new one.\<close>

lemma split_leaf:
  assumes "digits d (tag item) = digits d (tag other)" and "tag item \<noteq> tag other" and "nid_depth nid = d" and "d \<le> 64"
    and seq: "seq \<noteq> 0"
  shows "\<exists>node nid' st'. addGiveItem_split seq (tag item) (tag other) (fresh seq None) nid st = Inr (node, nid', st') \<and>
    (\<exists>n'. dirtyUp seq (tag item) st'
        (setChild (selectBranch nid' (tag other)) (Some (SHAMapTreeNode_new h other ty seq))
          (setChild (selectBranch nid' (tag item)) (Some (SHAMapTreeNode_new h item ty seq)) node)) =
        dirtyUp seq (tag item) st n' \<and>
      wf_node False False d (digits d (tag item)) n' \<and> cached h n' \<and> length (entries n') = 2 \<and>
      set (entries n') = {(tag item, ty, item_data item), (tag other, ty, item_data other)})"
  using assms(1,3,4)
proof (induction "64 - d" arbitrary: d nid st rule: less_induct)
  case (less d nid st)
  have d: "d < 64" using digits_differ[OF less.prems(1) assms(2) less.prems(3)] .
  let ?new = "fresh seq None"
  let ?P = "digits d (tag item)"
  let ?l = "\<lambda>i. SHAMapTreeNode_new h i ty seq"
  have b: "selectBranch nid (tag item) = digit d (tag item)" "selectBranch nid (tag other) = digit d (tag other)"
    using d less.prems(2) by (simp_all add: selectBranch_digit)
  have pre: "prefix_ok False d ?P None" using d by (simp add: prefix_ok_def)
  show ?case
  proof (cases "digit d (tag item) = digit d (tag other)")
    case True
    have same: "digits (Suc d) (tag item) = digits (Suc d) (tag other)"
      using digits_eq_Suc[OF d] less.prems(1) True by simp
    let ?nid = "getChildNodeID nid (digit d (tag item))"
    have rec: "addGiveItem_split seq (tag item) (tag other) ?new nid st =
        addGiveItem_split seq (tag item) (tag other) ?new ?nid ((?new, nid) # st)"
      using d less.prems(2) b True by (subst addGiveItem_split.simps) (simp add: new_inner_fresh)
    have "64 - Suc d < 64 - d" "nid_depth ?nid = Suc d" "Suc d \<le> 64" using d less.prems(2) by simp_all
    from less.hyps[OF this(1) same this(2,3), of "(?new, nid) # st"] obtain node nid' st' n1
      where n1: "addGiveItem_split seq (tag item) (tag other) ?new ?nid ((?new, nid) # st) = Inr (node, nid', st')"
        "dirtyUp seq (tag item) st' (setChild (selectBranch nid' (tag other)) (Some (?l other))
          (setChild (selectBranch nid' (tag item)) (Some (?l item)) node)) = dirtyUp seq (tag item) ((?new, nid) # st) n1"
        "wf_node False False (Suc d) (digits (Suc d) (tag item)) n1" "cached h n1" "length (entries n1) = 2"
        "set (entries n1) = {(tag item, ty, item_data item), (tag other, ty, item_data other)}"
      by blast
    have "wf_node False False (Suc (inner_depth d ?new)) (16 * inner_path ?P ?new + digit d (tag item)) n1"
      using n1(3) d by (simp add: fresh_depth digits_Suc)
    note one = fresh_one[OF pre digit_less seq this n1(4)]
    have "wf_node False False d ?P (setChild (digit d (tag item)) (Some n1) ?new)"
      by (rule wf_below[OF one(1)]) (use one(4) n1(5) in \<open>simp_all add: merged_def\<close>)
    then show ?thesis using n1 one rec b by auto
  next
    case False
    have leaf: "wf_node False False (Suc (inner_depth d ?new)) (16 * inner_path ?P ?new + digit d (tag i)) (?l i)"
      if "digits d (tag i) = ?P" for i
      using that d by (auto intro!: new_leaf_wf simp: digits_Suc fresh_depth)
    note two = fresh_two[OF pre digit_less digit_less False seq leaf[OF refl] new_leaf(4) leaf[OF less.prems(1)[symmetric]] new_leaf(4)]
    have "addGiveItem_split seq (tag item) (tag other) ?new nid st = Inr (?new, nid, st)"
      using d less.prems(2) b False by (subst addGiveItem_split.simps) simp
    then show ?thesis using b two by auto
  qed
qed

text \<open>
  What adding an item where the walk ended does: the path above is rebuilt over a subtree that has grown
  by the item.  All the leaves of the subtree have the type of the new one: the source gives this type
  to a leaf that it moves down.
\<close>

definition adds :: "hasher \<Rightarrow> u32 \<Rightarrow> SHAMapItem \<Rightarrow> TNType \<Rightarrow> bool \<Rightarrow> bool \<Rightarrow> nat \<Rightarrow> nat \<Rightarrow>
    SHAMapNode \<Rightarrow> NodeStack \<Rightarrow> (SHAMapNode option \<times> NodeStack) res \<Rightarrow> bool" where
  "adds h seq item ty v2 rt d P n st r \<longleftrightarrow>
     (\<exists>l node nid st'. r = Inr (l, (node, nid) # st') \<and> \<not> (isLeaf node \<and> tag (mItem node) = tag item) \<and>
       (\<exists>x st'' n'. (if v2 then addGiveItem_v2 else addGiveItem_v1) h seq item ty (unshareNode seq node) nid st' = Inr (x, st'') \<and>
         dirtyUp seq (tag item) st'' x = dirtyUp seq (tag item) st n' \<and> grown h item ty v2 rt d P n n'))"

definition one_type :: "TNType \<Rightarrow> SHAMapNode \<Rightarrow> bool" where
  "one_type ty n \<longleftrightarrow> (\<forall>(_, t, _) \<in> set (entries n). t = ty)"

lemma one_type_child: "one_type ty n \<Longrightarrow> isInner n \<Longrightarrow> i < 16 \<Longrightarrow> getChild n i = Some c \<Longrightarrow> one_type ty c"
  unfolding one_type_def by (subst (asm) entries_split[of n i]) auto

lemma adds_leaf_v1:
  assumes "wf_node False rt d P n" and "digits d (tag item) = P" and "id_for False d n nid" and "isLeaf n"
    and "tag item \<notin> keys n" and "one_type ty n" and "cached h n" and "seq \<noteq> 0"
  shows "adds h seq item ty False rt d P n st (Inr (Some n, (n, nid) # st))"
proof -
  let ?other = "mItem n"
  have d: "digits d (tag item) = digits d (tag ?other)" "d \<le> 64" "nid_depth nid = d" "\<not> rt" "tag item \<noteq> tag ?other"
    using assms by (auto simp: wf_leaf id_for_def)
  have ty: "mType n = ty" using assms(4,6) by (simp add: one_type_def)
  obtain node nid' st' n' where s: "addGiveItem_split seq (tag item) (tag ?other) (fresh seq None) nid st = Inr (node, nid', st')"
    "dirtyUp seq (tag item) st'
        (setChild (selectBranch nid' (tag ?other)) (Some (SHAMapTreeNode_new h ?other ty seq))
          (setChild (selectBranch nid' (tag item)) (Some (SHAMapTreeNode_new h item ty seq)) node)) =
        dirtyUp seq (tag item) st n'"
    "wf_node False False d (digits d (tag item)) n'" "cached h n'" "length (entries n') = 2"
    "set (entries n') = {(tag item, ty, item_data item), (tag ?other, ty, item_data ?other)}"
    using split_leaf[OF d(1,5,3,2) assms(8), of st h ty] by blast
  have "grown h item ty False rt d P n n'" using s d assms(2,4) ty by (simp add: grown_def)
  then show ?thesis using s(1,2) d(5) assms(4)
    by (auto simp: adds_def addGiveItem_v1_def Let_def new_inner_fresh)
qed

lemma adds_stop:
  assumes w: "walk_at v2 rt d P (tag item) n nid" and "walk_child v2 d P (tag item) n = None"
    and path: "digits (inner_depth d n) (tag item) = inner_path P n" and "cached h n" and "seq \<noteq> 0"
  shows "adds h seq item ty v2 rt d P n st (Inr (None, (n, nid) # st))"
proof -
  have none: "getChild n (digit (inner_depth d n) (tag item)) = None"
    using assms(2) path by (simp add: walk_child_def)
  have inner: "isInner n" using walk_atD(2)[OF w] .
  have b: "selectBranch nid (tag item) = digit (inner_depth d n) (tag item)" by (rule walk_branch[OF w])
  let ?n = "setChild (digit (inner_depth d n) (tag item)) (Some (SHAMapTreeNode_new h item ty seq)) (unshareNode seq n)"
  have lacks: "v2 \<Longrightarrow> \<not> lacks_prefix (unshareNode seq n) (tag item)"
    using walk_lacks[OF w] path inner by (simp add: lacks_prefix_def)
  have "(if v2 then addGiveItem_v2 else addGiveItem_v1) h seq item ty (unshareNode seq n) nid st = Inr (?n, st)"
    using inner b lacks by (simp add: addGiveItem_v1_def addGiveItem_v2_def Let_def)
  then show ?thesis using grown_empty[OF w path none assms(4,5)] inner unfolding adds_def by blast
qed

section \<open>Version 2\<close>

lemma prefix_bytes:
  assumes "depth \<le> 64" and "i < 32"
  shows "uint256_bytes (prefix depth key) ! i =
    (if i < depth div 2 then uint256_bytes key ! i
     else if odd depth \<and> i = depth div 2 then uint256_bytes key ! i AND 0xF0 else 0)"
  using assms by (auto simp: prefix_def Let_def nth_append nth_list_update)

lemma and_high_twice: "(b AND 0xF0) AND 0xF0 = (b AND 0xF0 :: u8)"
  by (simp add: and.assoc)

lemma digits_prefix:
  assumes "depth \<le> 64" and "d \<le> depth"
  shows "digits d (prefix depth key) = digits d key"
proof -
  have odd: "depth div 2 < 32" if "odd depth" using that assms(1) by presburger
  have "has_common_prefix depth (prefix depth key) key"
    using assms(1) odd by (auto simp: has_common_prefix_def Let_def list_all_iff prefix_bytes and_high_twice)
  then have "digits depth (prefix depth key) = digits depth key" using has_common_prefix_digits[OF assms(1)] by simp
  then show ?thesis by (rule digits_down[OF _ assms(2,1)])
qed

lemma prefix_cong:
  assumes "depth \<le> 64" and "digits depth v = digits depth w"
  shows "prefix depth v = prefix depth w"
proof -
  have hc: "has_common_prefix depth v w" using assms by (simp add: has_common_prefix_digits)
  have "uint256_bytes (prefix depth v) ! i = uint256_bytes (prefix depth w) ! i" if "i < 32" for i
    using hc that assms(1) by (auto simp: prefix_bytes has_common_prefix_def Let_def list_all_iff split: if_splits)
  then have "uint256_bytes (prefix depth v) = uint256_bytes (prefix depth w)" by (intro nth_equalityI) simp_all
  then show ?thesis by simp
qed

lemma prefix_idem: "depth \<le> 64 \<Longrightarrow> prefix depth (prefix depth key) = prefix depth key"
  by (rule prefix_cong) (simp_all add: digits_prefix)

lemma equal_bytes_spec:
  "length xs = length ys \<Longrightarrow>
     (\<forall>i < equal_bytes (zip xs ys). xs ! i = ys ! i) \<and> equal_bytes (zip xs ys) \<le> length xs \<and>
     (equal_bytes (zip xs ys) < length xs \<longrightarrow> xs ! equal_bytes (zip xs ys) \<noteq> ys ! equal_bytes (zip xs ys))"
proof (induction xs ys rule: list_induct2)
  case (Cons x xs y ys)
  then show ?case by (auto simp: nth_Cons split: nat.splits)
qed simp

text \<open>\<open>setChildren\<close> finds the first digit in which the keys differ.\<close>

lemma setChildren_node:
  assumes "k1 \<noteq> k2"
  obtains e where "e < 64" and "digits e k1 = digits e k2" and "digit e k1 \<noteq> digit e k2"
    and "setChildren seq c1 k1 c2 k2 =
      Inr (setChild (digit e k2) (Some c2) (setChild (digit e k1) (Some c1) (fresh seq (Some (e, prefix e k1)))))"
proof -
  let ?x = "uint256_bytes k1" and ?y = "uint256_bytes k2"
  define d where "d = equal_bytes (zip ?x ?y)"
  have spec: "\<forall>i < d. ?x ! i = ?y ! i" "d \<le> 32" "d < 32 \<longrightarrow> ?x ! d \<noteq> ?y ! d"
    using equal_bytes_spec[of ?x ?y] by (simp_all add: d_def)
  have "d \<noteq> 32"
  proof
    assume "d = 32"
    then have "?x = ?y" using spec(1) by (intro nth_equalityI) simp_all
    then show False using assms by simp
  qed
  then have d: "d < 32" using spec(2) by simp
  have dd: "digits (2 * d) k1 = digits (2 * d) k2" using digits_bytes[of d k1 k2] spec(1) d by simp
  define same where "same \<longleftrightarrow> ?x ! d AND 0xF0 = ?y ! d AND 0xF0"
  have same: "same \<longleftrightarrow> digit (2 * d) k1 = digit (2 * d) k2" unfolding same_def by (rule high_eq[OF d])
  define e where "e = (if same then 2 * d + 1 else 2 * d)"
  have e: "e < 64" "digits e k1 = digits e k2" "digit e k1 \<noteq> digit e k2"
    using d dd same byte_eq[OF d, of k1 k2] spec(3) digits_eq_Suc[of "2 * d" k1 k2]
    by (auto simp: e_def)
  have branch: "digit e k = (if same then unat (uint256_bytes k ! d AND 0x0F) else unat (drop_bit 4 (uint256_bytes k ! d)))" for k
    using selectBranch_digit[of "\<lparr>nid_id = 0, nid_depth = e\<rparr>" k] e(1) by (simp add: selectBranch_def e_def split: if_splits)
  have common: "uint256_of_bytes (take d ?x @ [if same then ?x ! d AND 0xF0 else 0] @ replicate (31 - d) 0) = prefix e k1"
  proof -
    have "take d ?x @ [if same then ?x ! d AND 0xF0 else 0] @ replicate (31 - d) 0 = uint256_bytes (prefix e k1)"
      using d by (intro nth_equalityI) (auto simp: prefix_bytes e_def nth_append nth_Cons' split: if_splits)
    then show ?thesis by simp
  qed
  have zeros: "(replicate 16 (0 :: uint256))[i := 0] = replicate 16 0" for i
    by (metis list_update_id list_update_beyond length_replicate linorder_not_le nth_replicate)
  have "setChildren seq c1 k1 c2 k2 =
      Inr (SHAMapInnerNode seq 0 (replicate 16 0) (set_bit (digit e k2) (set_bit (digit e k1) 0))
             ((replicate 16 None)[digit e k1 := Some c1, digit e k2 := Some c2]) (Some (e, prefix e k1)))"
    unfolding setChildren_def Let_def d_def[symmetric] same_def[symmetric] common[symmetric] branch
    using d by (simp add: e_def)
  then show ?thesis by (intro that[of e] e) (simp add: fresh_def zeros)
qed

lemma common_bytes_spec:
  "length xs = length ys \<Longrightarrow> common_bytes (zip xs ys) r =
     (let i = equal_bytes (zip xs ys) in
      (if i < length xs then Some (r + 2 * i + (if xs ! i AND 0xF0 = ys ! i AND 0xF0 then 1 else 0)) else None, r + 2 * i))"
  by (induction xs ys arbitrary: r rule: list_induct2) (auto simp: Let_def)

text \<open>\<open>get_common_prefix\<close> finds the first digit in which a key leaves a common prefix.\<close>

lemma get_common_prefix_digit:
  assumes "depth \<le> 64" and "digits depth common \<noteq> digits depth key"
  defines "r \<equiv> get_common_prefix depth common key"
  shows "r < depth" and "digits r common = digits r key" and "digit r common \<noteq> digit r key"
proof -
  define n where "n = depth div 2"
  let ?x = "take n (uint256_bytes common)" and ?y = "take n (uint256_bytes key)"
  have n: "n \<le> 32" "depth = 2 * n \<or> depth = 2 * n + 1 \<and> n < 32" using assms(1) by (auto simp: n_def)
  define i where "i = equal_bytes (zip ?x ?y)"
  have spec: "\<forall>j < i. uint256_bytes common ! j = uint256_bytes key ! j" "i \<le> n"
      "i < n \<longrightarrow> uint256_bytes common ! i \<noteq> uint256_bytes key ! i"
    using equal_bytes_spec[of ?x ?y] n(1) by (auto simp: i_def)
  have ii: "digits (2 * i) common = digits (2 * i) key" using digits_bytes[of i common key] spec n(1) by simp
  have cb: "common_bytes (take n (zip (uint256_bytes common) (uint256_bytes key))) 0 =
      (if i < n then Some (2 * i + (if uint256_bytes common ! i AND 0xF0 = uint256_bytes key ! i AND 0xF0 then 1 else 0)) else None, 2 * i)"
    using common_bytes_spec[of ?x ?y 0] n(1) by (auto simp: take_zip i_def Let_def)
  have "r < depth \<and> digits r common = digits r key \<and> digit r common \<noteq> digit r key"
  proof (cases "i < n")
    case True
    then have i: "i < 32" using n(1) by simp
    have r: "r = 2 * i + (if digit (2 * i) common = digit (2 * i) key then 1 else 0)"
      using True cb high_eq[OF i, of common key] by (simp add: r_def get_common_prefix_def Let_def n_def[symmetric])
    show ?thesis using True ii spec(3) byte_eq[OF i, of common key] digits_eq_Suc[of "2 * i" common key] i n(2)
      unfolding r by auto
  next
    case False
    then have i: "i = n" using spec(2) by simp
    have d: "depth = 2 * n + 1" "n < 32" using n(2) ii assms(2) unfolding i by auto
    have ne: "digit (2 * n) common \<noteq> digit (2 * n) key"
      using assms(2) ii digits_eq_Suc[of "2 * n" common key] d unfolding i by auto
    have "r = 2 * n" using cb False i d ne high_eq[OF d(2), of common key]
      by (simp add: r_def get_common_prefix_def Let_def n_def[symmetric])
    then show ?thesis using ii ne d i by simp
  qed
  then show "r < depth" "digits r common = digits r key" "digit r common \<noteq> digit r key" by auto
qed

text \<open>Two keys that agree on \<open>d\<close> digits and differ in digit \<open>e\<close>.\<close>

lemma differ_beyond: "digits d v = digits d w \<Longrightarrow> digit e v \<noteq> digit e w \<Longrightarrow> d \<le> 64 \<Longrightarrow> d \<le> e"
  by (meson digits_digit digits_down not_less_eq_eq)

lemma setChild_twice: "setChild b x (setChild b x n) = setChild b x n"
  by (cases n) (auto intro!: bit_eqI simp: bit_set_bit_iff bit_unset_bit_iff)

lemma unshare_own: "mSeq n = seq \<Longrightarrow> unshareNode seq n = n"
  by (simp add: unshareNode_def)

lemma merkle_clone [simp]: "merkle h (clone seq n) = merkle h n"
  by (cases n) (subst (1 2) merkle.simps, simp add: Let_def split: option.split)+

lemma cached_clone: "seq \<noteq> 0 \<Longrightarrow> cached h n \<Longrightarrow> cached h (clone seq n)"
proof (cases "isLeaf n")
  case False
  moreover from False have "mHashes (clone seq n) = mHashes n" by (cases n) auto
  ultimately show "seq \<noteq> 0 \<Longrightarrow> cached h n \<Longrightarrow> cached h (clone seq n)"
    by (auto simp: cached_inner isEmptyBranch_def)
qed (simp add: cached_leaf)

lemma cached_unshare: "seq \<noteq> 0 \<Longrightarrow> cached h n \<Longrightarrow> cached h (unshareNode seq n)"
  by (simp add: unshareNode_def cached_clone)

text \<open>In version 2 the walk is at a child of the top of the stack, unless it is at the root.\<close>

definition parent_ok :: "bool \<Rightarrow> bool \<Rightarrow> NodeStack \<Rightarrow> bool" where
  "parent_ok v2 rt st \<longleftrightarrow> (v2 \<and> \<not> rt \<longrightarrow> (\<exists>parent pid st' pc.
     st = (parent, pid) # st' \<and> isInner parent \<and> mPrefix parent = Some (nid_depth pid, pc) \<and> nid_depth pid < 64))"

lemma parent_step:
  assumes "walk_at v2 rt d P key n nid"
  shows "parent_ok v2 False ((n, nid) # st)"
  using wf_innerD(2)[OF walk_atD(1,2)[OF assms]] walk_atD(2,4)[OF assms]
  by (auto simp: parent_ok_def prefix_ok_def id_for_def inner_depth_def split: option.splits)

lemma adds_leaf_v2:
  assumes "wf_node True rt d P n" and "digits d (tag item) = P" and "isLeaf n" and "parent_ok True rt st"
    and "tag item \<notin> keys n" and "cached h n" and seq: "seq \<noteq> 0"
  shows "adds h seq item ty True rt d P n st (Inr (Some n, (n, nid) # st))"
proof -
  let ?k1 = "tag (mItem n)" and ?k2 = "tag item" and ?l = "SHAMapTreeNode_new h item ty seq"
  have d: "digits d ?k1 = P" "d \<le> 64" "\<not> rt" "?k1 \<noteq> ?k2" using assms by (auto simp: wf_leaf)
  obtain e where e: "e < 64" "digits e ?k1 = digits e ?k2" "digit e ?k1 \<noteq> digit e ?k2"
    "setChildren seq (unshareNode seq n) ?k1 ?l ?k2 =
      Inr (setChild (digit e ?k2) (Some ?l) (setChild (digit e ?k1) (Some (unshareNode seq n)) (fresh seq (Some (e, prefix e ?k1)))))"
    using setChildren_node[OF d(4), of seq "unshareNode seq n" ?l] by blast
  have "d \<le> e" using differ_beyond[of d ?k1 ?k2 e] d assms(2) e(3) by simp
  then have pre: "prefix_ok True d P (Some (e, prefix e ?k1))"
    using e(1) d(1) by (simp add: prefix_ok_def digits_prefix prefix_idem)
  let ?f = "fresh seq (Some (e, prefix e ?k1))"
  have leaf: "wf_node True False (Suc (inner_depth d ?f)) (16 * inner_path P ?f + digit e ?k1) (unshareNode seq n)"
    "wf_node True False (Suc (inner_depth d ?f)) (16 * inner_path P ?f + digit e ?k2) ?l"
    using e assms(3) by (auto simp: wf_leaf fresh_depth digits_Suc digits_prefix)
  have ca: "cached h (unshareNode seq n)" using assms(3,6) seq by (simp add: cached_unshare)
  note two = fresh_two[OF pre digit_less digit_less e(3) seq leaf(1) ca leaf(2) new_leaf(4)]
  obtain parent pid st' where st: "st = (parent, pid) # st'" using assms(4) d(3) by (auto simp: parent_ok_def)
  let ?n = "setChild (digit e ?k2) (Some ?l) (setChild (digit e ?k1) (Some (unshareNode seq n)) ?f)"
  have "addGiveItem_v2 h seq item ty (unshareNode seq n) nid st = Inr (?n, (unshareNode seq parent, pid) # st')"
    using assms(3) e(4) by (simp add: addGiveItem_v2_def Let_def st)
  moreover have "dirtyUp seq ?k2 ((unshareNode seq parent, pid) # st') ?n = dirtyUp seq ?k2 st ?n"
    by (simp add: st unshare_own)
  moreover have "grown h item ty True rt d P n ?n" using two d(3) assms(3) by (simp add: grown_def insert_commute)
  ultimately show ?thesis using d(4) assms(3) unfolding adds_def by (metis (no_types))
qed

lemma wf_reposition:
  assumes "wf_node True False d P n" and "isInner n" and "mPrefix n = Some (e, c)" and "d' \<le> e"
  shows "wf_node True False d' (digits d' c) n"
  using assms by (auto simp: wf_inner prefix_ok_def inner_depth_def inner_path_def)

text \<open>An inner node whose common prefix the key lacks gets a new parent above it.\<close>

lemma adds_lacking:
  assumes w: "walk_at True rt d P (tag item) n nid" and lack: "digits (inner_depth d n) (tag item) \<noteq> inner_path P n"
    and "parent_ok True rt st" and "\<not> rt" and "cached h n" and seq: "seq \<noteq> 0"
  shows "adds h seq item ty True rt d P n st (Inr (None, (n, nid) # st))"
proof -
  let ?k = "tag item" and ?l = "SHAMapTreeNode_new h item ty seq"
  note D = wf_innerD[OF walk_atD(1,2)[OF w]] and inner = walk_atD(2)[OF w] and near = walk_atD(3)[OF w]
  obtain e c where pre: "mPrefix n = Some (e, c)" "d \<le> e" "e < 64" "digits d c = P"
    using D(2) by (auto simp: prefix_ok_def split: option.splits)
  define r where "r = get_common_prefix e c ?k"
  have "digits e c \<noteq> digits e ?k" using lack pre(1) by (auto simp: inner_depth_def inner_path_def)
  then have r: "r < e" "digits r c = digits r ?k" "digit r c \<noteq> digit r ?k"
    using get_common_prefix_digit[of e c ?k] pre(3) by (simp_all add: r_def)
  have dr: "d \<le> r" using differ_beyond[of d c ?k r] pre near r(3) by simp
  let ?pre = "Some (r, prefix r ?k)"
  let ?f = "fresh seq ?pre"
  have ok: "prefix_ok True d P ?pre" using dr r pre near by (simp add: prefix_ok_def digits_prefix prefix_idem)
  have fd: "inner_depth d ?f = r" "inner_path P ?f = digits r ?k" using r pre(3) by (simp_all add: fresh_depth digits_prefix)
  have "wf_node True False (Suc r) (digits (Suc r) c) n"
    by (rule wf_reposition[OF _ inner pre(1)]) (use walk_atD(1)[OF w] assms(4) r(1) in auto)
  then have c1: "wf_node True False (Suc (inner_depth d ?f)) (16 * inner_path P ?f + digit r c) (unshareNode seq n)"
    using r pre(3) by (simp add: fd digits_Suc)
  have c2: "wf_node True False (Suc (inner_depth d ?f)) (16 * inner_path P ?f + digit r ?k) ?l"
    using r pre(3) by (simp add: wf_leaf fd digits_Suc)
  note two = fresh_two[OF ok digit_less digit_less r(3) seq c1 cached_unshare[OF seq assms(5)] c2 new_leaf(4)]
  let ?n = "setChild (digit r ?k) (Some ?l) (setChild (digit r c) (Some (unshareNode seq n)) ?f)"
  obtain parent pid st' pc where st: "st = (parent, pid) # st'" "isInner parent" "mPrefix parent = Some (nid_depth pid, pc)"
    "nid_depth pid < 64" using assms(3,4) by (auto simp: parent_ok_def)
  have b: "selectBranch \<lparr>nid_id = x, nid_depth = r\<rparr> key = digit r key"
    "selectBranch \<lparr>nid_id = x, nid_depth = nid_depth pid\<rparr> key = digit (nid_depth pid) key"
    "selectBranch pid key = digit (nid_depth pid) key" for x key
    using r pre(3) st(4) by (simp_all add: selectBranch_digit)
  let ?p = "setChild (digit (nid_depth pid) ?k) (Some ?n) (unshareNode seq parent)"
  have lacks: "lacks_prefix (unshareNode seq n) ?k"
    using walk_lacks[OF w] lack inner by (simp add: lacks_prefix_def)
  have new: "set_common r (prefix r ?k) (setChild b2 x2 (setChild b1 x1 (SHAMapInnerNodeV2_new seq 64))) =
      setChild b2 x2 (setChild b1 x1 ?f)" for b1 b2 x1 x2
    by (simp add: SHAMapInnerNodeV2_new_def fresh_def)
  have "addGiveItem_v2 h seq item ty (unshareNode seq n) nid st = Inr (?n, (?p, pid) # st')"
    using inner lacks pre(1) st b by (simp add: addGiveItem_v2_def Let_def new r_def[symmetric])
  moreover have "dirtyUp seq ?k ((?p, pid) # st') ?n = dirtyUp seq ?k st ?n"
    by (simp add: st b unshare_own setChild_twice)
  moreover have "grown h item ty True rt d P n ?n" using two assms(4) by (simp add: grown_def)
  ultimately show ?thesis using inner unfolding adds_def by (metis (no_types))
qed

section \<open>Addition refines the map\<close>

lemma adds_walk:
  assumes "wf_node v2 rt d P n" and "digits d (tag item) = P" and "id_for v2 d n nid" and "parent_ok v2 rt st"
    and "rt \<longrightarrow> inner_depth d n = d" and "tag item \<notin> keys n" and "one_type ty n" and "cached h n" and seq: "seq \<noteq> 0"
  shows "adds h seq item ty v2 rt d P n st (walkTowardsKey_loop v2 (tag item) n nid st)"
  using assms
proof (induction rule: walk_induct[where st = st])
  case (leaf rt d P n nid st)
  then show ?case by (cases v2) (simp_all add: walk_leaf adds_leaf_v1 adds_leaf_v2)
next
  case (stop rt d P n nid st)
  note w = stop(1)
  show ?case
  proof (cases "digits (inner_depth d n) (tag item) = inner_path P n")
    case True
    then show ?thesis using adds_stop[OF w stop(2)] stop by (simp add: walk_stop)
  next
    case False
    then have v2: "v2" using walk_lacks[OF w] by simp
    then obtain e c where pre: "mPrefix n = Some (e, c)" "digits d c = P"
      using wf_innerD(2)[OF walk_atD(1,2)[OF w]] by (auto simp: prefix_ok_def split: option.splits)
    have "\<not> rt" using False stop.prems(2) pre walk_atD(3)[OF w] by (auto simp: inner_depth_def inner_path_def)
    then show ?thesis using adds_lacking[of rt d P item n nid st h seq ty] stop False v2 by (simp add: walk_stop)
  qed
next
  case (step rt d P n nid st c nid')
  note w = step(1)
  let ?b = "digit (inner_depth d n) (tag item)"
  have c: "getChild n ?b = Some c" using step(2) by (simp add: walk_child_def split: if_splits)
  have inner: "isInner n" using walk_atD(2)[OF w] .
  have sub: "tag item \<notin> keys c" "one_type ty c" "cached h c" "parent_ok v2 False ((n, nid) # st)"
    using step.prems inner c entries_split[OF inner digit_less[of "inner_depth d n" "tag item"]]
      one_type_child[OF _ inner digit_less c] cached_child[OF _ inner digit_less c] parent_step[OF w] by auto
  then have "adds h seq item ty v2 False (Suc (inner_depth d n)) (16 * inner_path P n + ?b) c ((n, nid) # st)
      (walkTowardsKey_loop v2 (tag item) c nid' ((n, nid) # st))" using step.IH seq by simp
  then obtain l node nid1 st' x st'' c' where a:
    "walkTowardsKey_loop v2 (tag item) c nid' ((n, nid) # st) = Inr (l, (node, nid1) # st')"
    "\<not> (isLeaf node \<and> tag (mItem node) = tag item)"
    "(if v2 then addGiveItem_v2 else addGiveItem_v1) h seq item ty (unshareNode seq node) nid1 st' = Inr (x, st'')"
    "dirtyUp seq (tag item) st'' x = dirtyUp seq (tag item) ((n, nid) # st) c'"
    "grown h item ty v2 False (Suc (inner_depth d n)) (16 * inner_path P n + ?b) c c'"
    unfolding adds_def by blast
  have "grown h item ty v2 rt d P n (setChild ?b (Some c') (unshareNode seq n))"
    by (rule grown_step[OF w step(2) step.prems(5) seq a(5)])
  moreover have "dirtyUp seq (tag item) st'' x = dirtyUp seq (tag item) st (setChild ?b (Some c') (unshareNode seq n))"
    using a(4) walk_branch[OF w] by simp
  ultimately show ?case using a(1-3) unfolding adds_def step(3) by blast
qed

text \<open>
  The invariant of a map that may be modified: its tree is well-formed, its hashes are up to date or
  reset, its leaves have the type \<open>ty\<close>.
\<close>

definition sham_inv :: "hasher \<Rightarrow> TNType \<Rightarrow> SHAMap \<Rightarrow> bool" where
  "sham_inv h ty m \<longleftrightarrow> sham_ok m \<and> cached h (sm_root m) \<and> one_type ty (sm_root m) \<and> sm_seq m \<noteq> 0"

lemma sham_invD:
  assumes "sham_inv h ty m"
  shows "sham_ok m" and "cached h (sm_root m)" and "one_type ty (sm_root m)" and "sm_seq m \<noteq> 0"
  using assms by (simp_all add: sham_inv_def)

lemma is_v2_prefix: "isInner (sm_root m) \<Longrightarrow> is_v2 m \<longleftrightarrow> mPrefix (sm_root m) \<noteq> None"
  by (cases "sm_root m") (simp_all add: is_v2_def)

lemma sham_ok_sorted: "sham_ok m \<Longrightarrow> smap_wf (content m)"
  unfolding sham_ok_def using wf_sorted by blast

lemma addGiveItem_present:
  assumes "sham_ok m" and "map_of (content m) (tag item) \<noteq> None"
  shows "addGiveItem h item isTransaction hasMeta m = Inr (False, m)"
proof -
  obtain r st' where r: "walkTowardsKey m (tag item) = Inr (r, st')" "st' \<noteq> []"
    "\<forall>l. r = Some l \<longrightarrow> isLeaf l \<and> fst (hd st') = l"
    "map_of (content m) (tag item) =
      (case r of None \<Rightarrow> None | Some l \<Rightarrow> if tag (mItem l) = tag item then Some (mType l, item_data (mItem l)) else None)"
    using walk_root[OF assms(1), of "tag item"] by blast
  then obtain l where "r = Some l" "isLeaf l" "fst (hd st') = l" "tag (mItem l) = tag item"
    using assms(2) by (auto split: option.splits if_splits)
  then show ?thesis using r(1,2) by (cases st') (auto simp: addGiveItem_def)
qed

lemma addGiveItem_absent:
  assumes inv: "sham_inv h ty m" and ty: "tn_type isTransaction hasMeta = ty" and "map_of (content m) (tag item) = None"
  shows "\<exists>m'. addGiveItem h item isTransaction hasMeta m = Inr (True, m') \<and> sham_inv h ty m' \<and> sm_seq m' = sm_seq m \<and>
    is_v2 m' = is_v2 m \<and> content m' = smap_set (tag item) (ty, item_data item) (content m)"
proof -
  let ?n = "sm_root m" and ?v2 = "is_v2 m" and ?seq = "sm_seq m"
  note ok = sham_invD[OF inv]
  have root: "wf_node ?v2 True 0 0 ?n" "inner_depth 0 ?n = 0" using ok(1) by (auto simp: sham_ok_def)
  have none: "tag item \<notin> keys ?n" using assms(3) by (simp add: smap_find_None)
  then have none': "(tag item, v) \<notin> set (content m)" for v by (metis fst_conv image_eqI)
  have "adds h ?seq item ty ?v2 True 0 0 ?n [] (walkTowardsKey m (tag item))"
    unfolding walkTowardsKey_def
    by (rule adds_walk[OF root(1)]) (use ok root none root_id_for[OF ok(1)] in \<open>simp_all add: parent_ok_def\<close>)
  then obtain l node nid st' x st'' n' where a: "walkTowardsKey m (tag item) = Inr (l, (node, nid) # st')"
    "\<not> (isLeaf node \<and> tag (mItem node) = tag item)"
    "(if ?v2 then addGiveItem_v2 else addGiveItem_v1) h ?seq item ty (unshareNode ?seq node) nid st' = Inr (x, st'')"
    "dirtyUp ?seq (tag item) st'' x = dirtyUp ?seq (tag item) [] n'" "grown h item ty ?v2 True 0 0 ?n n'"
    unfolding adds_def by blast
  let ?m = "m\<lparr>sm_root := n'\<rparr>"
  have add: "addGiveItem h item isTransaction hasMeta m = Inr (True, ?m)"
    using a(1-4) ty by (auto simp: addGiveItem_def Let_def)
  have g: "wf_node ?v2 True 0 0 n'" "cached h n'" "set (entries n') = insert (tag item, ty, item_data item) (set (entries ?n))"
    "mPrefix n' = mPrefix ?n" using a(5) by (simp_all add: grown_def)
  have inner: "isInner n'" using g(1) by (auto simp: wf_leaf)
  have v2: "is_v2 ?m = ?v2"
    using is_v2_prefix[of ?m] is_v2_prefix[of m] inner g(4) sham_ok_inner[OF ok(1)] by simp
  have "sham_ok ?m" using g(1,4) root(2) v2 by (simp add: sham_ok_def inner_depth_def)
  moreover have "one_type ty n'" using g(3) ok(3) by (simp add: one_type_def)
  moreover have "content ?m = smap_set (tag item) (ty, item_data item) (content m)"
    by (rule smap_unique[OF sham_ok_sorted[OF \<open>sham_ok ?m\<close>] smap_wf_set[OF sham_ok_sorted[OF ok(1)]]])
      (use g(3) none' in \<open>auto simp: smap_set_set[OF sham_ok_sorted[OF ok(1)]]\<close>)
  ultimately show ?thesis using add ok(4) g(2) v2 by (auto simp: sham_inv_def)
qed

section \<open>Deleting an item\<close>

text \<open>\<open>onlyBelow\<close> finds the item of a subtree that holds one.\<close>

lemma filter_branches:
  assumes "inner_shape n"
  shows "filter (\<lambda>i. \<not> isEmptyBranch n i) [0..<16] = filter (\<lambda>i. getChild n i \<noteq> None) [0..<16]"
  using isEmptyBranch_child[OF assms] by (intro filter_cong) auto

lemma entries_filter:
  "isInner n \<Longrightarrow> entries n = concat (map (slot n) (filter (\<lambda>i. getChild n i \<noteq> None) [0..<16]))"
  unfolding entries_inner
proof -
  have "concat (map (slot n) is) = concat (map (slot n) (filter (\<lambda>i. getChild n i \<noteq> None) is))" for "is"
    by (induction "is") auto
  then show "concat (map (slot n) [0..<16]) = concat (map (slot n) (filter (\<lambda>i. getChild n i \<noteq> None) [0..<16]))" .
qed

lemma branches_children:
  assumes "inner_shape n" and "filter (\<lambda>i. getChild n i \<noteq> None) [0..<16] = i # is"
  obtains c where "getChild n i = Some c" and "i < 16" and "descendThrow n i = Inr (Some c)"
proof -
  have "i \<in> set (filter (\<lambda>i. getChild n i \<noteq> None) [0..<16])" unfolding assms(2) by simp
  then show ?thesis using that by (auto simp: descendThrow_def)
qed

definition only_item :: "(uint256, TNType \<times> Blob) stdmap \<Rightarrow> SHAMapItem option" where
  "only_item es = (case es of [(k, _, b)] \<Rightarrow> Some \<lparr>tag = k, item_data = b\<rparr> | _ \<Rightarrow> None)"

lemma onlyBelow_item: "wf_node v2 rt d P n \<Longrightarrow> onlyBelow n = Inr (only_item (entries n))"
proof (induction n arbitrary: rt d P rule: onlyBelow.induct)
  case (1 n)
  show ?case
  proof (cases "isLeaf n")
    case True
    then show ?thesis by (simp add: onlyBelow.simps only_item_def)
  next
    case False
    note D = wf_innerD[OF "1.prems" False]
    have fb: "filter (\<lambda>i. \<not> isEmptyBranch n i) [0..<16] = filter (\<lambda>i. getChild n i \<noteq> None) [0..<16]"
      by (rule filter_branches[OF D(1)])
    show ?thesis
    proof (cases "filter (\<lambda>i. getChild n i \<noteq> None) [0..<16]")
      case Nil
      then show ?thesis using False entries_filter[OF False] fb by (simp add: onlyBelow.simps only_item_def)
    next
      case (Cons i "is")
      then obtain c where c: "getChild n i = Some c" "i < 16" "descendThrow n i = Inr (Some c)"
        using branches_children[OF D(1)] by blast
      show ?thesis
      proof (cases "is")
        case Nil
        have "onlyBelow n = onlyBelow c"
          using False fb Cons Nil c(3) by (simp add: onlyBelow.simps[of n])
        also have "\<dots> = Inr (only_item (entries c))"
          using "1.IH"[OF False _ c(3) _ refl] fb Cons Nil D(4)[OF c(1,2)] by simp
        also have "entries c = entries n" using entries_filter[OF False] Cons Nil c(1) by simp
        finally show ?thesis .
      next
        case two: (Cons j js)
        have "j \<in> set (filter (\<lambda>i. getChild n i \<noteq> None) [0..<16])" unfolding Cons two by simp
        then obtain c2 where c2: "getChild n j = Some c2" "j < 16" by auto
        have "2 \<le> length (entries n)"
          using entries_filter[OF False] Cons two c(1) c2(1) wf_nonempty[OF D(4)[OF c(1,2)]] wf_nonempty[OF D(4)[OF c2]]
          by simp
        then have "only_item (entries n) = None" by (auto simp: only_item_def split: list.splits)
        then show ?thesis using False fb Cons two c(3) by (simp add: onlyBelow.simps[of n])
      qed
    qed
  qed
qed

text \<open>What is left of a subtree, if anything.\<close>

definition shrunk :: "hasher \<Rightarrow> uint256 \<Rightarrow> bool \<Rightarrow> nat \<Rightarrow> nat \<Rightarrow> SHAMapNode \<Rightarrow> SHAMapNode option \<Rightarrow> bool" where
  "shrunk h key v2 d P n p \<longleftrightarrow>
     (case p of
        None \<Rightarrow> \<forall>x \<in> set (entries n). fst x = key
      | Some n' \<Rightarrow> wf_node v2 False d P n' \<and> cached h n' \<and> set (entries n') = {x \<in> set (entries n). fst x \<noteq> key})"

definition leaf_set :: "SHAMapNode option \<Rightarrow> (uint256 \<times> TNType \<times> Blob) set" where
  "leaf_set p = (case p of None \<Rightarrow> {} | Some n \<Rightarrow> set (entries n))"

lemma shrunk_set: "shrunk h key v2 d P n p \<Longrightarrow> leaf_set p = {x \<in> set (entries n). fst x \<noteq> key}"
  by (auto simp: shrunk_def leaf_set_def split: option.splits)

text \<open>The parent with what is left of the child on the way to the key.\<close>

lemma del_parent:
  assumes w: "walk_at v2 rt d P key n nid" and c: "walk_child v2 d P key n = Some c"
    and "cached h n" and seq: "seq \<noteq> 0"
    and s: "shrunk h key v2 (Suc (inner_depth d n)) (16 * inner_path P n + digit (inner_depth d n) key) c p"
  defines "n' \<equiv> setChild (digit (inner_depth d n) key) p (unshareNode seq n)"
  shows "wf_node v2 True d P n'" and "cached h n'" and "set (entries n') = {x \<in> set (entries n). fst x \<noteq> key}"
    and "inner_shape n'" and "mPrefix n' = mPrefix n"
proof -
  let ?b = "digit (inner_depth d n) key"
  note D = wf_innerD[OF walk_atD(1,2)[OF w]] and inner = walk_atD(2)[OF w]
  have gc: "getChild n ?b = Some c" using c by (simp add: walk_child_def split: if_splits)
  have "wf_node v2 True d P n" using walk_atD(1)[OF w] inner by (auto simp: wf_inner)
  then show "wf_node v2 True d P n'" unfolding n'_def
    by (rule wf_setChild[OF _ inner digit_less]) (use s in \<open>auto simp: shrunk_def split: option.splits\<close>)
  show "cached h n'" unfolding n'_def
    by (rule cached_setChild[OF D(1) assms(3) seq digit_less]) (use s in \<open>auto simp: shrunk_def\<close>)
  have others: "\<forall>x \<in> others n ?b. fst x \<noteq> key"
    using others_keys[OF walk_atD(1,2)[OF w], of key ?b] by force
  have "set (entries n') = leaf_set p \<union> others n ?b"
    using entries_setChild[OF D(1) digit_less[of "inner_depth d n" key], of p seq] by (simp add: n'_def leaf_set_def)
  also have "\<dots> = {x \<in> set (entries n). fst x \<noteq> key}"
    using entries_split[OF inner digit_less[of "inner_depth d n" key]] gc shrunk_set[OF s] others by auto
  finally show "set (entries n') = {x \<in> set (entries n). fst x \<noteq> key}" .
  show "inner_shape n'" using inner_shape_setChild[of "unshareNode seq n"] D(1) by (simp add: n'_def)
  show "mPrefix n' = mPrefix n" using inner by (simp add: n'_def)
qed

text \<open>What the loop attaches to the parent of a node below the root.\<close>

definition pulled :: "hasher \<Rightarrow> bool \<Rightarrow> TNType \<Rightarrow> SHAMapNode \<Rightarrow> SHAMapNode option" where
  "pulled h v2 ty n =
     (if v2 then
        (case filter (\<lambda>i. getChild n i \<noteq> None) [0..<16] of [i] \<Rightarrow> getChild n i | _ \<Rightarrow> Some n)
      else if getBranchCount n = 0 then None
      else if getBranchCount n = 1 then
        (case only_item (entries n) of Some item \<Rightarrow> Some (SHAMapTreeNode_new h item ty (mSeq n)) | None \<Rightarrow> Some n)
      else Some n)"

lemma getBranchCount_filter: "inner_shape n \<Longrightarrow> getBranchCount n = length (filter (\<lambda>i. getChild n i \<noteq> None) [0..<16])"
  by (simp add: getBranchCount_def filter_branches)

lemma find_filter: "find p xs = (case filter p xs of [] \<Rightarrow> None | x # _ \<Rightarrow> Some x)"
  by (induction xs) auto

lemma delItem_step:
  assumes "wf_node v2 True d P n" and "inner_shape n" and "\<not> isRoot nid"
    and n: "n = setChild (selectBranch nid key) p (unshareNode seq node)"
  shows "delItem_loop h v2 seq key ty root ((node, nid) # st) p = delItem_loop h v2 seq key ty root st (pulled h v2 ty n)"
proof -
  let ?is = "filter (\<lambda>i. getChild n i \<noteq> None) [0..<16]"
  have fnd: "find (\<lambda>i. \<not> isEmptyBranch n i) [0..<16] = (case ?is of [] \<Rightarrow> None | i # _ \<Rightarrow> Some i)"
    by (simp only: find_filter filter_branches[OF assms(2)])
  have bc: "getBranchCount n = length ?is" by (rule getBranchCount_filter[OF assms(2)])
  have loop: "delItem_loop h v2 seq key ty root ((node, nid) # st) p =
      (if v2 then
         if getBranchCount n = 1 then
           (case find (\<lambda>i. \<not> isEmptyBranch n i) [0..<16] of
              None \<Rightarrow> delItem_loop h v2 seq key ty root st p
            | Some i \<Rightarrow> bindE (descendThrow n i) (delItem_loop h v2 seq key ty root st))
         else delItem_loop h v2 seq key ty root st (Some n)
       else if getBranchCount n = 0 then delItem_loop h v2 seq key ty root st None
       else if getBranchCount n = 1 then
         bindE (onlyBelow n) (\<lambda>item.
         case item of
           Some item \<Rightarrow> delItem_loop h v2 seq key ty root st (Some (SHAMapTreeNode_new h item ty (mSeq n)))
         | None \<Rightarrow> delItem_loop h v2 seq key ty root st (Some n))
       else delItem_loop h v2 seq key ty root st (Some n))"
    using assms(3) unfolding delItem_loop.simps Let_def n[symmetric] by simp
  show ?thesis
  proof (cases v2)
    case True
    show ?thesis
    proof (cases ?is)
      case (Cons i "is")
      then obtain c where "getChild n i = Some c" "descendThrow n i = Inr (Some c)"
        using branches_children[OF assms(2)] by blast
      then show ?thesis using True fnd bc Cons unfolding loop by (cases "is") (simp_all add: pulled_def)
    next
      case Nil
      then show ?thesis using True bc unfolding loop by (simp add: pulled_def)
    qed
  next
    case False
    then show ?thesis using onlyBelow_item[OF assms(1)] unfolding loop
      by (auto simp: pulled_def split: option.splits)
  qed
qed

lemma getBranchCount_entries:
  assumes "wf_node v2 rt d P n" and "isInner n"
  shows "getBranchCount n \<le> length (entries n)"
proof -
  note D = wf_innerD[OF assms]
  have "length is \<le> length (concat (map (slot n) is))" if "\<forall>i \<in> set is. i < 16 \<and> getChild n i \<noteq> None" for "is"
    using that
  proof (induction "is")
    case (Cons i "is")
    then obtain c where "getChild n i = Some c" "i < 16" by auto
    then have "1 \<le> length (slot n i)" using wf_nonempty[OF D(4)] by simp
    then show ?case using Cons by simp
  qed simp
  then show ?thesis unfolding getBranchCount_filter[OF D(1)] entries_filter[OF assms(2)] by simp
qed

lemma wf_hoist:
  assumes "wf_node True True d P n" and "isInner n" and "i < 16" and "getChild n i = Some c"
  shows "wf_node True False d P c"
proof -
  note D = wf_innerD[OF assms(1,2)]
  have wfc: "wf_node True False (Suc (inner_depth d n)) (16 * inner_path P n + i) c" by (rule D(4)[OF assms(4,3)])
  have dk: "digits d k = P" if "digits (Suc (inner_depth d n)) k = 16 * inner_path P n + i" for k
    using child_digits(1)[OF inner_depth_bounds(2)[OF D(2)] that assms(3)] inner_path_digits[OF D(2)] by blast
  have d: "d \<le> inner_depth d n" "inner_depth d n < 64" by (rule inner_depth_bounds[OF D(2)])+
  show ?thesis
  proof (cases "isLeaf c")
    case True
    then show ?thesis using wfc dk d by (simp add: wf_leaf)
  next
    case False
    then obtain e k where pre: "mPrefix c = Some (e, k)" "Suc (inner_depth d n) \<le> e"
      "digits (Suc (inner_depth d n)) k = 16 * inner_path P n + i"
      using wf_innerD(2)[OF wfc False] by (auto simp: prefix_ok_def split: option.splits)
    then show ?thesis using wf_reposition[OF wfc False pre(1), of d] dk[OF pre(3)] d by simp
  qed
qed

text \<open>What is attached is what is left.\<close>

lemma pulled_shrunk:
  assumes wf: "wf_node v2 True d P n" and inner: "isInner n" and "cached h n" and ty: "one_type ty n" and "d \<le> 64"
    and ents: "set (entries n) = {x \<in> set (entries m). fst x \<noteq> key}"
    and two: "v2 \<Longrightarrow> 1 \<le> getBranchCount n"
  shows "shrunk h key v2 d P m (pulled h v2 ty n)"
proof -
  note D = wf_innerD[OF wf inner]
  let ?is = "filter (\<lambda>i. getChild n i \<noteq> None) [0..<16]"
  have bc: "getBranchCount n = length ?is" by (rule getBranchCount_filter[OF D(1)])
  have le: "getBranchCount n \<le> length (entries n)" by (rule getBranchCount_entries[OF wf inner])
  have keep: "shrunk h key v2 d P m (Some n)" if "2 \<le> length (entries n)" "v2 \<longrightarrow> 2 \<le> getBranchCount n"
    using wf_below[OF wf inner] that assms(3) ents by (simp add: shrunk_def merged_def)
  show ?thesis
  proof (cases v2)
    case True
    show ?thesis
    proof (cases "\<exists>i. ?is = [i]")
      case one: True
      then obtain i where i: "?is = [i]" by blast
      obtain c where c: "getChild n i = Some c" "i < 16" using branches_children[OF D(1) i] by blast
      have "entries n = entries c" using entries_filter[OF inner] i c(1) by simp
      moreover have "wf_node v2 False d P c" using wf_hoist[OF _ inner c(2,1)] wf True by simp
      moreover have "cached h c" by (rule cached_child[OF assms(3) inner c(2,1)])
      ultimately show ?thesis using True i c(1) ents by (simp add: pulled_def shrunk_def)
    next
      case False
      then have p: "pulled h v2 ty n = Some n" using True by (auto simp: pulled_def split: list.splits)
      have "2 \<le> getBranchCount n" using two[OF True] bc False by (cases ?is) (auto simp: neq_Nil_conv Suc_le_eq)
      then show ?thesis using keep le p by simp
    qed
  next
    case False
    consider "getBranchCount n = 0" | "getBranchCount n = 1" "only_item (entries n) = None"
      | item where "getBranchCount n = 1" "only_item (entries n) = Some item" | "2 \<le> getBranchCount n"
      by (cases "only_item (entries n)"; force)
    then show ?thesis
    proof cases
      case 1
      then have "entries n = []" using bc entries_filter[OF inner] by simp
      then show ?thesis using 1 False ents by (force simp: pulled_def shrunk_def)
    next
      case 2
      then have "2 \<le> length (entries n)" using le
        by (auto simp: only_item_def Suc_le_eq split: list.splits)
      then show ?thesis using 2 False keep by (simp add: pulled_def)
    next
      case (3 item)
      then obtain t where e: "entries n = [(tag item, t, item_data item)]"
        by (auto simp: only_item_def split: list.splits)
      then have "t = ty" using ty by (simp add: one_type_def)
      moreover have "digits d (tag item) = P" using wf_keys[OF wf, of "tag item"] e by simp
      ultimately show ?thesis using 3 False e ents assms(5)
        by (simp add: pulled_def shrunk_def new_leaf_wf)
    next
      case 4
      then show ?thesis using False keep le by (simp add: pulled_def)
    qed
  qed
qed

lemma walk_present:
  assumes "walk_at v2 rt d P key n nid" and "key \<in> keys n"
  obtains c where "walk_child v2 d P key n = Some c" and "key \<in> keys c"
proof (cases "walk_child v2 d P key n")
  case (Some c)
  then show ?thesis using that assms(2) lookup_child[OF assms(1)] by (metis option.case(2) smap_find_None)
qed (use assms(2) lookup_child[OF assms(1)] in \<open>simp add: smap_find_None\<close>)

text \<open>What deleting the item of a key below the root does: the path above goes on with what is left.\<close>

definition dels :: "hasher \<Rightarrow> u32 \<Rightarrow> uint256 \<Rightarrow> TNType \<Rightarrow> bool \<Rightarrow> nat \<Rightarrow> nat \<Rightarrow>
    SHAMapNode \<Rightarrow> NodeStack \<Rightarrow> (SHAMapNode option \<times> NodeStack) res \<Rightarrow> bool" where
  "dels h seq key ty v2 d P n st r \<longleftrightarrow>
     (\<exists>l nid st' p. r = Inr (Some l, (l, nid) # st') \<and> isLeaf l \<and> tag (mItem l) = key \<and> mType l = ty \<and>
       (\<forall>root. delItem_loop h v2 seq key ty root st' None = delItem_loop h v2 seq key ty root st p) \<and>
       shrunk h key v2 d P n p)"

lemma dels_step:
  assumes w: "walk_at v2 False d P key n nid" and c: "walk_child v2 d P key n = Some c" and "1 \<le> d" and "cached h n"
    and "one_type ty n" and "seq \<noteq> 0"
    and s: "shrunk h key v2 (Suc (inner_depth d n)) (16 * inner_path P n + digit (inner_depth d n) key) c p"
  shows "\<exists>p'. (\<forall>root. delItem_loop h v2 seq key ty root ((n, nid) # st) p = delItem_loop h v2 seq key ty root st p') \<and>
    shrunk h key v2 d P n p'"
proof -
  define n' where "n' = setChild (digit (inner_depth d n) key) p (unshareNode seq n)"
  note new = del_parent[OF w c assms(4,6) s, folded n'_def] and D = wf_innerD[OF walk_atD(1,2)[OF w]]
  have d: "d \<le> inner_depth d n" "inner_depth d n < 64" using inner_depth_bounds[OF D(2)] by auto
  have "\<not> isRoot nid" using walk_atD(2,4)[OF w] d assms(3) by (simp add: isRoot_def id_for_def)
  then have "delItem_loop h v2 seq key ty root ((n, nid) # st) p =
      delItem_loop h v2 seq key ty root st (pulled h v2 ty n')" for root
    by (rule delItem_step[OF new(1,4)]) (simp add: n'_def walk_branch[OF w])
  moreover have "shrunk h key v2 d P n (pulled h v2 ty n')"
  proof (rule pulled_shrunk[OF new(1) inner_shape_inner[OF new(4)] new(2) _ _ new(3)])
    show "one_type ty n'" using assms(5) new(3) by (auto simp: one_type_def)
    show "1 \<le> getBranchCount n'" if v2
    proof -
      have "2 \<le> getBranchCount n" using D(3) that by (simp add: merged_def)
      then show ?thesis
        using getBranchCount_setChild(2)[OF D(1) digit_less[of "inner_depth d n" key], of seq]
          getBranchCount_setChild(1)[OF D(1) digit_less[of "inner_depth d n" key], of "the p" seq]
        unfolding n'_def by (cases p) (auto split: if_splits)
    qed
  qed (use d in simp)
  ultimately show ?thesis by blast
qed

lemma dels_walk:
  assumes "wf_node v2 rt d P n" and "digits d key = P" and "id_for v2 d n nid" and "\<not> rt" and "1 \<le> d"
    and "key \<in> keys n" and "one_type ty n" and "cached h n" and seq: "seq \<noteq> 0"
  shows "dels h seq key ty v2 d P n st (walkTowardsKey_loop v2 key n nid st)"
  using assms
proof (induction rule: walk_induct[where st = st])
  case (leaf rt d P n nid st)
  then show ?case by (auto simp: walk_leaf dels_def shrunk_def one_type_def intro!: exI[of _ None])
next
  case (stop rt d P n nid st)
  from stop(1) stop.prems(3) have False by (rule walk_present) (use stop(2) in simp)
  then show ?case ..
next
  case (step rt d P n nid st c nid')
  have w: "walk_at v2 False d P key n nid" using step(1) step.prems(1) by (cases rt) auto
  have c: "getChild n (digit (inner_depth d n) key) = Some c" using step(2) by (simp add: walk_child_def split: if_splits)
  have inner: "isInner n" using walk_atD(2)[OF w] .
  have "key \<in> keys c" "one_type ty c" "cached h c"
    using walk_present[OF w step.prems(3)] step(2,10) one_type_child[OF step.prems(4) inner digit_less c]
      cached_child[OF step.prems(5) inner digit_less c] by auto
  then have "dels h seq key ty v2 (Suc (inner_depth d n)) (16 * inner_path P n + digit (inner_depth d n) key) c
      ((n, nid) # st) (walkTowardsKey_loop v2 key c nid' ((n, nid) # st))" using step.IH seq by simp
  then obtain l nid1 st' p where a: "walkTowardsKey_loop v2 key c nid' ((n, nid) # st) = Inr (Some l, (l, nid1) # st')"
    "isLeaf l" "tag (mItem l) = key" "mType l = ty"
    "\<And>root. delItem_loop h v2 seq key ty root st' None = delItem_loop h v2 seq key ty root ((n, nid) # st) p"
    "shrunk h key v2 (Suc (inner_depth d n)) (16 * inner_path P n + digit (inner_depth d n) key) c p"
    unfolding dels_def by blast
  obtain p' where "\<And>root. delItem_loop h v2 seq key ty root ((n, nid) # st) p = delItem_loop h v2 seq key ty root st p'"
    "shrunk h key v2 d P n p'"
    using dels_step[OF w step(2) step.prems(2,5,4) seq a(6)] by blast
  then show ?case unfolding dels_def step(3) using a(1-5) by auto
qed

text \<open>Replacing the root.\<close>

lemma new_root:
  assumes inv: "sham_inv h ty m" and g: "wf_node (is_v2 m) True 0 0 n" "cached h n" "mPrefix n = mPrefix (sm_root m)"
    and "one_type ty n"
  shows "sham_inv h ty (m\<lparr>sm_root := n\<rparr>)" and "is_v2 (m\<lparr>sm_root := n\<rparr>) = is_v2 m"
proof -
  note ok = sham_invD[OF inv]
  have inner: "isInner n" using g(1) by (auto simp: wf_leaf)
  show v2: "is_v2 (m\<lparr>sm_root := n\<rparr>) = is_v2 m"
    using is_v2_prefix[of "m\<lparr>sm_root := n\<rparr>"] is_v2_prefix[of m] inner g(3) sham_ok_inner[OF ok(1)] by simp
  have "inner_depth 0 n = 0" using ok(1) g(3) by (simp add: sham_ok_def inner_depth_def)
  then show "sham_inv h ty (m\<lparr>sm_root := n\<rparr>)" using assms ok v2 by (simp add: sham_inv_def sham_ok_def)
qed

lemma delItem_absent:
  assumes "sham_ok m" and "map_of (content m) key = None"
  shows "delItem h key m = Inr (False, m)"
proof -
  obtain r st' where r: "walkTowardsKey m key = Inr (r, st')" "st' \<noteq> []"
    "\<forall>l. r = Some l \<longrightarrow> isLeaf l \<and> fst (hd st') = l" "r = None \<longrightarrow> isInner (fst (hd st'))"
    "map_of (content m) key =
      (case r of None \<Rightarrow> None | Some l \<Rightarrow> if tag (mItem l) = key then Some (mType l, item_data (mItem l)) else None)"
    using walk_root[OF assms(1), of key] by blast
  then show ?thesis using assms(2) by (cases st'; cases r) (auto simp: delItem_def split: if_splits)
qed

lemma delItem_present:
  assumes inv: "sham_inv h ty m" and "map_of (content m) key \<noteq> None"
  shows "\<exists>m'. delItem h key m = Inr (True, m') \<and> sham_inv h ty m' \<and> sm_seq m' = sm_seq m \<and> is_v2 m' = is_v2 m \<and>
    content m' = smap_erase key (content m)"
proof -
  let ?n = "sm_root m" and ?v2 = "is_v2 m" and ?seq = "sm_seq m" and ?b = "digit 0 key"
  note ok = sham_invD[OF inv]
  have root: "wf_node ?v2 True 0 0 ?n" "inner_depth 0 ?n = 0" using ok(1) by (auto simp: sham_ok_def)
  have inner: "isInner ?n" by (rule sham_ok_inner[OF ok(1)])
  have w: "walk_at ?v2 True 0 0 key ?n root_id" using root inner root_id_for[OF ok(1)] by (simp add: walk_at_def)
  have key: "key \<in> keys ?n" using assms(2) by (auto simp: smap_find_None)
  obtain c where c: "walk_child ?v2 0 0 key ?n = Some c" "key \<in> keys c" using walk_present[OF w key] .
  have gc: "getChild ?n (digit (inner_depth 0 ?n) key) = Some c" using c(1) by (simp add: walk_child_def split: if_splits)
  obtain nid' where nid': "walkTowardsKey m key = walkTowardsKey_loop ?v2 key c nid' [(?n, root_id)]"
    "id_for ?v2 (Suc (inner_depth 0 ?n)) c nid'"
    using walk_step(1)[OF w c(1)] unfolding walkTowardsKey_def by blast
  have "dels h ?seq key ty ?v2 (Suc (inner_depth 0 ?n)) (16 * inner_path 0 ?n + digit (inner_depth 0 ?n) key) c
      [(?n, root_id)] (walkTowardsKey m key)" unfolding nid'(1)
    by (rule dels_walk[OF walk_step(2)[OF w c(1)] walk_step(3)[OF w c(1)] nid'(2) _ _ c(2)
        one_type_child[OF ok(3) inner digit_less gc] cached_child[OF ok(2) inner digit_less gc] ok(4)]) simp_all
  then obtain l nid st' p where a: "walkTowardsKey m key = Inr (Some l, (l, nid) # st')" "isLeaf l" "tag (mItem l) = key" "mType l = ty"
    "delItem_loop h ?v2 ?seq key ty ?n st' None = delItem_loop h ?v2 ?seq key ty ?n [(?n, root_id)] p"
    "shrunk h key ?v2 (Suc (inner_depth 0 ?n)) (16 * inner_path 0 ?n + digit (inner_depth 0 ?n) key) c p"
    unfolding dels_def by blast
  define n' where "n' = setChild (digit (inner_depth 0 ?n) key) p (unshareNode ?seq ?n)"
  note new = del_parent[OF w c(1) ok(2,4) a(6), folded n'_def]
  have "delItem h key m = Inr (True, m\<lparr>sm_root := n'\<rparr>)"
    using a(1-5) walk_branch[OF w] by (simp add: delItem_def isRoot_def root_id_def n'_def)
  moreover have one: "one_type ty n'" using ok(3) new(3) by (auto simp: one_type_def)
  moreover have "entries n' = smap_erase key (content m)"
    by (rule smap_unique[OF wf_sorted[OF new(1)] smap_wf_erase[OF sham_ok_sorted[OF ok(1)]]])
      (simp add: smap_erase_set[OF sham_ok_sorted[OF ok(1)]] new(3))
  ultimately show ?thesis using new_root[OF inv new(1,2,5) one] by auto
qed

section \<open>Replacing the item of a key\<close>

definition replaced :: "hasher \<Rightarrow> SHAMapNode \<Rightarrow> bool \<Rightarrow> bool \<Rightarrow> nat \<Rightarrow> nat \<Rightarrow> SHAMapNode \<Rightarrow> SHAMapNode \<Rightarrow> bool" where
  "replaced h l v2 rt d P n n' \<longleftrightarrow>
     wf_node v2 rt d P n' \<and> cached h n' \<and> length (entries n') = length (entries n) \<and>
     set (entries n') = insert (tag (mItem l), mType l, item_data (mItem l)) {x \<in> set (entries n). fst x \<noteq> tag (mItem l)} \<and>
     (isInner n \<longrightarrow> mPrefix n' = mPrefix n)"

lemma replaced_step:
  assumes w: "walk_at v2 rt d P key n nid" and c: "walk_child v2 d P key n = Some c"
    and "cached h n" and "seq \<noteq> 0" and l: "tag (mItem l) = key"
    and r: "replaced h l v2 False (Suc (inner_depth d n)) (16 * inner_path P n + digit (inner_depth d n) key) c c'"
  shows "replaced h l v2 rt d P n (setChild (digit (inner_depth d n) key) (Some c') (unshareNode seq n))"
proof -
  let ?b = "digit (inner_depth d n) key"
  let ?n = "setChild ?b (Some c') (unshareNode seq n)"
  note D = wf_innerD[OF walk_atD(1,2)[OF w]] and inner = walk_atD(2)[OF w]
  have gc: "getChild n ?b = Some c" using c by (simp add: walk_child_def split: if_splits)
  have c': "wf_node v2 False (Suc (inner_depth d n)) (16 * inner_path P n + ?b) c'" "cached h c'"
    "length (entries c') = length (entries c)"
    "set (entries c') = insert (key, mType l, item_data (mItem l)) {x \<in> set (entries c). fst x \<noteq> key}"
    using r l by (simp_all add: replaced_def)
  have len: "length (entries ?n) = length (entries n)"
    using length_setChild[OF D(1) digit_less[of "inner_depth d n" key], of "Some c'" seq] c'(3) gc by simp
  have "rt \<or> merged v2 ?n"
    using D(3) len getBranchCount_setChild(1)[OF D(1) digit_less[of "inner_depth d n" key], of c' seq]
    by (auto simp: merged_def)
  then have "wf_node v2 rt d P ?n" by (intro wf_setChild[OF walk_atD(1,2)[OF w] digit_less]) (use c' in auto)
  moreover have "cached h ?n" by (rule cached_setChild[OF D(1)]) (use assms c' in auto)
  moreover have "\<forall>x \<in> others n ?b. fst x \<noteq> key" using others_keys[OF walk_atD(1,2)[OF w], of key ?b] by force
  then have "set (entries ?n) = insert (key, mType l, item_data (mItem l)) {x \<in> set (entries n). fst x \<noteq> key}"
    using entries_setChild[OF D(1) digit_less[of "inner_depth d n" key], of "Some c'" seq]
      entries_split[OF inner digit_less[of "inner_depth d n" key]] c'(4) gc by auto
  ultimately show ?thesis using len inner l by (simp add: replaced_def)
qed

lemma shareChild_same: "getChild n b = Some c \<Longrightarrow> shareChild b c n = n"
  by (cases n) (auto simp: list_update_same_conv split: if_splits)

text \<open>Whatever leaf replaces the one at the top of the path \<open>st'\<close>, rebuilding the path replaces it in the tree.\<close>

definition rebuilds :: "hasher \<Rightarrow> u32 \<Rightarrow> uint256 \<Rightarrow> bool \<Rightarrow> bool \<Rightarrow> nat \<Rightarrow> nat \<Rightarrow> SHAMapNode \<Rightarrow> NodeStack \<Rightarrow> NodeStack \<Rightarrow> bool" where
  "rebuilds h seq key v2 rt d P n st st' \<longleftrightarrow>
     (\<forall>l. isLeaf l \<and> tag (mItem l) = key \<and> cached h l \<longrightarrow>
       (\<exists>n'. dirtyUp seq key st' l = dirtyUp seq key st n' \<and> replaced h l v2 rt d P n n'))"

lemma rebuilds_leaf:
  assumes "wf_node v2 rt d P n" and "isLeaf n" and "tag (mItem n) = key"
  shows "rebuilds h seq key v2 rt d P n st st"
proof -
  have "replaced h l v2 rt d P n l" if "isLeaf l" "tag (mItem l) = key" "cached h l" for l
    using assms that by (auto simp: replaced_def wf_leaf)
  then show ?thesis unfolding rebuilds_def by blast
qed

lemma rebuilds_step:
  assumes w: "walk_at v2 rt d P key n nid" and c: "walk_child v2 d P key n = Some c" and "cached h n" and "seq \<noteq> 0"
    and r: "rebuilds h seq key v2 False (Suc (inner_depth d n)) (16 * inner_path P n + digit (inner_depth d n) key) c
      ((n, nid) # st) st'"
  shows "rebuilds h seq key v2 rt d P n st st'"
  unfolding rebuilds_def
proof (intro allI impI)
  fix l assume l: "isLeaf l \<and> tag (mItem l) = key \<and> cached h l"
  then obtain c' where c': "dirtyUp seq key st' l = dirtyUp seq key ((n, nid) # st) c'"
    "replaced h l v2 False (Suc (inner_depth d n)) (16 * inner_path P n + digit (inner_depth d n) key) c c'"
    using r unfolding rebuilds_def by blast
  have "replaced h l v2 rt d P n (setChild (digit (inner_depth d n) key) (Some c') (unshareNode seq n))"
    using replaced_step[OF w c assms(3,4) _ c'(2)] l by simp
  then show "\<exists>n'. dirtyUp seq key st' l = dirtyUp seq key st n' \<and> replaced h l v2 rt d P n n'"
    using c'(1) walk_branch[OF w] by auto
qed

lemma replace_walk:
  assumes "wf_node v2 rt d P n" and "digits d key = P" and "id_for v2 d n nid"
    and "key \<in> keys n" and "cached h n" and seq: "seq \<noteq> 0"
  shows "\<exists>l nid' st'. walkTowardsKey_loop v2 key n nid st = Inr (Some l, (l, nid') # st') \<and>
    isLeaf l \<and> tag (mItem l) = key \<and> cached h l \<and> (key, mType l, item_data (mItem l)) \<in> set (entries n) \<and>
    put_back key st' l = put_back key st n \<and> rebuilds h seq key v2 rt d P n st st'"
  using assms
proof (induction rule: walk_induct[where st = st])
  case (leaf rt d P n nid st)
  then show ?case by (simp add: walk_leaf rebuilds_leaf)
next
  case (stop rt d P n nid st)
  from stop(1) stop.prems(1) have False by (rule walk_present) (use stop(2) in simp)
  then show ?case ..
next
  case (step rt d P n nid st c nid')
  note w = step(1)
  let ?b = "digit (inner_depth d n) key"
  have c: "getChild n ?b = Some c" using step(2) by (simp add: walk_child_def split: if_splits)
  have inner: "isInner n" using walk_atD(2)[OF w] .
  obtain c' where "walk_child v2 d P key n = Some c'" "key \<in> keys c'" using walk_present[OF w step.prems(1)] .
  then have sub: "key \<in> keys c" "cached h c"
    using step(2) cached_child[OF step.prems(2) inner digit_less c] by simp_all
  obtain l nid1 st' where a: "walkTowardsKey_loop v2 key c nid' ((n, nid) # st) = Inr (Some l, (l, nid1) # st')"
    "isLeaf l" "tag (mItem l) = key" "cached h l" "(key, mType l, item_data (mItem l)) \<in> set (entries c)"
    "put_back key st' l = put_back key ((n, nid) # st) c"
    "rebuilds h seq key v2 False (Suc (inner_depth d n)) (16 * inner_path P n + ?b) c ((n, nid) # st) st'"
    using step.IH[OF sub seq] by blast
  have "put_back key st' l = put_back key st n" using a(6) shareChild_same[OF c] walk_branch[OF w] by simp
  moreover have "(key, mType l, item_data (mItem l)) \<in> set (entries n)"
    using a(5) c entries_split[OF inner digit_less[of "inner_depth d n" key]] by simp
  ultimately show ?case
    unfolding step(3) using a(1-4) rebuilds_step[OF w step(2) step.prems(2) seq a(7)] by blast
qed

text \<open>The bytes that the hash of a leaf is taken of.\<close>

definition leaf_bytes :: "TNType \<Rightarrow> SHAMapItem \<Rightarrow> Blob" where
  "leaf_bytes ty item =
     (case ty of
        tnTRANSACTION_NM \<Rightarrow> be_bytes HashPrefix_transactionID @ item_data item
      | tnACCOUNT_STATE \<Rightarrow> be_bytes HashPrefix_leafNode @ item_data item @ uint256_bytes (tag item)
      | tnTRANSACTION_MD \<Rightarrow> be_bytes HashPrefix_txNode @ item_data item @ uint256_bytes (tag item))"

lemma TreeNode_hash_bytes: "TreeNode_hash h ty item = h (leaf_bytes ty item)"
  by (simp add: TreeNode_hash_def leaf_bytes_def split: TNType.split)

lemma leaf_bytes_data: "leaf_bytes ty a = leaf_bytes ty b \<Longrightarrow> tag a = tag b \<Longrightarrow> item_data a = item_data b"
  by (simp add: leaf_bytes_def split: TNType.splits)

text \<open>The hash tells the old data of a key and its new data apart.\<close>

definition no_collision :: "hasher \<Rightarrow> TNType \<Rightarrow> SHAMap \<Rightarrow> SHAMapItem \<Rightarrow> bool" where
  "no_collision h ty m item \<longleftrightarrow>
     (\<forall>b. (tag item, ty, b) \<in> set (content m) \<longrightarrow>
        h (leaf_bytes ty \<lparr>tag = tag item, item_data = b\<rparr>) = h (leaf_bytes ty item) \<longrightarrow> b = item_data item)"

lemma setItem_leaf:
  assumes "isLeaf n" and "cached h n"
  shows "setItem h item ty n =
    (TreeNode_hash h ty item \<noteq> TreeNode_hash h (mType n) (mItem n), SHAMapTreeNode_new h item ty (mSeq n))"
  using assms by (cases n) (simp_all add: cached_leaf SHAMapTreeNode_new_def Let_def)

lemma leaf_eq:
  assumes "isLeaf n" and "cached h n"
  shows "SHAMapTreeNode_new h (mItem n) (mType n) (mSeq n) = n"
  using assms by (cases n) (simp_all add: cached_leaf SHAMapTreeNode_new_def Let_def)

lemma updateGiveItem_absent:
  assumes "sham_ok m" and "map_of (content m) (tag item) = None"
  shows "updateGiveItem h item isTransaction hasMeta m = Inr (False, m)"
proof -
  obtain r st' where r: "walkTowardsKey m (tag item) = Inr (r, st')" "st' \<noteq> []"
    "\<forall>l. r = Some l \<longrightarrow> isLeaf l \<and> fst (hd st') = l" "r = None \<longrightarrow> isInner (fst (hd st'))"
    "map_of (content m) (tag item) =
      (case r of None \<Rightarrow> None | Some l \<Rightarrow> if tag (mItem l) = tag item then Some (mType l, item_data (mItem l)) else None)"
    using walk_root[OF assms(1), of "tag item"] by blast
  then show ?thesis using assms(2) by (cases st'; cases r) (auto simp: updateGiveItem_def split: if_splits)
qed

lemma updateGiveItem_present:
  assumes inv: "sham_inv h ty m" and ty: "tn_type isTransaction hasMeta = ty" and "map_of (content m) (tag item) \<noteq> None"
    and nc: "no_collision h ty m item"
  shows "\<exists>m'. updateGiveItem h item isTransaction hasMeta m = Inr (True, m') \<and> sham_inv h ty m' \<and> sm_seq m' = sm_seq m \<and>
    is_v2 m' = is_v2 m \<and> content m' = smap_set (tag item) (ty, item_data item) (content m)"
proof -
  let ?n = "sm_root m" and ?seq = "sm_seq m" and ?key = "tag item"
  note ok = sham_invD[OF inv]
  have root: "wf_node (is_v2 m) True 0 0 ?n" using ok(1) by (auto simp: sham_ok_def)
  have key: "?key \<in> keys ?n" using assms(3) by (auto simp: smap_find_None)
  obtain l nid st where w: "walkTowardsKey m ?key = Inr (Some l, (l, nid) # st)"
    "isLeaf l" "tag (mItem l) = ?key" "cached h l" "(?key, mType l, item_data (mItem l)) \<in> set (content m)"
    "put_back ?key st l = ?n"
    "rebuilds h ?seq ?key (is_v2 m) True 0 0 ?n [] st"
    using replace_walk[OF root _ root_id_for[OF ok(1)] key ok(2,4), of "[]"] unfolding walkTowardsKey_def by auto
  have lty: "mType l = ty" using w(5) ok(3) by (auto simp: one_type_def)
  let ?l = "unshareNode ?seq l" and ?l' = "SHAMapTreeNode_new h item ty ?seq"
  let ?changed = "TreeNode_hash h ty item \<noteq> TreeNode_hash h ty (mItem l)"
  have set_: "setItem h item ty ?l = (?changed, ?l')"
    using setItem_leaf[of ?l h item ty] w(2) lty cached_unshare[OF ok(4) w(4)] by simp
  have upd: "updateGiveItem h item isTransaction hasMeta m =
      (if \<not> ?changed then Inr (True, if mSeq l = ?seq then m\<lparr>sm_root := put_back ?key st ?l'\<rparr> else m)
       else Inr (True, m\<lparr>sm_root := dirtyUp ?seq ?key st ?l'\<rparr>))"
    using w(1-3) set_ ty by (simp add: updateGiveItem_def)
  show ?thesis
  proof (cases ?changed)
    case False
    have item: "mItem l = item"
    proof -
      have eta: "mItem l = \<lparr>tag = ?key, item_data = item_data (mItem l)\<rparr>" by (simp flip: w(3))
      then have "h (leaf_bytes ty \<lparr>tag = ?key, item_data = item_data (mItem l)\<rparr>) = h (leaf_bytes ty item)"
        using False by (simp add: TreeNode_hash_bytes)
      then have "item_data (mItem l) = item_data item" using nc w(5) lty unfolding no_collision_def by blast
      then show ?thesis using w(3) by simp
    qed
    then have "mSeq l = ?seq \<longrightarrow> ?l' = l" using leaf_eq[OF w(2,4)] lty by metis
    then have "updateGiveItem h item isTransaction hasMeta m = Inr (True, m)" using upd False w(6) by simp
    moreover have "content m = smap_set ?key (ty, item_data item) (content m)"
      using smap_set_same[OF sham_ok_sorted[OF ok(1)]] w(5) item lty by metis
    ultimately show ?thesis using inv by auto
  next
    case True
    obtain n' where n': "dirtyUp ?seq ?key st ?l' = n'" "replaced h ?l' (is_v2 m) True 0 0 ?n n'"
      using w(7) unfolding rebuilds_def by (metis dirtyUp.simps(1) new_leaf)
    then have g: "wf_node (is_v2 m) True 0 0 n'" "cached h n'" "mPrefix n' = mPrefix ?n"
      "set (entries n') = insert (?key, ty, item_data item) {x \<in> set (content m). fst x \<noteq> ?key}"
      using sham_ok_inner[OF ok(1)] by (simp_all add: replaced_def)
    have one: "one_type ty n'" using ok(3) g(4) by (auto simp: one_type_def)
    have "entries n' = smap_set ?key (ty, item_data item) (content m)"
      by (rule smap_unique[OF wf_sorted[OF g(1)] smap_wf_set[OF sham_ok_sorted[OF ok(1)]]])
        (simp add: g(4) smap_set_set[OF sham_ok_sorted[OF ok(1)]])
    then show ?thesis using upd True n'(1) new_root[OF inv g(1-3) one] by auto
  qed
qed

end
