(* ===== verification/SHAMapIter.thy ===== *)
theory SHAMapIter
  imports SHAMapModify
begin

text \<open>
  The iterators of a \<open>SHAMap\<close>: \<open>begin\<close>, \<open>operator++\<close> and \<open>upper_bound\<close> pass the items in the order of
  their keys and come to the end.
\<close>

section \<open>Iteration\<close>

text \<open>
  The stack below a node at depth \<open>d\<close>, whose keys start with the digits \<open>P\<close>: the inner nodes on the
  way to it, each with an identifier of its depth.  What comes after the key \<open>k\<close> is in their later
  branches.
\<close>

fun chain :: "bool \<Rightarrow> uint256 \<Rightarrow> nat \<Rightarrow> nat \<Rightarrow> NodeStack \<Rightarrow> bool" where
  "chain v2 k d P [] \<longleftrightarrow> d = 0 \<and> P = 0"
| "chain v2 k d P ((n, nid) # st) \<longleftrightarrow>
     (\<exists>rt d0 P0. walk_at v2 rt d0 P0 k n nid \<and> digits (inner_depth d0 n) k = inner_path P0 n \<and>
        d = Suc (inner_depth d0 n) \<and> P = 16 * inner_path P0 n + digit (inner_depth d0 n) k \<and> chain v2 k d0 P0 st)"

definition slots :: "SHAMapNode \<Rightarrow> nat \<Rightarrow> (uint256, TNType \<times> Blob) stdmap" where
  "slots n i = concat (map (slot n) [i..<16])"

fun after :: "uint256 \<Rightarrow> NodeStack \<Rightarrow> (uint256, TNType \<times> Blob) stdmap" where
  "after k [] = []"
| "after k ((n, nid) # st) = slots n (Suc (selectBranch nid k)) @ after k st"

text \<open>The keys under a node have the same stack below them.\<close>

lemma chain_cong:
  "chain v2 k d P st \<Longrightarrow> digits d k = P \<Longrightarrow> digits d k' = P \<Longrightarrow> chain v2 k' d P st \<and> after k' st = after k st"
proof (induction v2 k d P st rule: chain.induct)
  case (2 v2 k d P n nid st)
  then obtain rt d0 P0 where w: "walk_at v2 rt d0 P0 k n nid" "digits (inner_depth d0 n) k = inner_path P0 n"
    "d = Suc (inner_depth d0 n)" "P = 16 * inner_path P0 n + digit (inner_depth d0 n) k" "chain v2 k d0 P0 st"
    by auto
  note D = wf_innerD[OF walk_atD(1,2)[OF w(1)]]
  have k': "digits (inner_depth d0 n) k' = inner_path P0 n" "digit (inner_depth d0 n) k' = digit (inner_depth d0 n) k"
    using child_digits[OF inner_depth_bounds(2)[OF D(2)] _ digit_less, of k' "inner_path P0 n"] "2.prems"(3) w(3,4) by auto
  have "digits d0 k' = P0" by (rule inner_path_digits[OF D(2) k'(1)])
  moreover from this have w': "walk_at v2 rt d0 P0 k' n nid" using w(1) by (simp add: walk_at_def)
  moreover have "chain v2 k' d0 P0 st \<and> after k' st = after k st"
    by (rule "2.IH"[OF w(5) walk_atD(3)[OF w(1)] \<open>digits d0 k' = P0\<close>])
  ultimately show ?case using w k' walk_branch[OF w(1)] walk_branch[OF w'] by (metis after.simps(2) chain.simps(2))
qed simp

text \<open>An iterator that stands on the first of the items \<open>es\<close> and has the others before it.\<close>

definition lands :: "bool \<Rightarrow> (uint256, TNType \<times> Blob) stdmap \<Rightarrow> (SHAMapNode option \<times> NodeStack) res \<Rightarrow> bool" where
  "lands v2 es r \<longleftrightarrow>
     (\<exists>l nid st d P. r = Inr (Some l, (l, nid) # st) \<and> isLeaf l \<and> chain v2 (tag (mItem l)) d P st \<and>
        digits d (tag (mItem l)) = P \<and> es = (tag (mItem l), mType l, item_data (mItem l)) # after (tag (mItem l)) st)"

lemma lands_leaf:
  assumes "isLeaf l" and "chain v2 k d P st" and "digits d k = P" and "wf_node v2 rt d P l"
  shows "lands v2 (entries l @ after k st) (Inr (Some l, (l, nid) # st))"
proof -
  have "digits d (tag (mItem l)) = P" using assms(1,4) by (simp add: wf_leaf)
  with chain_cong[OF assms(2,3) this] show ?thesis using assms(1)
    unfolding lands_def by (intro exI[of _ l] exI[of _ nid] exI[of _ st] exI[of _ d] exI[of _ P]) auto
qed

text \<open>The first branch that is not empty.\<close>

lemma first_branch:
  assumes "inner_shape n"
  shows "case find (\<lambda>i. \<not> isEmptyBranch n i) [i0..<16] of
      None \<Rightarrow> slots n i0 = []
    | Some i \<Rightarrow> i < 16 \<and> (\<exists>c. getChild n i = Some c \<and> slots n i0 = entries c @ slots n (Suc i))"
proof (induction "16 - i0" arbitrary: i0)
  case (Suc x)
  then have i0: "i0 < 16" by simp
  then have upt: "[i0..<16] = i0 # [Suc i0..<16]" by (simp add: upt_conv_Cons)
  show ?case
  proof (cases "getChild n i0")
    case None
    then have "isEmptyBranch n i0" using isEmptyBranch_child[OF assms i0] by simp
    then show ?thesis using Suc.hyps(1)[of "Suc i0"] Suc.hyps(2) None unfolding upt
      by (auto simp: slots_def upt split: option.splits)
  next
    case (Some c)
    then have "\<not> isEmptyBranch n i0" using isEmptyBranch_child[OF assms i0] by simp
    then show ?thesis using Some i0 unfolding upt by (simp add: slots_def upt)
  qed
qed (simp add: slots_def)

lemma chain_child:
  assumes wf: "wf_node v2 rt d P n" and inner: "isInner n" and nid: "id_for v2 d n nid" and ch: "chain v2 k d P st"
    and "digits d k = P" and i: "i < 16" and c: "getChild n i = Some c" and k': "k' \<in> keys c"
  shows "chain v2 k' (Suc (inner_depth d n)) (16 * inner_path P n + i) ((n, nid) # st)"
    and "digits (Suc (inner_depth d n)) k' = 16 * inner_path P n + i"
    and "after k' ((n, nid) # st) = slots n (Suc i) @ after k st"
proof -
  have s: "digits (inner_depth d n) k' = inner_path P n" "digit (inner_depth d n) k' = i"
    using wf_slot_keys[OF wf inner i, of k'] c k' by simp_all
  have d: "digits d k' = P" by (rule inner_path_digits[OF wf_innerD(2)[OF wf inner] s(1)])
  have w: "walk_at v2 rt d P k' n nid" using wf inner nid d by (simp add: walk_at_def)
  have up: "chain v2 k' d P st" "after k' st = after k st" using chain_cong[OF ch assms(5) d] by simp_all
  show "chain v2 k' (Suc (inner_depth d n)) (16 * inner_path P n + i) ((n, nid) # st)" using w s up by auto
  show "digits (Suc (inner_depth d n)) k' = 16 * inner_path P n + i"
    by (rule wf_keys[OF wf_innerD(4)[OF wf inner c i] k'])
  show "after k' ((n, nid) # st) = slots n (Suc i) @ after k st" using walk_branch[OF w] s up by simp
qed

lemma id_below:
  assumes "wf_node v2 rt d P n" and "isInner n" and "id_for v2 d n nid" and "wf_node v2 False (Suc (inner_depth d n)) Q c"
    and "isInner c"
  shows "id_for v2 (Suc (inner_depth d n)) c (if v2 then id_v2 c else getChildNodeID nid b)"
proof (cases v2)
  case True
  then obtain e k where "mPrefix c = Some (e, k)"
    using wf_innerD(2)[OF assms(4,5)] by (auto simp: prefix_ok_def split: option.splits)
  then show ?thesis using True assms(5) by (cases c) (auto simp: id_for_def inner_depth_def)
next
  case False
  then have "mPrefix c = None" using prefix_v1[OF wf_innerD(2)[OF assms(4,5)]] by simp
  then show ?thesis using False assms by (simp add: id_for_def inner_depth_def)
qed

lemma slots_0: "isInner n \<Longrightarrow> slots n 0 = entries n"
  by (simp add: slots_def entries_inner)

lemma firstBelow_loop_lands:
  assumes "wf_node v2 rt d P n" and "isInner n" and "id_for v2 d n nid" and "chain v2 k d P st" and "digits d k = P"
    and "entries n \<noteq> []"
  shows "lands v2 (entries n @ after k st) (firstBelow_loop v2 b n ((n, nid) # st))"
  using assms
proof (induction "size n" arbitrary: rt d P n nid k st rule: less_induct)
  case (less n rt d P nid k st)
  note D = wf_innerD[OF less.prems(1,2)]
  obtain i c where i: "find (\<lambda>i. \<not> isEmptyBranch n i) [0..<16] = Some i" "i < 16" "getChild n i = Some c"
    "entries n = entries c @ slots n (Suc i)"
    using first_branch[OF D(1), of 0] less.prems(6) slots_0[OF less.prems(2)] by (auto split: option.splits)
  have wfc: "wf_node v2 False (Suc (inner_depth d n)) (16 * inner_path P n + i) c" by (rule D(4)[OF i(3,2)])
  have ne: "entries c \<noteq> []" using wf_nonempty[OF wfc] by auto
  then obtain k' where k': "k' \<in> keys c" by (cases "entries c") force+
  note ch = chain_child[OF less.prems(1-5) i(2,3) k']
  have desc: "descendThrow n i = Inr (Some c)" using i(3) by (simp add: descendThrow_def)
  have es: "entries n @ after k st = entries c @ after k' ((n, nid) # st)" using i(4) ch(3) by simp
  show ?case
  proof (cases "isLeaf c")
    case True
    then show ?thesis unfolding es
      using i(1) desc lands_leaf[OF True ch(1,2) wfc] by (simp add: firstBelow_loop.simps[of _ _ n])
  next
    case False
    have "lands v2 (entries c @ after k' ((n, nid) # st)) (firstBelow_loop v2 b c
        ((c, if v2 then id_v2 c else getChildNodeID nid b) # (n, nid) # st))"
      by (rule less.hyps[OF getChild_size[OF i(3)] wfc False id_below[OF less.prems(1-3) wfc False] ch(1,2) ne])
    then show ?thesis unfolding es using i(1) desc False
      by (simp add: firstBelow_loop.simps[of _ _ n] del: after.simps cong: if_cong)
  qed
qed

text \<open>Below a node that is not the root.\<close>

lemma firstBelow_lands:
  assumes wf: "wf_node v2 rt d P n" and "isInner n" and "id_for v2 d n nid" and "chain v2 k d P st" and "digits d k = P"
    and "i < 16" and "getChild n i = Some c"
  shows "lands v2 (entries c @ slots n (Suc i) @ after k st) (firstBelow v2 c ((n, nid) # st) b)"
proof -
  have wfc: "wf_node v2 False (Suc (inner_depth d n)) (16 * inner_path P n + i) c" by (rule wf_innerD(4)[OF wf assms(2,7,6)])
  have ne: "entries c \<noteq> []" using wf_nonempty[OF wfc] by auto
  then obtain k' where k': "k' \<in> keys c" by (cases "entries c") force+
  note ch = chain_child[OF assms k']
  show ?thesis
  proof (cases "isLeaf c")
    case True
    then show ?thesis using lands_leaf[OF True ch(1,2) wfc] ch(3) by (simp add: firstBelow_def)
  next
    case False
    then show ?thesis
      using firstBelow_loop_lands[OF wfc False id_below[OF assms(1-3) wfc False] ch(1,2) ne, of b b] unfolding ch(3)
      by (simp add: firstBelow_def Let_def cong: if_cong)
  qed
qed

lemma first_from_lands:
  assumes "wf_node v2 rt d P n" and "isInner n" and "id_for v2 d n nid" and "chain v2 k d P st" and "digits d k = P"
  shows "if slots n i0 = [] then first_from v2 n ((n, nid) # st) i0 = Inr None
    else \<exists>l st'. first_from v2 n ((n, nid) # st) i0 = Inr (Some (l, st')) \<and> lands v2 (slots n i0 @ after k st) (Inr (Some l, st'))"
proof (cases "find (\<lambda>i. \<not> isEmptyBranch n i) [i0..<16]")
  case None
  then show ?thesis using first_branch[OF wf_innerD(1)[OF assms(1,2)], of i0] by (simp add: first_from_def)
next
  case (Some i)
  then obtain c where i: "i < 16" "getChild n i = Some c" "slots n i0 = entries c @ slots n (Suc i)"
    using first_branch[OF wf_innerD(1)[OF assms(1,2)], of i0] by auto
  have "lands v2 (slots n i0 @ after k st) (firstBelow v2 c ((n, nid) # st) i)"
    using firstBelow_lands[OF assms i(1,2)] i(3) by simp
  moreover have "slots n i0 \<noteq> []"
    using i(3) wf_nonempty[OF wf_innerD(4)[OF assms(1,2) i(2,1)]] by auto
  ultimately show ?thesis using Some i(2) by (auto simp: first_from_def descendThrow_def lands_def)
qed

lemma peekNextItem_loop_lands:
  "chain v2 k d P st \<Longrightarrow>
     if after k st = [] then peekNextItem_loop v2 k st = Inr (None, []) else lands v2 (after k st) (peekNextItem_loop v2 k st)"
proof (induction v2 k d P st rule: chain.induct)
  case (2 v2 k d P n nid st)
  then obtain rt d0 P0 where w: "walk_at v2 rt d0 P0 k n nid" "digits (inner_depth d0 n) k = inner_path P0 n"
    "d = Suc (inner_depth d0 n)" "P = 16 * inner_path P0 n + digit (inner_depth d0 n) k" "chain v2 k d0 P0 st"
    by auto
  let ?i = "Suc (selectBranch nid k)"
  note f = first_from_lands[OF walk_atD(1,2,4)[OF w(1)] w(5) walk_atD(3)[OF w(1)], of ?i]
  show ?case
  proof (cases "slots n ?i = []")
    case True
    then show ?thesis using f "2.IH"[OF w(5)] by simp
  next
    case False
    then obtain l st' where "first_from v2 n ((n, nid) # st) ?i = Inr (Some (l, st'))"
      "lands v2 (slots n ?i @ after k st) (Inr (Some l, st'))" using f by auto
    then show ?thesis using False by simp
  qed
qed simp

text \<open>Where an operation goes that looks for the first of \<open>es\<close>: there, or to the end.\<close>

definition goes :: "bool \<Rightarrow> (uint256, TNType \<times> Blob) stdmap \<Rightarrow> (SHAMapNode option \<times> NodeStack) res \<Rightarrow> bool" where
  "goes v2 es r \<longleftrightarrow> (if es = [] then r = Inr (None, []) else lands v2 es r)"

lemma first_from_goes:
  assumes "wf_node v2 rt d P n" and "isInner n" and "id_for v2 d n nid" and "chain v2 k d P st" and "digits d k = P"
    and "goes v2 (after k st) r"
  shows "goes v2 (slots n i0 @ after k st) (bindE (first_from v2 n ((n, nid) # st) i0) (\<lambda>f.
    case f of Some (leaf, stack) \<Rightarrow> Inr (Some leaf, stack) | None \<Rightarrow> r))"
  using first_from_lands[OF assms(1-5), of i0] assms(6) by (cases "slots n i0 = []") (auto simp: goes_def)

abbreviation above :: "uint256 \<Rightarrow> (uint256, TNType \<times> Blob) stdmap \<Rightarrow> (uint256, TNType \<times> Blob) stdmap" where
  "above key \<equiv> filter (\<lambda>(k, _). key < k)"

lemma upt_split: "b < 16 \<Longrightarrow> [0..<16] = [0..<b] @ b # [Suc b..<16]"
  using upt_add_eq_append[of 0 b "16 - b"] by (simp add: upt_conv_Cons)

lemma above_inner:
  assumes "wf_node v2 rt d P n" and "isInner n" and "digits (inner_depth d n) key = inner_path P n"
  defines "b \<equiv> digit (inner_depth d n) key"
  shows "above key (entries n) = above key (slot n b) @ slots n (Suc b)"
proof -
  note D = wf_innerD[OF assms(1,2)]
  have d: "inner_depth d n < 64" by (rule inner_depth_bounds(2)[OF D(2)])
  have b: "b < 16" by (simp add: b_def)
  have keys: "digits (inner_depth d n) k = inner_path P n \<and> digit (inner_depth d n) k = i" if "i < 16" "(k, v) \<in> set (slot n i)" for i k v
    using wf_slot_keys[OF assms(1,2) that(1)] that(2) by (metis fst_conv image_eqI)
  have lo: "k < key" if "i < b" "(k, v) \<in> set (slot n i)" for i k v
    using keys[of i k v] that b assms(3) by (intro digit_order[OF d]) (auto simp: b_def)
  have hi: "key < k" if "b < i" "i < 16" "(k, v) \<in> set (slot n i)" for i k v
    using keys[of i k v] that assms(3) by (intro digit_order[OF d]) (auto simp: b_def)
  have "above key (concat (map (slot n) [0..<b])) = []"
    using lo by (force simp: filter_empty_conv)
  moreover have "above key (slots n (Suc b)) = slots n (Suc b)"
    using hi by (auto simp: filter_id_conv slots_def Suc_le_eq)
  ultimately show ?thesis unfolding entries_inner[OF assms(2)] upt_split[OF b] by (simp add: slots_def)
qed

lemma upper_bound_inner:
  assumes "isInner n"
  shows "upper_bound_loop v2 key ((n, nid) # st) =
    bindE (first_from v2 n ((n, nid) # st)
      (if v2 \<and> lacks_prefix n key
       then if key < (case mPrefix n of None \<Rightarrow> 0 | Some (_, common) \<Rightarrow> common) then 0 else 16
       else Suc (selectBranch nid key)))
      (\<lambda>f. case f of Some (leaf, stack) \<Rightarrow> Inr (Some leaf, stack) | None \<Rightarrow> upper_bound_loop v2 key st)"
  using assms by (cases v2) (simp_all add: Let_def cong: option.case_cong)

text \<open>On the nodes of a chain the two loops go the same way.\<close>

lemma upper_bound_chain: "chain v2 key d P st \<Longrightarrow> upper_bound_loop v2 key st = peekNextItem_loop v2 key st"
proof (induction v2 key d P st rule: chain.induct)
  case (2 v2 k d P n nid st)
  then obtain rt d0 P0 where w: "walk_at v2 rt d0 P0 k n nid" "digits (inner_depth d0 n) k = inner_path P0 n"
    "chain v2 k d0 P0 st" by auto
  have "\<not> (v2 \<and> lacks_prefix n k)" using walk_lacks[OF w(1)] w(2) by simp
  moreover have "isInner n" by (rule walk_atD(2)[OF w(1)])
  ultimately show ?case using "2.IH"[OF w(3)] by (auto cong: option.case_cong)
qed simp

lemma chain_goes: "chain v2 key d P st \<Longrightarrow> goes v2 (after key st) (upper_bound_loop v2 key st)"
  using peekNextItem_loop_lands[of v2 key d P st] by (simp add: goes_def upper_bound_chain)

lemma upper_bound_stop:
  assumes w: "walk_at v2 rt d P key n nid" and none: "walk_child v2 d P key n = None" and ch: "chain v2 key d P st"
  shows "goes v2 (above key (entries n) @ after key st) (upper_bound_loop v2 key ((n, nid) # st))"
proof -
  note D = wf_innerD[OF walk_atD(1,2)[OF w]] and inner = walk_atD(2)[OF w]
  note go = first_from_goes[OF walk_atD(1,2,4)[OF w] ch walk_atD(3)[OF w] chain_goes[OF ch]]
  show ?thesis
  proof (cases "digits (inner_depth d n) key = inner_path P n")
    case True
    then have "slot n (digit (inner_depth d n) key) = []" using none by (simp add: walk_child_def)
    then have "above key (entries n) = slots n (Suc (selectBranch nid key))"
      using above_inner[OF walk_atD(1)[OF w] inner True] walk_branch[OF w] by simp
    moreover have "\<not> (v2 \<and> lacks_prefix n key)" using walk_lacks[OF w] True by simp
    ultimately show ?thesis using go unfolding upper_bound_inner[OF inner] by (simp only: if_False)
  next
    case False
    then have lacks: v2 "lacks_prefix n key" using walk_lacks[OF w] by auto
    then obtain e c where pre: "mPrefix n = Some (e, c)" using D(2) by (auto simp: prefix_ok_def split: option.splits)
    have e: "inner_depth d n = e" "inner_path P n = digits e c" using pre by (simp_all add: inner_depth_def inner_path_def)
    have keys: "digits e k = digits e c" if "k \<in> keys n" for k
      using that wf_slot_keys(1)[OF walk_atD(1)[OF w] inner, of _ k] inner e by (auto simp: entries_inner_set)
    have ne: "digits e key \<noteq> digits e c" using False e by simp
    show ?thesis
    proof (cases "key < c")
      case True
      then have "digits e key < digits e c" using ne digits_mono[of key c e] by (simp add: order_less_le)
      then have "key < k" if "k \<in> keys n" for k using digits_less keys[OF that] by metis
      then have "above key (entries n) = entries n" by (force simp: filter_id_conv)
      then show ?thesis using go[of 0] True lacks pre slots_0[OF inner] unfolding upper_bound_inner[OF inner]
        by (simp cong: option.case_cong)
    next
      case nlt: False
      then have "digits e c < digits e key" using ne digits_mono[of c key e] unfolding not_less by (simp add: order_less_le)
      then have "k < key" if "k \<in> keys n" for k using digits_less keys[OF that] by metis
      then have "above key (entries n) = []" by (force simp: filter_empty_conv)
      then show ?thesis using go[of 16] nlt lacks pre unfolding upper_bound_inner[OF inner]
        by (simp add: slots_def cong: option.case_cong)
    qed
  qed
qed

lemma upper_bound_walk:
  assumes "wf_node v2 rt d P n" and "digits d key = P" and "id_for v2 d n nid" and "chain v2 key d P st"
  shows "\<exists>r st'. walkTowardsKey_loop v2 key n nid st = Inr (r, st') \<and>
    goes v2 (above key (entries n) @ after key st) (upper_bound_loop v2 key st')"
  using assms
proof (induction rule: walk_induct[where st = st])
  case (leaf rt d P n nid st)
  show ?case
  proof (cases "key < tag (mItem n)")
    case True
    then have "lands v2 (entries n @ after key st) (Inr (Some n, (n, nid) # st))" by (intro lands_leaf[OF leaf(4,5,2,1)])
    then show ?thesis using True leaf(4) by (simp add: walk_leaf goes_def)
  next
    case False
    then show ?thesis using leaf(4) chain_goes[OF leaf(5)] by (simp add: walk_leaf)
  qed
next
  case (stop rt d P n nid st)
  then show ?case using walk_stop[OF stop(1,2)] upper_bound_stop[OF stop(1,2)] by blast
next
  case (step rt d P n nid st c nid')
  note w = step(1)
  have c: "digits (inner_depth d n) key = inner_path P n" "getChild n (digit (inner_depth d n) key) = Some c"
    using step(2) by (simp_all add: walk_child_def split: if_splits)
  have "chain v2 key (Suc (inner_depth d n)) (16 * inner_path P n + digit (inner_depth d n) key) ((n, nid) # st)"
    using w c(1) step.prems by auto
  moreover have "above key (entries n) @ after key st = above key (entries c) @ after key ((n, nid) # st)"
    using above_inner[OF walk_atD(1,2)[OF w] c(1)] c(2) walk_branch[OF w] by simp
  ultimately show ?case using step.IH unfolding step(3) by simp
qed

text \<open>The first item of a map, and the first item above a key.\<close>

lemma peekFirstItem_goes: "sham_ok m \<Longrightarrow> goes (is_v2 m) (content m) (peekFirstItem m)"
proof -
  assume ok: "sham_ok m"
  have root: "wf_node (is_v2 m) True 0 0 (sm_root m)" using ok by (simp add: sham_ok_def)
  have inner: "isInner (sm_root m)" by (rule sham_ok_inner[OF ok])
  show ?thesis
  proof (cases "content m = []")
    case True
    then have "find (\<lambda>i. \<not> isEmptyBranch (sm_root m) i) [0..<16] = None"
      using first_branch[OF wf_innerD(1)[OF root inner], of 0] slots_0[OF inner] wf_nonempty[OF wf_innerD(4)[OF root inner]]
      by (fastforce split: option.splits)
    then show ?thesis using True inner by (simp add: goes_def peekFirstItem_def firstBelow_def firstBelow_loop.simps)
  next
    case False
    have "lands (is_v2 m) (content m) (firstBelow_loop (is_v2 m) 0 (sm_root m) [(sm_root m, root_id)])"
      using firstBelow_loop_lands[OF root inner root_id_for[OF ok], of 0 "[]" 0] False by simp
    then show ?thesis using False inner by (auto simp: goes_def peekFirstItem_def firstBelow_def lands_def)
  qed
qed

lemma peekNextItem_goes: "lands (is_v2 m) ((k, v) # es) (Inr (Some l, st)) \<Longrightarrow> goes (is_v2 m) es (peekNextItem m k st)"
proof -
  assume "lands (is_v2 m) ((k, v) # es) (Inr (Some l, st))"
  then obtain nid s d P where "st = (l, nid) # s" "chain (is_v2 m) k d P s" "es = after k s"
    by (auto simp: lands_def)
  then show ?thesis using peekNextItem_loop_lands[of "is_v2 m" k d P s] by (simp add: goes_def peekNextItem_def)
qed

text \<open>What an iterator has before it, the item it stands on first.\<close>

definition stands :: "SHAMap \<Rightarrow> (uint256, TNType \<times> Blob) stdmap \<Rightarrow> const_iterator \<Rightarrow> bool" where
  "stands m es it \<longleftrightarrow> (\<exists>r. it = iterator_at r \<and> goes (is_v2 m) es (Inr r))"

definition item_of :: "uint256 \<times> TNType \<times> Blob \<Rightarrow> SHAMapItem" where
  "item_of e = \<lparr>tag = fst e, item_data = snd (snd e)\<rparr>"

lemma standsI: "goes (is_v2 m) es (Inr r) \<Longrightarrow> stands m es (iterator_at r)"
  unfolding stands_def by blast

lemma stands_item: "stands m es it \<Longrightarrow> fst it = (case es of [] \<Rightarrow> None | e # _ \<Rightarrow> Some (item_of e))"
  by (cases es) (auto simp: stands_def goes_def lands_def iterator_at_def item_of_def)

lemma goes_Inr: "goes v2 es r \<Longrightarrow> \<exists>x. r = Inr x"
  by (auto simp: goes_def lands_def split: if_splits)

lemma begin_stands: "sham_ok m \<Longrightarrow> \<exists>it. SHAMap_begin m = Inr it \<and> stands m (content m) it"
proof -
  assume "sham_ok m"
  note g = peekFirstItem_goes[OF this]
  then obtain x where "peekFirstItem m = Inr x" using goes_Inr by blast
  then show ?thesis using g standsI by (simp add: SHAMap_begin_def)
qed

lemma next_stands: "stands m (e # es) it \<Longrightarrow> \<exists>it'. const_iterator_next m it = Inr it' \<and> stands m es it'"
proof -
  assume st: "stands m (e # es) it"
  then obtain l s where r: "it = iterator_at (Some l, s)" "lands (is_v2 m) (e # es) (Inr (Some l, s))"
    unfolding stands_def goes_def by (auto simp: lands_def) blast
  have "goes (is_v2 m) es (peekNextItem m (fst e) s)"
    using peekNextItem_goes[of m "fst e" "snd e" es l s] r(2) by simp
  moreover from this obtain x where "peekNextItem m (fst e) s = Inr x" using goes_Inr by blast
  moreover have "fst it = Some (item_of e)" using stands_item[OF st] by simp
  ultimately show ?thesis using r(1) standsI[of m es x]
    by (simp add: const_iterator_next_def item_of_def) (simp add: iterator_at_def)
qed

lemma upper_bound_stands:
  "sham_ok m \<Longrightarrow> \<exists>it. SHAMap_upper_bound m key = Inr it \<and> stands m (smap_upper_bound key (content m)) it"
proof -
  assume ok: "sham_ok m"
  have root: "wf_node (is_v2 m) True 0 0 (sm_root m)" using ok by (simp add: sham_ok_def)
  obtain r st where w: "walkTowardsKey m key = Inr (r, st)" "goes (is_v2 m) (above key (content m)) (upper_bound_loop (is_v2 m) key st)"
    using upper_bound_walk[OF root _ root_id_for[OF ok], of key "[]"] unfolding walkTowardsKey_def by auto
  moreover from w(2) obtain x where "upper_bound_loop (is_v2 m) key st = Inr x" using goes_Inr by blast
  ultimately show ?thesis
    using smap_upper_bound_filter[OF sham_ok_sorted[OF ok]] standsI[of m _ x] by (simp add: SHAMap_upper_bound_def)
qed

text \<open>An iterator passes the items before it and comes to the end.\<close>

lemma items_stands: "stands m es it \<Longrightarrow> items_from m it = Some (Inr (map item_of es))"
proof (induction es arbitrary: it)
  case Nil
  then show ?case using stands_item[OF Nil] by (simp add: items_from.simps)
next
  case (Cons e es)
  then obtain it' where it': "const_iterator_next m it = Inr it'" "stands m es it'" using next_stands by blast
  then show ?case using Cons.IH[OF it'(2)] stands_item[OF Cons.prems] by (subst items_from.simps) simp
qed

end
