(* ===== verification/SHAMapWire.thy ===== *)
theory SHAMapWire
  imports SHAMapNode
begin

text \<open>
  Reading nodes from their serialized forms (\<open>SHAMapAbstractNode::make\<close> in
  \<^verbatim>\<open>shamap/impl/SHAMapTreeNode.cpp\<close>).  The lemmas show that both forms are read back as the node that was
  written, and two defects of the reader.
\<close>

section \<open>The reader\<close>

text \<open>\<open>get256\<close> leaves its out-parameter \<open>u\<close> alone when the bytes are out of range.\<close>

definition get256 :: "Serializer \<Rightarrow> int \<Rightarrow> uint256 \<Rightarrow> uint256" where
  "get256 s offset u =
     (case Serializer_getBitString 256 s offset of None \<Rightarrow> u | Some b \<Rightarrow> uint256_of_bytes b)"

definition make_leaf :: "hasher \<Rightarrow> SHAMapItem \<Rightarrow> TNType \<Rightarrow> u32 \<Rightarrow> uint256 \<Rightarrow> bool \<Rightarrow> SHAMapNode" where
  "make_leaf h item ty seq hash hashValid =
     (if hashValid then SHAMapTreeNode seq hash ty item else SHAMapTreeNode_new h item ty seq)"

definition make_inner ::
  "hasher \<Rightarrow> u32 \<Rightarrow> uint256 \<Rightarrow> bool \<Rightarrow> (nat \<times> uint256) option \<Rightarrow> uint256 list \<times> u32 \<Rightarrow> SHAMapNode" where
  "make_inner h seq hash hashValid pre = (\<lambda>(hashes, isBranch).
     if hashValid then SHAMapInnerNode seq hash hashes isBranch (replicate 16 None) pre
     else snd (updateHash h (SHAMapInnerNode seq 0 hashes isBranch (replicate 16 None) pre)))"

text \<open>A leaf whose data is followed by its key; an all-zero key is refused where \<open>invalid\<close> says how.\<close>

definition read_tagged :: "string \<Rightarrow> string option \<Rightarrow> Serializer \<Rightarrow> SHAMapItem res" where
  "read_tagged short invalid s =
     (let len = getDataLength s in
      if len < 32 then Inl (RuntimeError short)
      else
        let u = get256 s (len - 32) 0;
            s = snd (Serializer_chop 32 s)
        in (case invalid of
              None \<Rightarrow> Inr \<lparr>tag = u, item_data = mData s\<rparr>
            | Some e \<Rightarrow> if u = 0 then Inl (RuntimeError e) else Inr \<lparr>tag = u, item_data = mData s\<rparr>))"

text \<open>Sixteen hashes in a row.\<close>

definition read_hash :: "Serializer \<Rightarrow> nat \<Rightarrow> uint256 list \<times> u32 \<Rightarrow> uint256 list \<times> u32" where
  "read_hash s i = (\<lambda>(hashes, isBranch).
     let x = get256 s (int i * 32) (hashes ! i)
     in (hashes[i := x], if x \<noteq> 0 then set_bit i isBranch else isBranch))"

definition read_full :: "Serializer \<Rightarrow> uint256 list \<times> u32" where
  "read_full s = fold (read_hash s) [0..<16] (replicate 16 0, 0)"

text \<open>The non-empty branches only, each with its number.\<close>

definition read_branch :: "Serializer \<Rightarrow> nat \<Rightarrow> uint256 list \<times> u32 \<Rightarrow> (uint256 list \<times> u32) res" where
  "read_branch s i = (\<lambda>(hashes, isBranch).
     case Serializer_get8 s (32 + int i * 33) of
       None \<Rightarrow> Inl (RuntimeError ''short CI node'')
     | Some pos \<Rightarrow>
         if pos < 0 \<or> pos \<ge> 16 then Inl (RuntimeError ''invalid CI node'')
         else
           let x = get256 s (int i * 33) (hashes ! nat pos)
           in Inr (hashes[nat pos := x], if x \<noteq> 0 then set_bit (nat pos) isBranch else isBranch))"

definition read_compressed :: "Serializer \<Rightarrow> (uint256 list \<times> u32) res" where
  "read_compressed s =
     forE (read_branch s) [0..<nat (getDataLength s sdiv 33)] (replicate 16 0, 0)"

definition make_wire ::
  "hasher \<Rightarrow> Blob \<Rightarrow> u32 \<Rightarrow> uint256 \<Rightarrow> bool \<Rightarrow> SHAMapNodeID \<Rightarrow> SHAMapNode option res" where
  "make_wire h rawNode seq hash hashValid nid =
     (if rawNode = [] then Inr None
      else
        let s = \<lparr>mData = butlast rawNode\<rparr>;
            ty = uint (last rawNode);
            len = getDataLength s
        in if ty < 0 \<or> ty > 6 then Inr None
           else if ty = 0 then
             Inr (Some (make_leaf h
               \<lparr>tag = h (be_bytes HashPrefix_transactionID @ mData s), item_data = mData s\<rparr>
               tnTRANSACTION_NM seq hash hashValid))
           else if ty = 1 then
             bindE (read_tagged ''short AS node'' (Some ''invalid AS node'') s) (\<lambda>item.
               Inr (Some (make_leaf h item tnACCOUNT_STATE seq hash hashValid)))
           else if ty = 2 then
             if len \<noteq> 512 then Inl (RuntimeError ''invalid FI node'')
             else Inr (Some (make_inner h seq hash hashValid None (read_full s)))
           else if ty = 3 then
             bindE (read_compressed s) (\<lambda>r. Inr (Some (make_inner h seq hash hashValid None r)))
           else if ty = 4 then
             bindE (read_tagged ''short TM node'' (Some ''invalid TM node'') s) (\<lambda>item.
               Inr (Some (make_leaf h item tnTRANSACTION_MD seq hash hashValid)))
           else if ty = 5 then
             if len \<noteq> 512 then Inl (RuntimeError ''invalid FI node'')
             else Inr (Some (make_inner h seq hash hashValid (Some (nid_depth nid, nid_id nid)) (read_full s)))
           else
             bindE (read_compressed s) (\<lambda>r.
               Inr (Some (make_inner h seq hash hashValid (Some (nid_depth nid, nid_id nid)) r))))"

text \<open>
  The depth and the common prefix of a node of version 2.  The prefix is written into the 32 bytes
  of \<open>common_\<close>; a longer one is written past its end.
\<close>

definition read_common :: "Serializer \<Rightarrow> (nat \<times> uint256) res" where
  "read_common s =
     (let depth = (case Serializer_get8 s 512 of None \<Rightarrow> 64 | Some d \<Rightarrow> nat d);
          n = (depth + 1) div 2
      in if getDataLength s \<noteq> 512 + 1 + int n then Inl (RuntimeError ''invalid PIN node'')
         else if n > 32 then Inl OutOfBounds
         else
           let bytes = map (\<lambda>i. case Serializer_get8 s (512 + 1 + int i) of None \<Rightarrow> 0 | Some b \<Rightarrow> word_of_int b) [0..<n]
           in Inr (depth, uint256_of_bytes (bytes @ replicate (32 - n) 0)))"

definition make_prefix :: "hasher \<Rightarrow> Blob \<Rightarrow> u32 \<Rightarrow> uint256 \<Rightarrow> bool \<Rightarrow> SHAMapNode res" where
  "make_prefix h rawNode seq hash hashValid =
     (if length rawNode < 4 then Inl (RuntimeError ''invalid P node'')
      else
        let prefix = ucast (rawNode ! 0) :: u32;
            prefix = push_bit 8 prefix;
            prefix = prefix OR ucast (rawNode ! 1);
            prefix = push_bit 8 prefix;
            prefix = prefix OR ucast (rawNode ! 2);
            prefix = push_bit 8 prefix;
            prefix = prefix OR ucast (rawNode ! 3);
            s = \<lparr>mData = drop 4 rawNode\<rparr>
        in if prefix = HashPrefix_transactionID then
             Inr (make_leaf h \<lparr>tag = h rawNode, item_data = mData s\<rparr> tnTRANSACTION_NM seq hash hashValid)
           else if prefix = HashPrefix_leafNode then
             bindE (read_tagged ''short PLN node'' (Some ''invalid PLN node'') s) (\<lambda>item.
               Inr (make_leaf h item tnACCOUNT_STATE seq hash hashValid))
           else if prefix = HashPrefix_innerNode \<or> prefix = HashPrefix_innerNodeV2 then
             let len = getDataLength s;
                 isV2 = (prefix = HashPrefix_innerNodeV2)
             in if len < 512 \<or> (\<not> isV2 \<and> len \<noteq> 512) \<or> (isV2 \<and> len = 512)
                  then Inl (RuntimeError ''invalid PIN node'')
                else if isV2 then
                  bindE (read_common s) (\<lambda>pre. Inr (make_inner h seq hash hashValid (Some pre) (read_full s)))
                else Inr (make_inner h seq hash hashValid None (read_full s))
           else if prefix = HashPrefix_txNode then
             bindE (read_tagged ''short TXN node'' None s) (\<lambda>item.
               Inr (make_leaf h item tnTRANSACTION_MD seq hash hashValid))
           else Inl (RuntimeError ''invalid node prefix''))"

definition SHAMapAbstractNode_make ::
  "hasher \<Rightarrow> Blob \<Rightarrow> u32 \<Rightarrow> SHANodeFormat \<Rightarrow> uint256 \<Rightarrow> bool \<Rightarrow> SHAMapNodeID \<Rightarrow> SHAMapNode option res" where
  "SHAMapAbstractNode_make h rawNode seq format hash hashValid nid =
     (case format of
        snfWIRE \<Rightarrow> make_wire h rawNode seq hash hashValid nid
      | snfPREFIX \<Rightarrow> bindE (make_prefix h rawNode seq hash hashValid) (\<lambda>n. Inr (Some n))
      | snfHASH \<Rightarrow> Inl (RuntimeError ''Unknown format''))"

section \<open>Reading back what was written\<close>

lemma mData_add256 [simp]: "mData (add256 x s) = mData s @ uint256_bytes x"
  by (simp add: add256_def Serializer_addBitString_def push_bytes_def)

lemma mData_adds [simp]:
  "mData (snd (Serializer_add8 b s)) = mData s @ [b]"
  "mData (snd (Serializer_addRaw bs s)) = mData s @ bs"
  "mData (snd (Serializer_add32 w s)) = mData s @ be_bytes w"
  by (simp_all add: Serializer_add8_def Serializer_addRaw_def Serializer_add32_def push_bytes_def
      be_bytes_def ucast_and_ff)

lemma mData_fold_add256: "mData (fold add256 xs s) = mData s @ concat (map uint256_bytes xs)"
  by (induction xs arbitrary: s) auto

lemma mData_fold_bytes:
  "mData (fold (\<lambda>i s. snd (Serializer_add8 (f i) s)) xs s) = mData s @ map f xs"
  by (induction xs arbitrary: s) auto

lemma mData_fold_branches:
  "mData (fold (\<lambda>i s. if P i then snd (Serializer_add8 (w i) (add256 (x i) s)) else s) is s) =
     mData s @ concat (map (\<lambda>i. uint256_bytes (x i) @ [w i]) (filter P is))"
  by (induction "is" arbitrary: s) auto

lemma drop_chunk:
  assumes "\<And>x. x \<in> set xs \<Longrightarrow> length (g x) = k" and "i < length xs"
  shows "drop (k * i) (concat (map g xs) @ ys) = g (xs ! i) @ concat (map g (drop (Suc i) xs)) @ ys"
  using assms
proof (induction xs arbitrary: i)
  case (Cons x xs)
  show ?case
  proof (cases i)
    case (Suc j)
    have "drop (k * i) (concat (map g (x # xs)) @ ys) = drop (k * j) (concat (map g xs) @ ys)"
      using Cons.prems(1)[of x] Suc by simp
    then show ?thesis using Cons Suc by simp
  qed simp
qed simp

lemma length_chunks: "(\<And>x. x \<in> set xs \<Longrightarrow> length (g x) = k) \<Longrightarrow> length (concat (map g xs)) = k * length xs"
  by (induction xs) auto

lemma get256_at:
  assumes "drop k (mData s) = uint256_bytes x @ ys" and "length (mData s) < 2 ^ 31" and "off = int k"
  shows "get256 s off u = x"
proof -
  have "length (drop k (mData s)) \<ge> 32" unfolding assms(1) by simp
  then have "k + 32 \<le> length (mData s)" by simp
  then show ?thesis using assms by (simp add: get256_def Serializer_getBitString_def nat_add_distrib)
qed

lemma get8_at:
  assumes "drop k (mData s) = b # ys" and "length (mData s) < 2 ^ 31" and "off = int k"
  shows "Serializer_get8 s off = Some (uint b)"
proof -
  have "length (drop k (mData s)) \<ge> 1" unfolding assms(1) by simp
  then have "k < length (mData s)" by simp
  moreover have "mData s ! k = b" using assms(1) \<open>k < length (mData s)\<close> by (simp add: nth_via_drop)
  ultimately show ?thesis using assms by (simp add: Serializer_get8_def)
qed

text \<open>The branch bits that go with a list of hashes.\<close>

definition branch_bits :: "uint256 list \<Rightarrow> u32 \<Rightarrow> bool" where
  "branch_bits hashes isBranch \<longleftrightarrow>
     length hashes = 16 \<and> (\<forall>i. bit isBranch i \<longleftrightarrow> i < 16 \<and> hashes ! i \<noteq> 0)"

lemma branch_bits_unique: "branch_bits hashes b1 \<Longrightarrow> branch_bits hashes b2 \<Longrightarrow> b1 = b2"
  by (auto simp: branch_bits_def intro: bit_eqI)

lemma branch_bits_set:
  assumes "branch_bits hashes b" and "i < 16" and "hashes ! i = 0"
  shows "branch_bits (hashes[i := x]) (if x \<noteq> 0 then set_bit i b else b)"
  using assms by (auto simp: branch_bits_def bit_set_bit_iff nth_list_update)

lemma branch_bits_zero: "branch_bits (replicate 16 0) 0"
  by (simp add: branch_bits_def)

lemma read_full_step:
  assumes "length hs = 16" and "mData s = concat (map uint256_bytes hs) @ rest"
    and "length (mData s) < 2 ^ 31" and "n \<le> 16"
  shows "\<exists>b. fold (read_hash s) [0..<n] (replicate 16 0, 0) =
     (take n hs @ replicate (16 - n) 0, b) \<and> branch_bits (take n hs @ replicate (16 - n) 0) b"
  using assms(4)
proof (induction n)
  case 0
  then show ?case using branch_bits_zero by simp
next
  case (Suc n)
  then obtain b where b: "fold (read_hash s) [0..<n] (replicate 16 0, 0) =
     (take n hs @ replicate (16 - n) 0, b)" "branch_bits (take n hs @ replicate (16 - n) 0) b" by auto
  have "drop (32 * n) (mData s) = uint256_bytes (hs ! n) @ concat (map uint256_bytes (drop (Suc n) hs)) @ rest"
    unfolding assms(2) by (rule drop_chunk) (use assms(1) Suc.prems in auto)
  then have x: "get256 s (int n * 32) u = hs ! n" for u
    by (rule get256_at[OF _ assms(3)]) simp
  have up: "(take n hs @ replicate (16 - n) 0)[n := hs ! n] = take (Suc n) hs @ replicate (16 - Suc n) 0"
    using assms(1) Suc.prems
    by (intro nth_equalityI) (auto simp: nth_list_update nth_append less_Suc_eq min_def)
  have "branch_bits ((take n hs @ replicate (16 - n) 0)[n := hs ! n]) (if hs ! n \<noteq> 0 then set_bit n b else b)"
    by (rule branch_bits_set[OF b(2)]) (use assms(1) Suc.prems in \<open>auto simp: nth_append\<close>)
  moreover have "read_hash s n (take n hs @ replicate (16 - n) 0, b) =
      (take (Suc n) hs @ replicate (16 - Suc n) 0, if hs ! n \<noteq> 0 then set_bit n b else b)"
    unfolding read_hash_def by (simp only: x up prod.case Let_def)
  ultimately show ?case using b(1) by (simp add: up)
qed

lemma read_full_back:
  assumes "branch_bits hs b" and "mData s = concat (map uint256_bytes hs) @ rest" and "length (mData s) < 2 ^ 31"
  shows "read_full s = (hs, b)"
  using read_full_step[OF _ assms(2,3), of 16] assms(1) branch_bits_unique[OF assms(1)]
  by (auto simp: read_full_def branch_bits_def)


text \<open>A compressed body is the list of its branches; reading it stores them one after the other.\<close>

definition put_branch :: "nat \<times> uint256 \<Rightarrow> uint256 list \<times> u32 \<Rightarrow> uint256 list \<times> u32" where
  "put_branch = (\<lambda>(j, x) (hashes, isBranch). (hashes[j := x], if x \<noteq> 0 then set_bit j isBranch else isBranch))"

definition compressed :: "(nat \<times> uint256) list \<Rightarrow> Blob" where
  "compressed ps = concat (map (\<lambda>(j, x). uint256_bytes x @ [word_of_nat j]) ps)"

lemma length_compressed: "length (compressed ps) = 33 * length ps"
  unfolding compressed_def by (rule length_chunks) auto

lemma read_compressed_steps:
  assumes ps: "\<And>j x. (j, x) \<in> set ps \<Longrightarrow> j < 16" and data: "mData s = compressed ps"
    and small: "length (mData s) < 2 ^ 31" and n: "n \<le> length ps"
  shows "forE (read_branch s) [0..<n] st = Inr (fold put_branch (take n ps) st)"
  using n
proof (induction n)
  case (Suc n)
  let ?g = "\<lambda>(j, x). uint256_bytes x @ [word_of_nat j :: u8]"
  obtain j x where jx: "ps ! n = (j, x)" by fastforce
  then have j: "j < 16" using Suc.prems ps[of j x] nth_mem[of n ps] by simp
  have d: "drop (33 * n) (mData s) = uint256_bytes x @ [word_of_nat j] @ concat (map ?g (drop (Suc n) ps))"
    using drop_chunk[of ps ?g 33 n "[]"] Suc.prems by (auto simp: data compressed_def jx)
  have d8: "drop (32 + 33 * n) (mData s) = word_of_nat j # concat (map ?g (drop (Suc n) ps))"
    using arg_cong[OF d, of "drop 32"] by (simp add: add.commute)
  have "Serializer_get8 s (32 + int n * 33) = Some (uint (word_of_nat j :: u8))"
    by (rule get8_at[OF d8 small]) simp
  moreover have "uint (word_of_nat j :: u8) = int j" using j by (simp add: unsigned_of_nat take_bit_nat_eq_self)
  moreover have "get256 s (int n * 33) u = x" for u
    by (rule get256_at[OF d small]) simp
  ultimately have "read_branch s n st' = Inr (put_branch (j, x) st')" for st'
    using j by (cases st') (simp add: read_branch_def put_branch_def)
  then show ?case using Suc jx by (simp add: forE_append take_Suc_conv_app_nth)
qed simp

lemma read_compressed_fold:
  assumes "\<And>j x. (j, x) \<in> set ps \<Longrightarrow> j < 16" and "length ps < 1000"
  shows "read_compressed \<lparr>mData = compressed ps\<rparr> = Inr (fold put_branch ps (replicate 16 0, 0))"
proof -
  have len: "length (compressed ps) = 33 * length ps" by (rule length_compressed)
  then have "getDataLength \<lparr>mData = compressed ps\<rparr> = int (33 * length ps)"
    using assms(2) by (simp add: getDataLength_def size_to_int_small)
  then have n: "nat (getDataLength \<lparr>mData = compressed ps\<rparr> sdiv 33) = length ps"
    by (cases "ps = []") (simp_all add: signed_divide_int_def sgn_if)
  show ?thesis unfolding read_compressed_def n
    using read_compressed_steps[of ps "\<lparr>mData = compressed ps\<rparr>" "length ps"] assms len by simp
qed

text \<open>Storing the branches of a list of hashes, from any state in which the others are empty.\<close>

lemma put_branches:
  assumes "\<And>j. j \<in> set js \<Longrightarrow> j < 16" and "length zs = 16"
  shows "\<exists>b'. fold put_branch (map (\<lambda>j. (j, hs ! j)) js) (zs, b) =
      (map (\<lambda>j. if j \<in> set js then hs ! j else zs ! j) [0..<16], b') \<and>
    (\<forall>i. bit b' i \<longleftrightarrow> bit b i \<or> i \<in> set js \<and> hs ! i \<noteq> 0)"
  using assms
proof (induction js arbitrary: zs b)
  case Nil
  then show ?case by (auto intro: nth_equalityI)
next
  case (Cons k js)
  let ?b = "if hs ! k \<noteq> 0 then set_bit k b else b"
  have "\<exists>b'. fold put_branch (map (\<lambda>j. (j, hs ! j)) js) (zs[k := hs ! k], ?b) =
      (map (\<lambda>j. if j \<in> set js then hs ! j else zs[k := hs ! k] ! j) [0..<16], b') \<and>
    (\<forall>i. bit b' i \<longleftrightarrow> bit ?b i \<or> i \<in> set js \<and> hs ! i \<noteq> 0)"
    using Cons.prems by (intro Cons.IH) auto
  moreover have "map (\<lambda>j. if j \<in> set js then hs ! j else zs[k := hs ! k] ! j) [0..<16] =
      map (\<lambda>j. if j \<in> set (k # js) then hs ! j else zs ! j) [0..<16]"
    using Cons.prems by (auto simp: nth_list_update)
  moreover have "bit ?b i \<longleftrightarrow> bit b i \<or> i = k \<and> hs ! i \<noteq> 0" for i
    using Cons.prems(1)[of k] by (auto simp: bit_set_bit_iff)
  ultimately show ?case by (auto simp: put_branch_def)
qed

lemma branches_back:
  assumes "branch_bits hs b"
  shows "\<exists>b'. fold put_branch (map (\<lambda>j. (j, hs ! j)) (filter (bit b) [0..<16])) (replicate 16 0, b0) = (hs, b') \<and>
    (\<forall>i. bit b' i \<longleftrightarrow> bit b0 i \<or> bit b i)"
proof -
  have e: "map (\<lambda>j. if j \<in> set (filter (bit b) [0..<16]) then hs ! j else replicate 16 0 ! j) [0..<16] = hs"
    using assms by (intro nth_equalityI) (auto simp: branch_bits_def)
  have i: "i \<in> set (filter (bit b) [0..<16]) \<and> hs ! i \<noteq> 0 \<longleftrightarrow> bit b i" for i
    using assms by (auto simp: branch_bits_def)
  have "\<exists>b'. fold put_branch (map (\<lambda>j. (j, hs ! j)) (filter (bit b) [0..<16])) (replicate 16 0, b0) =
      (map (\<lambda>j. if j \<in> set (filter (bit b) [0..<16]) then hs ! j else replicate 16 0 ! j) [0..<16], b') \<and>
    (\<forall>i. bit b' i \<longleftrightarrow> bit b0 i \<or> i \<in> set (filter (bit b) [0..<16]) \<and> hs ! i \<noteq> 0)"
    by (rule put_branches) auto
  then show ?thesis unfolding e i .
qed

lemma read_compressed_back:
  assumes "branch_bits hs b"
  shows "read_compressed \<lparr>mData = compressed (map (\<lambda>j. (j, hs ! j)) (filter (bit b) [0..<16]))\<rparr> = Inr (hs, b)"
proof -
  obtain b' where b': "fold put_branch (map (\<lambda>j. (j, hs ! j)) (filter (bit b) [0..<16])) (replicate 16 0, 0) = (hs, b')"
    "\<forall>i. bit b' i \<longleftrightarrow> bit b i" using branches_back[OF assms, of 0] by auto
  then have "b' = b" by (auto intro: bit_eqI)
  moreover have "length (map (\<lambda>j. (j, hs ! j)) (filter (bit b) [0..<16])) < 1000"
    using length_filter_le[of "bit b" "[0..<16]"] by simp
  ultimately show ?thesis using b'(1) by (subst read_compressed_fold) auto
qed

text \<open>
  A node that is fit to be written: the data of a leaf leaves room for its key in 31 bits of
  length, its key is not zero and is the hash of the data where the leaf is a transaction without
  metadata; the branch bits of an inner node are those of its hashes, and the common prefix is no
  longer than its depth says.
\<close>

fun node_ok :: "hasher \<Rightarrow> SHAMapNode \<Rightarrow> bool" where
  "node_ok h (SHAMapTreeNode seq hash ty item) \<longleftrightarrow>
     length (item_data item) + 36 < 2 ^ 31 \<and>
     (if ty = tnTRANSACTION_NM then tag item = TreeNode_hash h ty item else tag item \<noteq> 0)"
| "node_ok h (SHAMapInnerNode seq hash hashes isBranch children pre) \<longleftrightarrow>
     branch_bits hashes isBranch \<and>
     (case pre of None \<Rightarrow> True
      | Some (depth, common) \<Rightarrow> depth \<le> 64 \<and>
          drop ((depth + 1) div 2) (uint256_bytes common) = replicate (32 - (depth + 1) div 2) 0)"

text \<open>What the reader makes of a node, and the identifier a node of version 2 is read under.\<close>

fun read_back :: "hasher \<Rightarrow> u32 \<Rightarrow> uint256 \<Rightarrow> bool \<Rightarrow> SHAMapNode \<Rightarrow> SHAMapNode" where
  "read_back h seq hash hashValid (SHAMapTreeNode seq0 hash0 ty item) =
     (if hashValid then SHAMapTreeNode seq hash ty item
      else SHAMapTreeNode seq (TreeNode_hash h ty item) ty item)"
| "read_back h seq hash hashValid (SHAMapInnerNode seq0 hash0 hashes isBranch children pre) =
     (if hashValid then SHAMapInnerNode seq hash hashes isBranch (replicate 16 None) pre
      else snd (updateHash h (SHAMapInnerNode seq 0 hashes isBranch (replicate 16 None) pre)))"

fun id_ok :: "SHAMapNodeID \<Rightarrow> SHAMapNode \<Rightarrow> bool" where
  "id_ok nid (SHAMapInnerNode seq hash hashes isBranch children (Some (depth, common))) \<longleftrightarrow>
     nid = \<lparr>nid_id = common, nid_depth = depth\<rparr>"
| "id_ok nid n \<longleftrightarrow> True"

lemma make_leaf_back:
  "make_leaf h item ty seq hash hashValid =
     (if hashValid then SHAMapTreeNode seq hash ty item
      else SHAMapTreeNode seq (TreeNode_hash h ty item) ty item)"
  by (simp add: make_leaf_def SHAMapTreeNode_new_def Let_def)

lemma make_inner_back:
  "make_inner h seq hash hashValid pre (hashes, isBranch) =
     read_back h seq hash hashValid (SHAMapInnerNode seq0 hash0 hashes isBranch children pre)"
  by (simp add: make_inner_def)

lemma read_tagged_back:
  assumes "mData s = item_data item @ uint256_bytes (tag item)" and "length (item_data item) + 36 < 2 ^ 31"
    and "invalid \<noteq> None \<longrightarrow> tag item \<noteq> 0"
  shows "read_tagged short invalid s = Inr item"
proof -
  have l: "length (mData s) = length (item_data item) + 32" using assms(1) by simp
  have len: "getDataLength s = int (length (item_data item)) + 32"
    using assms(2) l by (simp add: getDataLength_def size_to_int_small)
  have "drop (length (item_data item)) (mData s) = uint256_bytes (tag item) @ []" using assms(1) by simp
  then have "get256 s (int (length (item_data item))) 0 = tag item"
    by (rule get256_at) (use assms(2) l in simp_all)
  moreover have "mData (snd (Serializer_chop 32 s)) = item_data item"
    using assms l by (simp add: Serializer_chop_def)
  ultimately show ?thesis using assms(3) len by (auto simp: read_tagged_def Let_def split: option.splits)
qed

lemma prefix_join:
  "push_bit 8 (push_bit 8 (push_bit 8 (ucast (ucast (drop_bit 24 w) :: u8)) OR ucast (ucast (drop_bit 16 w) :: u8))
     OR ucast (ucast (drop_bit 8 w) :: u8)) OR ucast (ucast w :: u8) = (w :: u32)"
proof (rule bit_word_eqI)
  fix n assume "n < LENGTH(32)"
  then consider "n < 8" | "8 \<le> n" "n < 16" | "16 \<le> n" "n < 24" | "24 \<le> n" "n < 32" by force
  then show "bit (push_bit 8 (push_bit 8 (push_bit 8 (ucast (ucast (drop_bit 24 w) :: u8)) OR ucast (ucast (drop_bit 16 w) :: u8))
     OR ucast (ucast (drop_bit 8 w) :: u8)) OR ucast (ucast w :: u8) :: u32) n = bit w n"
    by cases (auto simp: bit_simps)
qed

lemma wire_leaf_back:
  assumes "node_ok h (SHAMapTreeNode seq0 hash0 ty item)"
  shows "make_wire h (mData (TreeNode_addRaw snfWIRE hash0 ty item Serializer_empty)) seq hash hashValid nid =
    Inr (Some (read_back h seq hash hashValid (SHAMapTreeNode seq0 hash0 ty item)))"
proof (cases ty)
  case tnTRANSACTION_NM
  then have "\<lparr>tag = h (be_bytes HashPrefix_transactionID @ item_data item), item_data = item_data item\<rparr> = item"
    using assms by (simp add: TreeNode_hash_def)
  then show ?thesis using tnTRANSACTION_NM
    by (simp add: make_wire_def TreeNode_addRaw_def Let_def make_leaf_back)
next
  case tnTRANSACTION_MD
  then show ?thesis using assms read_tagged_back[of "\<lparr>mData = item_data item @ uint256_bytes (tag item)\<rparr>" item]
    by (simp add: make_wire_def TreeNode_addRaw_def Let_def make_leaf_back butlast_append)
next
  case tnACCOUNT_STATE
  then show ?thesis using assms read_tagged_back[of "\<lparr>mData = item_data item @ uint256_bytes (tag item)\<rparr>" item]
    by (simp add: make_wire_def TreeNode_addRaw_def Let_def make_leaf_back butlast_append)
qed

lemma make_prefix_bytes:
  "make_prefix h (be_bytes w @ bs) seq hash hashValid =
     (let s = \<lparr>mData = bs\<rparr> in
      if w = HashPrefix_transactionID then
        Inr (make_leaf h \<lparr>tag = h (be_bytes w @ bs), item_data = bs\<rparr> tnTRANSACTION_NM seq hash hashValid)
      else if w = HashPrefix_leafNode then
        bindE (read_tagged ''short PLN node'' (Some ''invalid PLN node'') s) (\<lambda>item.
          Inr (make_leaf h item tnACCOUNT_STATE seq hash hashValid))
      else if w = HashPrefix_innerNode \<or> w = HashPrefix_innerNodeV2 then
        let len = getDataLength s;
            isV2 = (w = HashPrefix_innerNodeV2)
        in if len < 512 \<or> (\<not> isV2 \<and> len \<noteq> 512) \<or> (isV2 \<and> len = 512)
             then Inl (RuntimeError ''invalid PIN node'')
           else if isV2 then
             bindE (read_common s) (\<lambda>pre. Inr (make_inner h seq hash hashValid (Some pre) (read_full s)))
           else Inr (make_inner h seq hash hashValid None (read_full s))
      else if w = HashPrefix_txNode then
        bindE (read_tagged ''short TXN node'' None s) (\<lambda>item.
          Inr (make_leaf h item tnTRANSACTION_MD seq hash hashValid))
      else Inl (RuntimeError ''invalid node prefix''))"
proof -
  have l: "\<not> length (be_bytes w @ bs) < 4" "drop 4 (be_bytes w @ bs) = bs"
    and n: "(be_bytes w @ bs) ! 0 = ucast (drop_bit 24 w)" "(be_bytes w @ bs) ! 1 = ucast (drop_bit 16 w)"
      "(be_bytes w @ bs) ! 2 = ucast (drop_bit 8 w)" "(be_bytes w @ bs) ! 3 = ucast w"
    by (simp_all add: be_bytes_def)
  show ?thesis unfolding make_prefix_def if_not_P[OF l(1)] Let_def n prefix_join l(2) by simp
qed


lemma HashPrefix_distinct:
  "HashPrefix_transactionID \<noteq> HashPrefix_leafNode" "HashPrefix_transactionID \<noteq> HashPrefix_innerNode"
  "HashPrefix_transactionID \<noteq> HashPrefix_innerNodeV2" "HashPrefix_transactionID \<noteq> HashPrefix_txNode"
  "HashPrefix_leafNode \<noteq> HashPrefix_innerNode" "HashPrefix_leafNode \<noteq> HashPrefix_innerNodeV2"
  "HashPrefix_leafNode \<noteq> HashPrefix_txNode" "HashPrefix_innerNode \<noteq> HashPrefix_innerNodeV2"
  "HashPrefix_innerNode \<noteq> HashPrefix_txNode" "HashPrefix_innerNodeV2 \<noteq> HashPrefix_txNode"
  by (simp_all add: HashPrefix_values)

lemmas HashPrefix_neq = HashPrefix_distinct HashPrefix_distinct[symmetric]

lemma prefix_leaf_back:
  assumes "node_ok h (SHAMapTreeNode seq0 hash0 ty item)"
  shows "make_prefix h (mData (TreeNode_addRaw snfPREFIX hash0 ty item Serializer_empty)) seq hash hashValid =
    Inr (read_back h seq hash hashValid (SHAMapTreeNode seq0 hash0 ty item))"
proof (cases ty)
  case tnTRANSACTION_NM
  then have "\<lparr>tag = h (be_bytes HashPrefix_transactionID @ item_data item), item_data = item_data item\<rparr> = item"
    using assms by (simp add: TreeNode_hash_def)
  then show ?thesis using tnTRANSACTION_NM
    by (simp add: make_prefix_bytes TreeNode_addRaw_def Let_def make_leaf_back)
next
  case tnTRANSACTION_MD
  then show ?thesis using assms read_tagged_back[of "\<lparr>mData = item_data item @ uint256_bytes (tag item)\<rparr>" item]
    by (simp add: make_prefix_bytes TreeNode_addRaw_def Let_def make_leaf_back HashPrefix_neq)
next
  case tnACCOUNT_STATE
  then show ?thesis using assms read_tagged_back[of "\<lparr>mData = item_data item @ uint256_bytes (tag item)\<rparr>" item]
    by (simp add: make_prefix_bytes TreeNode_addRaw_def Let_def make_leaf_back HashPrefix_neq)
qed

text \<open>The two wire forms of an inner node, without the byte that tells them apart.\<close>

definition wire_body :: "uint256 list \<Rightarrow> u32 \<Rightarrow> Blob" where
  "wire_body hashes isBranch =
     (if length (filter (bit isBranch) [0..<16]) < 12
      then compressed (map (\<lambda>j. (j, hashes ! j)) (filter (bit isBranch) [0..<16]))
      else concat (map uint256_bytes hashes))"

definition wire_kind :: "u32 \<Rightarrow> u8" where
  "wire_kind isBranch = (if length (filter (bit isBranch) [0..<16]) < 12 then 3 else 2)"

lemma InnerNode_wire_data:
  assumes "length hashes = 16"
  shows "mData (InnerNode_addRaw snfWIRE hash hashes isBranch Serializer_empty) =
    wire_body hashes isBranch @ [wire_kind isBranch]"
  using assms by (simp add: InnerNode_addRaw_def wire_body_def wire_kind_def mData_fold_add256
      mData_fold_branches compressed_def comp_def)

lemma length_hashes: "length (concat (map uint256_bytes xs)) = 32 * length xs"
  by (rule length_chunks) simp

lemma wire_body_back:
  assumes "branch_bits hashes isBranch"
  shows "wire_kind isBranch = 2 \<Longrightarrow> getDataLength \<lparr>mData = wire_body hashes isBranch\<rparr> = 512 \<and>
      read_full \<lparr>mData = wire_body hashes isBranch\<rparr> = (hashes, isBranch)"
    and "wire_kind isBranch = 3 \<Longrightarrow> read_compressed \<lparr>mData = wire_body hashes isBranch\<rparr> = Inr (hashes, isBranch)"
proof -
  assume "wire_kind isBranch = 2"
  then have b: "wire_body hashes isBranch = concat (map uint256_bytes hashes)"
    by (simp add: wire_kind_def wire_body_def split: if_splits)
  have "length (wire_body hashes isBranch) = 512"
    using assms unfolding b by (simp add: length_hashes branch_bits_def)
  then show "getDataLength \<lparr>mData = wire_body hashes isBranch\<rparr> = 512 \<and>
      read_full \<lparr>mData = wire_body hashes isBranch\<rparr> = (hashes, isBranch)"
    using read_full_back[OF assms, of "\<lparr>mData = wire_body hashes isBranch\<rparr>" "[]"] b
    by (simp add: getDataLength_def size_to_int_small)
next
  assume "wire_kind isBranch = 3"
  then show "read_compressed \<lparr>mData = wire_body hashes isBranch\<rparr> = Inr (hashes, isBranch)"
    using read_compressed_back[OF assms] by (simp add: wire_kind_def wire_body_def split: if_splits)
qed

lemma make_wire_kinds:
  "make_wire h (bs @ [2]) seq hash hashValid nid =
     (if getDataLength \<lparr>mData = bs\<rparr> \<noteq> 512 then Inl (RuntimeError ''invalid FI node'')
      else Inr (Some (make_inner h seq hash hashValid None (read_full \<lparr>mData = bs\<rparr>))))"
  "make_wire h (bs @ [3]) seq hash hashValid nid =
     bindE (read_compressed \<lparr>mData = bs\<rparr>) (\<lambda>r. Inr (Some (make_inner h seq hash hashValid None r)))"
  "make_wire h (bs @ [5]) seq hash hashValid nid =
     (if getDataLength \<lparr>mData = bs\<rparr> \<noteq> 512 then Inl (RuntimeError ''invalid FI node'')
      else Inr (Some (make_inner h seq hash hashValid (Some (nid_depth nid, nid_id nid)) (read_full \<lparr>mData = bs\<rparr>))))"
  "make_wire h (bs @ [6]) seq hash hashValid nid =
     bindE (read_compressed \<lparr>mData = bs\<rparr>) (\<lambda>r.
       Inr (Some (make_inner h seq hash hashValid (Some (nid_depth nid, nid_id nid)) r)))"
  by (simp_all add: make_wire_def Let_def)

lemma wire_inner_back:
  assumes "node_ok h (SHAMapInnerNode seq0 hash0 hashes isBranch children pre)"
    and "id_ok nid (SHAMapInnerNode seq0 hash0 hashes isBranch children pre)"
  shows "make_wire h (mData (addRaw snfWIRE (SHAMapInnerNode seq0 hash0 hashes isBranch children pre) Serializer_empty))
      seq hash hashValid nid =
    Inr (Some (read_back h seq hash hashValid (SHAMapInnerNode seq0 hash0 hashes isBranch children pre)))"
proof -
  have bits: "branch_bits hashes isBranch" and len: "length hashes = 16"
    using assms by (auto simp: branch_bits_def)
  have k: "wire_kind isBranch = 2 \<or> wire_kind isBranch = 3" by (simp add: wire_kind_def)
  note rb = wire_body_back[OF bits] make_inner_back[of h seq hash hashValid _ hashes isBranch seq0 hash0 children]
  show ?thesis
  proof (cases pre)
    case None
    then show ?thesis using k rb
      by (auto simp: InnerNode_wire_data[OF len] make_wire_kinds)
  next
    case (Some p)
    obtain depth common where p: "p = (depth, common)" by fastforce
    have "mData (InnerNodeV2_addRaw snfWIRE hash0 hashes isBranch depth common Serializer_empty) =
        wire_body hashes isBranch @ [wire_kind isBranch + 3]"
      by (simp add: InnerNodeV2_addRaw_def Let_def InnerNode_wire_data[OF len])
    then show ?thesis using k rb assms(2) unfolding Some p
      by (auto simp: make_wire_kinds)
  qed
qed


lemma read_common_back:
  assumes "depth \<le> 64" and "drop ((depth + 1) div 2) (uint256_bytes common) = replicate (32 - (depth + 1) div 2) 0"
    and "mData s = bs @ [word_of_nat depth] @ map (\<lambda>i. uint256_bytes common ! i) [0..<(depth + 1) div 2]"
    and "length bs = 512"
  shows "read_common s = Inr (depth, common)"
proof -
  define n where "n = (depth + 1) div 2"
  have n: "n \<le> 32" using assms(1) by (simp add: n_def)
  have data: "mData s = bs @ [word_of_nat depth] @ take n (uint256_bytes common)"
    using assms(3) n by (simp add: n_def take_map map_nth uint256_bytes_def)
  have len: "length (mData s) = 513 + n" using assms(4) n by (simp add: data)
  have "Serializer_get8 s 512 = Some (uint (word_of_nat depth :: u8))"
    by (rule get8_at[of 512 _ _ "take n (uint256_bytes common)"]) (use len n in \<open>simp_all add: data assms(4)\<close>)
  then have d: "Serializer_get8 s 512 = Some (int depth)"
    using assms(1) by (simp add: unsigned_of_nat take_bit_nat_eq_self)
  have "Serializer_get8 s (512 + 1 + int i) = Some (uint (uint256_bytes common ! i))" if "i < n" for i
  proof -
    have "drop (513 + i) (mData s) = uint256_bytes common ! i # drop (Suc i) (take n (uint256_bytes common))"
      using assms(4) that n Cons_nth_drop_Suc[of i "take n (uint256_bytes common)"] by (simp add: data)
    then show ?thesis by (rule get8_at) (use len n in simp_all)
  qed
  then have "map (\<lambda>i. case Serializer_get8 s (512 + 1 + int i) of None \<Rightarrow> 0 | Some b \<Rightarrow> word_of_int b) [0..<n] =
      take n (uint256_bytes common)"
    using n by (intro nth_equalityI) simp_all
  moreover have "take n (uint256_bytes common) @ replicate (32 - n) 0 = uint256_bytes common"
    using assms(2) unfolding n_def by (metis append_take_drop_id)
  moreover have "getDataLength s = 512 + 1 + int n" using len n by (simp add: getDataLength_def size_to_int_small)
  moreover have "Suc depth div 2 = n" by (simp add: n_def)
  ultimately show ?thesis using n by (simp add: read_common_def Let_def d)
qed

lemma prefix_inner_back:
  assumes "node_ok h (SHAMapInnerNode seq0 hash0 hashes isBranch children pre)"
  shows "make_prefix h (mData (addRaw snfPREFIX (SHAMapInnerNode seq0 hash0 hashes isBranch children pre) Serializer_empty))
      seq hash hashValid =
    Inr (read_back h seq hash hashValid (SHAMapInnerNode seq0 hash0 hashes isBranch children pre))"
proof -
  have bits: "branch_bits hashes isBranch" and len: "length hashes = 16"
    using assms by (auto simp: branch_bits_def)
  have l: "length (concat (map uint256_bytes hashes)) = 512" by (simp add: length_hashes len)
  note rb = make_inner_back[of h seq hash hashValid _ hashes isBranch seq0 hash0 children]
  show ?thesis
  proof (cases pre)
    case None
    then show ?thesis using l read_full_back[OF bits, of "\<lparr>mData = concat (map uint256_bytes hashes)\<rparr>" "[]"]
      by (simp add: InnerNode_addRaw_def mData_fold_add256 make_prefix_bytes HashPrefix_neq Let_def
          getDataLength_def size_to_int_small rb)
  next
    case (Some p)
    obtain depth common where p: "p = (depth, common)" by fastforce
    let ?c = "map (\<lambda>i. uint256_bytes common ! i) [0..<(depth + 1) div 2]"
    let ?s = "\<lparr>mData = concat (map uint256_bytes hashes) @ [word_of_nat depth] @ ?c\<rparr>"
    have d: "depth \<le> 64" "drop ((depth + 1) div 2) (uint256_bytes common) = replicate (32 - (depth + 1) div 2) 0"
      using assms unfolding Some p by simp_all
    have "fold (\<lambda>i. add256 (hashes ! i)) [0..<16] s = fold add256 hashes s" for s
      using fold_map[of add256 "\<lambda>i. hashes ! i" "[0..<16]"] map_nth[of hashes] len by (simp add: comp_def)
    then have "mData (InnerNodeV2_addRaw snfPREFIX hash0 hashes isBranch depth common Serializer_empty) =
        be_bytes HashPrefix_innerNodeV2 @ mData ?s"
      by (simp add: InnerNodeV2_addRaw_def mData_fold_bytes mData_fold_add256)
    moreover have "read_common ?s = Inr (depth, common)" by (rule read_common_back[OF d _ l]) simp
    moreover have "length (mData ?s) = 513 + (depth + 1) div 2" using l by simp
    moreover have "read_full ?s = (hashes, isBranch)"
      by (rule read_full_back[OF bits]) (use l d in simp_all)
    ultimately show ?thesis using d unfolding Some p
      by (simp add: make_prefix_bytes HashPrefix_neq Let_def getDataLength_def size_to_int_small rb)
  qed
qed

text \<open>
  C22: A node survives serialization in both forms.  A node that is fit to be written, serialized in the
  compact form used between peers or in the prefixed form that is hashed and stored, is read back as
  a node with the same item, or the same branch hashes, branch bits and common prefix, and with the
  hash given to the reader or, if none is given, the hash of the node.
\<close>

theorem SHAMapNode_roundtrip:
  assumes "node_ok h n" and "format \<noteq> snfHASH" and "format = snfWIRE \<longrightarrow> id_ok nid n"
  shows "SHAMapAbstractNode_make h (mData (addRaw format n Serializer_empty)) seq format hash hashValid nid =
    Inr (Some (read_back h seq hash hashValid n))"
  using assms wire_leaf_back prefix_leaf_back wire_inner_back prefix_inner_back
  by (cases n; cases format) (simp_all add: SHAMapAbstractNode_make_def)


text \<open>An inner node with one branch, and a stand-in for the hash function.\<close>

definition example_hash :: hasher where
  "example_hash bs = word_of_nat (Suc (length bs))"

definition honest_inner :: SHAMapNode where
  "honest_inner = SHAMapInnerNode 1 0 ([7] @ replicate 15 0) 1 (replicate 16 None) None"

lemma honest_bits: "branch_bits ([7] @ replicate 15 0) 1"
proof -
  have "bit (1 :: u32) i \<longleftrightarrow> i = 0" for i by (simp add: bit_1_iff)
  moreover have "([7] @ replicate 15 (0 :: uint256)) ! i \<noteq> 0 \<longleftrightarrow> i = 0" if "i < 16" for i
    using that by (cases i) auto
  ultimately show ?thesis by (auto simp: branch_bits_def)
qed

theorem SHAMapNode_roundtrip_witness:
  "node_ok example_hash honest_inner \<and>
   SHAMapAbstractNode_make example_hash (mData (addRaw snfWIRE honest_inner Serializer_empty)) 3 snfWIRE 0 False root_id =
     Inr (Some (read_back example_hash 3 0 False honest_inner))"
  using SHAMapNode_roundtrip[of example_hash honest_inner snfWIRE root_id] honest_bits
  by (simp add: honest_inner_def)

text \<open>
  C37: The hash of an inner node does not bind its branch bits when the node is read from the compact
  form.  Sixty-six bytes in front of the form of an honest node, giving an empty branch a hash and
  then taking the hash away, are accepted: the node that is read has the hash of the honest node, but
  claims a child in that branch, with the hash zero that no node has.
\<close>

theorem compressed_inner_malleable:
  fixes hashes isBranch seq0 hash0 children
  defines "n \<equiv> SHAMapInnerNode seq0 hash0 hashes isBranch children None"
  assumes "branch_bits hashes isBranch" and "isBranch \<noteq> 0" and "getBranchCount n < 12"
    and "j < 16" and "isEmptyBranch n j" and "x \<noteq> 0"
  shows "\<exists>n'. SHAMapAbstractNode_make h
      (uint256_bytes x @ [word_of_nat j] @ uint256_bytes 0 @ [word_of_nat j] @ mData (addRaw snfWIRE n Serializer_empty))
      seq snfWIRE 0 False nid = Inr (Some n') \<and>
    mHash n' = mHash (read_back h seq 0 False n) \<and> \<not> isEmptyBranch n' j \<and> mHashes n' ! j = 0"
proof -
  let ?js = "filter (bit isBranch) [0..<16]"
  let ?ps = "[(j, x), (j, 0)] @ map (\<lambda>j. (j, hashes ! j)) ?js"
  have few: "length ?js < 12" using assms(4) by (simp add: n_def getBranchCount_def isEmptyBranch_def)
  have len: "length hashes = 16" using assms(2) by (simp add: branch_bits_def)
  have zero: "hashes ! j = 0" using assms(2,5,6) by (auto simp: n_def isEmptyBranch_def branch_bits_def)
  have bytes: "uint256_bytes x @ [word_of_nat j] @ uint256_bytes 0 @ [word_of_nat j] @ mData (addRaw snfWIRE n Serializer_empty) =
      compressed ?ps @ [3]"
    using few by (simp add: n_def InnerNode_wire_data[OF len] wire_body_def wire_kind_def compressed_def)
  obtain b where b: "fold put_branch (map (\<lambda>j. (j, hashes ! j)) ?js) (replicate 16 0, set_bit j 0) = (hashes, b)"
    "\<forall>i. bit b i \<longleftrightarrow> bit (set_bit j 0 :: u32) i \<or> bit isBranch i"
    using branches_back[OF assms(2), of "set_bit j 0"] by auto
  have "(replicate 16 0)[j := x, j := 0] = replicate 16 (0 :: uint256)"
    using assms(5) by (intro nth_equalityI) (auto simp: nth_list_update)
  then have "fold put_branch ?ps (replicate 16 0, 0) = (hashes, b)"
    using b(1) assms(7) by (simp add: put_branch_def)
  then have "read_compressed \<lparr>mData = compressed ?ps\<rparr> = Inr (hashes, b)"
    using few assms(5) by (subst read_compressed_fold) auto
  then have "SHAMapAbstractNode_make h (compressed ?ps @ [3]) seq snfWIRE 0 False nid =
      Inr (Some (SHAMapInnerNode seq (InnerNode_hash h hashes b) hashes b (replicate 16 None) None))"
    by (simp add: SHAMapAbstractNode_make_def make_wire_kinds make_inner_def Let_def)
  moreover have "bit b j" using b(2) assms(5) by (simp add: bit_exp_iff)
  moreover from this have "b \<noteq> 0" by auto
  ultimately show ?thesis using assms(3) zero unfolding bytes
    by (simp add: n_def isEmptyBranch_def InnerNode_hash_def Let_def)
qed

theorem compressed_inner_malleable_witness:
  "isEmptyBranch honest_inner 5 \<and>
   (\<exists>n'. SHAMapAbstractNode_make example_hash
      (uint256_bytes 9 @ [5] @ uint256_bytes 0 @ [5] @ mData (addRaw snfWIRE honest_inner Serializer_empty))
      1 snfWIRE 0 False root_id = Inr (Some n') \<and>
    mHash n' = mHash (read_back example_hash 1 0 False honest_inner) \<and> \<not> isEmptyBranch n' 5 \<and> mHashes n' ! 5 = 0)"
proof -
  have c: "getBranchCount honest_inner < 12" "isEmptyBranch honest_inner 5" by code_simp+
  show ?thesis
    using compressed_inner_malleable[OF honest_bits _ c(1)[unfolded honest_inner_def] _ c(2)[unfolded honest_inner_def],
        of 9 example_hash 1 root_id] c(2)
    by (simp add: honest_inner_def)
qed

lemma read_tagged_error: "read_tagged short invalid s \<noteq> Inl OutOfBounds"
  by (simp add: read_tagged_def Let_def split: option.split)

lemma forE_error: "(\<And>x s. f x s \<noteq> Inl e) \<Longrightarrow> forE f xs s \<noteq> Inl e"
  by (induction xs arbitrary: s) (auto simp: bindE_eq_Inl)

lemma read_compressed_error: "read_compressed s \<noteq> Inl OutOfBounds"
  unfolding read_compressed_def
  by (rule forE_error) (auto simp: read_branch_def Let_def split: option.split prod.split)

lemma make_wire_error: "make_wire h raw seq hash hashValid nid \<noteq> Inl OutOfBounds"
  using read_tagged_error read_compressed_error
  by (auto simp: make_wire_def Let_def bindE_eq_Inl)

lemma be_bytes_split:
  assumes "4 \<le> length raw"
  obtains w where "raw = be_bytes w @ drop 4 raw"
proof -
  obtain a b c d bs where raw: "raw = a # b # c # d # bs"
    using assms by (auto simp: Suc_le_length_iff numeral_eq_Suc)
  let ?w = "word_cat (word_cat a b :: u16) (word_cat c d :: u16) :: u32"
  have "be_bytes ?w = [a, b, c, d]"
    by (auto simp: be_bytes_def bit_simps bit_word_cat_iff intro!: bit_word_eqI)
  then show ?thesis using that[of ?w] raw by simp
qed

lemma be_bytes_inj: "be_bytes v = be_bytes w \<longleftrightarrow> v = w"
proof
  assume e: "be_bytes v = be_bytes w"
  have "v = push_bit 8 (push_bit 8 (push_bit 8 (ucast (be_bytes v ! 0)) OR ucast (be_bytes v ! 1))
     OR ucast (be_bytes v ! 2)) OR ucast (be_bytes v ! 3)" for v :: u32
    using prefix_join[of v] by (simp add: be_bytes_def)
  from this[of v] this[of w] show "v = w" unfolding e by simp
qed simp

lemma read_common_error:
  assumes "length (mData s) < 2 ^ 31" and "length (mData s) > 512"
  shows "read_common s = Inl OutOfBounds \<longleftrightarrow>
    unat (mData s ! 512) > 64 \<and> length (mData s) = 513 + (unat (mData s ! 512) + 1) div 2"
proof -
  have "Serializer_get8 s 512 = Some (uint (mData s ! 512))"
    using assms by (simp add: Serializer_get8_def)
  moreover have "nat (uint (mData s ! 512)) = unat (mData s ! 512)" by simp
  moreover have "getDataLength s = int (length (mData s))"
    using assms by (simp add: getDataLength_def size_to_int_small)
  ultimately show ?thesis by (auto simp: read_common_def Let_def)
qed

text \<open>
  C36: Reading a node writes outside its memory exactly on the prefixed forms of version 2 inner nodes that
  announce a depth above 64, the length of a key, with as many prefix bytes as that depth asks for:
  the reader checks the length of the form against the depth, but not the depth, and copies the
  prefix into 32 bytes.
\<close>

theorem SHAMapNode_make_overflow:
  assumes "length raw < 2 ^ 31"
  shows "SHAMapAbstractNode_make h raw seq format hash hashValid nid = Inl OutOfBounds \<longleftrightarrow>
    format = snfPREFIX \<and> length raw > 516 \<and> take 4 raw = be_bytes HashPrefix_innerNodeV2 \<and>
    unat (raw ! 516) > 64 \<and> length raw = 517 + (unat (raw ! 516) + 1) div 2"
proof (cases "format = snfPREFIX \<and> 4 \<le> length raw")
  case False
  then show ?thesis using make_wire_error
    by (cases format) (auto simp: SHAMapAbstractNode_make_def make_prefix_def)
next
  case True
  then obtain w where raw: "raw = be_bytes w @ drop 4 raw" by (blast elim: be_bytes_split)
  define bs where "bs = drop 4 raw"
  have l: "length (be_bytes w) = 4" by (simp add: be_bytes_def)
  have r: "length raw = 4 + length bs" "take 4 raw = be_bytes w" "512 < length bs \<Longrightarrow> raw ! 516 = bs ! 512"
    using l by (subst raw; simp add: bs_def[symmetric] nth_append)+
  have "make_prefix h (be_bytes w @ bs) seq hash hashValid = Inl OutOfBounds \<longleftrightarrow>
      w = HashPrefix_innerNodeV2 \<and> 512 < length bs \<and> read_common \<lparr>mData = bs\<rparr> = Inl OutOfBounds"
    using assms r(1) read_tagged_error
    by (auto simp: make_prefix_bytes Let_def bindE_eq_Inl HashPrefix_neq getDataLength_def size_to_int_small)
  then show ?thesis using True raw r assms read_common_error[of "\<lparr>mData = bs\<rparr>"]
    by (auto simp: SHAMapAbstractNode_make_def be_bytes_inj bindE_eq_Inl bs_def[symmetric])
qed


theorem SHAMapNode_make_overflow_witness:
  "SHAMapAbstractNode_make example_hash
     (be_bytes HashPrefix_innerNodeV2 @ replicate 512 0 @ [65] @ replicate 33 0) 1 snfPREFIX 0 False root_id =
   Inl OutOfBounds"
proof -
  let ?raw = "be_bytes HashPrefix_innerNodeV2 @ replicate 512 0 @ [65] @ replicate 33 (0 :: u8)"
  have l: "length (be_bytes HashPrefix_innerNodeV2) = 4" by (simp add: be_bytes_def)
  then have "length ?raw < 2 ^ 31" "?raw ! 516 = 65" "length ?raw = 550"
    "take 4 ?raw = be_bytes HashPrefix_innerNodeV2" by (simp_all add: nth_append)
  then show ?thesis using SHAMapNode_make_overflow[of ?raw example_hash 1 snfPREFIX 0 False root_id] by simp
qed

end
