(* ===== verification/SHAMapHash.thy ===== *)
theory SHAMapHash
  imports SHAMapIter SHAMapWire
begin

text \<open>
  The hash of a \<open>SHAMap\<close>: flushing brings the cached hashes up to date, the hash is a function of
  the items alone, and a hash without collisions tells maps with different items apart.
\<close>

section \<open>Flushing brings the hashes up to date\<close>

definition child_hashes :: "hasher \<Rightarrow> SHAMapNode \<Rightarrow> uint256 list" where
  "child_hashes h n = map (\<lambda>i. case getChild n i of None \<Rightarrow> 0 | Some c \<Rightarrow> merkle h c) [0..<16]"

definition inner_hash :: "hasher \<Rightarrow> uint256 list \<Rightarrow> u32 \<Rightarrow> (nat \<times> uint256) option \<Rightarrow> uint256" where
  "inner_hash h hashes isBranch pre =
     (case pre of
        None \<Rightarrow> InnerNode_hash h hashes isBranch
      | Some (depth, common) \<Rightarrow> InnerNodeV2_hash h hashes isBranch depth common)"

lemma merkle_inner: "isInner n \<Longrightarrow> merkle h n = inner_hash h (child_hashes h n) (mIsBranch n) (mPrefix n)"
  by (subst merkle.simps) (simp add: Let_def child_hashes_def inner_hash_def)

lemma merkle_leaf: "isLeaf n \<Longrightarrow> merkle h n = TreeNode_hash h (mType n) (mItem n)"
  by (simp add: merkle.simps)

text \<open>Trees with the same items, the same hash and the same shape: only their caches may differ.\<close>

definition alike :: "hasher \<Rightarrow> SHAMapNode \<Rightarrow> SHAMapNode \<Rightarrow> bool" where
  "alike h n n' \<longleftrightarrow> isLeaf n' = isLeaf n \<and> entries n' = entries n \<and> merkle h n' = merkle h n \<and>
     (\<forall>v2 rt d P. wf_node v2 rt d P n' = wf_node v2 rt d P n)"

lemma alike_refl: "alike h n n"
  by (simp add: alike_def)

lemma alike_inner:
  assumes "inner_shape n" and "inner_shape n'" and "mPrefix n' = mPrefix n" and "mIsBranch n' = mIsBranch n"
    and ch: "\<And>i. i < 16 \<Longrightarrow> rel_option (alike h) (getChild n i) (getChild n' i)"
  shows "alike h n n'"
proof -
  have inner: "isInner n" "isInner n'" using assms(1,2) by (simp_all add: inner_shape_inner)
  have slots: "slot n' i = slot n i" if "i < 16" for i
    using ch[OF that] by (cases "getChild n i"; cases "getChild n' i") (auto simp: slot_def alike_def)
  then have ent: "entries n' = entries n" unfolding entries_inner[OF inner(1)] entries_inner[OF inner(2)]
    by (intro arg_cong[of _ _ concat] map_cong) auto
  have "child_hashes h n' = child_hashes h n"
    unfolding child_hashes_def using ch by (fastforce simp: alike_def elim: option.rel_cases)
  then have "merkle h n' = merkle h n" using inner assms(3,4) by (simp add: merkle_inner)
  moreover have "wf_node v2 rt d P n' = wf_node v2 rt d P n" for v2 rt d P
  proof -
    have m: "merged v2 n' = merged v2 n" using ent assms(4) by (simp add: merged_def getBranchCount_def isEmptyBranch_def)
    have "(\<forall>i c. i < 16 \<and> getChild n' i = Some c \<longrightarrow> wf_node v2 False a (b i) c) \<longleftrightarrow>
        (\<forall>i c. i < 16 \<and> getChild n i = Some c \<longrightarrow> wf_node v2 False a (b i) c)" for a b
    proof -
      have "(\<forall>c. getChild n' i = Some c \<longrightarrow> wf_node v2 False a (b i) c) \<longleftrightarrow>
          (\<forall>c. getChild n i = Some c \<longrightarrow> wf_node v2 False a (b i) c)" if "i < 16" for i
        using ch[OF that] by (cases "getChild n i"; cases "getChild n' i") (auto simp: alike_def)
      then show ?thesis by blast
    qed
    then show ?thesis using assms(1-3) m unfolding wf_inner[OF inner(1)] wf_inner[OF inner(2)]
      by (simp add: inner_depth_def inner_path_def)
  qed
  ultimately show ?thesis using inner ent by (simp add: alike_def)
qed

text \<open>Sharing a number of children.\<close>

lemma share_fold:
  assumes "inner_shape n" and "\<forall>i < 16. rs ! i \<noteq> None \<longrightarrow> getChild n i \<noteq> None" and "k \<le> 16"
  defines "n' \<equiv> fold (\<lambda>pos node. case rs ! pos of None \<Rightarrow> node | Some (child, _) \<Rightarrow> shareChild pos child node) [0..<k] n"
  shows "inner_shape n' \<and> mPrefix n' = mPrefix n \<and> mIsBranch n' = mIsBranch n \<and> mHashes n' = mHashes n \<and> mSeq n' = mSeq n \<and>
    (\<forall>i. getChild n' i = (if i < k then (case rs ! i of None \<Rightarrow> getChild n i | Some (c, _) \<Rightarrow> Some c) else getChild n i))"
  unfolding n'_def using assms(3)
proof (induction k)
  case 0
  then show ?case using assms(1) by simp
next
  case (Suc k)
  define f where "f = fold (\<lambda>pos node. case rs ! pos of None \<Rightarrow> node | Some (child, _) \<Rightarrow> shareChild pos child node) [0..<k] n"
  have IH: "inner_shape f" "mPrefix f = mPrefix n" "mIsBranch f = mIsBranch n" "mHashes f = mHashes n" "mSeq f = mSeq n"
    "\<And>i. getChild f i = (if i < k then (case rs ! i of None \<Rightarrow> getChild n i | Some (c, _) \<Rightarrow> Some c) else getChild n i)"
    using Suc by (simp_all add: f_def)
  show ?case
  proof (cases "rs ! k")
    case None
    then show ?thesis using IH by (simp add: f_def[symmetric] less_Suc_eq)
  next
    case (Some p)
    have k: "k < 16" "getChild f k \<noteq> None" using Suc.prems assms(2) Some IH(6) by simp_all
    obtain seq hash hashes isBranch children pre where f: "f = SHAMapInnerNode seq hash hashes isBranch children pre"
      using IH(1) by (cases f) auto
    have "inner_shape (shareChild k (fst p) f)" using IH(1) k unfolding f by (auto simp: nth_list_update)
    moreover have "getChild (shareChild k (fst p) f) i = (if i = k then Some (fst p) else getChild f i)" for i
      using IH(1) k unfolding f by auto
    moreover have "mPrefix (shareChild k (fst p) f) = mPrefix f \<and> mIsBranch (shareChild k (fst p) f) = mIsBranch f \<and>
        mHashes (shareChild k (fst p) f) = mHashes f \<and> mSeq (shareChild k (fst p) f) = mSeq f" unfolding f by simp
    ultimately show ?thesis using Some IH by (simp add: f_def[symmetric] split_beta less_Suc_eq)
  qed
qed

text \<open>The hash of an inner node whose children have theirs.\<close>

lemma updateHashDeep_merkle:
  assumes shape: "inner_shape n" and "\<And>i. i < 16 \<Longrightarrow> isEmptyBranch n i \<Longrightarrow> mHashes n ! i = 0"
    and "\<And>i c. i < 16 \<Longrightarrow> getChild n i = Some c \<Longrightarrow> mHash c = merkle h c"
  defines "n' \<equiv> updateHashDeep h n"
  shows "inner_shape n'" and "mPrefix n' = mPrefix n" and "mIsBranch n' = mIsBranch n" and "mSeq n' = mSeq n"
    and "getChild n' i = getChild n i" and "mHash n' = merkle h n" and "i < 16 \<Longrightarrow> isEmptyBranch n i \<Longrightarrow> mHashes n' ! i = 0"
proof -
  obtain seq hash hashes isBranch children pre where n: "n = SHAMapInnerNode seq hash hashes isBranch children pre"
    using shape by (cases n) auto
  define hs where "hs = child_hashes h n"
  have hs: "map (\<lambda>pos. case children ! pos of Some c \<Rightarrow> mHash c | None \<Rightarrow> hashes ! pos) [0..<16] = hs"
    unfolding hs_def child_hashes_def
  proof (rule map_cong[OF refl])
    fix i :: nat assume "i \<in> set [0..<16]"
    then show "(case children ! i of Some c \<Rightarrow> mHash c | None \<Rightarrow> hashes ! i) = (case getChild n i of None \<Rightarrow> 0 | Some c \<Rightarrow> merkle h c)"
      using assms(2)[of i] assms(3)[of i] isEmptyBranch_child[OF shape, of i] shape
      by (cases "children ! i") (auto simp: n)
  qed
  have n': "n' = SHAMapInnerNode seq (merkle h n) hs isBranch children pre"
    using merkle_inner[of n h] hs by (cases pre) (auto simp: n'_def n inner_hash_def hs_def Let_def simp del: upt_rec_numeral)
  show "inner_shape n'" using shape unfolding n n' by (simp add: hs_def child_hashes_def)
  show "mPrefix n' = mPrefix n" "mIsBranch n' = mIsBranch n" "mSeq n' = mSeq n" "getChild n' i = getChild n i"
    "mHash n' = merkle h n" unfolding n' by (simp_all add: n)
  show "mHashes n' ! i = 0" if "i < 16" "isEmptyBranch n i"
    using that isEmptyBranch_child[OF shape that(1)] by (simp add: n' hs_def child_hashes_def)
qed

lemma setSeq_simps [simp]:
  "isLeaf (setSeq s n) = isLeaf n" "getChild (setSeq s n) i = getChild n i" "inner_shape (setSeq s n) = inner_shape n"
  "mHash (setSeq s n) = mHash n" "mSeq (setSeq s n) = s" "isInner n \<Longrightarrow> mPrefix (setSeq s n) = mPrefix n"
  "isInner n \<Longrightarrow> mIsBranch (setSeq s n) = mIsBranch n" "isInner n \<Longrightarrow> mHashes (setSeq s n) = mHashes n"
  "isLeaf n \<Longrightarrow> mItem (setSeq s n) = mItem n" "isLeaf n \<Longrightarrow> mType (setSeq s n) = mType n"
  by (cases n; simp)+

lemma cached_shared: "cached h n \<Longrightarrow> mSeq n = 0 \<Longrightarrow> mHash n = merkle h n"
  by (cases "isLeaf n") (auto simp: cached_leaf cached_inner merkle_leaf)

definition flush_ok :: "hasher \<Rightarrow> SHAMapNode \<Rightarrow> SHAMapNode \<Rightarrow> bool" where
  "flush_ok h n n' \<longleftrightarrow> alike h n n' \<and> cached h n' \<and> mSeq n' = 0 \<and> (isInner n \<longrightarrow> mPrefix n' = mPrefix n)"

text \<open>The nodes stored are stored under the hash of their bytes.\<close>

definition addressed :: "hasher \<Rightarrow> (uint256 \<times> Blob) list \<Rightarrow> bool" where
  "addressed h ws \<longleftrightarrow> (\<forall>(k, b) \<in> set ws. k = h b)"

lemma leaf_addressed: "TreeNode_hash h ty item = h (mData (TreeNode_addRaw snfPREFIX hash ty item Serializer_empty))"
  by (simp add: TreeNode_hash_def TreeNode_addRaw_def Serializer_empty_def split: TNType.split)

lemma inner_addressed:
  assumes "isInner n" and "mIsBranch n \<noteq> 0"
  shows "inner_hash h (mHashes n) (mIsBranch n) (mPrefix n) = h (mData (addRaw snfPREFIX n Serializer_empty))"
proof (cases n)
  case (SHAMapInnerNode seq hash hashes isBranch children pre)
  then show ?thesis using assms(2)
    by (cases pre) (auto simp: inner_hash_def InnerNode_hash_def InnerNodeV2_hash_def InnerNode_addRaw_def
      InnerNodeV2_addRaw_def mData_fold_add256 Serializer_empty_def)
qed (use assms in simp)

lemma flush_leaf:
  assumes "isLeaf n" and "cached h n"
  shows "flush_ok h n (fst (flushNode h seq n))" and "addressed h (snd (flushNode h seq n))"
proof -
  obtain s hash ty item where n: "n = SHAMapTreeNode s hash ty item" using assms(1) by (cases n) auto
  have f: "flushNode h seq n = (SHAMapTreeNode 0 hash ty item, [(hash, mData (TreeNode_addRaw snfPREFIX hash ty item Serializer_empty))])"
    using assms(2) by (simp add: flushNode.simps flushed_node_def n preFlushNode_def cached_leaf Let_def)
  show "flush_ok h n (fst (flushNode h seq n))"
    using assms(2) unfolding f by (simp add: flush_ok_def alike_def n wf_leaf cached_leaf merkle_leaf)
  show "addressed h (snd (flushNode h seq n))"
    using assms(2) unfolding f by (simp add: addressed_def n cached_leaf flip: leaf_addressed)
qed

lemma merged_branch: "inner_shape n \<Longrightarrow> entries n \<noteq> [] \<Longrightarrow> mIsBranch n \<noteq> 0"
proof
  assume n: "inner_shape n" "entries n \<noteq> []" and "mIsBranch n = 0"
  then have "getChild n i = None" if "i < 16" for i using that isEmptyBranch_child[OF n(1) that] by (simp add: isEmptyBranch_def)
  then have "entries n = []" unfolding entries_inner[OF inner_shape_inner[OF n(1)]] by simp
  then show False using n by simp
qed

text \<open>The children that are flushed first, and the node they are put into.\<close>

definition flush_child :: "hasher \<Rightarrow> u32 \<Rightarrow> SHAMapNode \<Rightarrow> nat \<Rightarrow> (SHAMapNode \<times> (uint256 \<times> Blob) list) option" where
  "flush_child h seq n pos =
     (if isEmptyBranch n pos then None
      else (case getChild n pos of
          None \<Rightarrow> None
        | Some child \<Rightarrow> if mSeq child \<noteq> 0 then Some (flushNode h seq child) else None))"

definition flush_share :: "hasher \<Rightarrow> u32 \<Rightarrow> SHAMapNode \<Rightarrow> SHAMapNode" where
  "flush_share h seq n = fold (\<lambda>pos node.
     case map (flush_child h seq n) [0..<16] ! pos of None \<Rightarrow> node | Some (child, _) \<Rightarrow> shareChild pos child node)
     [0..<16] (preFlushNode seq n)"

lemma flushNode_inner:
  "isInner n \<Longrightarrow> flushNode h seq n =
     (let (n', own) = flushed_node (updateHashDeep h (flush_share h seq n))
      in (n', concat (map (\<lambda>r. case r of None \<Rightarrow> [] | Some (_, written) \<Rightarrow> written) (map (flush_child h seq n) [0..<16])) @ own))"
  unfolding flush_share_def flush_child_def[abs_def] by (subst flushNode.simps) (simp only: if_False Let_def)

lemma flush_share_node:
  fixes h seq
  assumes "inner_shape n"
  defines "s \<equiv> flush_share h seq n"
  shows "inner_shape s" and "mPrefix s = mPrefix n" and "mIsBranch s = mIsBranch n" and "mHashes s = mHashes n"
    and "i < 16 \<Longrightarrow> getChild s i = (case flush_child h seq n i of None \<Rightarrow> getChild n i | Some (c, _) \<Rightarrow> Some c)"
proof -
  have inner: "isInner n" by (rule inner_shape_inner[OF assms(1)])
  let ?rs = "map (flush_child h seq n) [0..<16]"
  have pre: "preFlushNode seq n = unshareNode seq n" by (simp add: preFlushNode_def unshareNode_def)
  have rs: "?rs ! i = flush_child h seq n i" if "i < 16" for i using that by simp
  have "getChild (unshareNode seq n) i \<noteq> None" if "i < 16" "?rs ! i \<noteq> None" for i
    using that unfolding rs[OF that(1)] by (auto simp: flush_child_def split: option.splits if_splits)
  then have some: "\<forall>i < 16. ?rs ! i \<noteq> None \<longrightarrow> getChild (unshareNode seq n) i \<noteq> None" by blast
  have shape: "inner_shape (unshareNode seq n)" using assms(1) by simp
  have s: "s = fold (\<lambda>pos node. case ?rs ! pos of None \<Rightarrow> node | Some (child, _) \<Rightarrow> shareChild pos child node) [0..<16]
      (unshareNode seq n)" by (simp only: s_def flush_share_def pre)
  note f = share_fold[OF shape some order_refl, folded s]
  show "inner_shape s" using f by blast
  show "mPrefix s = mPrefix n" "mIsBranch s = mIsBranch n" "mHashes s = mHashes n"
    using f inner by simp_all
  show "getChild s i = (case flush_child h seq n i of None \<Rightarrow> getChild n i | Some (c, _) \<Rightarrow> Some c)" if "i < 16"
    using f that rs[OF that] by (simp cong: option.case_cong)
qed

lemma flush_share_child:
  assumes wf: "wf_node v2 rt d P n" and inner: "isInner n" and ca: "cached h n" and i: "i < 16"
    and sub: "\<And>c. getChild n i = Some c \<Longrightarrow> flush_ok h c (fst (flushNode h seq c))"
  shows "rel_option (\<lambda>c c'. alike h c c' \<and> cached h c' \<and> mSeq c' = 0) (getChild n i) (getChild (flush_share h seq n) i)"
proof -
  note D = wf_innerD[OF wf inner]
  show ?thesis
  proof (cases "getChild n i")
    case None
    then show ?thesis using flush_share_node(5)[OF D(1) i] by (simp add: flush_child_def split: if_splits)
  next
    case (Some c)
    then have "\<not> isEmptyBranch n i" using isEmptyBranch_child[OF D(1) i] by simp
    then show ?thesis using flush_share_node(5)[OF D(1) i] Some sub[OF Some] cached_child[OF ca inner i Some]
      by (cases "flushNode h seq c") (auto simp: flush_child_def flush_ok_def alike_refl)
  qed
qed

lemma flush_inner:
  assumes wf: "wf_node v2 rt d P n" and inner: "isInner n" and ca: "cached h n" and ne: "entries n \<noteq> []"
    and sub: "\<And>i c. i < 16 \<Longrightarrow> getChild n i = Some c \<Longrightarrow>
      flush_ok h c (fst (flushNode h seq c)) \<and> addressed h (snd (flushNode h seq c))"
  shows "flush_ok h n (fst (flushNode h seq n)) \<and> addressed h (snd (flushNode h seq n))"
proof -
  note D = wf_innerD[OF wf inner]
  let ?s = "flush_share h seq n"
  let ?u = "updateHashDeep h ?s"
  note s = flush_share_node[OF D(1), where h = h and seq = seq]
  note child = flush_share_child[OF wf inner ca, of _ seq]
  have rel: "rel_option (\<lambda>c c'. alike h c c' \<and> cached h c' \<and> mSeq c' = 0) (getChild n i) (getChild ?s i)" if "i < 16" for i
    by (rule child[OF that]) (use sub that in blast)
  have empty: "mHashes ?s ! i = 0" if "i < 16" "isEmptyBranch ?s i" for i
    using that ca inner s(3,4) by (simp add: cached_inner isEmptyBranch_def)
  have c': "cached h c \<and> mSeq c = 0" if "i < 16" "getChild ?s i = Some c" for i c
    using rel[OF that(1)] that(2) by (auto elim: option.rel_cases)
  then have hash: "mHash c = merkle h c" if "i < 16" "getChild ?s i = Some c" for i c
    using that cached_shared by blast
  note u = updateHashDeep_merkle[OF s(1) empty hash]
  have innerS: "isInner ?u" using inner_shape_inner[OF u(1)] .
  have rel': "rel_option (alike h) (getChild n i) (getChild ?s i)" if "i < 16" for i
    using rel[OF that] by (rule option.rel_mono_strong) simp
  have al: "alike h n ?s" by (rule alike_inner[OF D(1) s(1,2,3) rel'])
  have alu: "alike h n (setSeq 0 ?u)"
  proof (rule alike_inner[OF D(1)])
    show "rel_option (alike h) (getChild n i) (getChild (setSeq 0 ?u) i)" if "i < 16" for i
      using rel'[OF that] u(5) by simp
  qed (use u innerS s in simp_all)
  have "cached h (setSeq 0 ?u)"
  proof -
    have "mHash ?u = merkle h (setSeq 0 ?u)" using alu al u(6) by (simp add: alike_def)
    moreover have "isEmptyBranch (setSeq 0 ?u) i = isEmptyBranch ?s i" for i using innerS u(3) by (simp add: isEmptyBranch_def)
    ultimately show ?thesis using innerS u(5,7) c' by (subst cached_inner) auto
  qed
  then have ok: "flush_ok h n (setSeq 0 ?u)" using alu innerS u(2) s(2) by (simp add: flush_ok_def)
  have branch: "mIsBranch ?u \<noteq> 0" using merged_branch[OF D(1) ne] u(3) s(3) by simp
  have "mHash ?u = inner_hash h (mHashes ?u) (mIsBranch ?u) (mPrefix ?u)"
    using innerS by (cases ?s; cases "mPrefix ?s") (auto simp: inner_hash_def Let_def)
  then have own: "mHash ?u = h (mData (addRaw snfPREFIX ?u Serializer_empty))" using inner_addressed[OF innerS branch] by simp
  have "addressed h (case flush_child h seq n i of None \<Rightarrow> [] | Some (_, ws) \<Rightarrow> ws)" if "i < 16" for i
    using sub[OF that] by (auto simp: flush_child_def addressed_def case_prod_beta split: option.splits)
      (metis fst_conv snd_conv)
  then have "addressed h (snd (flushNode h seq n))"
    using own by (auto simp: flushNode_inner[OF inner] flushed_node_def addressed_def simp del: upt_rec_numeral)
  then show ?thesis using ok by (simp add: flushNode_inner[OF inner] flushed_node_def)
qed

lemma flush_node:
  "wf_node v2 rt d P n \<Longrightarrow> cached h n \<Longrightarrow> entries n \<noteq> [] \<Longrightarrow>
     flush_ok h n (fst (flushNode h seq n)) \<and> addressed h (snd (flushNode h seq n))"
proof (induction "size n" arbitrary: rt d P n rule: less_induct)
  case (less n rt d P)
  show ?case
  proof (cases "isLeaf n")
    case True
    then show ?thesis using flush_leaf less.prems(2) by blast
  next
    case False
    show ?thesis
    proof (rule flush_inner[OF less.prems(1) False less.prems(2,3)])
      fix i c assume c: "i < 16" "getChild n i = Some c"
      note wfc = wf_innerD(4)[OF less.prems(1) False c(2,1)]
      have "entries c \<noteq> []" using wf_nonempty[OF wfc] by auto
      then show "flush_ok h c (fst (flushNode h seq c)) \<and> addressed h (snd (flushNode h seq c))"
        by (rule less.hyps[OF getChild_size[OF c(2)] wfc cached_child[OF less.prems(2) False c]])
    qed
  qed
qed

section \<open>The hash of a map\<close>

lemma merkle_empty: "isInner n \<Longrightarrow> mIsBranch n = 0 \<Longrightarrow> merkle h n = 0"
  by (auto simp: merkle_inner inner_hash_def InnerNode_hash_def InnerNodeV2_hash_def split: option.splits)

lemma cached_fresh: "cached h (fresh seq pre)"
  using merkle_empty[of "fresh seq pre" h] by (auto simp: cached_inner) (auto simp: fresh_def)

lemma branch_entries:
  assumes "wf_node v2 rt d P n" and "isInner n"
  shows "entries n = [] \<longleftrightarrow> mIsBranch n = 0"
proof
  assume e: "entries n = []"
  note D = wf_innerD[OF assms]
  have "\<not> bit (mIsBranch n) i" for i
  proof
    assume "bit (mIsBranch n) i"
    then obtain c where c: "getChild n i = Some c" "i < 16" using D(1) by (cases n) auto
    then have "set (entries c) \<subseteq> set (entries n)" using entries_split[OF assms(2) c(2)] by simp
    then show False using e wf_nonempty[OF D(4)[OF c]] by simp
  qed
  then show "mIsBranch n = 0" by (auto intro: bit_eqI)
qed (use merged_branch[OF wf_innerD(1)[OF assms]] in blast)

lemma prefix_zero: "prefix 0 c = 0"
proof -
  have "uint256_of_bytes (replicate 32 0) = 0" by code_simp
  then show ?thesis by (simp add: prefix_def)
qed

text \<open>The new root of an empty map.\<close>

lemma empty_root:
  assumes "sham_ok m"
  shows "(if is_v2 m then SHAMapInnerNodeV2_new 0 0 else SHAMapInnerNode_new 0) = fresh 0 (mPrefix (sm_root m))"
proof -
  have inner: "isInner (sm_root m)" by (rule sham_ok_inner[OF assms])
  have "prefix_ok (is_v2 m) 0 0 (mPrefix (sm_root m))" "inner_depth 0 (sm_root m) = 0"
    using assms wf_innerD(2)[OF _ inner] by (auto simp: sham_ok_def)
  then have "mPrefix (sm_root m) = (if is_v2 m then Some (0, 0) else None)"
    by (auto simp: prefix_ok_def inner_depth_def prefix_zero split: option.splits if_splits)
  then show ?thesis by (simp add: fresh_def SHAMapInnerNodeV2_new_def SHAMapInnerNode_new_def)
qed

lemma walkSubTree_inv:
  assumes inv: "sham_inv h ty m" and w: "walkSubTree h doWrite m = (flushed, m', written)"
  shows "sham_inv h ty m' \<and> content m' = content m \<and> is_v2 m' = is_v2 m \<and> sm_seq m' = sm_seq m \<and>
    merkle h (sm_root m') = merkle h (sm_root m) \<and> mSeq (sm_root m') = 0 \<and> addressed h written"
proof -
  note ok = sham_invD[OF inv] and inner = sham_ok_inner[OF sham_invD(1)[OF inv]]
  have root: "wf_node (is_v2 m) True 0 0 (sm_root m)" using ok(1) by (simp add: sham_ok_def)
  consider "mSeq (sm_root m) = 0" | "mSeq (sm_root m) \<noteq> 0" "mIsBranch (sm_root m) = 0"
    | "mSeq (sm_root m) \<noteq> 0" "mIsBranch (sm_root m) \<noteq> 0" by blast
  then show ?thesis
  proof cases
    case 1
    then show ?thesis using w inv by (auto simp: walkSubTree_def addressed_def)
  next
    case 2
    let ?n = "fresh 0 (mPrefix (sm_root m))"
    have m': "m' = m\<lparr>sm_root := ?n\<rparr>" "written = []"
      using w 2 inner empty_root[OF ok(1)] by (auto simp: walkSubTree_def isEmptyInner_def)
    have "wf_node (is_v2 m) True 0 0 ?n" using wf_fresh wf_innerD(2)[OF root inner] by blast
    from new_root[OF inv this cached_fresh] have "sham_inv h ty m' \<and> is_v2 m' = is_v2 m"
      by (simp add: m' one_type_def)
    moreover have "content m = []" using branch_entries[OF root inner] 2 by simp
    moreover have "merkle h ?n = merkle h (sm_root m)" using merkle_empty[OF inner 2(2)] merkle_empty[of ?n h] by (simp add: fresh_def)
    ultimately show ?thesis by (simp add: m' addressed_def)
  next
    case 3
    let ?f = "flushNode h (sm_seq m) (sm_root m)"
    have m': "m' = m\<lparr>sm_root := fst ?f\<rparr>" "written = (if doWrite \<and> sm_backed m then snd ?f else [])"
      using w 3 inner by (auto simp: walkSubTree_def isEmptyInner_def split: prod.splits)
    have "entries (sm_root m) \<noteq> []" using branch_entries[OF root inner] 3 by simp
    then have f: "flush_ok h (sm_root m) (fst ?f)" "addressed h (snd ?f)" using flush_node[OF root ok(2)] by blast+
    then have g: "wf_node (is_v2 m) True 0 0 (fst ?f)" "cached h (fst ?f)" "mPrefix (fst ?f) = mPrefix (sm_root m)"
      "one_type ty (fst ?f)" using root inner ok(3) by (simp_all add: flush_ok_def alike_def one_type_def)
    show ?thesis using new_root[OF inv g] f by (auto simp: m' flush_ok_def alike_def addressed_def)
  qed
qed

lemma getHash_inv:
  assumes inv: "sham_inv h ty m" and g: "getHash h m = (hash, m')"
  shows "hash = merkle h (sm_root m) \<and> sham_inv h ty m' \<and> content m' = content m \<and> is_v2 m' = is_v2 m \<and> sm_seq m' = sm_seq m"
proof (cases "mHash (sm_root m) = 0")
  case True
  obtain f w where w: "walkSubTree h False m = (f, m', w)" "hash = mHash (sm_root m')"
    using g True by (cases "walkSubTree h False m") (auto simp: getHash_def unshare_def Let_def)
  note f = walkSubTree_inv[OF inv w(1)]
  then have "mHash (sm_root m') = merkle h (sm_root m')" using cached_shared[OF sham_invD(2)] by blast
  then show ?thesis using f w(2) by simp
next
  case False
  then have "mHash (sm_root m) = merkle h (sm_root m)"
    using sham_invD(1,2)[OF inv] sham_ok_inner by (auto simp: cached_inner)
  then show ?thesis using g False inv by (auto simp: getHash_def)
qed

lemma snapShot_inv:
  assumes inv: "sham_inv h ty m" and "sm_seq m + 1 \<noteq> 0"
  shows "sham_inv h ty (snapShot h isMutable m) \<and> content (snapShot h isMutable m) = content m \<and>
    is_v2 (snapShot h isMutable m) = is_v2 m \<and> merkle h (sm_root (snapShot h isMutable m)) = merkle h (sm_root m)"
proof -
  let ?n = "\<lparr>sm_seq = sm_seq m + 1, sm_root = sm_root m,
      sm_state = (if isMutable then Modifying else Immutable), sm_backed = sm_backed m\<rparr>"
  have inv': "sham_inv h ty ?n" using inv assms(2) by (simp add: sham_inv_def sham_ok_def is_v2_def)
  obtain f m' w where w: "walkSubTree h False ?n = (f, m', w)" by (cases "walkSubTree h False ?n") auto
  have "snapShot h isMutable m = m' \<or> snapShot h isMutable m = ?n"
    by (simp add: snapShot_def Let_def unshare_def w)
  then show ?thesis using walkSubTree_inv[OF inv' w] inv' by (auto simp: is_v2_def)
qed

section \<open>The items determine the hash\<close>

lemma slot_filter:
  assumes "wf_node v2 rt d P n" and "isInner n" and i: "i < 16"
  shows "slot n i = filter (\<lambda>x. digit (inner_depth d n) (fst x) = i) (entries n)"
proof -
  have f: "filter (\<lambda>x. digit (inner_depth d n) (fst x) = i) (slot n j) = (if j = i then slot n i else [])" if "j < 16" for j
    using wf_slot_keys(2)[OF assms(1,2) that] by (auto simp: filter_id_conv filter_empty_conv)
  have none: "filter (\<lambda>x. digit (inner_depth d n) (fst x) = i) (concat (map (slot n) js)) = []" if "\<forall>j \<in> set js. j < 16 \<and> j \<noteq> i" for js
    using that f by (induction js) auto
  have "filter (\<lambda>x. digit (inner_depth d n) (fst x) = i) (concat (map (slot n) [0..<i])) = []"
    "filter (\<lambda>x. digit (inner_depth d n) (fst x) = i) (concat (map (slot n) [Suc i..<16])) = []"
    using none[of "[0..<i]"] none[of "[Suc i..<16]"] i by simp_all
  then show ?thesis unfolding entries_inner[OF assms(2)] upt_split[OF i] using f[OF i] by simp
qed

text \<open>Below the root, an inner node of version 2 is where its keys part.\<close>

lemma keys_digits:
  assumes "wf_node v2 rt d P n" and "isInner n" and "k \<in> keys n"
  shows "digits (inner_depth d n) k = inner_path P n"
  using wf_slot_keys(1)[OF assms(1,2), of _ k] assms by (auto simp: entries_inner_set)

lemma keys_part:
  assumes wf: "wf_node True False d P n" and inner: "isInner n"
  obtains k1 k2 where "k1 \<in> keys n" and "k2 \<in> keys n" and "digit (inner_depth d n) k1 \<noteq> digit (inner_depth d n) k2"
proof -
  note D = wf_innerD[OF wf inner]
  have "2 \<le> length (filter (\<lambda>i. getChild n i \<noteq> None) [0..<16])"
    using D(3) getBranchCount_filter[OF D(1)] by (simp add: merged_def)
  then obtain i j js where f: "filter (\<lambda>i. getChild n i \<noteq> None) [0..<16] = i # j # js"
    by (metis One_nat_def Suc_1 Suc_le_length_iff)
  moreover have "distinct (filter (\<lambda>i. getChild n i \<noteq> None) [0..<16])" by simp
  ultimately have ij: "i \<noteq> j" by simp
  have "i \<in> set (i # j # js)" "j \<in> set (i # j # js)" by simp_all
  then obtain c1 c2 where c: "getChild n i = Some c1" "i < 16" "getChild n j = Some c2" "j < 16"
    unfolding f[symmetric] by auto
  obtain k1 k2 where k: "k1 \<in> keys c1" "k2 \<in> keys c2"
    using wf_nonempty[OF D(4)[OF c(1,2)]] wf_nonempty[OF D(4)[OF c(3,4)]]
    by (cases "entries c1"; cases "entries c2") auto
  have "k1 \<in> keys n" "k2 \<in> keys n"
    using k entries_split[OF inner c(2)] entries_split[OF inner c(4)] c by auto
  moreover have "digit (inner_depth d n) k1 = i" "digit (inner_depth d n) k2 = j"
    using wf_slot_keys(2)[OF wf inner] c k by auto
  ultimately show ?thesis using that ij by blast
qed

lemma depth_le:
  assumes "wf_node True False d P n" and "isInner n" and "wf_node True rt d P n'" and "isInner n'" and "entries n = entries n'"
  shows "inner_depth d n' \<le> inner_depth d n"
proof (rule ccontr)
  assume lt: "\<not> inner_depth d n' \<le> inner_depth d n"
  obtain k1 k2 where k: "k1 \<in> keys n" "k2 \<in> keys n" "digit (inner_depth d n) k1 \<noteq> digit (inner_depth d n) k2"
    using keys_part[OF assms(1,2)] .
  have e: "inner_depth d n' < 64" using inner_depth_bounds(2)[OF wf_innerD(2)[OF assms(3,4)]] .
  have "digits (inner_depth d n') k1 = digits (inner_depth d n') k2"
    using keys_digits[OF assms(3,4)] k assms(5) by simp
  then have "digits (Suc (inner_depth d n)) k1 = digits (Suc (inner_depth d n)) k2"
    by (rule digits_down) (use lt e in simp_all)
  then show False using digits_digit k(3) by blast
qed

lemma prefix_unique:
  assumes wf: "wf_node v2 False d P n" "wf_node v2 False d P n'" and inner: "isInner n" "isInner n'" and ent: "entries n = entries n'"
  shows "mPrefix n = mPrefix n'"
proof (cases v2)
  case True
  obtain e c e' c' where pre: "mPrefix n = Some (e, c)" "mPrefix n' = Some (e', c')" "prefix e c = c" "prefix e' c' = c'" "e < 64"
    using wf_innerD(2)[OF wf(1) inner(1)] wf_innerD(2)[OF wf(2) inner(2)] True
    by (auto simp: prefix_ok_def split: option.splits)
  have "inner_depth d n = inner_depth d n'"
    using depth_le[of d P n False n'] depth_le[of d P n' False n] assms True by simp
  then have e: "e' = e" using pre by (simp add: inner_depth_def)
  obtain k where k: "k \<in> keys n" using wf_nonempty[OF wf(1)] by (cases "entries n") auto
  then have "digits e c = digits e c'"
    using keys_digits[OF wf(1) inner(1) k] keys_digits[OF wf(2) inner(2), of k] ent pre e
    by (simp add: inner_depth_def inner_path_def)
  then show ?thesis using pre e prefix_cong[of e c c'] by simp
next
  case False
  then show ?thesis using prefix_v1[OF wf_innerD(2)[OF wf(1) inner(1)]] prefix_v1[OF wf_innerD(2)[OF wf(2) inner(2)]] by simp
qed

lemma branch_children: "inner_shape n \<Longrightarrow> bit (mIsBranch n) i \<longleftrightarrow> i < 16 \<and> getChild n i \<noteq> None"
  by (cases n) auto

lemma merkle_determined:
  "wf_node v2 rt d P n \<Longrightarrow> wf_node v2 rt d P n' \<Longrightarrow> entries n = entries n' \<Longrightarrow> rt \<longrightarrow> mPrefix n = mPrefix n' \<Longrightarrow>
     merkle h n = merkle h n'"
proof (induction "size n" arbitrary: rt d P n n' rule: less_induct)
  case (less n rt d P n')
  note wf = less.prems(1,2) and ent = less.prems(3)
  show ?case
  proof (cases "isLeaf n \<or> isLeaf n'")
    case True
    have one: "length (entries x) = 1 \<longleftrightarrow> isLeaf x" if "wf_node v2 False d P x" for x
      using wf_innerD(3)[OF that] by (cases "isLeaf x") (auto simp: merged_def)
    have "\<not> rt" using True wf by (auto simp: wf_leaf)
    then have leaf: "isLeaf n" "isLeaf n'" using True one[of n] one[of n'] wf ent by auto
    then have "mType n = mType n'" "mItem n = mItem n'" using ent by (auto intro: SHAMapItem.equality)
    then show ?thesis using leaf by (simp add: merkle_leaf)
  next
    case False
    then have inner: "isInner n" "isInner n'" by auto
    note D = wf_innerD[OF wf(1) inner(1)] and D' = wf_innerD[OF wf(2) inner(2)]
    have pre: "mPrefix n = mPrefix n'" using prefix_unique[of v2 d P n n'] wf inner ent less.prems(4) by (cases rt) auto
    then have pos: "inner_depth d n' = inner_depth d n" "inner_path P n' = inner_path P n" by (simp_all add: inner_depth_def inner_path_def)
    have slot: "slot n i = slot n' i" if "i < 16" for i
      using slot_filter[OF wf(1) inner(1) that] slot_filter[OF wf(2) inner(2) that] ent pos by simp
    have none: "getChild n i = None \<longleftrightarrow> getChild n' i = None" if "i < 16" for i
      using slot[OF that] wf_nonempty[OF D(4)[OF _ that]] wf_nonempty[OF D'(4)[OF _ that]]
      by (cases "getChild n i"; cases "getChild n' i") auto
    have "merkle h c = merkle h c'" if "i < 16" "getChild n i = Some c" "getChild n' i = Some c'" for i c c'
      by (rule less.hyps[OF getChild_size[OF that(2)] D(4)[OF that(2,1)]])
        (use D'(4)[OF that(3,1)] pos slot[OF that(1)] that in simp_all)
    then have "(case getChild n i of None \<Rightarrow> 0 | Some c \<Rightarrow> merkle h c) = (case getChild n' i of None \<Rightarrow> 0 | Some c \<Rightarrow> merkle h c)"
      if "i < 16" for i using none[OF that] that by (cases "getChild n i"; cases "getChild n' i") simp_all
    then have "child_hashes h n = child_hashes h n'" unfolding child_hashes_def by (intro map_cong) simp_all
    moreover have "mIsBranch n = mIsBranch n'"
      by (rule bit_eqI) (use none branch_children[OF D(1)] branch_children[OF D'(1)] in blast)
    ultimately show ?thesis using inner pre by (simp add: merkle_inner)
  qed
qed

section \<open>The hash determines the items\<close>

definition inner_bytes :: "uint256 list \<Rightarrow> (nat \<times> uint256) option \<Rightarrow> Blob" where
  "inner_bytes hashes pre =
     (case pre of
        None \<Rightarrow> be_bytes HashPrefix_innerNode @ concat (map uint256_bytes hashes)
      | Some (depth, common) \<Rightarrow>
          be_bytes HashPrefix_innerNodeV2 @ concat (map uint256_bytes hashes) @
          word_of_nat depth # map ((!) (uint256_bytes common)) [0..<(depth + 1) div 2])"

lemma inner_hash_bytes:
  assumes "length hashes = 16"
  shows "inner_hash h hashes isBranch pre = (if isBranch \<noteq> 0 then h (inner_bytes hashes pre) else 0)"
proof -
  have idx: "fold (\<lambda>i. add256 (hashes ! i)) [0..<16] s = fold add256 hashes s" for s
  proof -
    have "fold add256 hashes s = fold add256 (map ((!) hashes) [0..<16]) s" using map_nth[of hashes] assms by simp
    then show ?thesis unfolding fold_map comp_def by simp
  qed
  show ?thesis
    by (simp add: inner_hash_def inner_bytes_def InnerNode_hash_def InnerNodeV2_hash_def InnerNodeV2_addRaw_def idx
      mData_fold_bytes mData_fold_add256 Serializer_empty_def split: option.split del: upt_rec_numeral)
qed

text \<open>All the byte strings that the hash of a tree is computed from.\<close>

function hashed :: "hasher \<Rightarrow> SHAMapNode \<Rightarrow> Blob list" where
  "hashed h n =
     (if isLeaf n then [leaf_bytes (mType n) (mItem n)]
      else inner_bytes (child_hashes h n) (mPrefix n) #
        concat (map (\<lambda>i. case getChild n i of None \<Rightarrow> [] | Some c \<Rightarrow> hashed h c) [0..<16]))"
  by pat_completeness auto
termination
  by (relation "measure (\<lambda>(_, n). size n)") (auto dest: getChild_size)

declare hashed.simps [simp del]

lemma hashed_child: "isInner n \<Longrightarrow> i < 16 \<Longrightarrow> getChild n i = Some c \<Longrightarrow> set (hashed h c) \<subseteq> set (hashed h n)"
  by (subst hashed.simps[of _ n]) force

definition own_bytes :: "hasher \<Rightarrow> SHAMapNode \<Rightarrow> Blob" where
  "own_bytes h n = hd (hashed h n)"

lemma own_bytes_in: "own_bytes h n \<in> set (hashed h n)"
proof -
  have "hashed h n \<noteq> []" by (subst hashed.simps) simp
  then show ?thesis by (simp add: own_bytes_def)
qed

lemma own_bytes_leaf: "isLeaf n \<Longrightarrow> own_bytes h n = leaf_bytes (mType n) (mItem n)"
  by (simp add: own_bytes_def hashed.simps)

lemma own_bytes_inner: "isInner n \<Longrightarrow> own_bytes h n = inner_bytes (child_hashes h n) (mPrefix n)"
  by (simp add: own_bytes_def hashed.simps)

lemma merkle_bytes:
  assumes "wf_node v2 rt d P n" and "entries n \<noteq> []"
  shows "merkle h n = h (own_bytes h n)"
proof (cases "isLeaf n")
  case True
  then show ?thesis by (simp add: merkle_leaf own_bytes_leaf TreeNode_hash_bytes)
next
  case False
  have "mIsBranch n \<noteq> 0" using branch_entries[OF assms(1) False] assms(2) by simp
  then show ?thesis using False
    by (simp add: merkle_inner own_bytes_inner inner_hash_bytes child_hashes_def del: upt_rec_numeral)
qed

text \<open>Different nodes give different bytes.\<close>

lemma be_prefixes:
  "be_bytes HashPrefix_transactionID = [0x54, 0x58, 0x4E, 0]" "be_bytes HashPrefix_txNode = [0x53, 0x4E, 0x44, 0]"
  "be_bytes HashPrefix_leafNode = [0x4D, 0x4C, 0x4E, 0]" "be_bytes HashPrefix_innerNode = [0x4D, 0x49, 0x4E, 0]"
  "be_bytes HashPrefix_innerNodeV2 = [0x49, 0x4E, 0x52, 0]"
  by code_simp+

lemma leaf_bytes_inj:
  assumes "leaf_bytes ty a = leaf_bytes ty' b"
  shows "ty = ty'" and "item_data a = item_data b" and "ty \<noteq> tnTRANSACTION_NM \<Longrightarrow> tag a = tag b"
  using assms by (auto simp: leaf_bytes_def be_prefixes split: TNType.splits)

lemma leaf_inner_bytes: "leaf_bytes ty a \<noteq> inner_bytes hashes pre"
  by (auto simp: leaf_bytes_def inner_bytes_def be_prefixes split: TNType.splits option.splits)

lemma concat_bytes_inj:
  "length xs = length ys \<Longrightarrow> concat (map uint256_bytes xs) @ us = concat (map uint256_bytes ys) @ vs \<Longrightarrow> xs = ys"
  by (induction xs ys rule: list_induct2) auto

lemma inner_bytes_inj:
  assumes "inner_bytes xs pre = inner_bytes ys pre'" and "length xs = length ys"
  shows "xs = ys"
  using assms concat_bytes_inj[OF assms(2)] concat_bytes_inj[OF assms(2), of "[]" "[]"]
  by (auto simp: inner_bytes_def be_prefixes split: option.splits)

text \<open>
  A hash without collisions, on the byte strings of two trees, and none of whose values is zero.  The
  key of a leaf without metadata is not among its bytes: it is the hash of the leaf.
\<close>

definition collision_free :: "hasher \<Rightarrow> Blob list \<Rightarrow> bool" where
  "collision_free h bs \<longleftrightarrow> (\<forall>x \<in> set bs. h x \<noteq> 0 \<and> (\<forall>y \<in> set bs. h x = h y \<longrightarrow> x = y))"

definition hash_keyed :: "hasher \<Rightarrow> SHAMapNode \<Rightarrow> bool" where
  "hash_keyed h n \<longleftrightarrow> (\<forall>(k, ty, b) \<in> set (entries n).
     ty = tnTRANSACTION_NM \<longrightarrow> k = TreeNode_hash h ty \<lparr>tag = k, item_data = b\<rparr>)"

lemma hash_keyed_child: "hash_keyed h n \<Longrightarrow> isInner n \<Longrightarrow> i < 16 \<Longrightarrow> getChild n i = Some c \<Longrightarrow> hash_keyed h c"
  unfolding hash_keyed_def by (subst (asm) entries_split[of n i]) auto

lemma collision_free_mono: "collision_free h bs \<Longrightarrow> set cs \<subseteq> set bs \<Longrightarrow> collision_free h cs"
  by (auto simp: collision_free_def subset_iff)

lemma leaf_determined:
  assumes "isLeaf n" and "isLeaf n'" and "hash_keyed h n" and "hash_keyed h n'"
    and "leaf_bytes (mType n) (mItem n) = leaf_bytes (mType n') (mItem n')"
  shows "entries n = entries n'"
proof -
  note inj = leaf_bytes_inj[OF assms(5)]
  have "tag (mItem n) = tag (mItem n')"
  proof (cases "mType n = tnTRANSACTION_NM")
    case True
    have k: "tag (mItem x) = h (leaf_bytes (mType x) (mItem x))" if "hash_keyed h x" "isLeaf x" "mType x = tnTRANSACTION_NM" for x
      using that by (simp add: hash_keyed_def TreeNode_hash_bytes leaf_bytes_def)
    show ?thesis using k[of n] k[of n'] assms True inj(1) by simp
  qed (use inj(3) in simp)
  then show ?thesis using assms(1,2) inj by simp
qed

lemma merkle_zero:
  assumes "wf_node v2 rt d P n" and "collision_free h bs" and "set (hashed h n) \<subseteq> set bs"
  shows "merkle h n = 0 \<longleftrightarrow> entries n = []"
proof (cases "entries n = []")
  case True
  then have "isInner n" by (cases "isLeaf n") auto
  then show ?thesis using True merkle_empty branch_entries[OF assms(1)] by simp
next
  case False
  have "h (own_bytes h n) \<noteq> 0" using assms(2,3) own_bytes_in[of h n] unfolding collision_free_def by blast
  then show ?thesis using False merkle_bytes[OF assms(1)] by simp
qed

lemma own_bytes_kind: "own_bytes h n = own_bytes h n' \<Longrightarrow> isLeaf n = isLeaf n'"
  using leaf_inner_bytes leaf_inner_bytes[symmetric]
  by (cases "isLeaf n"; cases "isLeaf n'") (simp_all add: own_bytes_leaf own_bytes_inner)

lemma child_hashes_determined:
  assumes "own_bytes h n = own_bytes h n'" and "isInner n" and "isInner n'" and "i < 16"
  shows "(case getChild n i of None \<Rightarrow> 0 | Some c \<Rightarrow> merkle h c) = (case getChild n' i of None \<Rightarrow> 0 | Some c \<Rightarrow> merkle h c)"
proof -
  have "child_hashes h n = child_hashes h n'"
    by (rule inner_bytes_inj) (use assms(1-3) in \<open>simp_all add: own_bytes_inner child_hashes_def del: upt_rec_numeral\<close>)
  then show ?thesis using assms(4) unfolding child_hashes_def map_eq_conv by simp
qed

lemma own_bytes_determined:
  assumes "collision_free h (hashed h n @ hashed h n')" and "h (own_bytes h n) = h (own_bytes h n')"
  shows "own_bytes h n = own_bytes h n'"
  using assms own_bytes_in[of h n] own_bytes_in[of h n'] unfolding collision_free_def by (metis UnCI set_append)

lemma items_determined:
  "wf_node v2 rt d P n \<Longrightarrow> wf_node v2' rt' d' P' n' \<Longrightarrow> hash_keyed h n \<Longrightarrow> hash_keyed h n' \<Longrightarrow>
     collision_free h (hashed h n @ hashed h n') \<Longrightarrow> merkle h n = merkle h n' \<Longrightarrow> entries n = entries n'"
proof (induction "size n" arbitrary: rt d P n rt' d' P' n' rule: less_induct)
  case (less n rt d P rt' d' P' n')
  note wf = less.prems(1,2) and free = less.prems(5)
  note empty = merkle_zero[OF _ free]
  show ?case
  proof (cases "entries n = [] \<or> entries n' = []")
    case True
    then show ?thesis using empty[OF wf(1)] empty[OF wf(2)] less.prems(6) by auto
  next
    case False
    then have bytes: "own_bytes h n = own_bytes h n'"
      using less.prems(6) merkle_bytes[OF wf(1)] merkle_bytes[OF wf(2)] by (intro own_bytes_determined[OF free]) simp
    show ?thesis
    proof (cases "isLeaf n")
      case True
      then have leaf: "isLeaf n'" using own_bytes_kind[OF bytes] by simp
      show ?thesis by (rule leaf_determined[OF True leaf less.prems(3,4)]) (use bytes True leaf in \<open>simp add: own_bytes_leaf\<close>)
    next
      case leaf: False
      then have inner: "isInner n" "isInner n'" using own_bytes_kind[OF bytes] by auto
      note D = wf_innerD(4)[OF wf(1) inner(1)] and D' = wf_innerD(4)[OF wf(2) inner(2)]
      note hash = child_hashes_determined[OF bytes inner]
      have "slot n i = slot n' i" if i: "i < 16" for i
      proof (cases "getChild n i")
        case None
        show ?thesis
        proof (cases "getChild n' i")
          case (Some c')
          have "set (hashed h c') \<subseteq> set (hashed h n @ hashed h n')" using hashed_child[OF inner(2) i Some] by auto
          then show ?thesis using empty[OF D'[OF Some i]] hash[OF i] None Some by simp
        qed (simp add: None)
      next
        case (Some c)
        have sub: "set (hashed h c) \<subseteq> set (hashed h n @ hashed h n')" using hashed_child[OF inner(1) i Some] by auto
        show ?thesis
        proof (cases "getChild n' i")
          case None
          then show ?thesis using empty[OF D[OF Some i] sub] hash[OF i] Some by simp
        next
          case Some': (Some c')
          have "collision_free h (hashed h c @ hashed h c')"
            by (rule collision_free_mono[OF free]) (use sub hashed_child[OF inner(2) i Some'] in auto)
          moreover have "merkle h c = merkle h c'" using hash[OF i] Some Some' by simp
          ultimately have "entries c = entries c'"
            by (rule less.hyps[OF getChild_size[OF Some] D[OF Some i] D'[OF Some' i]
              hash_keyed_child[OF less.prems(3) inner(1) i Some] hash_keyed_child[OF less.prems(4) inner(2) i Some']])
          then show ?thesis using Some Some' by simp
        qed
      qed
      then show ?thesis unfolding entries_inner[OF inner(1)] entries_inner[OF inner(2)]
        by (intro arg_cong[of _ _ concat] map_cong) simp_all
    qed
  qed
qed

end
