(* ===== verification/SHAMapSpec.thy ===== *)
theory SHAMapSpec
  imports SHAMapHash
begin

text \<open>
  What a \<open>SHAMap\<close> promises: sequences of operations refine the same sequences on an ordered map of
  items, lookups and iterators see that map, and the hash is a fingerprint of it.
\<close>

section \<open>Sequences of operations\<close>

fun run_ops :: "('op \<Rightarrow> 's \<Rightarrow> (bool \<times> 's) res) \<Rightarrow> 'op list \<Rightarrow> 's \<Rightarrow> (bool list \<times> 's) res" where
  "run_ops step [] s = Inr ([], s)"
| "run_ops step (op # ops) s =
     bindE (step op s) (\<lambda>(b, s). bindE (run_ops step ops s) (\<lambda>(bs, s). Inr (b # bs, s)))"

fun run_abs :: "('op \<Rightarrow> 'a \<Rightarrow> bool \<times> 'a) \<Rightarrow> 'op list \<Rightarrow> 'a \<Rightarrow> bool list \<times> 'a" where
  "run_abs step [] a = ([], a)"
| "run_abs step (op # ops) a =
     (let (b, a) = step op a; (bs, a) = run_abs step ops a in (b # bs, a))"

fun ready_ops :: "('op \<Rightarrow> 'a \<Rightarrow> bool) \<Rightarrow> ('op \<Rightarrow> 'a \<Rightarrow> bool \<times> 'a) \<Rightarrow> 'op list \<Rightarrow> 'a \<Rightarrow> bool" where
  "ready_ops ready step [] a \<longleftrightarrow> True"
| "ready_ops ready step (op # ops) a \<longleftrightarrow> ready op a \<and> ready_ops ready step ops (snd (step op a))"

text \<open>
  A store whose operations refine operations on what it stands for, where they are \<open>ready\<close>: they
  return, with the same answer, and keep the invariant.
\<close>

locale op_store =
  fixes step :: "'op \<Rightarrow> 's \<Rightarrow> (bool \<times> 's) res" and abs_step :: "'op \<Rightarrow> 'a \<Rightarrow> bool \<times> 'a"
    and inv :: "'s \<Rightarrow> bool" and abs :: "'s \<Rightarrow> 'a" and ready :: "'op \<Rightarrow> 'a \<Rightarrow> bool"
  assumes step_refines: "inv s \<Longrightarrow> ready op (abs s) \<Longrightarrow>
    \<exists>s'. step op s = Inr (fst (abs_step op (abs s)), s') \<and> inv s' \<and> abs s' = snd (abs_step op (abs s))"
begin

lemma run_refines:
  "inv s \<Longrightarrow> ready_ops ready abs_step ops (abs s) \<Longrightarrow>
     \<exists>s'. run_ops step ops s = Inr (fst (run_abs abs_step ops (abs s)), s') \<and> inv s' \<and>
       abs s' = snd (run_abs abs_step ops (abs s))"
proof (induction ops arbitrary: s)
  case (Cons op ops)
  obtain s1 where s1: "step op s = Inr (fst (abs_step op (abs s)), s1)" "inv s1" "abs s1 = snd (abs_step op (abs s))"
    using step_refines[OF Cons.prems(1), of op] Cons.prems(2) by auto
  then obtain s2 where "run_ops step ops s1 = Inr (fst (run_abs abs_step ops (abs s1)), s2)" "inv s2"
    "abs s2 = snd (run_abs abs_step ops (abs s1))"
    using Cons.IH[OF s1(2)] Cons.prems(2) by auto
  then show ?case using s1 by (simp add: Let_def case_prod_unfold)
qed simp

text \<open>What follows from what a store stands for is the same after sequences that agree on it.\<close>

lemma same_outcome:
  assumes "inv s1" and "inv s2" and "ready_ops ready abs_step ops1 (abs s1)" and "ready_ops ready abs_step ops2 (abs s2)"
    and "snd (run_abs abs_step ops1 (abs s1)) = snd (run_abs abs_step ops2 (abs s2))"
    and "\<And>s s'. inv s \<Longrightarrow> inv s' \<Longrightarrow> abs s = abs s' \<Longrightarrow> f s = f s'"
  shows "\<exists>bs1 bs2 s1' s2'. run_ops step ops1 s1 = Inr (bs1, s1') \<and> run_ops step ops2 s2 = Inr (bs2, s2') \<and> f s1' = f s2'"
proof -
  obtain s1' where 1: "run_ops step ops1 s1 = Inr (fst (run_abs abs_step ops1 (abs s1)), s1')" "inv s1'"
    "abs s1' = snd (run_abs abs_step ops1 (abs s1))" using run_refines[OF assms(1,3)] by blast
  obtain s2' where 2: "run_ops step ops2 s2 = Inr (fst (run_abs abs_step ops2 (abs s2)), s2')" "inv s2'"
    "abs s2' = snd (run_abs abs_step ops2 (abs s2))" using run_refines[OF assms(2,4)] by blast
  have "f s1' = f s2'" by (rule assms(6)[OF 1(2) 2(2)]) (simp add: 1(3) 2(3) assms(5))
  then show ?thesis using 1(1) 2(1) by blast
qed

end

datatype SHAMapOp = AddItem SHAMapItem | DelItem uint256 | UpdateItem SHAMapItem

definition SHAMap_step :: "hasher \<Rightarrow> bool \<Rightarrow> bool \<Rightarrow> SHAMapOp \<Rightarrow> SHAMap \<Rightarrow> (bool \<times> SHAMap) res" where
  "SHAMap_step h isTransaction hasMeta op m =
     (case op of
        AddItem item \<Rightarrow> addGiveItem h item isTransaction hasMeta m
      | DelItem key \<Rightarrow> delItem h key m
      | UpdateItem item \<Rightarrow> updateGiveItem h item isTransaction hasMeta m)"

text \<open>
  The same operations on the ordered map: an item is added under a new key only, deleted and
  updated under a key that is there; the answer says whether the map was changed.
\<close>

definition map_step :: "TNType \<Rightarrow> SHAMapOp \<Rightarrow> (uint256, TNType \<times> Blob) stdmap \<Rightarrow> bool \<times> (uint256, TNType \<times> Blob) stdmap" where
  "map_step ty op es =
     (case op of
        AddItem item \<Rightarrow>
          if smap_find (tag item) es = None then (True, smap_set (tag item) (ty, item_data item) es) else (False, es)
      | DelItem key \<Rightarrow> if smap_find key es = None then (False, es) else (True, smap_erase key es)
      | UpdateItem item \<Rightarrow>
          if smap_find (tag item) es = None then (False, es) else (True, smap_set (tag item) (ty, item_data item) es))"

text \<open>An update relies on the hash to tell the new data from the old.\<close>

definition op_ready :: "hasher \<Rightarrow> TNType \<Rightarrow> SHAMapOp \<Rightarrow> (uint256, TNType \<times> Blob) stdmap \<Rightarrow> bool" where
  "op_ready h ty op es =
     (case op of
        UpdateItem item \<Rightarrow>
          (case smap_find (tag item) es of
             None \<Rightarrow> True
           | Some (_, b) \<Rightarrow>
               h (leaf_bytes ty \<lparr>tag = tag item, item_data = b\<rparr>) = h (leaf_bytes ty item) \<longrightarrow> b = item_data item)
      | _ \<Rightarrow> True)"

lemma op_ready_update:
  "sham_ok m \<Longrightarrow> op_ready h ty (UpdateItem item) (content m) \<Longrightarrow> no_collision h ty m item"
  unfolding no_collision_def smap_find_Some[OF sham_ok_sorted, symmetric] by (auto simp: op_ready_def)

lemma SHAMap_step_refines:
  assumes inv: "sham_inv h (tn_type isTransaction hasMeta) m"
    and "op_ready h (tn_type isTransaction hasMeta) op (content m)"
  shows "\<exists>m'. SHAMap_step h isTransaction hasMeta op m = Inr (fst (map_step (tn_type isTransaction hasMeta) op (content m)), m') \<and>
    (sham_inv h (tn_type isTransaction hasMeta) m' \<and> sm_seq m' = sm_seq m \<and> is_v2 m' = is_v2 m) \<and>
    content m' = snd (map_step (tn_type isTransaction hasMeta) op (content m))"
proof (cases op)
  case (AddItem item)
  show ?thesis
  proof (cases "smap_find (tag item) (content m) = None")
    case True
    then show ?thesis using addGiveItem_absent[OF inv refl True] AddItem by (auto simp: SHAMap_step_def map_step_def)
  next
    case False
    then show ?thesis using addGiveItem_present[OF sham_invD(1)[OF inv] False] AddItem inv by (simp add: SHAMap_step_def map_step_def)
  qed
next
  case (DelItem key)
  show ?thesis
  proof (cases "smap_find key (content m) = None")
    case True
    then show ?thesis using delItem_absent[OF sham_invD(1)[OF inv] True] DelItem inv by (simp add: SHAMap_step_def map_step_def)
  next
    case False
    then show ?thesis using delItem_present[OF inv False] DelItem by (auto simp: SHAMap_step_def map_step_def)
  qed
next
  case (UpdateItem item)
  show ?thesis
  proof (cases "smap_find (tag item) (content m) = None")
    case True
    then show ?thesis using updateGiveItem_absent[OF sham_invD(1)[OF inv] True] UpdateItem inv by (simp add: SHAMap_step_def map_step_def)
  next
    case False
    have "no_collision h (tn_type isTransaction hasMeta) m item"
      using op_ready_update[OF sham_invD(1)[OF inv]] assms(2) UpdateItem by simp
    then show ?thesis using updateGiveItem_present[OF inv refl False] UpdateItem False by (auto simp: SHAMap_step_def map_step_def)
  qed
qed

text \<open>A map of a given version and sequence number.\<close>

definition sham_at :: "hasher \<Rightarrow> TNType \<Rightarrow> bool \<Rightarrow> SHAMap \<Rightarrow> bool" where
  "sham_at h ty v2 m \<longleftrightarrow> sham_inv h ty m \<and> is_v2 m = v2"

interpretation sham_store: op_store "SHAMap_step h isTransaction hasMeta" "map_step (tn_type isTransaction hasMeta)"
  "sham_at h (tn_type isTransaction hasMeta) v2" content "op_ready h (tn_type isTransaction hasMeta)"
  for h isTransaction hasMeta v2
proof unfold_locales
  fix m op
  assume "sham_at h (tn_type isTransaction hasMeta) v2 m" "op_ready h (tn_type isTransaction hasMeta) op (content m)"
  then show "\<exists>m'. SHAMap_step h isTransaction hasMeta op m = Inr (fst (map_step (tn_type isTransaction hasMeta) op (content m)), m') \<and>
      sham_at h (tn_type isTransaction hasMeta) v2 m' \<and>
      content m' = snd (map_step (tn_type isTransaction hasMeta) op (content m))"
    using SHAMap_step_refines[of h isTransaction hasMeta m op] unfolding sham_at_def by auto
qed

lemma SHAMap_new_fresh: "sm_root (SHAMap_new v2) = fresh 1 (if v2 then Some (0, 0) else None)"
  by (simp add: SHAMap_new_def fresh_def SHAMapInnerNodeV2_new_def SHAMapInnerNode_new_def)

lemma SHAMap_new_at: "sham_at h ty v2 (SHAMap_new v2)" and SHAMap_new_content: "content (SHAMap_new v2) = []"
proof -
  have v2: "is_v2 (SHAMap_new v2) = v2" by (simp add: is_v2_def SHAMap_new_fresh) (simp add: fresh_def)
  have "prefix_ok v2 0 0 (if v2 then Some (0, 0) else None)" using prefix_zero by (simp add: prefix_ok_def)
  then have "wf_node v2 True 0 0 (sm_root (SHAMap_new v2))" unfolding SHAMap_new_fresh by (rule wf_fresh)
  moreover have "sm_seq (SHAMap_new v2) = 1" by (simp add: SHAMap_new_def)
  ultimately show "sham_at h ty v2 (SHAMap_new v2)"
    using v2 cached_fresh by (simp add: sham_at_def sham_inv_def sham_ok_def SHAMap_new_fresh fresh_depth one_type_def)
  show "content (SHAMap_new v2) = []" by (simp add: SHAMap_new_fresh)
qed

text \<open>The root of a map.\<close>

lemma root_prefix: "sham_ok m \<Longrightarrow> mPrefix (sm_root m) = (if is_v2 m then Some (0, 0) else None)"
proof -
  assume ok: "sham_ok m"
  have inner: "isInner (sm_root m)" by (rule sham_ok_inner[OF ok])
  have "prefix_ok (is_v2 m) 0 0 (mPrefix (sm_root m))" "inner_depth 0 (sm_root m) = 0"
    using ok wf_innerD(2)[OF _ inner] by (auto simp: sham_ok_def)
  then show ?thesis
    by (auto simp: prefix_ok_def inner_depth_def prefix_zero split: option.splits if_splits)
qed

lemma getHash_merkle: "sham_inv h ty m \<Longrightarrow> fst (getHash h m) = merkle h (sm_root m)"
  using getHash_inv[of h ty m "fst (getHash h m)" "snd (getHash h m)"] by (metis prod.collapse)

lemma getHash_content:
  assumes "sham_at h ty v2 m" and "sham_at h ty' v2 m'" and "content m = content m'"
  shows "fst (getHash h m) = fst (getHash h m')"
proof -
  have ok: "sham_ok m" "sham_ok m'" "is_v2 m = v2" "is_v2 m' = v2" using assms by (simp_all add: sham_at_def sham_inv_def)
  have "fst (getHash h m) = merkle h (sm_root m)" "fst (getHash h m') = merkle h (sm_root m')"
    using assms(1,2) getHash_merkle unfolding sham_at_def by blast+
  moreover have "merkle h (sm_root m) = merkle h (sm_root m')"
    using merkle_determined[of v2 True 0 0 "sm_root m" "sm_root m'" h] ok assms(3) root_prefix[OF ok(1)] root_prefix[OF ok(2)]
    by (simp add: sham_ok_def)
  ultimately show ?thesis by simp
qed

section \<open>Properties\<close>

text \<open>
  C5: Every sequence of additions, deletions and updates on a well-formed map, of either version,
  returns, and does what the same sequence does on the ordered map of the items: each operation
  answers whether it changed the map, and the map ends up well-formed, with hashes that are up to
  date or reset, and with exactly the items of the ordered map.  Updates rely on the hash to tell the
  new data of a key from the old.
\<close>

theorem SHAMap_refines:
  assumes "sham_at h (tn_type isTransaction hasMeta) v2 m"
    and "ready_ops (op_ready h (tn_type isTransaction hasMeta)) (map_step (tn_type isTransaction hasMeta)) ops (content m)"
  shows "\<exists>m'. run_ops (SHAMap_step h isTransaction hasMeta) ops m =
      Inr (fst (run_abs (map_step (tn_type isTransaction hasMeta)) ops (content m)), m') \<and>
    sham_at h (tn_type isTransaction hasMeta) v2 m' \<and>
    content m' = snd (run_abs (map_step (tn_type isTransaction hasMeta)) ops (content m))"
  using assms by (rule sham_store.run_refines)

definition example_ops :: "SHAMapOp list" where
  "example_ops = [AddItem \<lparr>tag = 5, item_data = [1]\<rparr>, AddItem \<lparr>tag = 6, item_data = [2, 2]\<rparr>,
     UpdateItem \<lparr>tag = 5, item_data = [3, 3, 3]\<rparr>, DelItem 6, AddItem \<lparr>tag = 5, item_data = []\<rparr>]"

lemma example_ops_ready:
  "ready_ops (op_ready example_hash tnACCOUNT_STATE) (map_step tnACCOUNT_STATE) example_ops []"
  by (simp add: example_ops_def op_ready_def map_step_def leaf_bytes_def example_hash_def smap_erase_def be_bytes_def)

theorem SHAMap_refines_witness:
  "\<exists>m'. run_ops (SHAMap_step example_hash False False) example_ops (SHAMap_new True) =
      Inr ([True, True, True, True, False], m') \<and> content m' = [(5, tnACCOUNT_STATE, [3, 3, 3])]"
proof -
  have ty: "tn_type False False = tnACCOUNT_STATE" by (simp add: tn_type_def)
  have "run_abs (map_step tnACCOUNT_STATE) example_ops [] =
      ([True, True, True, True, False], [(5, tnACCOUNT_STATE, [3, 3, 3])])"
    by (simp add: example_ops_def map_step_def smap_erase_def)
  then show ?thesis
    using SHAMap_refines[of example_hash False False True "SHAMap_new True" example_ops] SHAMap_new_at example_ops_ready
    unfolding ty SHAMap_new_content by auto
qed

text \<open>
  C12: A loop over a well-formed map with its iterators comes to the end, having passed every item once
  in the order of the keys; a loop that starts at the upper bound of a key passes the items above the
  key, whether the key is in the map or not.
\<close>

theorem SHAMap_iterates:
  assumes "sham_ok m"
  shows "smap_wf (content m) \<and>
    (\<exists>it. SHAMap_begin m = Inr it \<and> items_from m it = Some (Inr (map item_of (content m)))) \<and>
    (\<exists>it. SHAMap_upper_bound m key = Inr it \<and>
      items_from m it = Some (Inr (map item_of (smap_upper_bound key (content m)))))"
proof -
  obtain it where "SHAMap_begin m = Inr it" "items_from m it = Some (Inr (map item_of (content m)))"
    using begin_stands[OF assms] items_stands by blast
  moreover obtain it' where "SHAMap_upper_bound m key = Inr it'"
    "items_from m it' = Some (Inr (map item_of (smap_upper_bound key (content m))))"
    using upper_bound_stands[OF assms, of key] items_stands by blast
  ultimately show ?thesis using sham_ok_sorted[OF assms] by simp
qed

definition example_map :: SHAMap where
  "example_map = (case run_ops (SHAMap_step example_hash False False)
     [AddItem \<lparr>tag = 5, item_data = [1]\<rparr>, AddItem \<lparr>tag = 6, item_data = [2, 2]\<rparr>] (SHAMap_new False) of
     Inr (_, m) \<Rightarrow> m | Inl _ \<Rightarrow> SHAMap_new False)"

lemma example_map_at: "sham_at example_hash tnACCOUNT_STATE False example_map"
  and example_map_content: "content example_map = [(5, tnACCOUNT_STATE, [1]), (6, tnACCOUNT_STATE, [2, 2])]"
proof -
  have ty: "tn_type False False = tnACCOUNT_STATE" by (simp add: tn_type_def)
  let ?ops = "[AddItem \<lparr>tag = 5, item_data = [1]\<rparr>, AddItem \<lparr>tag = 6, item_data = [2, 2]\<rparr>]"
  have "run_abs (map_step tnACCOUNT_STATE) ?ops [] = ([True, True], [(5, tnACCOUNT_STATE, [1]), (6, tnACCOUNT_STATE, [2, 2])])"
    by (simp add: map_step_def)
  moreover have "ready_ops (op_ready example_hash tnACCOUNT_STATE) (map_step tnACCOUNT_STATE) ?ops []" by (simp add: op_ready_def)
  ultimately show "sham_at example_hash tnACCOUNT_STATE False example_map"
    "content example_map = [(5, tnACCOUNT_STATE, [1]), (6, tnACCOUNT_STATE, [2, 2])]"
    using sham_store.run_refines[of example_hash False False False "SHAMap_new False" ?ops] SHAMap_new_at
    unfolding ty SHAMap_new_content example_map_def by auto
qed

theorem SHAMap_iterates_witness:
  "\<exists>it. SHAMap_upper_bound example_map 5 = Inr it \<and> items_from example_map it = Some (Inr [\<lparr>tag = 6, item_data = [2, 2]\<rparr>])"
proof -
  have "sham_ok example_map" using example_map_at by (simp add: sham_at_def sham_inv_def)
  from SHAMap_iterates[OF this, of 5] show ?thesis
    by (simp add: example_map_content smap_upper_bound_def item_of_def)
qed

lemma upper_bound_find:
  "(case smap_upper_bound key m of [] \<Rightarrow> None | e # _ \<Rightarrow> Some (f e)) = map_option f (find (\<lambda>(k, _). key < k) m)"
  by (induction m) (auto simp: smap_upper_bound_def)

text \<open>
  C11: In a well-formed map a key is found exactly if it is the key of an item, with the data of that
  item, and the iterator at the upper bound of a key is on the item with the least key above it, or
  at the end if there is none; no lookup throws or reads past a node.
\<close>

theorem SHAMap_lookup:
  assumes "sham_ok m"
  shows "hasItem m key = Inr (smap_find key (content m) \<noteq> None) \<and>
    peekItem m key = Inr (map_option (\<lambda>(_, b). \<lparr>tag = key, item_data = b\<rparr>) (smap_find key (content m))) \<and>
    (\<exists>it. SHAMap_upper_bound m key = Inr it \<and>
      fst it = map_option item_of (find (\<lambda>(k, _). key < k) (content m))) \<and>
    sorted_wrt (<) (map fst (content m))"
proof -
  have wf: "smap_wf (content m)" by (rule sham_ok_sorted[OF assms])
  obtain it where "SHAMap_upper_bound m key = Inr it" "stands m (smap_upper_bound key (content m)) it"
    using upper_bound_stands[OF assms] by blast
  then show ?thesis using upper_bound_find[of item_of key "content m"] hasItem_content[OF assms] peekItem_content[OF assms] stands_item[of m _ it] wf by (auto simp: smap_wf_def)
qed

theorem SHAMap_lookup_witness:
  "hasItem example_map 5 = Inr True \<and> peekItem example_map 6 = Inr (Some \<lparr>tag = 6, item_data = [2, 2]\<rparr>) \<and>
   peekItem example_map 7 = Inr None \<and>
   (\<exists>it. SHAMap_upper_bound example_map 5 = Inr it \<and> fst it = Some \<lparr>tag = 6, item_data = [2, 2]\<rparr>)"
proof -
  have ok: "sham_ok example_map" using example_map_at by (simp add: sham_at_def sham_inv_def)
  show ?thesis using SHAMap_lookup[OF ok, of 5] SHAMap_lookup[OF ok, of 6] SHAMap_lookup[OF ok, of 7]
    by (simp add: example_map_content item_of_def)
qed

text \<open>
  C7: The hash of a map is a fingerprint of its items: two maps of the same version have the same hash
  exactly if they have the same items, whatever operations built them and whichever of their nodes
  have been flushed before.  The hash function must be without collisions on the byte strings that are
  hashed in the two trees, and leaves without metadata must be stored under their hash.
\<close>

theorem SHAMap_hash_exact:
  assumes "sham_at h ty v2 m" and "sham_at h ty' v2 m'" and "hash_keyed h (sm_root m)" and "hash_keyed h (sm_root m')"
    and "collision_free h (hashed h (sm_root m) @ hashed h (sm_root m'))"
  shows "fst (getHash h m) = fst (getHash h m') \<longleftrightarrow> content m = content m'"
proof
  have wf: "wf_node v2 True 0 0 (sm_root m)" "wf_node v2 True 0 0 (sm_root m')"
    using assms(1,2) by (auto simp: sham_at_def sham_inv_def sham_ok_def)
  assume "fst (getHash h m) = fst (getHash h m')"
  then have "merkle h (sm_root m) = merkle h (sm_root m')"
    using assms(1,2) getHash_merkle[of h ty m] getHash_merkle[of h ty' m'] by (simp add: sham_at_def)
  then show "content m = content m'" by (rule items_determined[OF wf assms(3,4,5)])
qed (rule getHash_content[OF assms(1,2)])

definition tail_hash :: hasher where
  "tail_hash bs = uint256_of_bytes (drop (length bs - 32) bs) + word_of_nat (length bs)"

definition single_map :: "hasher \<Rightarrow> SHAMapItem \<Rightarrow> SHAMap" where
  "single_map h item = (case addGiveItem h item False False (SHAMap_new False) of Inr (_, m) \<Rightarrow> m | Inl _ \<Rightarrow> SHAMap_new False)"

lemma single_map_at: "sham_at h tnACCOUNT_STATE False (single_map h item)"
  and single_map_content: "content (single_map h item) = [(tag item, tnACCOUNT_STATE, item_data item)]"
proof -
  have ty: "tn_type False False = tnACCOUNT_STATE" by (simp add: tn_type_def)
  have inv: "sham_inv h tnACCOUNT_STATE (SHAMap_new False)" using SHAMap_new_at by (simp add: sham_at_def)
  show "sham_at h tnACCOUNT_STATE False (single_map h item)"
    "content (single_map h item) = [(tag item, tnACCOUNT_STATE, item_data item)]"
    using addGiveItem_absent[OF inv ty, of item] SHAMap_new_at[of h tnACCOUNT_STATE False]
    by (auto simp: single_map_def sham_at_def SHAMap_new_content)
qed

lemma hash_keyed_state: "sham_at h tnACCOUNT_STATE v2 m \<Longrightarrow> hash_keyed h (sm_root m)"
  by (auto simp: sham_at_def sham_inv_def one_type_def hash_keyed_def)

definition high_key :: uint256 where
  "high_key = push_bit 252 15"

lemma single_map_root:
  assumes "digit 0 (tag item) = 15"
  shows "sm_root (single_map h item) = setChild 15 (Some (SHAMapTreeNode_new h item tnACCOUNT_STATE 1)) (fresh 1 None)"
proof -
  let ?m = "SHAMap_new False"
  have ok: "sham_ok ?m" using SHAMap_new_at[of h tnACCOUNT_STATE False] by (simp add: sham_at_def sham_inv_def)
  have root: "sm_root ?m = fresh 1 None" "is_v2 ?m = False" "sm_seq ?m = 1"
    using SHAMap_new_fresh[of False] SHAMap_new_at[of h tnACCOUNT_STATE False] by (simp_all add: sham_at_def) (simp add: SHAMap_new_def)
  have w: "walk_at False True 0 0 (tag item) (fresh 1 None) root_id"
    using ok root_id_for[OF ok] root by (simp add: walk_at_def sham_ok_def)
  have "walkTowardsKey ?m (tag item) = Inr (None, [(fresh 1 None, root_id)])"
    unfolding walkTowardsKey_def root using walk_stop[OF w, of "[]"] by (simp add: walk_child_def)
  then show ?thesis using walk_branch[OF w] assms root
    by (simp add: single_map_def addGiveItem_def addGiveItem_v1_def tn_type_def Let_def fresh_depth)
qed

lemma single_map_hashed:
  assumes "digit 0 (tag item) = 15"
  shows "hashed h (sm_root (single_map h item)) =
    [inner_bytes (replicate 15 0 @ [h (leaf_bytes tnACCOUNT_STATE item)]) None, leaf_bytes tnACCOUNT_STATE item]"
proof -
  let ?l = "SHAMapTreeNode_new h item tnACCOUNT_STATE 1"
  let ?n = "setChild 15 (Some ?l) (fresh 1 None)"
  have g: "getChild ?n i = (if i = 15 then Some ?l else None)" for i using getChild_setChild[of "fresh 1 None" 15] by simp
  have upt: "[0..<16] = [0..<15] @ [15 :: nat]" using upt_split[of 15] by simp
  have "child_hashes h ?n = replicate 15 0 @ [merkle h ?l]"
    unfolding child_hashes_def upt map_append g by (simp add: map_replicate_const[symmetric] numeral_eq_Suc)
  moreover have "concat (map (\<lambda>i. case getChild ?n i of None \<Rightarrow> [] | Some c \<Rightarrow> hashed h c) [0..<16]) = hashed h ?l"
    unfolding upt map_append g by simp
  moreover have "isInner ?n" by simp
  ultimately have "hashed h ?n = inner_bytes (replicate 15 0 @ [merkle h ?l]) None # hashed h ?l"
    by (subst hashed.simps) (simp del: upt_rec_numeral)
  then show ?thesis unfolding single_map_root[OF assms]
    by (simp add: hashed.simps[of _ ?l] merkle_leaf TreeNode_hash_bytes)
qed

lemma tail_hash_append: "tail_hash (xs @ uint256_bytes x) = x + word_of_nat (length xs + 32)"
  by (simp add: tail_hash_def)

lemma tail_hash_leaf: "tail_hash (leaf_bytes tnACCOUNT_STATE item) = tag item + word_of_nat (36 + length (item_data item))"
  using tail_hash_append[of "be_bytes HashPrefix_leafNode @ item_data item" "tag item"]
  by (simp add: leaf_bytes_def be_bytes_def)

lemma tail_hash_inner: "tail_hash (inner_bytes (replicate 15 0 @ [x]) None) = x + 516"
proof -
  have "length (concat (map uint256_bytes (replicate 15 0))) = 480" using length_chunks[of "replicate 15 0" uint256_bytes 32] by simp
  then show ?thesis
    using tail_hash_append[of "be_bytes HashPrefix_innerNode @ concat (map uint256_bytes (replicate 15 0))" x]
    by (simp add: inner_bytes_def be_bytes_def)
qed

lemma high_digit: "digit 0 high_key = 15"
  by (simp add: digit_def digits_def high_key_def)

lemma single_maps_free:
  "collision_free tail_hash (hashed tail_hash (sm_root (single_map tail_hash \<lparr>tag = high_key, item_data = [1]\<rparr>)) @
     hashed tail_hash (sm_root (single_map tail_hash \<lparr>tag = high_key, item_data = [1, 1]\<rparr>)))"
  by (simp add: single_map_hashed high_digit collision_free_def tail_hash_leaf tail_hash_inner)
    (simp add: high_key_def)

theorem SHAMap_hash_exact_witness:
  "fst (getHash tail_hash (single_map tail_hash \<lparr>tag = high_key, item_data = [1]\<rparr>)) \<noteq>
   fst (getHash tail_hash (single_map tail_hash \<lparr>tag = high_key, item_data = [1, 1]\<rparr>))"
  using SHAMap_hash_exact[OF single_map_at single_map_at hash_keyed_state[OF single_map_at] hash_keyed_state[OF single_map_at]
      single_maps_free] by (simp add: single_map_content)

text \<open>
  C14: The order of operations leaves no trace: two sequences of operations on new maps of the same version
  that come to the same items come to the same hash.
\<close>

theorem SHAMap_history:
  assumes "ready_ops (op_ready h (tn_type isTransaction hasMeta)) (map_step (tn_type isTransaction hasMeta)) ops1 []"
    and "ready_ops (op_ready h (tn_type isTransaction hasMeta)) (map_step (tn_type isTransaction hasMeta)) ops2 []"
    and "snd (run_abs (map_step (tn_type isTransaction hasMeta)) ops1 []) = snd (run_abs (map_step (tn_type isTransaction hasMeta)) ops2 [])"
  shows "\<exists>bs1 bs2 m1 m2. run_ops (SHAMap_step h isTransaction hasMeta) ops1 (SHAMap_new v2) = Inr (bs1, m1) \<and>
    run_ops (SHAMap_step h isTransaction hasMeta) ops2 (SHAMap_new v2) = Inr (bs2, m2) \<and>
    fst (getHash h m1) = fst (getHash h m2)"
proof (rule sham_store.same_outcome[OF SHAMap_new_at SHAMap_new_at])
  show "fst (getHash h m) = fst (getHash h m')"
    if "sham_at h (tn_type isTransaction hasMeta) v2 m" "sham_at h (tn_type isTransaction hasMeta) v2 m'" "content m = content m'" for m m'
    using that by (rule getHash_content)
qed (use assms in \<open>simp_all add: SHAMap_new_content\<close>)

theorem SHAMap_history_witness:
  "\<exists>bs1 bs2 m1 m2. run_ops (SHAMap_step example_hash False False) example_ops (SHAMap_new True) = Inr (bs1, m1) \<and>
    run_ops (SHAMap_step example_hash False False) [AddItem \<lparr>tag = 5, item_data = [3, 3, 3]\<rparr>] (SHAMap_new True) = Inr (bs2, m2) \<and>
    fst (getHash example_hash m1) = fst (getHash example_hash m2)"
proof -
  have ty: "tn_type False False = tnACCOUNT_STATE" by (simp add: tn_type_def)
  let ?ops = "[AddItem \<lparr>tag = 5, item_data = [3, 3, 3]\<rparr>]"
  have "snd (run_abs (map_step tnACCOUNT_STATE) example_ops []) = snd (run_abs (map_step tnACCOUNT_STATE) ?ops [])"
    by (simp add: example_ops_def map_step_def smap_erase_def)
  moreover have "ready_ops (op_ready example_hash tnACCOUNT_STATE) (map_step tnACCOUNT_STATE) ?ops []" by (simp add: op_ready_def)
  ultimately show ?thesis using SHAMap_history[of example_hash False False example_ops ?ops True] example_ops_ready
    unfolding ty by blast
qed

end
