(* ===== verification/SHAMapConvert.thy ===== *)
theory SHAMapConvert
  imports SHAMapSpec
begin

text \<open>
  The remaining operations of a \<open>SHAMap\<close> (\<^verbatim>\<open>shamap/impl/SHAMap.cpp\<close>) that the ledger uses: lookups that also
  give the hash or the type of the leaf, the flush to the node store, sealing, and the conversion
  between the two versions.  The lemmas show that a conversion keeps the items.
\<close>

section \<open>Operations\<close>

definition peekItem_hash :: "SHAMap \<Rightarrow> uint256 \<Rightarrow> (SHAMapItem \<times> uint256) option res" where
  "peekItem_hash m key = bindE (findKey m key) (\<lambda>leaf. Inr (map_option (\<lambda>l. (mItem l, mHash l)) leaf))"

definition peekItem_type :: "SHAMap \<Rightarrow> uint256 \<Rightarrow> (SHAMapItem \<times> TNType) option res" where
  "peekItem_type m key = bindE (findKey m key) (\<lambda>leaf. Inr (map_option (\<lambda>l. (mItem l, mType l)) leaf))"

definition addItem :: "hasher \<Rightarrow> SHAMapItem \<Rightarrow> bool \<Rightarrow> bool \<Rightarrow> SHAMap \<Rightarrow> (bool \<times> SHAMap) res" where
  "addItem h i isTransaction hasMetaData m = addGiveItem h i isTransaction hasMetaData m"

definition flushDirty :: "hasher \<Rightarrow> SHAMap \<Rightarrow> nat \<times> SHAMap \<times> (uint256 \<times> Blob) list" where
  "flushDirty h m = walkSubTree h True m"

definition SHAMap_setImmutable :: "SHAMap \<Rightarrow> SHAMap" where
  "SHAMap_setImmutable m = m\<lparr>sm_state := Immutable\<rparr>"

text \<open>The loop over the leaves of \<open>m\<close> that adds each of them to \<open>ret\<close>.\<close>

partial_function (option) convert_from ::
  "hasher \<Rightarrow> SHAMap \<Rightarrow> SHAMapNode option \<times> NodeStack \<Rightarrow> SHAMap \<Rightarrow> SHAMap res option" where
  "convert_from h m r ret =
     (case fst r of
        None \<Rightarrow> Some (Inr ret)
      | Some leaf \<Rightarrow>
          (case addGiveItem h (mItem leaf) (mType leaf \<noteq> tnACCOUNT_STATE) (mType leaf = tnTRANSACTION_MD) ret of
             Inl e \<Rightarrow> Some (Inl e)
           | Inr (_, ret) \<Rightarrow>
               (case peekNextItem m (tag (mItem leaf)) (snd r) of
                  Inl e \<Rightarrow> Some (Inl e)
                | Inr r \<Rightarrow> convert_from h m r ret)))"

text \<open>
  \<open>make_v2\<close> and \<open>make_v1\<close> differ in the version of the new map only.  The second result is what is
  written to the node store.
\<close>

definition make_version :: "hasher \<Rightarrow> bool \<Rightarrow> SHAMap \<Rightarrow> (SHAMap \<times> (uint256 \<times> Blob) list) res" where
  "make_version h v2 m =
     bindE (peekFirstItem m) (\<lambda>r.
     bindE (returns (convert_from h m r ((SHAMap_new v2)\<lparr>sm_seq := sm_seq m + 1\<rparr>))) (\<lambda>r.
     bindE r (\<lambda>ret.
       let (_, ret, written) = flushDirty h ret
       in Inr (unshare h ret, written))))"

definition make_v2 :: "hasher \<Rightarrow> SHAMap \<Rightarrow> (SHAMap \<times> (uint256 \<times> Blob) list) res" where
  "make_v2 h m = make_version h True m"

definition make_v1 :: "hasher \<Rightarrow> SHAMap \<Rightarrow> (SHAMap \<times> (uint256 \<times> Blob) list) res" where
  "make_v1 h m = make_version h False m"

section \<open>Lemmas\<close>

lemma setImmutable_inv [simp]:
  "sham_inv h ty (SHAMap_setImmutable m) = sham_inv h ty m" "content (SHAMap_setImmutable m) = content m"
  "is_v2 (SHAMap_setImmutable m) = is_v2 m" "sm_seq (SHAMap_setImmutable m) = sm_seq m"
  by (simp_all add: SHAMap_setImmutable_def sham_inv_def sham_ok_def is_v2_def)

lemma unshare_inv:
  assumes "sham_inv h ty m"
  shows "sham_inv h ty (unshare h m)" and "content (unshare h m) = content m" and "is_v2 (unshare h m) = is_v2 m"
    and "sm_seq (unshare h m) = sm_seq m" and "mSeq (sm_root (unshare h m)) = 0"
proof -
  obtain f m' w where w: "walkSubTree h False m = (f, m', w)" by (cases "walkSubTree h False m")
  then show "sham_inv h ty (unshare h m)" "content (unshare h m) = content m" "is_v2 (unshare h m) = is_v2 m"
    "sm_seq (unshare h m) = sm_seq m" "mSeq (sm_root (unshare h m)) = 0"
    using walkSubTree_inv[OF assms w] by (simp_all add: unshare_def)
qed

lemma peekItem_hash_content:
  assumes "sham_inv h ty m"
  shows "peekItem_hash m key = Inr (map_option (\<lambda>(t, b). (\<lparr>tag = key, item_data = b\<rparr>,
    h (leaf_bytes t \<lparr>tag = key, item_data = b\<rparr>))) (map_of (content m) key))"
proof -
  note ok = sham_invD[OF assms]
  have root: "wf_node (is_v2 m) True 0 0 (sm_root m)" using ok(1) by (simp add: sham_ok_def)
  obtain r where r: "findKey m key = Inr r" "map_of (content m) key = map_option (\<lambda>l. (mType l, item_data (mItem l))) r"
    "\<forall>l. r = Some l \<longrightarrow> isLeaf l \<and> tag (mItem l) = key" using findKey_content[OF ok(1)] by blast
  show ?thesis
  proof (cases r)
    case None
    then show ?thesis using r by (simp add: peekItem_hash_def)
  next
    case (Some l)
    then have "key \<in> keys (sm_root m)" using r(2) by (auto dest!: map_of_SomeD intro: rev_image_eqI)
    then obtain l' where "findKey m key = Inr (Some l')" "isLeaf l'" "cached h l'"
      using replace_walk[OF root _ root_id_for[OF ok(1)] _ ok(2,4), of key "[]"]
      by (auto simp: findKey_def walkTowardsKey_def)
    then have "mHash l = h (leaf_bytes (mType l) (mItem l))" using r(1) Some by (simp add: cached_leaf TreeNode_hash_bytes)
    moreover have "mItem l = \<lparr>tag = key, item_data = item_data (mItem l)\<rparr>" using r(3) Some by auto
    ultimately show ?thesis using r Some by (metis (no_types, lifting) bindE_Inr option.simps(9) peekItem_hash_def prod.case)
  qed
qed

lemma smap_set_last: "\<forall>k' \<in> fst ` set m. k' < k \<Longrightarrow> smap_set k v m = m @ [(k, v)]"
  by (induction k v m rule: smap_set.induct) auto

lemma tn_type_of: "tn_type (ty \<noteq> tnACCOUNT_STATE) (ty = tnTRANSACTION_MD) = ty"
  by (cases ty) (simp_all add: tn_type_def)

lemma convert_from_adds:
  "goes (is_v2 m) es (Inr r) \<Longrightarrow> \<forall>(_, t, _) \<in> set es. t = ty \<Longrightarrow> sham_at h ty v2 ret \<Longrightarrow>
     smap_wf (content ret @ es) \<Longrightarrow>
     \<exists>ret'. convert_from h m r ret = Some (Inr ret') \<and> sham_at h ty v2 ret' \<and> content ret' = content ret @ es \<and> sm_seq ret' = sm_seq ret"
proof (induction es arbitrary: r ret)
  case Nil
  then show ?case by (auto simp: goes_def convert_from.simps)
next
  case (Cons e es)
  obtain k b where e: "e = (k, ty, b)" using Cons.prems(2) by (cases e) auto
  have lands: "lands (is_v2 m) (e # es) (Inr r)" using Cons.prems(1) by (simp add: goes_def)
  then obtain l s where r: "r = (Some l, s)" by (auto simp: lands_def)
  note r = this lands[unfolded this]
  have l: "mItem l = \<lparr>tag = k, item_data = b\<rparr>" "mType l = ty"
    using r(2) by (auto simp: lands_def e)
  have above: "\<forall>k' \<in> fst ` set (content ret). k' < k"
    using Cons.prems(4) by (auto simp: smap_wf_def sorted_wrt_append e)
  then have new: "map_of (content ret) (tag (mItem l)) = None" by (force simp: l map_of_eq_None_iff)
  obtain ret1 where ret1: "addGiveItem h (mItem l) (mType l \<noteq> tnACCOUNT_STATE) (mType l = tnTRANSACTION_MD) ret = Inr (True, ret1)"
    "sham_at h ty v2 ret1" "content ret1 = content ret @ [e]" "sm_seq ret1 = sm_seq ret"
    using addGiveItem_absent[of h ty ret _ _ "mItem l", OF _ tn_type_of new] Cons.prems(3) smap_set_last[OF above]
    by (auto simp: sham_at_def l e)
  have g: "goes (is_v2 m) es (peekNextItem m k s)" using peekNextItem_goes r(2) unfolding e by blast
  then obtain r' where r': "peekNextItem m k s = Inr r'" using goes_Inr by blast
  obtain ret' where "convert_from h m r' ret1 = Some (Inr ret')" "sham_at h ty v2 ret'" "content ret' = content ret1 @ es"
    "sm_seq ret' = sm_seq ret1"
    using Cons.IH[OF g[unfolded r'] _ ret1(2)] Cons.prems(2,4) ret1(3) by auto
  then show ?case using ret1 r' by (subst convert_from.simps) (simp add: r(1) l)
qed

lemma make_version_inv:
  assumes inv: "sham_inv h ty m" and seq: "sm_seq m + 1 \<noteq> 0"
  shows "\<exists>m' written. make_version h v2 m = Inr (m', written) \<and> sham_at h ty v2 m' \<and> content m' = content m \<and>
    sm_seq m' = sm_seq m + 1 \<and> mSeq (sm_root m') = 0 \<and> addressed h written"
proof -
  let ?n = "(SHAMap_new v2)\<lparr>sm_seq := sm_seq m + 1\<rparr>"
  note ok = sham_invD[OF inv]
  have g: "goes (is_v2 m) (content m) (peekFirstItem m)" by (rule peekFirstItem_goes[OF ok(1)])
  then obtain r where r: "peekFirstItem m = Inr r" using goes_Inr by blast
  have v: "is_v2 ?n = is_v2 (SHAMap_new v2)" "is_v2 (SHAMap_new v2) = v2"
    using SHAMap_new_at[of h ty v2] by (simp_all add: sham_at_def) (simp add: is_v2_def)
  then have n: "sham_at h ty v2 ?n" "content ?n = []"
    using SHAMap_new_at[of h ty v2] SHAMap_new_content[of v2] seq by (auto simp: sham_at_def sham_inv_def sham_ok_def)
  have "\<forall>(_, t, _) \<in> set (content m). t = ty" using ok(3) by (simp add: one_type_def)
  then obtain m1 where m1: "convert_from h m r ?n = Some (Inr m1)" "sham_at h ty v2 m1" "content m1 = content m" "sm_seq m1 = sm_seq m + 1"
    using convert_from_adds[OF g[unfolded r] _ n(1)] n(2) sham_ok_sorted[OF ok(1)] by auto
  obtain f m2 w where w: "walkSubTree h True m1 = (f, m2, w)" by (cases "walkSubTree h True m1")
  have inv1: "sham_inv h ty m1" using m1(2) by (simp add: sham_at_def)
  note m2 = walkSubTree_inv[OF inv1 w]
  have inv2: "sham_inv h ty m2" using m2 by blast
  show ?thesis using r m1 m2 w unshare_inv[OF inv2]
    by (simp add: make_version_def flushDirty_def sham_at_def)
qed

end
