(* ===== verification/Indexes.thy ===== *)
theory Indexes
  imports Entries SHAMapWire
begin

text \<open>
  The keys of ledger entries (\<^verbatim>\<open>protocol/impl/Indexes.cpp\<close>, \<^verbatim>\<open>protocol/LedgerFormats.h\<close>): a key is the hash of
  a 16-bit space and of what identifies the entry, and a keylet adds the type of the entry.  Order
  book directories carry their quality in the last eight bytes of the key.

  The lemmas show that what is hashed for two entries differs unless they are the same entry, and
  that the directories of a book are ordered by quality below the next book.
\<close>

section \<open>Spaces\<close>

datatype LedgerNameSpace =
    spaceAccount | spaceDirNode | spaceGenerator | spaceSupplyFinanceChain | spaceOffer
  | spaceOwnerDir | spaceBookDir | spaceSkipList | spaceEscrow | spaceAmendment
  | spaceFee | spaceTicket | spaceSignerList | spaceSFCUChannel | spaceCheck
  | spaceDepositPreauth

fun space_char :: "LedgerNameSpace \<Rightarrow> char" where
  "space_char spaceAccount = CHR ''a''"
| "space_char spaceDirNode = CHR ''d''"
| "space_char spaceGenerator = CHR ''g''"
| "space_char spaceSupplyFinanceChain = CHR ''r''"
| "space_char spaceOffer = CHR ''o''"
| "space_char spaceOwnerDir = CHR ''O''"
| "space_char spaceBookDir = CHR ''B''"
| "space_char spaceSkipList = CHR ''s''"
| "space_char spaceEscrow = CHR ''u''"
| "space_char spaceAmendment = CHR ''f''"
| "space_char spaceFee = CHR ''e''"
| "space_char spaceTicket = CHR ''T''"
| "space_char spaceSignerList = CHR ''S''"
| "space_char spaceSFCUChannel = CHR ''x''"
| "space_char spaceCheck = CHR ''C''"
| "space_char spaceDepositPreauth = CHR ''p''"

text \<open>The space as the hasher is given it: 16 bits, most significant byte first.\<close>

definition space :: "LedgerNameSpace \<Rightarrow> Blob" where
  "space s = (let w = of_char (space_char s) :: u16 in [ucast (drop_bit 8 w), ucast w])"

lemma space_values:
  "space spaceAccount = [0, 97]" "space spaceDirNode = [0, 100]" "space spaceGenerator = [0, 103]" "space spaceSupplyFinanceChain = [0, 114]"
  "space spaceOffer = [0, 111]" "space spaceOwnerDir = [0, 79]" "space spaceBookDir = [0, 66]" "space spaceSkipList = [0, 115]"
  "space spaceEscrow = [0, 117]" "space spaceAmendment = [0, 102]" "space spaceFee = [0, 101]" "space spaceTicket = [0, 84]"
  "space spaceSignerList = [0, 83]" "space spaceSFCUChannel = [0, 120]" "space spaceCheck = [0, 67]" "space spaceDepositPreauth = [0, 112]"
  by code_simp+

section \<open>Indexes\<close>

definition be_bytes64 :: "u64 \<Rightarrow> Blob" where
  "be_bytes64 w = map (\<lambda>i. ucast (drop_bit (56 - 8 * i) w)) [0..<8]"

text \<open>The order of 160-bit identifiers: the first byte that differs decides.\<close>

fun uint160_less :: "uint160 \<Rightarrow> uint160 \<Rightarrow> bool" where
  "uint160_less (a # as) (b # bs) \<longleftrightarrow> (if a = b then uint160_less as bs else a < b)"
| "uint160_less _ _ \<longleftrightarrow> False"

record Book =
  book_in :: Issue
  book_out :: Issue

definition getLedgerHashIndex :: "hasher \<Rightarrow> uint256" where
  "getLedgerHashIndex h = h (space spaceSkipList)"

definition getLedgerHashIndex_of :: "hasher \<Rightarrow> u32 \<Rightarrow> uint256" where
  "getLedgerHashIndex_of h desiredLedgerIndex = h (space spaceSkipList @ be_bytes (drop_bit 16 desiredLedgerIndex))"

definition getLedgerAmendmentIndex :: "hasher \<Rightarrow> uint256" where
  "getLedgerAmendmentIndex h = h (space spaceAmendment)"

definition getLedgerFeeIndex :: "hasher \<Rightarrow> uint256" where
  "getLedgerFeeIndex h = h (space spaceFee)"

definition getAccountRootIndex :: "hasher \<Rightarrow> uint160 \<Rightarrow> uint256" where
  "getAccountRootIndex h acc = h (space spaceAccount @ acc)"

definition getGeneratorIndex :: "hasher \<Rightarrow> uint160 \<Rightarrow> uint256" where
  "getGeneratorIndex h uGeneratorID = h (space spaceGenerator @ uGeneratorID)"

definition getQualityIndex :: "uint256 \<Rightarrow> u64 \<Rightarrow> uint256" where
  "getQualityIndex uBase uNodeDir = uint256_of_bytes (take 24 (uint256_bytes uBase) @ be_bytes64 uNodeDir)"

definition getQualityNext :: "uint256 \<Rightarrow> uint256" where
  "getQualityNext uBase = uBase + 0x10000000000000000"

definition getQuality :: "uint256 \<Rightarrow> u64" where
  "getQuality uBase = fold (\<lambda>b acc. push_bit 8 acc OR ucast b) (drop 24 (uint256_bytes uBase)) 0"

definition getBookBase :: "hasher \<Rightarrow> Book \<Rightarrow> uint256" where
  "getBookBase h book =
     getQualityIndex (h (space spaceBookDir @ currency (book_in book) @ currency (book_out book) @
       account (book_in book) @ account (book_out book))) 0"

definition getOfferIndex :: "hasher \<Rightarrow> uint160 \<Rightarrow> u32 \<Rightarrow> uint256" where
  "getOfferIndex h acc uSequence = h (space spaceOffer @ acc @ be_bytes uSequence)"

definition getOwnerDirIndex :: "hasher \<Rightarrow> uint160 \<Rightarrow> uint256" where
  "getOwnerDirIndex h acc = h (space spaceOwnerDir @ acc)"

definition getDirNodeIndex :: "hasher \<Rightarrow> uint256 \<Rightarrow> u64 \<Rightarrow> uint256" where
  "getDirNodeIndex h uDirRoot uNodeIndex =
     (if uNodeIndex = 0 then uDirRoot else h (space spaceDirNode @ uint256_bytes uDirRoot @ be_bytes64 uNodeIndex))"

definition getTicketIndex :: "hasher \<Rightarrow> uint160 \<Rightarrow> u32 \<Rightarrow> uint256" where
  "getTicketIndex h acc uSequence = h (space spaceTicket @ acc @ be_bytes uSequence)"

definition getSupplyFinanceChainStateIndex :: "hasher \<Rightarrow> uint160 \<Rightarrow> uint160 \<Rightarrow> uint160 \<Rightarrow> uint256" where
  "getSupplyFinanceChainStateIndex h a b cur =
     (if uint160_less a b then h (space spaceSupplyFinanceChain @ a @ b @ cur)
      else h (space spaceSupplyFinanceChain @ b @ a @ cur))"

definition getSupplyFinanceChainStateIndex_issue :: "hasher \<Rightarrow> uint160 \<Rightarrow> Issue \<Rightarrow> uint256" where
  "getSupplyFinanceChainStateIndex_issue h a issue =
     getSupplyFinanceChainStateIndex h a (account issue) (currency issue)"

definition getSignerListIndex :: "hasher \<Rightarrow> uint160 \<Rightarrow> uint256" where
  "getSignerListIndex h acc = h (space spaceSignerList @ acc @ be_bytes 0)"

definition getCheckIndex :: "hasher \<Rightarrow> uint160 \<Rightarrow> u32 \<Rightarrow> uint256" where
  "getCheckIndex h acc uSequence = h (space spaceCheck @ acc @ be_bytes uSequence)"

definition getDepositPreauthIndex :: "hasher \<Rightarrow> uint160 \<Rightarrow> uint160 \<Rightarrow> uint256" where
  "getDepositPreauthIndex h owner preauthorized = h (space spaceDepositPreauth @ owner @ preauthorized)"

section \<open>Keylets\<close>

definition keylet_account :: "hasher \<Rightarrow> uint160 \<Rightarrow> Keylet" where
  "keylet_account h acc = \<lparr>kl_type = ltACCOUNT_ROOT, kl_key = getAccountRootIndex h acc\<rparr>"

definition keylet_child :: "uint256 \<Rightarrow> Keylet" where
  "keylet_child key = \<lparr>kl_type = ltCHILD, kl_key = key\<rparr>"

definition keylet_skip :: "hasher \<Rightarrow> Keylet" where
  "keylet_skip h = \<lparr>kl_type = ltLEDGER_HASHES, kl_key = getLedgerHashIndex h\<rparr>"

definition keylet_skip_of :: "hasher \<Rightarrow> u32 \<Rightarrow> Keylet" where
  "keylet_skip_of h ledger = \<lparr>kl_type = ltLEDGER_HASHES, kl_key = getLedgerHashIndex_of h ledger\<rparr>"

definition keylet_amendments :: "hasher \<Rightarrow> Keylet" where
  "keylet_amendments h = \<lparr>kl_type = ltAMENDMENTS, kl_key = getLedgerAmendmentIndex h\<rparr>"

definition keylet_fees :: "hasher \<Rightarrow> Keylet" where
  "keylet_fees h = \<lparr>kl_type = ltFEE_SETTINGS, kl_key = getLedgerFeeIndex h\<rparr>"

definition keylet_book :: "hasher \<Rightarrow> Book \<Rightarrow> Keylet" where
  "keylet_book h b = \<lparr>kl_type = ltDIR_NODE, kl_key = getBookBase h b\<rparr>"

definition keylet_line :: "hasher \<Rightarrow> uint160 \<Rightarrow> uint160 \<Rightarrow> uint160 \<Rightarrow> Keylet" where
  "keylet_line h id0 id1 cur =
     \<lparr>kl_type = ltSUPPLYFINANCECHAIN_STATE, kl_key = getSupplyFinanceChainStateIndex h id0 id1 cur\<rparr>"

definition keylet_line_issue :: "hasher \<Rightarrow> uint160 \<Rightarrow> Issue \<Rightarrow> Keylet" where
  "keylet_line_issue h acc issue =
     \<lparr>kl_type = ltSUPPLYFINANCECHAIN_STATE, kl_key = getSupplyFinanceChainStateIndex_issue h acc issue\<rparr>"

definition keylet_offer :: "hasher \<Rightarrow> uint160 \<Rightarrow> u32 \<Rightarrow> Keylet" where
  "keylet_offer h acc seq = \<lparr>kl_type = ltOFFER, kl_key = getOfferIndex h acc seq\<rparr>"

definition keylet_quality :: "Keylet \<Rightarrow> u64 \<Rightarrow> Keylet" where
  "keylet_quality k q = \<lparr>kl_type = ltDIR_NODE, kl_key = getQualityIndex (kl_key k) q\<rparr>"

definition keylet_next :: "Keylet \<Rightarrow> Keylet" where
  "keylet_next k = \<lparr>kl_type = ltDIR_NODE, kl_key = getQualityNext (kl_key k)\<rparr>"

definition keylet_ticket :: "hasher \<Rightarrow> uint160 \<Rightarrow> u32 \<Rightarrow> Keylet" where
  "keylet_ticket h acc seq = \<lparr>kl_type = ltTICKET, kl_key = getTicketIndex h acc seq\<rparr>"

definition keylet_signers :: "hasher \<Rightarrow> uint160 \<Rightarrow> Keylet" where
  "keylet_signers h acc = \<lparr>kl_type = ltSIGNER_LIST, kl_key = getSignerListIndex h acc\<rparr>"

definition keylet_check :: "hasher \<Rightarrow> uint160 \<Rightarrow> u32 \<Rightarrow> Keylet" where
  "keylet_check h acc seq = \<lparr>kl_type = ltCHECK, kl_key = getCheckIndex h acc seq\<rparr>"

definition keylet_depositPreauth :: "hasher \<Rightarrow> uint160 \<Rightarrow> uint160 \<Rightarrow> Keylet" where
  "keylet_depositPreauth h owner preauthorized =
     \<lparr>kl_type = ltDEPOSIT_PREAUTH, kl_key = getDepositPreauthIndex h owner preauthorized\<rparr>"

definition keylet_unchecked :: "uint256 \<Rightarrow> Keylet" where
  "keylet_unchecked key = \<lparr>kl_type = ltANY, kl_key = key\<rparr>"

definition keylet_ownerDir :: "hasher \<Rightarrow> uint160 \<Rightarrow> Keylet" where
  "keylet_ownerDir h acc = \<lparr>kl_type = ltDIR_NODE, kl_key = getOwnerDirIndex h acc\<rparr>"

definition keylet_page :: "hasher \<Rightarrow> uint256 \<Rightarrow> u64 \<Rightarrow> Keylet" where
  "keylet_page h key index = \<lparr>kl_type = ltDIR_NODE, kl_key = getDirNodeIndex h key index\<rparr>"

definition keylet_escrow :: "hasher \<Rightarrow> uint160 \<Rightarrow> u32 \<Rightarrow> Keylet" where
  "keylet_escrow h source seq = \<lparr>kl_type = ltESCROW, kl_key = h (space spaceEscrow @ source @ be_bytes seq)\<rparr>"

definition keylet_payChan :: "hasher \<Rightarrow> uint160 \<Rightarrow> uint160 \<Rightarrow> u32 \<Rightarrow> Keylet" where
  "keylet_payChan h source dst seq =
     \<lparr>kl_type = ltPAYCHAN, kl_key = h (space spaceSFCUChannel @ source @ dst @ be_bytes seq)\<rparr>"

section \<open>Lemmas\<close>

lemma length_be_bytes [simp]: "length (be_bytes w) = 4" "length (be_bytes64 v) = 8"
  by (simp_all add: be_bytes_def be_bytes64_def)

lemma be_bytes_nonempty [simp]: "be_bytes w \<noteq> []" "[] \<noteq> be_bytes w"
  by (simp_all add: be_bytes_def)

text \<open>What identifies an entry, other than a directory page and an order book, and what is hashed for it.\<close>

datatype entry_id =
    Id_account uint160 | Id_skip | Id_skip_of u32 | Id_amendments | Id_fees | Id_line uint160 uint160 uint160
  | Id_offer uint160 u32 | Id_ticket uint160 u32 | Id_signers uint160 | Id_check uint160 u32
  | Id_depositPreauth uint160 uint160 | Id_ownerDir uint160 | Id_escrow uint160 u32 | Id_payChan uint160 uint160 u32

fun entry_keylet :: "hasher \<Rightarrow> entry_id \<Rightarrow> Keylet" where
  "entry_keylet h (Id_account a) = keylet_account h a"
| "entry_keylet h Id_skip = keylet_skip h"
| "entry_keylet h (Id_skip_of n) = keylet_skip_of h n"
| "entry_keylet h Id_amendments = keylet_amendments h"
| "entry_keylet h Id_fees = keylet_fees h"
| "entry_keylet h (Id_line a b c) = keylet_line h a b c"
| "entry_keylet h (Id_offer a n) = keylet_offer h a n"
| "entry_keylet h (Id_ticket a n) = keylet_ticket h a n"
| "entry_keylet h (Id_signers a) = keylet_signers h a"
| "entry_keylet h (Id_check a n) = keylet_check h a n"
| "entry_keylet h (Id_depositPreauth a b) = keylet_depositPreauth h a b"
| "entry_keylet h (Id_ownerDir a) = keylet_ownerDir h a"
| "entry_keylet h (Id_escrow a n) = keylet_escrow h a n"
| "entry_keylet h (Id_payChan a b n) = keylet_payChan h a b n"

fun entry_bytes :: "entry_id \<Rightarrow> Blob" where
  "entry_bytes (Id_account a) = space spaceAccount @ a"
| "entry_bytes Id_skip = space spaceSkipList"
| "entry_bytes (Id_skip_of n) = space spaceSkipList @ be_bytes (drop_bit 16 n)"
| "entry_bytes Id_amendments = space spaceAmendment"
| "entry_bytes Id_fees = space spaceFee"
| "entry_bytes (Id_line a b c) = space spaceSupplyFinanceChain @ (if uint160_less a b then a @ b else b @ a) @ c"
| "entry_bytes (Id_offer a n) = space spaceOffer @ a @ be_bytes n"
| "entry_bytes (Id_ticket a n) = space spaceTicket @ a @ be_bytes n"
| "entry_bytes (Id_signers a) = space spaceSignerList @ a @ be_bytes 0"
| "entry_bytes (Id_check a n) = space spaceCheck @ a @ be_bytes n"
| "entry_bytes (Id_depositPreauth a b) = space spaceDepositPreauth @ a @ b"
| "entry_bytes (Id_ownerDir a) = space spaceOwnerDir @ a"
| "entry_bytes (Id_escrow a n) = space spaceEscrow @ a @ be_bytes n"
| "entry_bytes (Id_payChan a b n) = space spaceSFCUChannel @ a @ b @ be_bytes n"

lemmas keylet_defs = keylet_account_def keylet_skip_def keylet_skip_of_def keylet_amendments_def keylet_fees_def
  keylet_line_def keylet_offer_def keylet_ticket_def keylet_signers_def keylet_check_def keylet_depositPreauth_def
  keylet_ownerDir_def keylet_escrow_def keylet_payChan_def
lemmas index_defs = getLedgerHashIndex_def getLedgerHashIndex_of_def getLedgerAmendmentIndex_def getLedgerFeeIndex_def
  getAccountRootIndex_def getOfferIndex_def getOwnerDirIndex_def getTicketIndex_def
  getSupplyFinanceChainStateIndex_def getSignerListIndex_def getCheckIndex_def getDepositPreauthIndex_def

lemma entry_keylet_key: "kl_key (entry_keylet h x) = h (entry_bytes x)"
  by (cases x) (simp_all add: keylet_defs index_defs)

text \<open>Two names of the same entry: a trust line has two ends, and an old skip list covers 65536 ledgers.\<close>

fun same_entry :: "entry_id \<Rightarrow> entry_id \<Rightarrow> bool" where
  "same_entry (Id_line a b c) (Id_line a' b' c') \<longleftrightarrow> c = c' \<and> (a = a' \<and> b = b' \<or> a = b' \<and> b = a')"
| "same_entry (Id_skip_of n) (Id_skip_of m) \<longleftrightarrow> drop_bit 16 n = drop_bit 16 m"
| "same_entry x y \<longleftrightarrow> x = y"

fun ids_ok :: "entry_id \<Rightarrow> bool" where
  "ids_ok (Id_account a) \<longleftrightarrow> length a = 20"
| "ids_ok (Id_line a b c) \<longleftrightarrow> length a = 20 \<and> length b = 20 \<and> length c = 20"
| "ids_ok (Id_offer a n) \<longleftrightarrow> length a = 20"
| "ids_ok (Id_ticket a n) \<longleftrightarrow> length a = 20"
| "ids_ok (Id_signers a) \<longleftrightarrow> length a = 20"
| "ids_ok (Id_check a n) \<longleftrightarrow> length a = 20"
| "ids_ok (Id_depositPreauth a b) \<longleftrightarrow> length a = 20 \<and> length b = 20"
| "ids_ok (Id_ownerDir a) \<longleftrightarrow> length a = 20"
| "ids_ok (Id_escrow a n) \<longleftrightarrow> length a = 20"
| "ids_ok (Id_payChan a b n) \<longleftrightarrow> length a = 20 \<and> length b = 20"
| "ids_ok _ \<longleftrightarrow> True"

lemma uint160_less_asym: "uint160_less a b \<Longrightarrow> \<not> uint160_less b a"
  by (induction a b rule: uint160_less.induct) (auto split: if_splits)

lemma uint160_less_total: "length a = length b \<Longrightarrow> a = b \<or> uint160_less a b \<or> uint160_less b a"
  by (induction a b rule: list_induct2) auto

lemma entry_bytes_same:
  assumes "ids_ok x" and "ids_ok y"
  shows "entry_bytes x = entry_bytes y \<longleftrightarrow> same_entry x y"
proof (cases "\<exists>a b c a' b' c'. x = Id_line a b c \<and> y = Id_line a' b' c'")
  case True
  then obtain a b c a' b' c' where xy: "x = Id_line a b c" "y = Id_line a' b' c'" by blast
  have l: "length a = 20" "length b = 20" "length a' = 20" "length b' = 20" using assms by (auto simp: xy)
  then have "a = b \<or> uint160_less a b \<or> uint160_less b a" "a' = b' \<or> uint160_less a' b' \<or> uint160_less b' a'"
    using uint160_less_total by auto
  then show ?thesis using l uint160_less_asym by (auto simp: xy space_values be_bytes_inj)
next
  case False
  then show ?thesis using assms
    by (cases x; cases y) (auto simp: space_values be_bytes_inj)
qed

section \<open>Qualities\<close>

lemma getQualityIndex_bits: "getQualityIndex b q = (b AND NOT (mask 64)) OR ucast q"
proof (rule bit_word_eqI)
  fix n assume "n < LENGTH(256)"
  then have n: "n < 256" by simp
  let ?bs = "take 24 (uint256_bytes b) @ be_bytes64 q"
  have l: "length ?bs = 32" by simp
  have k: "n = 8 * (n div 8) + n mod 8" "n mod 8 < 8" "n div 8 < 32" using n by auto
  show "bit (getQualityIndex b q) n = bit ((b AND NOT (mask 64)) OR ucast q) n"
  proof (cases "n < 64")
    case True
    then have d: "n div 8 < 8" "\<not> 31 - n div 8 < 24" "31 - n div 8 - 24 = 7 - n div 8" "7 - n div 8 < 8"
        "56 - 8 * (7 - n div 8) = 8 * (n div 8)" by auto
    then have "?bs ! (31 - n div 8) = be_bytes64 q ! (7 - n div 8)" by (simp add: nth_append)
    also have "\<dots> = ucast (drop_bit (8 * (n div 8)) q)" using d by (simp add: be_bytes64_def del: upt_rec_numeral)
    finally have "bit (?bs ! (31 - n div 8)) (n mod 8) = bit q n" using k by (auto simp: bit_simps)
    then show ?thesis using True l n by (auto simp: getQualityIndex_def bit_of_bytes bit_simps)
  next
    case False
    then have d: "31 - n div 8 < 24" by auto
    then have "?bs ! (31 - n div 8) = uint256_bytes b ! (31 - n div 8)" by (simp add: nth_append)
    also have "\<dots> = ucast (drop_bit (8 * (n div 8)) b)" using d k(3) by (simp add: uint256_bytes_nth diff_mult_distrib2)
    finally have "bit (?bs ! (31 - n div 8)) (n mod 8) = bit b n" using k by (auto simp: bit_simps)
    moreover have "\<not> bit q n" using False bit_imp_le_length[of q n] by auto
    ultimately show ?thesis using False l n by (auto simp: getQualityIndex_def bit_of_bytes bit_simps)
  qed
qed


lemma getQuality_bits: "getQuality b = ucast b"
proof -
  have "fold (\<lambda>b acc. push_bit 8 acc OR ucast b) (map (\<lambda>i. ucast (drop_bit (248 - 8 * (24 + i)) b) :: u8) [0..<n]) 0
      = (ucast (drop_bit (64 - 8 * n) b AND mask (8 * n)) :: u64)" if "n \<le> 8" for n
    using that
  proof (induction n)
    case 0
    then show ?case by simp
  next
    case (Suc n)
    have "push_bit 8 (ucast (drop_bit (64 - 8 * n) b AND mask (8 * n))) OR ucast (ucast (drop_bit (248 - 8 * (24 + n)) b) :: u8)
      = (ucast (drop_bit (64 - 8 * Suc n) b AND mask (8 * Suc n)) :: u64)"
    proof (rule bit_word_eqI)
      fix i assume "i < LENGTH(64)"
      then show "bit (push_bit 8 (ucast (drop_bit (64 - 8 * n) b AND mask (8 * n)) :: u64) OR ucast (ucast (drop_bit (248 - 8 * (24 + n)) b) :: u8)) i
        = bit (ucast (drop_bit (64 - 8 * Suc n) b AND mask (8 * Suc n)) :: u64) i"
        using Suc.prems by (cases "i < 8") (auto simp: bit_simps)
    qed
    then show ?case using Suc by simp
  qed
  moreover have "drop 24 (uint256_bytes b) = map (\<lambda>i. ucast (drop_bit (248 - 8 * (24 + i)) b)) [0..<8]"
  proof -
    have "[24..<32] = map (\<lambda>i. i + 24) [0..<8]" using map_add_upt[of 24 8] by (simp del: upt_rec_numeral)
    then show ?thesis by (simp add: uint256_bytes_def drop_map comp_def add.commute del: upt_rec_numeral)
  qed
  moreover have "ucast (b AND mask 64) = (ucast b :: u64)" by (rule bit_word_eqI) (auto simp: bit_simps)
  ultimately show ?thesis by (simp add: getQuality_def del: upt_rec_numeral)
qed


text \<open>The directories of a book: numbers from the base on, in the order of the quality.\<close>

lemma unat_getQualityIndex: "unat (getQualityIndex b q) = (unat b div 2 ^ 64) * 2 ^ 64 + unat q"
proof -
  let ?w = "getQualityIndex b q"
  have "drop_bit 64 ?w = drop_bit 64 b" "take_bit 64 ?w = ucast q"
    unfolding getQualityIndex_bits
    by (rule bit_word_eqI; auto simp: bit_simps dest: bit_imp_le_length)+
  moreover have "unat (ucast q :: uint256) = unat q"
    using unsigned_less[of q, where 'a = nat] by (simp add: unsigned_ucast_eq take_bit_nat_eq_self)
  ultimately have "unat (drop_bit 64 ?w) = unat (drop_bit 64 b)" "unat (take_bit 64 ?w) = unat q" by simp_all
  then have "drop_bit 64 (unat ?w) = drop_bit 64 (unat b)" "take_bit 64 (unat ?w) = unat q"
    using unsigned_less[of ?w, where 'a = nat] unsigned_less[of b, where 'a = nat]
    by (simp_all add: unsigned_drop_bit_eq unsigned_take_bit_eq take_bit_nat_eq_self)
  then have "unat ?w div 2 ^ 64 = unat b div 2 ^ 64" "unat ?w mod 2 ^ 64 = unat q"
    unfolding drop_bit_eq_div take_bit_eq_mod by simp_all
  then show ?thesis using div_mult_mod_eq[of "unat ?w" "2 ^ 64"] by simp
qed

lemma getQuality_index: "getQuality (getQualityIndex b q) = q"
  unfolding getQuality_bits getQualityIndex_bits
  by (rule bit_word_eqI) (auto simp: bit_simps)

lemma getQualityIndex_below:
  assumes "unat b mod 2 ^ 64 = 0" and "unat b + 2 ^ 64 < 2 ^ 256"
  shows "getQualityIndex b q < getQualityNext b" and "b \<le> getQualityIndex b q"
proof -
  have b: "(unat b div 2 ^ 64) * 2 ^ 64 = unat b" using div_mult_mod_eq[of "unat b" "2 ^ 64"] assms(1) by arith
  have "unat q < 2 ^ 64" using unsigned_less[of q] by simp
  moreover have "unat (getQualityNext b) = unat b + 2 ^ 64"
    using assms(2) unat_add_lem[of b "0x10000000000000000"] by (simp add: getQualityNext_def)
  ultimately show "getQualityIndex b q < getQualityNext b" "b \<le> getQualityIndex b q"
    using unat_getQualityIndex[of b q] b by (simp_all add: word_less_nat_alt word_le_nat_alt)
qed

lemma getQualityIndex_less: "getQualityIndex b q < getQualityIndex b q' \<longleftrightarrow> q < q'"
  by (simp add: word_less_nat_alt unat_getQualityIndex)

section \<open>Properties\<close>

text \<open>
  C31: Ledger entries do not collide: under a hash function that tells apart what is hashed for two
  entries, their keys are equal exactly if they are the same entry.  The type of the entry and each of
  its components decide the key; only the two ends of a trust line may be exchanged.
\<close>

theorem keylets_distinct:
  assumes "ids_ok x" and "ids_ok y" and "h (entry_bytes x) = h (entry_bytes y) \<Longrightarrow> entry_bytes x = entry_bytes y"
  shows "kl_key (entry_keylet h x) = kl_key (entry_keylet h y) \<longleftrightarrow> same_entry x y"
  unfolding entry_keylet_key using assms entry_bytes_same[OF assms(1,2)] by auto

definition sum_hash :: hasher where
  "sum_hash bs = uint256_of_bytes (take 32 (bs @ replicate 32 0))"

theorem keylets_distinct_witness:
  "kl_key (keylet_offer sum_hash (replicate 20 1) 7) \<noteq> kl_key (keylet_check sum_hash (replicate 20 1) 7)"
proof -
  let ?x = "Id_offer (replicate 20 1) 7" and ?y = "Id_check (replicate 20 1) 7"
  have "sum_hash (entry_bytes ?x) \<noteq> sum_hash (entry_bytes ?y)"
  proof
    assume "sum_hash (entry_bytes ?x) = sum_hash (entry_bytes ?y)"
    then have "uint256_bytes (sum_hash (entry_bytes ?x)) = uint256_bytes (sum_hash (entry_bytes ?y))" by simp
    then show False by (simp add: sum_hash_def space_values)
  qed
  then show ?thesis using keylets_distinct[of ?x ?y sum_hash] by simp
qed

text \<open>
  The quality of an order book directory can be read off its key, and the keys of the directories of
  a book run from the book's base up in the order of their qualities, below the key of the next book.
\<close>

theorem book_quality_order:
  assumes "unat b mod 2 ^ 64 = 0" and "unat b + 2 ^ 64 < 2 ^ 256"
  shows "getQuality (getQualityIndex b q) = q \<and> b \<le> getQualityIndex b q \<and> getQualityIndex b q < getQualityNext b \<and>
    (getQualityIndex b q < getQualityIndex b q' \<longleftrightarrow> q < q')"
  using getQuality_index getQualityIndex_below[OF assms] getQualityIndex_less by blast

theorem book_quality_order_witness:
  "getQuality (getQualityIndex 0x10000000000000000 5) = 5 \<and> getQualityIndex 0x10000000000000000 5 < getQualityIndex 0x10000000000000000 6"
  using book_quality_order[of "0x10000000000000000" 5 6] by simp

end
