(* ===== verification/Ledger.thy ===== *)
theory Ledger
  imports RawTable SHAMapConvert Indexes
begin

text \<open>
  The ledger (\<^verbatim>\<open>app/ledger/Ledger.h\<close>, \<^verbatim>\<open>app/ledger/Ledger.cpp\<close>): its header, its two \<open>SHAMap\<close>s, and the
  operations on its entries and transactions.  An entry is kept in the state map as its serialized
  fields and is constructed from them when it is read; a transaction is kept with its metadata.

  \<open>ledger_ok\<close> is the invariant: both maps are well-formed and every item of the state map is the
  serialization of a valid entry under its own nonzero key.  The lemmas show that a ledger is a
  provider of both view interfaces for the map of its entries.
\<close>

section \<open>State\<close>

record Fees =
  fees_base :: u64
  fees_units :: u32
  fees_reserve :: u32
  fees_increment :: u32

record LedgerInfo =
  li_seq :: u32
  li_parentCloseTime :: u32
  li_hash :: uint256
  li_txHash :: uint256
  li_accountHash :: uint256
  li_parentHash :: uint256
  li_drops :: int
  li_validated :: bool
  li_accepted :: bool
  li_closeFlags :: u32
  li_closeTimeResolution :: u32
  li_closeTime :: u32

record Rules =
  rules_set :: "uint256 set"
  rules_digest :: "uint256 option"
  rules_presets :: "uint256 set"

record Ledger =
  mImmutable :: bool
  txMap :: SHAMap
  stateMap :: SHAMap
  lg_fees :: Fees
  lg_rules :: Rules
  lg_info :: LedgerInfo

abbreviation ledger_drops :: "Ledger \<Rightarrow> int" where
  "ledger_drops l \<equiv> li_drops (lg_info l)"

section \<open>Reading\<close>

definition Ledger_exists :: "Ledger \<Rightarrow> Keylet \<Rightarrow> bool res" where
  "Ledger_exists l k = hasItem (stateMap l) (kl_key k)"

definition Ledger_succ :: "Ledger \<Rightarrow> key256 \<Rightarrow> key256 option \<Rightarrow> key256 option res" where
  "Ledger_succ l key last1 =
     bindE (SHAMap_upper_bound (stateMap l) key) (\<lambda>it.
       Inr (case fst it of
              None \<Rightarrow> None
            | Some item \<Rightarrow>
                if (case last1 of None \<Rightarrow> False | Some e \<Rightarrow> tag item \<ge> e) then None else Some (tag item)))"

definition SLE_of_item :: "SHAMapItem \<Rightarrow> SLE res" where
  "SLE_of_item item = SLE_read (SerialIter_make (item_data item)) (tag item)"

definition Ledger_peek :: "Ledger \<Rightarrow> Keylet \<Rightarrow> SLE option res" where
  "Ledger_peek l k =
     bindE (peekItem (stateMap l) (kl_key k)) (\<lambda>item.
     case item of
       None \<Rightarrow> Inr None
     | Some item \<Rightarrow>
         bindE (SLE_of_item item) (\<lambda>sle. Inr (if \<not> Keylet_check k sle then None else Some sle)))"

definition Ledger_read :: "Ledger \<Rightarrow> Keylet \<Rightarrow> SLE option res" where
  "Ledger_read l k =
     (if kl_key k = 0 then Inr None
      else
        bindE (peekItem (stateMap l) (kl_key k)) (\<lambda>item.
        case item of
          None \<Rightarrow> Inr None
        | Some item \<Rightarrow>
            bindE (SLE_of_item item) (\<lambda>sle. Inr (if \<not> Keylet_check k sle then None else Some sle))))"

text \<open>A loop over a range of entries, each constructed when the iterator is dereferenced.\<close>

partial_function (option) sles_from :: "SHAMap \<Rightarrow> const_iterator \<Rightarrow> SLE list res option" where
  "sles_from m it =
     (case fst it of
        None \<Rightarrow> Some (Inr [])
      | Some item \<Rightarrow>
          (case SLE_of_item item of
             Inl e \<Rightarrow> Some (Inl e)
           | Inr sle \<Rightarrow>
               (case const_iterator_next m it of
                  Inl e \<Rightarrow> Some (Inl e)
                | Inr it \<Rightarrow> Option.bind (sles_from m it) (\<lambda>r. Some (bindE r (\<lambda>sles. Inr (sle # sles)))))))"

definition Ledger_sles :: "Ledger \<Rightarrow> SLE list res" where
  "Ledger_sles l =
     bindE (SHAMap_begin (stateMap l)) (\<lambda>it. bindE (returns (sles_from (stateMap l) it)) (\<lambda>r. r))"

definition Ledger_slesUpperBound :: "Ledger \<Rightarrow> key256 \<Rightarrow> SLE list res" where
  "Ledger_slesUpperBound l key =
     bindE (SHAMap_upper_bound (stateMap l) key) (\<lambda>it. bindE (returns (sles_from (stateMap l) it)) (\<lambda>r. r))"

definition Ledger_digest :: "Ledger \<Rightarrow> key256 \<Rightarrow> uint256 option res" where
  "Ledger_digest l key = bindE (peekItem_hash (stateMap l) key) (\<lambda>r. Inr (map_option snd r))"

definition Ledger_txExists :: "Ledger \<Rightarrow> key256 \<Rightarrow> bool res" where
  "Ledger_txExists l key = hasItem (txMap l) key"

section \<open>Writing\<close>

definition Ledger_rawErase :: "hasher \<Rightarrow> SLE \<Rightarrow> Ledger \<Rightarrow> Ledger res" where
  "Ledger_rawErase h sle l =
     bindE (delItem h (sle_key sle) (stateMap l)) (\<lambda>(b, m).
       if \<not> b then Inl (LogicError ''Ledger::rawErase: key not found'') else Inr (l\<lparr>stateMap := m\<rparr>))"

definition Ledger_rawInsert :: "hasher \<Rightarrow> SLE \<Rightarrow> Ledger \<Rightarrow> Ledger res" where
  "Ledger_rawInsert h sle l =
     bindE (STObject_add True (sle_obj sle) Serializer_empty) (\<lambda>ss.
     bindE (addGiveItem h \<lparr>tag = sle_key sle, item_data = mData ss\<rparr> False False (stateMap l)) (\<lambda>(b, m).
       if \<not> b then Inl (LogicError ''Ledger::rawInsert: key already exists'') else Inr (l\<lparr>stateMap := m\<rparr>)))"

definition Ledger_rawReplace :: "hasher \<Rightarrow> SLE \<Rightarrow> Ledger \<Rightarrow> Ledger res" where
  "Ledger_rawReplace h sle l =
     bindE (STObject_add True (sle_obj sle) Serializer_empty) (\<lambda>ss.
     bindE (updateGiveItem h \<lparr>tag = sle_key sle, item_data = mData ss\<rparr> False False (stateMap l)) (\<lambda>(b, m).
       if \<not> b then Inl (LogicError ''Ledger::rawReplace: key not found'') else Inr (l\<lparr>stateMap := m\<rparr>)))"

definition Ledger_rawDestroySFC :: "int \<Rightarrow> Ledger \<Rightarrow> Ledger res" where
  "Ledger_rawDestroySFC fee l = Inr (l\<lparr>lg_info := (lg_info l)\<lparr>li_drops := li_drops (lg_info l) - fee\<rparr>\<rparr>)"

definition Ledger_rawTxInsert :: "hasher \<Rightarrow> key256 \<Rightarrow> Blob \<Rightarrow> Blob option \<Rightarrow> Ledger \<Rightarrow> Ledger res" where
  "Ledger_rawTxInsert h key txn metaData l =
     bindE (deref metaData) (\<lambda>meta.
     bindE (Serializer_addVL txn Serializer_empty) (\<lambda>(_, s).
     bindE (Serializer_addVL meta s) (\<lambda>(_, s).
     bindE (addGiveItem h \<lparr>tag = key, item_data = mData s\<rparr> True True (txMap l)) (\<lambda>(b, m).
       if \<not> b then Inl (LogicError ''duplicate_tx'') else Inr (l\<lparr>txMap := m\<rparr>)))))"

definition Ledger_addSLE :: "hasher \<Rightarrow> SLE \<Rightarrow> Ledger \<Rightarrow> (bool \<times> Ledger) res" where
  "Ledger_addSLE h sle l =
     bindE (STObject_add True (sle_obj sle) Serializer_empty) (\<lambda>ss.
     bindE (addItem h \<lparr>tag = sle_key sle, item_data = mData ss\<rparr> False False (stateMap l)) (\<lambda>(b, m).
       Inr (b, l\<lparr>stateMap := m\<rparr>)))"

section \<open>The interfaces\<close>

definition Ledger_view :: "Ledger \<Rightarrow> ReadView" where
  "Ledger_view l =
     \<lparr>rv_exists = Ledger_exists l, rv_read = Ledger_read l, rv_succ = Ledger_succ l,
      rv_sles = Ledger_sles l, rv_slesUpperBound = Ledger_slesUpperBound l\<rparr>"

definition Ledger_raw :: "hasher \<Rightarrow> Ledger TxsRawView" where
  "Ledger_raw h =
     \<lparr>rw_erase = Ledger_rawErase h, rw_insert = Ledger_rawInsert h,
      rw_replace = Ledger_rawReplace h, rw_destroySFC = Ledger_rawDestroySFC,
      rw_txInsert = Ledger_rawTxInsert h\<rparr>"

section \<open>The entries of a ledger\<close>

definition entry_of :: "uint256 \<times> TNType \<times> Blob \<Rightarrow> uint256 \<times> SLE" where
  "entry_of = (\<lambda>(k, _, b). (k, projr (SLE_of_item \<lparr>tag = k, item_data = b\<rparr>)))"

definition ledger_map :: "Ledger \<Rightarrow> key256 \<rightharpoonup> SLE" where
  "ledger_map l = map_of (map entry_of (content (stateMap l)))"

text \<open>The bytes of an entry, and the item it is stored as.\<close>

definition sle_bytes :: "SLE \<Rightarrow> Blob" where
  "sle_bytes sle = mData (projr (STObject_add True (sle_obj sle) Serializer_empty))"

definition sle_item :: "SLE \<Rightarrow> SHAMapItem" where
  "sle_item sle = \<lparr>tag = sle_key sle, item_data = sle_bytes sle\<rparr>"

definition state_ok :: "(uint256, TNType \<times> Blob) stdmap \<Rightarrow> bool" where
  "state_ok es \<longleftrightarrow> (\<forall>(k, _, b) \<in> set es. k \<noteq> 0 \<and> (\<exists>sle. SLE_valid sle \<and> sle_key sle = k \<and> sle_bytes sle = b))"

definition ledger_ok :: "hasher \<Rightarrow> Ledger \<Rightarrow> bool" where
  "ledger_ok h l \<longleftrightarrow> sham_inv h tnACCOUNT_STATE (stateMap l) \<and> sham_inv h tnTRANSACTION_MD (txMap l) \<and>
     is_v2 (txMap l) = is_v2 (stateMap l) \<and> state_ok (content (stateMap l))"

lemma SLE_valid_add:
  assumes "SLE_valid sle"
  shows "STObject_add True (sle_obj sle) Serializer_empty = Inr \<lparr>mData = sle_bytes sle\<rparr>"
    and "SLE_of_item (sle_item sle) = Inr sle"
  using SLE_valid_read[OF assms] by (auto simp: sle_bytes_def SLE_of_item_def sle_item_def)

lemma sle_bytes_inj: "SLE_valid a \<Longrightarrow> SLE_valid b \<Longrightarrow> sle_key a = sle_key b \<Longrightarrow> sle_bytes a = sle_bytes b \<Longrightarrow> a = b"
  using SLE_valid_add(2)[of a] SLE_valid_add(2)[of b] by (simp add: sle_item_def)

lemma entry_of_sle: "SLE_valid sle \<Longrightarrow> entry_of (sle_key sle, t, sle_bytes sle) = (sle_key sle, sle)"
  using SLE_valid_add(2)[of sle] by (simp add: entry_of_def sle_item_def)

lemma fst_entry_of [simp]: "fst (entry_of e) = fst e"
  by (simp add: entry_of_def case_prod_unfold)

lemma state_okD:
  assumes "state_ok es" and "(k, t, b) \<in> set es"
  obtains sle where "k \<noteq> 0" and "SLE_valid sle" and "sle_key sle = k" and "sle_bytes sle = b" and "entry_of (k, t, b) = (k, sle)"
  using assms entry_of_sle by (fastforce simp: state_ok_def)


lemma map_of_entry_of: "map_of (map entry_of es) k = map_option (\<lambda>(t, b). snd (entry_of (k, t, b))) (map_of es k)"
  by (induction es) (auto simp: entry_of_def)

lemma entries_wf: "smap_wf (map entry_of es) = smap_wf es"
  by (simp add: smap_wf_def comp_def)

text \<open>The entry found under a key is the one stored there.\<close>

lemma state_ok_find:
  assumes "state_ok es"
  shows "map_of es k = None \<and> map_of (map entry_of es) k = None \<or>
    (\<exists>t sle. map_of es k = Some (t, sle_bytes sle) \<and> map_of (map entry_of es) k = Some sle \<and> SLE_valid sle \<and> sle_key sle = k \<and> k \<noteq> 0)"
proof (cases "map_of es k")
  case None
  then show ?thesis by (simp add: map_of_entry_of)
next
  case (Some e)
  obtain t b where e: "e = (t, b)" by (cases e)
  have "(k, t, b) \<in> set es" using Some e by (simp add: map_of_SomeD)
  from assms this show ?thesis by (rule state_okD) (use Some e in \<open>simp add: map_of_entry_of\<close>)
qed

lemma state_ok_keyed: "state_ok es \<Longrightarrow> keyed (map_of (map entry_of es))"
  unfolding keyed_def using state_ok_find by (metis option.distinct(1) option.inject)

lemma ledger_map_keyed: "ledger_ok h l \<Longrightarrow> keyed (ledger_map l)"
  by (simp add: ledger_ok_def ledger_map_def state_ok_keyed)

lemma ledger_okD:
  assumes "ledger_ok h l"
  shows "sham_ok (stateMap l)" and "sham_ok (txMap l)" and "state_ok (content (stateMap l))" and "smap_wf (content (stateMap l))"
  using assms sham_ok_sorted by (auto simp: ledger_ok_def dest: sham_invD)

lemma peek_item:
  assumes "ledger_ok h l"
  shows "peekItem (stateMap l) k = Inr (map_option sle_item (ledger_map l k))"
    and "ledger_map l k = Some sle \<Longrightarrow> SLE_valid sle \<and> sle_key sle = k \<and> k \<noteq> 0"
    and "ledger_map l k = None \<longleftrightarrow> map_of (content (stateMap l)) k = None"
proof -
  note ok = ledger_okD[OF assms]
  note f = state_ok_find[OF ok(3), of k, folded ledger_map_def]
  show "ledger_map l k = None \<longleftrightarrow> map_of (content (stateMap l)) k = None" using f by auto
  show "peekItem (stateMap l) k = Inr (map_option sle_item (ledger_map l k))"
    using f peekItem_content[OF ok(1), of k] by (auto simp: sle_item_def)
  show "SLE_valid sle \<and> sle_key sle = k \<and> k \<noteq> 0" if "ledger_map l k = Some sle" using f that by auto
qed

lemma Ledger_read_map:
  assumes "ledger_ok h l"
  shows "Ledger_peek l k = Inr (read_map (ledger_map l) k)" and "Ledger_read l k = Inr (read_map (ledger_map l) k)"
proof -
  note p = peek_item(1)[OF assms, of "kl_key k"] and v = peek_item(2)[OF assms, of "kl_key k"]
  show peek: "Ledger_peek l k = Inr (read_map (ledger_map l) k)"
    using p v by (cases "ledger_map l (kl_key k)") (simp_all add: Ledger_peek_def read_map_def SLE_valid_add)
  have "ledger_map l 0 = None" using ledger_map_keyed[OF assms] by (simp add: keyed_def)
  then show "Ledger_read l k = Inr (read_map (ledger_map l) k)"
    using peek by (simp add: Ledger_read_def Ledger_peek_def read_map_def)
qed

lemma sles_stands:
  "stands m es it \<Longrightarrow> state_ok es \<Longrightarrow> sles_from m it = Some (Inr (map (snd \<circ> entry_of) es))"
proof (induction es arbitrary: it)
  case Nil
  then show ?case using stands_item[OF Nil(1)] by (simp add: sles_from.simps)
next
  case (Cons e es)
  obtain k t b where e: "e = (k, t, b)" by (cases e)
  obtain sle where sle: "SLE_valid sle" "sle_key sle = k" "sle_bytes sle = b" "entry_of e = (k, sle)"
    using state_okD[OF Cons.prems(2), of k t b] by (auto simp: e)
  obtain it' where it': "const_iterator_next m it = Inr it'" "stands m es it'" using next_stands[OF Cons.prems(1)] by blast
  have "fst it = Some (sle_item sle)" using stands_item[OF Cons.prems(1)] sle by (simp add: e item_of_def sle_item_def)
  moreover have "state_ok es" using Cons.prems(2) by (simp add: state_ok_def)
  ultimately show ?case using Cons.IH[OF it'(2)] it'(1) SLE_valid_add(2)[OF sle(1)] sle(4)
    by (subst sles_from.simps) simp
qed

lemma sles_of_entries:
  assumes "smap_wf es" and "state_ok es"
  shows "sles_of (map_of (map entry_of es)) = map (snd \<circ> entry_of) es"
  using sles_of_smap[of "map entry_of es"] assms state_ok_keyed by (simp add: entries_wf)

lemma state_ok_upper: "smap_wf es \<Longrightarrow> state_ok es \<Longrightarrow> state_ok (smap_upper_bound key es)"
  by (auto simp: state_ok_def smap_upper_bound_filter)

lemma entries_upper: "smap_wf es \<Longrightarrow> map entry_of (smap_upper_bound key es) = smap_upper_bound key (map entry_of es)"
  by (simp add: smap_upper_bound_filter entries_wf filter_map comp_def case_prod_unfold)

interpretation ledger_view: read_view Ledger_view ledger_map "ledger_ok h"
  for h
proof unfold_locales
  fix l key last1 k sle
  assume ok: "ledger_ok h l"
  note D = ledger_okD[OF ok]
  show "keyed (ledger_map l)" by (rule ledger_map_keyed[OF ok])
  show "rv_read (Ledger_view l) k = Inr (read_map (ledger_map l) k)"
    using Ledger_read_map(2)[OF ok] by (simp add: Ledger_view_def)
  show "rv_exists (Ledger_view l) k = Inr False" if "ledger_map l (kl_key k) = None"
    using that peek_item(3)[OF ok] hasItem_content[OF D(1)] by (simp add: Ledger_view_def Ledger_exists_def)
  show "rv_exists (Ledger_view l) k = Inr True" if "ledger_map l (kl_key k) = Some sle"
    using that peek_item(3)[OF ok, of "kl_key k"] hasItem_content[OF D(1), of "kl_key k"]
    by (simp add: Ledger_view_def Ledger_exists_def)
  obtain it where it: "SHAMap_upper_bound (stateMap l) key = Inr it" "stands (stateMap l) (smap_upper_bound key (content (stateMap l))) it"
    using upper_bound_stands[OF D(1)] by blast
  show "rv_succ (Ledger_view l) key last1 = Inr (next_key (dom (ledger_map l)) key last1)"
  proof -
    have "smap_wf (map entry_of (content (stateMap l)))" using D(4) by (simp add: entries_wf)
    from next_key_upper_bound[OF this, of key last1]
    have "next_key (dom (ledger_map l)) key last1 =
        (case smap_upper_bound key (content (stateMap l)) of [] \<Rightarrow> None
         | e # _ \<Rightarrow> if (case last1 of None \<Rightarrow> False | Some x \<Rightarrow> x \<le> fst e) then None else Some (fst e))"
      unfolding ledger_map_def entries_upper[OF D(4), symmetric]
      by (cases "smap_upper_bound key (content (stateMap l))"; cases last1) (simp_all add: case_prod_unfold)
    then show ?thesis using it(1) stands_item[OF it(2)]
      by (cases "smap_upper_bound key (content (stateMap l))"; cases last1)
        (simp_all add: Ledger_view_def Ledger_succ_def item_of_def)
  qed
  show "rv_slesUpperBound (Ledger_view l) key = Inr (sles_of (ledger_map l |` {key<..}))"
    using it(1) sles_stands[OF it(2) state_ok_upper[OF D(4,3)]] sles_of_entries[OF _ state_ok_upper[OF D(4,3)], of key] D(4)
      map_of_upper_bound[of "map entry_of (content (stateMap l))" key]
    by (simp add: Ledger_view_def Ledger_slesUpperBound_def ledger_map_def entries_upper entries_wf)
  obtain it0 where it0: "SHAMap_begin (stateMap l) = Inr it0" "stands (stateMap l) (content (stateMap l)) it0"
    using begin_stands[OF D(1)] by blast
  show "rv_sles (Ledger_view l) = Inr (sles_of (ledger_map l))"
    using it0(1) sles_stands[OF it0(2) D(3)] sles_of_entries[OF D(4,3)]
    by (simp add: Ledger_view_def Ledger_sles_def ledger_map_def)
qed


section \<open>Changing entries\<close>

text \<open>
  An update is noticed by its hash, so a ledger can only take entries whose bytes the hash function
  tells apart from those of every entry it may have under the same key.
\<close>

definition tells_apart :: "hasher \<Rightarrow> SLE set \<Rightarrow> bool" where
  "tells_apart h U \<longleftrightarrow> (\<forall>a \<in> U. \<forall>b \<in> U. sle_key a = sle_key b \<longrightarrow>
     h (leaf_bytes tnACCOUNT_STATE (sle_item a)) = h (leaf_bytes tnACCOUNT_STATE (sle_item b)) \<longrightarrow>
     sle_bytes a = sle_bytes b)"

definition ledger_in :: "hasher \<Rightarrow> SLE set \<Rightarrow> Ledger \<Rightarrow> bool" where
  "ledger_in h U l \<longleftrightarrow> ledger_ok h l \<and> tells_apart h U \<and> ran (ledger_map l) \<subseteq> U"

lemma state_tn: "tn_type False False = tnACCOUNT_STATE" "tn_type True True = tnTRANSACTION_MD"
  by (simp_all add: tn_type_def)

text \<open>The state map after an entry is set or removed.\<close>

lemma state_set:
  assumes "ledger_ok h l" and "sham_inv h tnACCOUNT_STATE m" and "is_v2 m = is_v2 (stateMap l)"
    and "content m = smap_set (sle_key sle) (tnACCOUNT_STATE, sle_bytes sle) (content (stateMap l))"
    and "SLE_valid sle" and "sle_key sle \<noteq> 0"
  shows "ledger_ok h (l\<lparr>stateMap := m\<rparr>)" and "ledger_map (l\<lparr>stateMap := m\<rparr>) = (ledger_map l)(sle_key sle \<mapsto> sle)"
proof -
  have "state_ok (content m)"
    using ledger_okD(3,4)[OF assms(1)] assms(5,6) unfolding assms(4) state_ok_def by (auto simp: smap_set_set)
  then show "ledger_ok h (l\<lparr>stateMap := m\<rparr>)" using assms(1-3) by (simp add: ledger_ok_def)
  have "ledger_map (l\<lparr>stateMap := m\<rparr>) k = ((ledger_map l)(sle_key sle \<mapsto> sle)) k" for k
    using entry_of_sle[OF assms(5)] by (simp add: ledger_map_def map_of_entry_of assms(4) smap_find_set)
  then show "ledger_map (l\<lparr>stateMap := m\<rparr>) = (ledger_map l)(sle_key sle \<mapsto> sle)" ..
qed

lemma state_erase:
  assumes "ledger_ok h l" and "sham_inv h tnACCOUNT_STATE m" and "is_v2 m = is_v2 (stateMap l)"
    and "content m = smap_erase k (content (stateMap l))"
  shows "ledger_ok h (l\<lparr>stateMap := m\<rparr>)" and "ledger_map (l\<lparr>stateMap := m\<rparr>) = (ledger_map l)(k := None)"
proof -
  have "state_ok (content m)"
    using ledger_okD(3,4)[OF assms(1)] unfolding assms(4) state_ok_def by (auto simp: smap_erase_set)
  then show "ledger_ok h (l\<lparr>stateMap := m\<rparr>)" using assms(1-3) by (simp add: ledger_ok_def)
  have "ledger_map (l\<lparr>stateMap := m\<rparr>) k' = ((ledger_map l)(k := None)) k'" for k'
    by (simp add: ledger_map_def map_of_entry_of assms(4) smap_simps)
  then show "ledger_map (l\<lparr>stateMap := m\<rparr>) = (ledger_map l)(k := None)" ..
qed

lemma rawInsert_ok:
  assumes "ledger_ok h l" and "SLE_valid sle" and "sle_key sle \<noteq> 0" and "ledger_map l (sle_key sle) = None"
  shows "\<exists>m. Ledger_rawInsert h sle l = Inr (l\<lparr>stateMap := m\<rparr>) \<and> ledger_ok h (l\<lparr>stateMap := m\<rparr>) \<and>
    ledger_map (l\<lparr>stateMap := m\<rparr>) = (ledger_map l)(sle_key sle \<mapsto> sle) \<and> is_v2 m = is_v2 (stateMap l)"
proof -
  have inv: "sham_inv h tnACCOUNT_STATE (stateMap l)" using assms(1) by (simp add: ledger_ok_def)
  have none: "map_of (content (stateMap l)) (tag (sle_item sle)) = None"
    using assms(4) peek_item(3)[OF assms(1)] by (simp add: sle_item_def)
  obtain m where m: "addGiveItem h (sle_item sle) False False (stateMap l) = Inr (True, m)" "sham_inv h tnACCOUNT_STATE m"
    "is_v2 m = is_v2 (stateMap l)" "content m = smap_set (sle_key sle) (tnACCOUNT_STATE, sle_bytes sle) (content (stateMap l))"
    using addGiveItem_absent[OF inv state_tn(1) none] by (auto simp: sle_item_def)
  then show ?thesis using state_set[OF assms(1) m(2-4) assms(2,3)] SLE_valid_add(1)[OF assms(2)]
    by (auto simp: Ledger_rawInsert_def sle_item_def)
qed

lemma rawReplace_ok:
  assumes "ledger_in h U l" and "SLE_valid sle" and "sle \<in> U" and "ledger_map l (sle_key sle) \<noteq> None"
  shows "\<exists>m. Ledger_rawReplace h sle l = Inr (l\<lparr>stateMap := m\<rparr>) \<and> ledger_ok h (l\<lparr>stateMap := m\<rparr>) \<and>
    ledger_map (l\<lparr>stateMap := m\<rparr>) = (ledger_map l)(sle_key sle \<mapsto> sle) \<and> is_v2 m = is_v2 (stateMap l)"
proof -
  have ok: "ledger_ok h l" using assms(1) by (simp add: ledger_in_def)
  have inv: "sham_inv h tnACCOUNT_STATE (stateMap l)" using ok by (simp add: ledger_ok_def)
  obtain old where old: "ledger_map l (sle_key sle) = Some old" using assms(4) by blast
  note o = peek_item(2)[OF ok old]
  have some: "map_of (content (stateMap l)) (tag (sle_item sle)) \<noteq> None"
    using assms(4) peek_item(3)[OF ok] by (simp add: sle_item_def)
  have "b = sle_bytes old" if "(sle_key sle, t, b) \<in> set (content (stateMap l))" for t b
  proof -
    have "map_of (content (stateMap l)) (sle_key sle) = Some (t, b)"
      using that smap_find_Some[OF ledger_okD(4)[OF ok]] by simp
    then show ?thesis using state_ok_find[OF ledger_okD(3)[OF ok], of "sle_key sle"] old by (auto simp: ledger_map_def)
  qed
  moreover have "sle_item old = \<lparr>tag = sle_key sle, item_data = sle_bytes old\<rparr>" using o by (simp add: sle_item_def)
  moreover have "old \<in> U" using old assms(1) by (auto simp: ledger_in_def ran_def)
  ultimately have "no_collision h tnACCOUNT_STATE (stateMap l) (sle_item sle)"
    using assms(1,3) o unfolding ledger_in_def tells_apart_def no_collision_def sle_item_def by auto
  from updateGiveItem_present[OF inv state_tn(1) some this]
  obtain m where m: "updateGiveItem h (sle_item sle) False False (stateMap l) = Inr (True, m)" "sham_inv h tnACCOUNT_STATE m"
    "is_v2 m = is_v2 (stateMap l)" "content m = smap_set (sle_key sle) (tnACCOUNT_STATE, sle_bytes sle) (content (stateMap l))"
    by (auto simp: sle_item_def)
  then show ?thesis using state_set[OF ok m(2-4) assms(2)] o SLE_valid_add(1)[OF assms(2)]
    by (auto simp: Ledger_rawReplace_def sle_item_def)
qed

lemma rawErase_ok:
  assumes "ledger_ok h l" and "ledger_map l (sle_key sle) \<noteq> None"
  shows "\<exists>m. Ledger_rawErase h sle l = Inr (l\<lparr>stateMap := m\<rparr>) \<and> ledger_ok h (l\<lparr>stateMap := m\<rparr>) \<and>
    ledger_map (l\<lparr>stateMap := m\<rparr>) = (ledger_map l)(sle_key sle := None) \<and> is_v2 m = is_v2 (stateMap l)"
proof -
  have inv: "sham_inv h tnACCOUNT_STATE (stateMap l)" using assms(1) by (simp add: ledger_ok_def)
  have some: "map_of (content (stateMap l)) (sle_key sle) \<noteq> None" using assms(2) peek_item(3)[OF assms(1)] by simp
  obtain m where m: "delItem h (sle_key sle) (stateMap l) = Inr (True, m)" "sham_inv h tnACCOUNT_STATE m"
    "is_v2 m = is_v2 (stateMap l)" "content m = smap_erase (sle_key sle) (content (stateMap l))"
    using delItem_present[OF inv some] by auto
  then show ?thesis using state_erase[OF assms(1) m(2-4)] by (auto simp: Ledger_rawErase_def)
qed

lemma drops_ok [simp]:
  "ledger_ok h (lg_info_update f l) = ledger_ok h l" "ledger_map (lg_info_update f l) = ledger_map l"
  "ledger_ok h (lg_fees_update f2 l) = ledger_ok h l" "ledger_map (lg_fees_update f2 l) = ledger_map l"
  "ledger_ok h (lg_rules_update f3 l) = ledger_ok h l" "ledger_map (lg_rules_update f3 l) = ledger_map l"
  "ledger_ok h (mImmutable_update f4 l) = ledger_ok h l" "ledger_map (mImmutable_update f4 l) = ledger_map l"
  by (simp_all add: ledger_ok_def ledger_map_def)

lemma ran_update: "ran M \<subseteq> U \<Longrightarrow> x \<in> U \<Longrightarrow> ran (M(k \<mapsto> x)) \<subseteq> U"
  by (auto simp: ran_def)

lemma ran_delete: "ran M \<subseteq> U \<Longrightarrow> ran (M(k := None)) \<subseteq> U"
  by (auto simp: ran_def)

definition storable :: "SLE set \<Rightarrow> SLE \<Rightarrow> bool" where
  "storable U sle \<longleftrightarrow> SLE_valid sle \<and> sle \<in> U"

interpretation ledger_raw: raw_view "Ledger_raw h" ledger_map "\<lambda>l. - ledger_drops l" "ledger_in h U" "storable U"
  for h U
proof unfold_locales
  fix l sle fee
  assume ok: "ledger_in h U l"
  then have ok': "ledger_ok h l" "tells_apart h U" "ran (ledger_map l) \<subseteq> U" by (simp_all add: ledger_in_def)
  show "\<exists>l'. rw_insert (Ledger_raw h) sle l = Inr l' \<and> ledger_in h U l' \<and>
      ledger_map l' = (ledger_map l)(sle_key sle \<mapsto> sle) \<and> - ledger_drops l' = - ledger_drops l"
    if "storable U sle" "sle_key sle \<noteq> 0" "ledger_map l (sle_key sle) = None"
    using rawInsert_ok[OF ok'(1) _ that(2,3)] that(1) ok' ran_update[OF ok'(3)]
    by (auto simp: Ledger_raw_def ledger_in_def storable_def)
  show "\<exists>l'. rw_replace (Ledger_raw h) sle l = Inr l' \<and> ledger_in h U l' \<and>
      ledger_map l' = (ledger_map l)(sle_key sle \<mapsto> sle) \<and> - ledger_drops l' = - ledger_drops l"
    if "storable U sle" "ledger_map l (sle_key sle) \<noteq> None"
    using rawReplace_ok[OF ok _ _ that(2)] that(1) ok' ran_update[OF ok'(3)]
    by (auto simp: Ledger_raw_def ledger_in_def storable_def)
  show "\<exists>l'. rw_erase (Ledger_raw h) sle l = Inr l' \<and> ledger_in h U l' \<and>
      ledger_map l' = (ledger_map l)(sle_key sle := None) \<and> - ledger_drops l' = - ledger_drops l"
    if "ledger_map l (sle_key sle) \<noteq> None"
    using rawErase_ok[OF ok'(1) that] ok' ran_delete[OF ok'(3)] by (auto simp: Ledger_raw_def ledger_in_def)
  show "\<exists>l'. rw_destroySFC (Ledger_raw h) fee l = Inr l' \<and> ledger_in h U l' \<and> ledger_map l' = ledger_map l \<and>
      - ledger_drops l' = - ledger_drops l + fee"
    using ok by (auto simp: Ledger_raw_def Ledger_rawDestroySFC_def ledger_in_def)
qed

end
