(* ===== verification/Commit.thy ===== *)
theory Commit
  imports Ledger
begin

text \<open>
  An open view over a ledger and its application to the ledger: what \<^verbatim>\<open>OpenView::apply\<close> does to the maps
  of the ledger.  The properties of this theory are those of the composition: the table, its iterator,
  the interfaces, the serialization of the entries and the \<open>SHAMap\<close>s below.
\<close>

interpretation open_ledger: read_view "\<lambda>(l, v). OpenView_view (Ledger_view l) v"
  "\<lambda>(l, v). open_abs (ledger_map l) v" "\<lambda>(l, v). ledger_ok h l \<and> open_ok (ledger_map l) v"
  for h
  by (rule ledger_view.open_view)

section \<open>Transactions\<close>

fun txs_fit :: "(key256, TNType \<times> Blob) stdmap \<Rightarrow> (key256, Blob \<times> Blob option) stdmap \<Rightarrow> bool" where
  "txs_fit m [] \<longleftrightarrow> True"
| "txs_fit m ((key, txn, metaData) # txs) \<longleftrightarrow>
     smap_find key m = None \<and> key \<notin> fst ` set txs \<and> length txn \<le> 918744 \<and>
     (\<exists>meta. metaData = Some meta \<and> length meta \<le> 918744) \<and> txs_fit m txs"

lemma txs_fit_set: "txs_fit m txs \<Longrightarrow> key \<notin> fst ` set txs \<Longrightarrow> txs_fit (smap_set key x m) txs"
  by (induction m txs rule: txs_fit.induct) (auto simp: smap_find_set)

definition tx_item :: "key256 \<times> Blob \<times> Blob option \<Rightarrow> SHAMapItem" where
  "tx_item = (\<lambda>(key, txn, metaData).
     \<lparr>tag = key, item_data = encoding Serializer_addVL txn @ encoding Serializer_addVL (the metaData)\<rparr>)"

lemma tag_tx_item [simp]: "tag (tx_item (key, x)) = key"
  by (simp add: tx_item_def case_prod_unfold)

lemma rawTxInsert_ok:
  assumes ok: "ledger_ok h l" and "smap_find key (content (txMap l)) = None" and "length txn \<le> 918744" and "length meta \<le> 918744"
  shows "\<exists>m. Ledger_rawTxInsert h key txn (Some meta) l = Inr (l\<lparr>txMap := m\<rparr>) \<and> ledger_ok h (l\<lparr>txMap := m\<rparr>) \<and>
    content m = smap_set key (tnTRANSACTION_MD, item_data (tx_item (key, txn, Some meta))) (content (txMap l))"
proof -
  let ?i = "tx_item (key, txn, Some meta)"
  have inv: "sham_inv h tnTRANSACTION_MD (txMap l)" using ok by (simp add: ledger_ok_def)
  have "map_of (content (txMap l)) (tag ?i) = None" using assms(2) by simp
  from addGiveItem_absent[OF inv state_tn(2) this]
  obtain m where m: "addGiveItem h ?i True True (txMap l) = Inr (True, m)" "sham_inv h tnTRANSACTION_MD m"
    "is_v2 m = is_v2 (txMap l)" "content m = smap_set key (tnTRANSACTION_MD, item_data ?i) (content (txMap l))"
    by auto
  have "Ledger_rawTxInsert h key txn (Some meta) l = Inr (l\<lparr>txMap := m\<rparr>)"
    using m(1) assms(3,4) by (simp add: Ledger_rawTxInsert_def addVL_appends push_bytes_def Serializer_empty_def tx_item_def)
  moreover have "ledger_ok h (l\<lparr>txMap := m\<rparr>)" using ok m(2,3) by (simp add: ledger_ok_def)
  ultimately show ?thesis using m(4) by blast
qed

lemma tx_inserts:
  assumes "ledger_ok h l" and "txs_fit (content (txMap l)) txs"
  shows "\<exists>l'. forE (\<lambda>(key, txn, metaData). rw_txInsert (Ledger_raw h) key txn metaData) txs l = Inr l' \<and>
    ledger_ok h l' \<and> stateMap l' = stateMap l \<and> lg_info l' = lg_info l \<and>
    (\<forall>key. smap_find key (content (txMap l')) =
       (case map_of txs key of None \<Rightarrow> smap_find key (content (txMap l))
        | Some x \<Rightarrow> Some (tnTRANSACTION_MD, item_data (tx_item (key, x)))))"
  using assms
proof (induction txs arbitrary: l)
  case (Cons item txs)
  obtain key txn metaData where item: "item = (key, txn, metaData)" by (cases item) auto
  obtain meta where meta: "metaData = Some meta" "length meta \<le> 918744"
    and fit: "smap_find key (content (txMap l)) = None" "length txn \<le> 918744" "key \<notin> fst ` set txs" "txs_fit (content (txMap l)) txs"
    using Cons.prems(2) by (auto simp: item)
  obtain m where m: "Ledger_rawTxInsert h key txn (Some meta) l = Inr (l\<lparr>txMap := m\<rparr>)" "ledger_ok h (l\<lparr>txMap := m\<rparr>)"
    "content m = smap_set key (tnTRANSACTION_MD, item_data (tx_item (key, txn, Some meta))) (content (txMap l))"
    using rawTxInsert_ok[OF Cons.prems(1) fit(1,2) meta(2)] by blast
  have "txs_fit (content m) txs" unfolding m(3) by (rule txs_fit_set[OF fit(4,3)])
  then obtain l' where l': "forE (\<lambda>(key, txn, metaData). rw_txInsert (Ledger_raw h) key txn metaData) txs (l\<lparr>txMap := m\<rparr>) = Inr l'"
    "ledger_ok h l'" "stateMap l' = stateMap l" "lg_info l' = lg_info l"
    "\<forall>k. smap_find k (content (txMap l')) = (case map_of txs k of None \<Rightarrow> smap_find k (content m)
        | Some x \<Rightarrow> Some (tnTRANSACTION_MD, item_data (tx_item (k, x))))"
    using Cons.IH[OF m(2)] by (auto cong: option.case_cong)
  have "map_of txs key = None" using fit(3) by (simp add: map_of_eq_None_iff)
  then have "\<forall>k. smap_find k (content (txMap l')) = (case map_of (item # txs) k of None \<Rightarrow> smap_find k (content (txMap l))
        | Some x \<Rightarrow> Some (tnTRANSACTION_MD, item_data (tx_item (k, x))))"
    using l'(5) by (auto simp: item meta m(3) smap_find_set split: option.split)
  moreover have "forE (\<lambda>(key, txn, metaData). rw_txInsert (Ledger_raw h) key txn metaData) (item # txs) l = Inr l'"
    using m(1) l'(1) by (simp add: item meta Ledger_raw_def)
  ultimately show ?case using l'(2-4) by blast
qed simp

section \<open>Applying a table to a ledger\<close>

text \<open>What neither the entries nor the transactions of a ledger belong to.\<close>

definition same_frame :: "Ledger \<Rightarrow> Ledger \<Rightarrow> bool" where
  "same_frame l l' \<longleftrightarrow> mImmutable l' = mImmutable l \<and> lg_fees l' = lg_fees l \<and> lg_rules l' = lg_rules l \<and>
     lg_info l' = (lg_info l)\<lparr>li_drops := ledger_drops l'\<rparr>"

lemma same_frame_refl [simp]: "same_frame l l"
  by (simp add: same_frame_def)

lemma same_frame_maps [simp]: "same_frame l (l'\<lparr>stateMap := m\<rparr>) = same_frame l l'" "same_frame l (l'\<lparr>txMap := m\<rparr>) = same_frame l l'"
  by (simp_all add: same_frame_def)

lemma same_frame_drops [simp]: "same_frame l (l\<lparr>lg_info := (lg_info l)\<lparr>li_drops := d\<rparr>\<rparr>)"
  by (simp add: same_frame_def)

lemma Ledger_apply_frame:
  assumes "RawStateTable_apply (Ledger_raw h) t l = Inr l'"
  shows "txMap l' = txMap l \<and> same_frame l l'"
proof -
  obtain l1 where run: "forE (raw_action (Ledger_raw h)) (raw_items t) l1 = Inr l'" and l1: "txMap l1 = txMap l \<and> same_frame l l1"
    using assms by (auto simp: RawStateTable_apply_def Ledger_raw_def Ledger_rawDestroySFC_def)
  then show ?thesis
    by (intro forE_invariant[OF run, where P = "\<lambda>s. txMap s = txMap l \<and> same_frame l s"])
      (auto simp: raw_action_def Ledger_raw_def Ledger_rawErase_def Ledger_rawInsert_def Ledger_rawReplace_def
        elim!: bindE_eq_InrE split: RawAction.splits if_splits)
qed

lemma tx_inserts_frame:
  assumes "forE (\<lambda>(key, txn, metaData). rw_txInsert (Ledger_raw h) key txn metaData) txs l = Inr l'" and "same_frame l0 l"
  shows "same_frame l0 l'"
  using assms(2)
  by (intro forE_invariant[OF assms(1), where P = "same_frame l0"])
    (auto simp: Ledger_raw_def Ledger_rawTxInsert_def elim!: bindE_eq_InrE split: if_splits)

text \<open>A change that does not fit is refused by the ledger.\<close>

lemma raw_action_refused:
  assumes "ledger_in h U l" and "action \<noteq> Raw_erase \<longrightarrow> SLE_valid sle"
    and "\<not> (action = Raw_insert \<longleftrightarrow> ledger_map l (sle_key sle) = None)"
  shows "\<exists>msg. raw_action (Ledger_raw h) (sle_key sle, action, sle) l = Inl (LogicError msg)"
proof -
  have ok: "ledger_ok h l" using assms(1) by (simp add: ledger_in_def)
  note D = ledger_okD(1)[OF ok] and f = peek_item(3)[OF ok, of "sle_key sle"]
  show ?thesis
  proof (cases action)
    case Raw_erase
    then have "map_of (content (stateMap l)) (sle_key sle) = None" using assms(3) f by auto
    from delItem_absent[OF D this] Raw_erase show ?thesis by (simp add: raw_action_def Ledger_raw_def Ledger_rawErase_def)
  next
    case Raw_insert
    then show ?thesis using assms(2,3) f addGiveItem_present[OF D, of "sle_item sle"] SLE_valid_add(1)[of sle]
      by (simp add: raw_action_def Ledger_raw_def Ledger_rawInsert_def sle_item_def)
  next
    case Raw_replace
    then have "map_of (content (stateMap l)) (tag (sle_item sle)) = None" using assms(3) f by (auto simp: sle_item_def)
    from updateGiveItem_absent[OF D this] Raw_replace show ?thesis using assms(2) SLE_valid_add(1)[of sle]
      by (simp add: raw_action_def Ledger_raw_def Ledger_rawReplace_def sle_item_def)
  qed
qed

lemma raw_action_taken:
  assumes "ledger_in h U l" and "action \<noteq> Raw_erase \<longrightarrow> storable U sle" and "sle_key sle \<noteq> 0"
    and "action = Raw_insert \<longleftrightarrow> ledger_map l (sle_key sle) = None"
  shows "\<exists>l'. raw_action (Ledger_raw h) (sle_key sle, action, sle) l = Inr l' \<and> ledger_in h U l' \<and>
    ledger_map l' = (ledger_map l)(sle_key sle := if action = Raw_erase then None else Some sle)"
  using assms ledger_raw.insert_ok[OF assms(1) _ assms(3)] ledger_raw.replace_ok[OF assms(1), of sle] ledger_raw.erase_ok[OF assms(1), of sle]
  by (cases action) (auto simp: raw_action_def)

lemma run_items_refused:
  "ledger_in h U l \<Longrightarrow> items_keyed items \<Longrightarrow> items_storable (storable U) items \<Longrightarrow> \<not> items_fit (ledger_map l) items \<Longrightarrow>
     \<exists>msg. forE (raw_action (Ledger_raw h)) items l = Inl (LogicError msg)"
proof (induction items arbitrary: l)
  case (Cons item items)
  obtain action sle where item: "item = (sle_key sle, action, sle)" "sle_key sle \<noteq> 0" "items_keyed items"
    using Cons.prems(2) by (cases item) (auto simp: items_keyed_def)
  have new: "sle_key sle \<notin> fst ` set items" using Cons.prems(2) unfolding item(1) items_keyed_def by force
  have st: "action \<noteq> Raw_erase \<longrightarrow> storable U sle" "items_storable (storable U) items"
    using Cons.prems(3) by (auto simp: item items_storable_def)
  show ?case
  proof (cases "action = Raw_insert \<longleftrightarrow> ledger_map l (sle_key sle) = None")
    case True
    obtain l1 where l1: "raw_action (Ledger_raw h) item l = Inr l1" "ledger_in h U l1"
        "ledger_map l1 = (ledger_map l)(sle_key sle := if action = Raw_erase then None else Some sle)"
      using raw_action_taken[OF Cons.prems(1) st(1) item(2) True] item(1) by blast
    have "\<not> items_fit (ledger_map l) items" using Cons.prems(4) True unfolding items_fit_def item(1) by simp
    then have "\<not> items_fit (ledger_map l1) items" using items_fit_update[OF new] unfolding l1(3) by simp
    then show ?thesis using Cons.IH[OF l1(2) item(3) st(2)] l1(1) by simp
  next
    case False
    then show ?thesis using raw_action_refused[OF Cons.prems(1) _ False] st(1) item(1) by (auto simp: storable_def)
  qed
qed (simp add: items_fit_def)

section \<open>Properties\<close>

text \<open>
  The entries a ledger and a table hold, which the hash function must tell apart where they have the
  same key.
\<close>

definition entries_of :: "Ledger \<Rightarrow> raw_items_t \<Rightarrow> SLE set" where
  "entries_of l items = ran (ledger_map l) \<union> {sle. \<exists>k action. (k, action, sle) \<in> set items}"

definition items_valid :: "raw_items_t \<Rightarrow> bool" where
  "items_valid items \<longleftrightarrow> list_all (\<lambda>(_, action, sle). action \<noteq> Raw_erase \<longrightarrow> SLE_valid sle) items"

lemma items_valid_storable: "items_valid items \<Longrightarrow> items_storable (storable (entries_of l items)) items"
  by (fastforce simp: items_valid_def items_storable_def storable_def entries_of_def list_all_iff)

lemma commit_ok:
  assumes "ledger_ok h l" and "open_ok (ledger_map l) v" and "txs_fit (content (txMap l)) (ov_txs v)"
    and "items_valid (raw_items (ov_items v))" and "tells_apart h (entries_of l (raw_items (ov_items v)))"
  shows "\<exists>l'. OpenView_apply (Ledger_raw h) v l = Inr l' \<and> ledger_ok h l' \<and> same_frame l l' \<and>
    ledger_map l' = open_abs (ledger_map l) v \<and> ledger_drops l' = ledger_drops l - raw_dropsDestroyed (ov_items v) \<and>
    (\<forall>key. smap_find key (content (txMap l')) = (case map_of (ov_txs v) key of None \<Rightarrow> smap_find key (content (txMap l))
        | Some x \<Rightarrow> Some (tnTRANSACTION_MD, item_data (tx_item (key, x)))))"
proof -
  let ?U = "entries_of l (raw_items (ov_items v))"
  have l_in: "ledger_in h ?U l" using assms(1,5) by (auto simp: ledger_in_def entries_of_def)
  have "raw_ok (ledger_map l) (raw_items (ov_items v))" using assms(2) by (simp add: open_ok_def)
  from ledger_raw.raw_table_applied[OF l_in this items_valid_storable[OF assms(4)]]
  obtain l1 where l1: "RawStateTable_apply (Ledger_raw h) (ov_items v) l = Inr l1" "ledger_in h ?U l1"
    "ledger_map l1 = open_abs (ledger_map l) v" "ledger_drops l1 = ledger_drops l - raw_dropsDestroyed (ov_items v)"
    by (auto simp: open_abs_def)
  have ok1: "ledger_ok h l1" using l1(2) by (simp add: ledger_in_def)
  note f1 = Ledger_apply_frame[OF l1(1)]
  have "txs_fit (content (txMap l1)) (ov_txs v)" using assms(3) f1 by simp
  from tx_inserts[OF ok1 this]
  obtain l' where run: "forE (\<lambda>(key, txn, metaData). rw_txInsert (Ledger_raw h) key txn metaData) (ov_txs v) l1 = Inr l'"
    and l': "ledger_ok h l'" "stateMap l' = stateMap l1" "lg_info l' = lg_info l1"
    "\<forall>key. smap_find key (content (txMap l')) = (case map_of (ov_txs v) key of None \<Rightarrow> smap_find key (content (txMap l))
        | Some x \<Rightarrow> Some (tnTRANSACTION_MD, item_data (tx_item (key, x))))"
    using f1 by (auto cong: option.case_cong)
  have "OpenView_apply (Ledger_raw h) v l = Inr l'" using l1(1) run by (simp add: OpenView_apply_def)
  moreover have "same_frame l l'" using tx_inserts_frame[OF run] f1 by blast
  moreover have "ledger_map l' = open_abs (ledger_map l) v" using l1(3) l'(2) by (simp add: ledger_map_def)
  ultimately show ?thesis using l' l1(4) by (simp cong: option.case_cong)
qed

text \<open>
  C3: Committing an open view to the ledger it was opened on gives, and without any error, the ledger
  that the open view showed: the same entry for every keylet, the same range of entries, each
  transaction of the view with its metadata, and the drops destroyed in the view deducted once.  The
  entries of the view must be valid and the hash function must tell the entries of a key apart.
\<close>

theorem OpenView_commit:
  assumes "ledger_ok h l" and "open_ok (ledger_map l) v" and "txs_fit (content (txMap l)) (ov_txs v)"
    and "items_valid (raw_items (ov_items v))" and "tells_apart h (entries_of l (raw_items (ov_items v)))"
  shows "\<exists>l'. OpenView_apply (Ledger_raw h) v l = Inr l' \<and> ledger_ok h l' \<and>
    (\<forall>k. Ledger_read l' k = rv_read (OpenView_view (Ledger_view l) v) k) \<and>
    Ledger_sles l' = rv_sles (OpenView_view (Ledger_view l) v) \<and>
    (\<forall>key. Ledger_txExists l' key = Inr (OpenView_txExists v key \<or> Ledger_txExists l key = Inr True)) \<and>
    (\<forall>key x. smap_find key (ov_txs v) = Some x \<longrightarrow> peekItem (txMap l') key = Inr (Some (tx_item (key, x)))) \<and>
    ledger_drops l' = ledger_drops l - raw_dropsDestroyed (ov_items v)"
proof -
  obtain l' where l': "OpenView_apply (Ledger_raw h) v l = Inr l'" "ledger_ok h l'" "ledger_map l' = open_abs (ledger_map l) v"
    "ledger_drops l' = ledger_drops l - raw_dropsDestroyed (ov_items v)"
    and find: "\<And>key. smap_find key (content (txMap l')) = (case map_of (ov_txs v) key of None \<Rightarrow> smap_find key (content (txMap l))
        | Some x \<Rightarrow> Some (tnTRANSACTION_MD, item_data (tx_item (key, x))))"
    using commit_ok[OF assms] by (auto cong: option.case_cong)
  have tx: "Ledger_txExists l' key = Inr (OpenView_txExists v key \<or> Ledger_txExists l key = Inr True)" for key
    using hasItem_content[OF ledger_okD(2)[OF l'(2)], of key] hasItem_content[OF ledger_okD(2)[OF assms(1)], of key] find[of key]
    by (auto simp: Ledger_txExists_def OpenView_txExists_def split: option.splits)
  have "peekItem (txMap l') key = Inr (Some (tx_item (key, x)))" if "smap_find key (ov_txs v) = Some x" for key x
    using peekItem_content[OF ledger_okD(2)[OF l'(2)], of key] find[of key] that by (simp add: tx_item_def case_prod_unfold)
  moreover have "Ledger_read l' k = rv_read (OpenView_view (Ledger_view l) v) k" for k
    using Ledger_read_map(2)[OF l'(2)] open_ledger.read[of h "(l, v)" k] assms(1,2) l'(3) by simp
  moreover have "Ledger_sles l' = rv_sles (OpenView_view (Ledger_view l) v)"
    using ledger_view.sles[OF l'(2)] open_ledger.sles[of h "(l, v)"] assms(1,2) l'(3) by (simp add: Ledger_view_def)
  ultimately show ?thesis using l' tx by auto
qed

text \<open>
  C35: The invariants that the raw table does not check itself are all checked when it is applied.  On any
  ledger, a table of valid entries stored under their own nonzero keys is applied without error exactly
  if it inserts only keys the ledger does not have and erases or replaces only keys it has; otherwise
  the application stops with a logic error.
\<close>

theorem RawStateTable_apply_checks:
  assumes "ledger_ok h l" and "items_keyed (raw_items t)" and "items_valid (raw_items t)" and "tells_apart h (entries_of l (raw_items t))"
  shows "if items_fit (ledger_map l) (raw_items t)
    then \<exists>l'. RawStateTable_apply (Ledger_raw h) t l = Inr l' \<and> ledger_ok h l' \<and>
      ledger_map l' = raw_overlay (raw_items t) (ledger_map l)
    else \<exists>msg. RawStateTable_apply (Ledger_raw h) t l = Inl (LogicError msg)"
proof -
  let ?U = "entries_of l (raw_items t)"
  have l_in: "ledger_in h ?U l" using assms(1,4) by (auto simp: ledger_in_def entries_of_def)
  note st = items_valid_storable[OF assms(3), of l]
  show ?thesis
  proof (cases "items_fit (ledger_map l) (raw_items t)")
    case True
    then show ?thesis using ledger_raw.raw_table_applied[OF l_in _ st] assms(2) by (auto simp: raw_ok_items ledger_in_def)
  next
    case False
    let ?l = "l\<lparr>lg_info := (lg_info l)\<lparr>li_drops := li_drops (lg_info l) - raw_dropsDestroyed t\<rparr>\<rparr>"
    have "ledger_in h ?U ?l" using l_in by (simp add: ledger_in_def)
    then show ?thesis using run_items_refused[of h ?U ?l "raw_items t"] assms(2) st False
      by (simp add: RawStateTable_apply_def Ledger_raw_def Ledger_rawDestroySFC_def)
  qed
qed


definition example_entry :: "key256 \<Rightarrow> SLE" where
  "example_entry k = projr (SLE_make \<lparr>kl_type = ltCHECK, kl_key = k\<rparr>)"

lemma example_entry_valid: "SLE_valid (example_entry k)" "sle_key (example_entry k) = k" "sle_type (example_entry k) = ltCHECK"
  using SLE_make_valid[of "\<lparr>kl_type = ltCHECK, kl_key = k\<rparr>"] check_format by (auto simp: example_entry_def)

definition empty_info :: LedgerInfo where
  "empty_info = \<lparr>li_seq = 1, li_parentCloseTime = 0, li_hash = 0, li_txHash = 0, li_accountHash = 0, li_parentHash = 0,
     li_drops = 100, li_validated = False, li_accepted = False, li_closeFlags = 0, li_closeTimeResolution = 30, li_closeTime = 0\<rparr>"

definition empty_ledger :: Ledger where
  "empty_ledger = \<lparr>mImmutable = False, txMap = SHAMap_new False, stateMap = SHAMap_new False,
     lg_fees = \<lparr>fees_base = 10, fees_units = 10, fees_reserve = 0, fees_increment = 0\<rparr>,
     lg_rules = \<lparr>rules_set = {}, rules_digest = None, rules_presets = {}\<rparr>, lg_info = empty_info\<rparr>"

lemma empty_ledger_ok: "ledger_ok h empty_ledger" "ledger_map empty_ledger = Map.empty"
  using SHAMap_new_at[of h tnACCOUNT_STATE False] SHAMap_new_at[of h tnTRANSACTION_MD False]
  by (simp_all add: ledger_ok_def ledger_map_def empty_ledger_def sham_at_def state_ok_def SHAMap_new_content)

definition example_ledger :: Ledger where
  "example_ledger = projr (bindE (Ledger_rawInsert example_hash (example_entry 1) empty_ledger)
     (Ledger_rawInsert example_hash (example_entry 7)))"

lemma example_ledger_ok:
  "ledger_ok example_hash example_ledger" "ledger_map example_ledger = [1 \<mapsto> example_entry 1, 7 \<mapsto> example_entry 7]"
  "content (txMap example_ledger) = []" "ledger_drops example_ledger = 100"
proof -
  obtain m where m: "Ledger_rawInsert example_hash (example_entry 1) empty_ledger = Inr (empty_ledger\<lparr>stateMap := m\<rparr>)"
    "ledger_ok example_hash (empty_ledger\<lparr>stateMap := m\<rparr>)" "ledger_map (empty_ledger\<lparr>stateMap := m\<rparr>) = [1 \<mapsto> example_entry 1]"
    using rawInsert_ok[OF empty_ledger_ok(1), of "example_entry 1" example_hash] example_entry_valid by (auto simp: empty_ledger_ok)
  obtain m' where "Ledger_rawInsert example_hash (example_entry 7) (empty_ledger\<lparr>stateMap := m\<rparr>) = Inr (empty_ledger\<lparr>stateMap := m'\<rparr>)"
    "ledger_ok example_hash (empty_ledger\<lparr>stateMap := m'\<rparr>)" "ledger_map (empty_ledger\<lparr>stateMap := m'\<rparr>) = [1 \<mapsto> example_entry 1, 7 \<mapsto> example_entry 7]"
    using rawInsert_ok[OF m(2), of "example_entry 7"] example_entry_valid m(3) by auto
  then show "ledger_ok example_hash example_ledger" "ledger_map example_ledger = [1 \<mapsto> example_entry 1, 7 \<mapsto> example_entry 7]"
    "content (txMap example_ledger) = []" "ledger_drops example_ledger = 100"
    using m(1) by (simp_all add: example_ledger_def empty_ledger_def empty_info_def SHAMap_new_content)
qed

definition example_open :: OpenView where
  "example_open = \<lparr>ov_items = \<lparr>raw_items = [(1, Raw_erase, example_entry 1), (2, Raw_insert, example_entry 2)],
     raw_dropsDestroyed = 10\<rparr>, ov_txs = [(5, [1], Some [2])]\<rparr>"

lemma example_apart: "items \<subseteq> {example_entry 1, example_entry 2, example_entry 7} \<Longrightarrow> tells_apart h items"
proof -
  assume i: "items \<subseteq> {example_entry 1, example_entry 2, example_entry 7}"
  have "sle = example_entry (sle_key sle)" if "sle \<in> items" for sle using that i by (auto simp: example_entry_valid)
  then show ?thesis unfolding tells_apart_def by metis
qed

lemma example_ok:
  "open_ok (ledger_map example_ledger) example_open" "txs_fit (content (txMap example_ledger)) (ov_txs example_open)"
  "items_valid (raw_items (ov_items example_open))"
  "tells_apart example_hash (entries_of example_ledger (raw_items (ov_items example_open)))"
proof -
  show "open_ok (ledger_map example_ledger) example_open"
    using ledger_map_keyed[OF example_ledger_ok(1)] unfolding open_ok_def raw_ok_items
    by (simp add: items_keyed_def items_fit_def example_open_def example_ledger_ok(2) example_entry_valid)
  show "txs_fit (content (txMap example_ledger)) (ov_txs example_open)"
    by (simp add: example_ledger_ok(3) example_open_def)
  show "items_valid (raw_items (ov_items example_open))"
    by (simp add: items_valid_def example_open_def example_entry_valid)
  show "tells_apart example_hash (entries_of example_ledger (raw_items (ov_items example_open)))"
    by (rule example_apart) (auto simp: entries_of_def example_ledger_ok(2) example_open_def ran_def split: if_splits)
qed

theorem OpenView_commit_witness:
  "\<exists>l'. OpenView_apply (Ledger_raw example_hash) example_open example_ledger = Inr l' \<and> ledger_drops l' = 90 \<and>
     Ledger_txExists l' 5 = Inr True"
  using OpenView_commit[OF example_ledger_ok(1) example_ok]
  by (auto simp: example_ledger_ok example_open_def OpenView_txExists_def)

theorem RawStateTable_apply_checks_witness:
  "\<exists>msg. RawStateTable_apply (Ledger_raw example_hash)
     \<lparr>raw_items = [(1, Raw_insert, example_entry 1)], raw_dropsDestroyed = 0\<rparr> example_ledger = Inl (LogicError msg)"
proof -
  let ?t = "\<lparr>raw_items = [(1, Raw_insert, example_entry 1)], raw_dropsDestroyed = 0\<rparr>"
  have "tells_apart example_hash (entries_of example_ledger (raw_items ?t))"
    by (rule example_apart) (auto simp: entries_of_def example_ledger_ok(2) ran_def split: if_splits)
  then show ?thesis using RawStateTable_apply_checks[OF example_ledger_ok(1), of ?t]
    by (simp add: items_keyed_def items_valid_def items_fit_def example_entry_valid example_ledger_ok(2))
qed

text \<open>
  C10: Over any view that meets the contract of a read view, an open view reads as the base map with
  its table laid over it: the entry for every keylet, the successor of every key within any bound
  (the search in the base ends), and the iterator's range, which is the entries of the overlaid
  map in key order, without a null entry.
\<close>

theorem OpenView_overlay:
  assumes "read_view view M ok" and "ok s" and "open_ok (M s) v"
  shows "rv_read (OpenView_view (view s) v) k = Inr (read_map (open_abs (M s) v) k) \<and>
    rv_succ (OpenView_view (view s) v) key last1 = Inr (next_key (dom (open_abs (M s) v)) key last1) \<and>
    rv_sles (OpenView_view (view s) v) = Inr (sles_of (open_abs (M s) v)) \<and>
    rv_slesUpperBound (OpenView_view (view s) v) key = Inr (sles_of (open_abs (M s) v |` {key<..}))"
proof -
  note V = read_view.open_view[OF assms(1)]
  show ?thesis
    using read_view.read[OF V, of "(s, v)" k] read_view.succ[OF V, of "(s, v)" key last1]
      read_view.sles[OF V, of "(s, v)"] read_view.slesUpperBound[OF V, of "(s, v)" key] assms(2,3)
    by simp
qed

theorem OpenView_overlay_witness:
  "rv_read (OpenView_view (Ledger_view example_ledger) example_open) \<lparr>kl_type = ltCHECK, kl_key = 2\<rparr> = Inr (Some (example_entry 2)) \<and>
   rv_read (OpenView_view (Ledger_view example_ledger) example_open) \<lparr>kl_type = ltCHECK, kl_key = 1\<rparr> = Inr None"
proof -
  have V: "read_view Ledger_view ledger_map (ledger_ok example_hash)" by unfold_locales
  show ?thesis
    using OpenView_overlay[OF V example_ledger_ok(1) example_ok(1), of "\<lparr>kl_type = ltCHECK, kl_key = 2\<rparr>" 0 None]
      OpenView_overlay[OF V example_ledger_ok(1) example_ok(1), of "\<lparr>kl_type = ltCHECK, kl_key = 1\<rparr>" 0 None]
    by (simp add: open_abs_def example_open_def raw_overlay_def read_map_def Keylet_check_def example_entry_valid)
qed

end
