(* ===== verification/LedgerHeader.thy ===== *)
theory LedgerHeader
  imports Commit
begin

text \<open>
  The ledger header: close times (\<^verbatim>\<open>consensus/LedgerTiming.h\<close>), its serialized form
  (\<^verbatim>\<open>ledger/impl/View.cpp\<close>, \<^verbatim>\<open>app/ledger/impl/InboundLedger.cpp\<close>) and the hash of a ledger
  (\<^verbatim>\<open>app/ledger/Ledger.cpp\<close>).  Times and durations are 32-bit numbers of seconds and wrap around.
\<close>

section \<open>Close times\<close>

definition ledgerPossibleTimeResolutions :: "u32 list" where
  "ledgerPossibleTimeResolutions = [10, 20, 30, 60, 90, 120]"

definition ledgerDefaultTimeResolution :: u32 where
  "ledgerDefaultTimeResolution = ledgerPossibleTimeResolutions ! 2"

definition increaseLedgerTimeResolutionEvery :: u32 where
  "increaseLedgerTimeResolutionEvery = 8"

definition decreaseLedgerTimeResolutionEvery :: u32 where
  "decreaseLedgerTimeResolutionEvery = 1"

definition getNextLedgerTimeResolution :: "u32 \<Rightarrow> bool \<Rightarrow> u32 \<Rightarrow> u32" where
  "getNextLedgerTimeResolution previousResolution previousAgree ledgerSeq =
     (case find (\<lambda>i. ledgerPossibleTimeResolutions ! i = previousResolution) [0..<length ledgerPossibleTimeResolutions] of
        None \<Rightarrow> previousResolution
      | Some iter \<Rightarrow>
          if \<not> previousAgree \<and> ledgerSeq mod decreaseLedgerTimeResolutionEvery = 0 \<and>
             iter + 1 \<noteq> length ledgerPossibleTimeResolutions
          then ledgerPossibleTimeResolutions ! (iter + 1)
          else if previousAgree \<and> ledgerSeq mod increaseLedgerTimeResolutionEvery = 0 \<and> iter \<noteq> 0
          then ledgerPossibleTimeResolutions ! (iter - 1)
          else previousResolution)"

definition roundCloseTime :: "u32 \<Rightarrow> u32 \<Rightarrow> u32" where
  "roundCloseTime closeTime closeResolution =
     (if closeTime = 0 then closeTime
      else
        let closeTime = closeTime + closeResolution div 2
        in closeTime - closeTime mod closeResolution)"

definition effCloseTime :: "u32 \<Rightarrow> u32 \<Rightarrow> u32 \<Rightarrow> u32" where
  "effCloseTime closeTime resolution priorCloseTime =
     (if closeTime = 0 then closeTime
      else max (roundCloseTime closeTime resolution) (priorCloseTime + 1))"

section \<open>Flags, serialized form and hash\<close>

definition sLCF_NoConsensusTime :: u32 where
  "sLCF_NoConsensusTime = 0x01"

definition sLCF_SHAMapV2 :: u32 where
  "sLCF_SHAMapV2 = 0x02"

definition getCloseAgree :: "LedgerInfo \<Rightarrow> bool" where
  "getCloseAgree info \<longleftrightarrow> li_closeFlags info AND sLCF_NoConsensusTime = 0"

definition getSHAMapV2 :: "LedgerInfo \<Rightarrow> bool" where
  "getSHAMapV2 info \<longleftrightarrow> li_closeFlags info AND sLCF_SHAMapV2 \<noteq> 0"

definition addRaw_info :: "LedgerInfo \<Rightarrow> Serializer \<Rightarrow> Serializer" where
  "addRaw_info info s =
     (let s = snd (Serializer_add32 (li_seq info) s);
          s = snd (Serializer_add64 (word_of_int (li_drops info)) s);
          s = add256 (li_parentHash info) s;
          s = add256 (li_txHash info) s;
          s = add256 (li_accountHash info) s;
          s = snd (Serializer_add32 (li_parentCloseTime info) s);
          s = snd (Serializer_add32 (li_closeTime info) s);
          s = snd (Serializer_add8 (ucast (li_closeTimeResolution info)) s)
      in snd (Serializer_add8 (ucast (li_closeFlags info)) s))"

definition LedgerInfo_new :: LedgerInfo where
  "LedgerInfo_new = \<lparr>li_seq = 0, li_parentCloseTime = 0, li_hash = 0, li_txHash = 0, li_accountHash = 0,
     li_parentHash = 0, li_drops = 0, li_validated = False, li_accepted = False, li_closeFlags = 0,
     li_closeTimeResolution = 0, li_closeTime = 0\<rparr>"

definition sit_get256 :: "SerialIter \<Rightarrow> (uint256 \<times> SerialIter) res" where
  "sit_get256 sit = bindE (SerialIter_getBitString 256 sit) (\<lambda>(b, sit). Inr (uint256_of_bytes b, sit))"

definition read_header :: "SerialIter \<Rightarrow> (LedgerInfo \<times> SerialIter) res" where
  "read_header sit =
     bindE (SerialIter_get32 sit) (\<lambda>(seq, sit).
     bindE (SerialIter_get64 sit) (\<lambda>(drops, sit).
     bindE (sit_get256 sit) (\<lambda>(parentHash, sit).
     bindE (sit_get256 sit) (\<lambda>(txHash, sit).
     bindE (sit_get256 sit) (\<lambda>(accountHash, sit).
     bindE (SerialIter_get32 sit) (\<lambda>(parentCloseTime, sit).
     bindE (SerialIter_get32 sit) (\<lambda>(closeTime, sit).
     bindE (SerialIter_get8 sit) (\<lambda>(closeTimeResolution, sit).
     bindE (SerialIter_get8 sit) (\<lambda>(closeFlags, sit).
       Inr (LedgerInfo_new\<lparr>li_seq := seq, li_drops := sint drops, li_parentHash := parentHash, li_txHash := txHash,
         li_accountHash := accountHash, li_parentCloseTime := parentCloseTime, li_closeTime := closeTime,
         li_closeTimeResolution := ucast closeTimeResolution, li_closeFlags := ucast closeFlags\<rparr>, sit))))))))))"

definition deserializeHeader :: "Blob \<Rightarrow> bool \<Rightarrow> LedgerInfo res" where
  "deserializeHeader data hasPrefix =
     (let sit = SerialIter_make data in
      bindE (if hasPrefix then bindE (SerialIter_get32 sit) (\<lambda>(_, sit). Inr sit) else Inr sit) (\<lambda>sit.
      bindE (read_header sit) (\<lambda>(info, _). Inr info)))"

definition HashPrefix_ledgerMaster :: u32 where
  "HashPrefix_ledgerMaster = HashPrefix_make CHR ''L'' CHR ''W'' CHR ''R''"

definition calculateLedgerHash :: "hasher \<Rightarrow> LedgerInfo \<Rightarrow> uint256" where
  "calculateLedgerHash h info =
     h (be_bytes HashPrefix_ledgerMaster @
        be_bytes (li_seq info) @
        be_bytes64 (word_of_int (li_drops info)) @
        uint256_bytes (li_parentHash info) @
        uint256_bytes (li_txHash info) @
        uint256_bytes (li_accountHash info) @
        be_bytes (li_parentCloseTime info) @
        be_bytes (li_closeTime info) @
        [ucast (li_closeTimeResolution info)] @
        [ucast (li_closeFlags info)])"

section \<open>Lemmas\<close>

lemma mData_add64 [simp]: "mData (snd (Serializer_add64 w s)) = mData s @ be_bytes64 w"
  by (simp add: Serializer_add64_def push_bytes_def be_bytes64_def ucast_and_ff upt_rec)

text \<open>The bytes of a header.\<close>

definition header_bytes :: "LedgerInfo \<Rightarrow> Blob" where
  "header_bytes info = mData (addRaw_info info Serializer_empty)"

lemma header_bytes_parts:
  "header_bytes info = be_bytes (li_seq info) @ be_bytes64 (word_of_int (li_drops info)) @ uint256_bytes (li_parentHash info) @
     uint256_bytes (li_txHash info) @ uint256_bytes (li_accountHash info) @ be_bytes (li_parentCloseTime info) @
     be_bytes (li_closeTime info) @ [ucast (li_closeTimeResolution info)] @ [ucast (li_closeFlags info)]"
  by (simp add: header_bytes_def addRaw_info_def Let_def)

lemma addRaw_appends: "mData (addRaw_info info s) = mData s @ header_bytes info"
  unfolding header_bytes_parts by (simp add: addRaw_info_def Let_def)

lemma calculateLedgerHash_bytes: "calculateLedgerHash h info = h (be_bytes HashPrefix_ledgerMaster @ header_bytes info)"
  unfolding header_bytes_parts by (simp add: calculateLedgerHash_def)


lemma encoding_bytes:
  "encoding (pure_add Serializer_add32) i = be_bytes i" "encoding (pure_add Serializer_add64) j = be_bytes64 j"
  by (simp_all add: encoding_pure)

lemma reads_get256: "reads sit_get256 (uint256_bytes x) x"
proof -
  have "reads (\<lambda>it. bindE (SerialIter_getBitString 256 it) (\<lambda>(b, it). Inr (uint256_of_bytes b, it))) (uint256_bytes x @ []) x"
    by (rule reads_bind[OF reads_getBitString]) (simp_all add: reads_return)
  then show ?thesis by (simp add: sit_get256_def[abs_def])
qed

text \<open>What a header keeps of a ledger's information on the wire.\<close>

definition wire_info :: "LedgerInfo \<Rightarrow> LedgerInfo" where
  "wire_info info = info\<lparr>li_hash := 0, li_validated := False, li_accepted := False, li_drops := sint (word_of_int (li_drops info) :: u64),
     li_closeTimeResolution := ucast (ucast (li_closeTimeResolution info) :: u8),
     li_closeFlags := ucast (ucast (li_closeFlags info) :: u8)\<rparr>"

lemma reads_header: "reads read_header (header_bytes info) (wire_info info)"
proof -
  note r32 = reads_get32[unfolded encoding_bytes] and r64 = reads_get64[unfolded encoding_bytes]
  have e: "wire_info info = LedgerInfo_new\<lparr>li_seq := li_seq info, li_drops := sint (word_of_int (li_drops info) :: u64),
      li_parentHash := li_parentHash info, li_txHash := li_txHash info, li_accountHash := li_accountHash info,
      li_parentCloseTime := li_parentCloseTime info, li_closeTime := li_closeTime info,
      li_closeTimeResolution := ucast (ucast (li_closeTimeResolution info) :: u8), li_closeFlags := ucast (ucast (li_closeFlags info) :: u8)\<rparr>"
    by (cases info) (simp add: wire_info_def LedgerInfo_new_def)
  have b: "header_bytes info = be_bytes (li_seq info) @ be_bytes64 (word_of_int (li_drops info)) @ uint256_bytes (li_parentHash info) @
     uint256_bytes (li_txHash info) @ uint256_bytes (li_accountHash info) @ be_bytes (li_parentCloseTime info) @
     be_bytes (li_closeTime info) @ [ucast (li_closeTimeResolution info)] @ [ucast (li_closeFlags info)] @ []"
    by (simp add: header_bytes_parts)
  show ?thesis unfolding read_header_def[abs_def] b e
    by (intro reads_bind[OF r32] reads_bind[OF r64] reads_bind[OF reads_get256] reads_bind[OF reads_get8] reads_return)
qed


lemma reads_all: "reads get bs x \<Longrightarrow> get (SerialIter_make bs) = Inr (x, SerialIter_advance (length bs) (SerialIter_make bs))"
  unfolding reads_def using iter_wf_make unread_make by (metis append_Nil2)

lemma deserializeHeader_bytes:
  "deserializeHeader (header_bytes info) False = Inr (wire_info info)"
  "deserializeHeader (be_bytes w @ header_bytes info) True = Inr (wire_info info)"
proof -
  show "deserializeHeader (header_bytes info) False = Inr (wire_info info)"
    using reads_all[OF reads_header] by (simp add: deserializeHeader_def)
  have "reads (\<lambda>it. bindE (SerialIter_get32 it) (\<lambda>(_, it). read_header it)) (be_bytes w @ header_bytes info) (wire_info info)"
    using reads_bind[OF reads_get32[of w, unfolded encoding_bytes] reads_header] .
  from reads_all[OF this] show "deserializeHeader (be_bytes w @ header_bytes info) True = Inr (wire_info info)"
    by (auto simp: deserializeHeader_def bindE_def split: sum.splits prod.splits)
qed

lemma wire_info_same:
  assumes "- (2 ^ 63) \<le> li_drops info" and "li_drops info < 2 ^ 63" and "li_closeTimeResolution info < 256" and "li_closeFlags info < 256"
  shows "wire_info info = info\<lparr>li_hash := 0, li_validated := False, li_accepted := False\<rparr>"
proof -
  have "sint (word_of_int (li_drops info) :: u64) = li_drops info"
    using assms(1,2) unfolding sint_sbintrunc' by (intro signed_take_bit_int_eq_self) simp_all
  moreover have "ucast (ucast w :: u8) = w" if "w < 256" for w :: u32
    using that by (simp add: word_less_alt word_uint_eq_iff take_bit_int_eq_self unsigned_take_bit_eq unsigned_ucast_eq)
  ultimately show ?thesis using assms(3,4) by (simp add: wire_info_def)
qed


section \<open>Properties\<close>

text \<open>
  C27: The header of a ledger is read back from its serialized form, with and without the prefix, as it
  was written, and the ledger hash is the hash of exactly the prefixed form.
\<close>

theorem header_roundtrip:
  assumes "- (2 ^ 63) \<le> li_drops info" and "li_drops info < 2 ^ 63" and "li_closeTimeResolution info < 256" and "li_closeFlags info < 256"
  shows "deserializeHeader (mData (addRaw_info info Serializer_empty)) False =
      Inr (info\<lparr>li_hash := 0, li_validated := False, li_accepted := False\<rparr>) \<and>
    deserializeHeader (be_bytes HashPrefix_ledgerMaster @ mData (addRaw_info info Serializer_empty)) True =
      Inr (info\<lparr>li_hash := 0, li_validated := False, li_accepted := False\<rparr>) \<and>
    calculateLedgerHash h info = h (be_bytes HashPrefix_ledgerMaster @ mData (addRaw_info info Serializer_empty))"
  using deserializeHeader_bytes(1)[of info] deserializeHeader_bytes(2)[of HashPrefix_ledgerMaster info] wire_info_same[OF assms] calculateLedgerHash_bytes[of h info]
  by (simp add: header_bytes_def)

theorem header_roundtrip_witness:
  "deserializeHeader (mData (addRaw_info empty_info Serializer_empty)) False = Inr empty_info"
  using header_roundtrip[of empty_info example_hash] by (simp add: empty_info_def)

lemma find_resolution:
  assumes "i < 6"
  shows "find (\<lambda>j. ledgerPossibleTimeResolutions ! j = ledgerPossibleTimeResolutions ! i) [0..<length ledgerPossibleTimeResolutions] = Some i"
proof -
  have "i \<in> {0, 1, 2, 3, 4, 5}" using assms by auto
  then show ?thesis by (auto simp: ledgerPossibleTimeResolutions_def upt_rec)
qed

lemma nextResolution:
  assumes "i < 6"
  shows "getNextLedgerTimeResolution (ledgerPossibleTimeResolutions ! i) agree seq = ledgerPossibleTimeResolutions !
    (if \<not> agree then min (i + 1) 5 else if seq mod 8 = 0 then i - 1 else i)"
proof -
  have l: "length ledgerPossibleTimeResolutions = 6" by (simp add: ledgerPossibleTimeResolutions_def)
  have m: "seq mod 1 = (0 :: u32)" by simp
  show ?thesis using assms find_resolution[OF assms]
    by (auto simp: getNextLedgerTimeResolution_def l m increaseLedgerTimeResolutionEvery_def decreaseLedgerTimeResolutionEvery_def min_def)
qed

lemma roundCloseTime_nearest:
  assumes "t \<noteq> 0" and "r \<noteq> 0" and "uint t + uint r div 2 < 2 ^ 32"
  shows "uint (roundCloseTime t r) = (uint t + uint r div 2) div uint r * uint r"
proof -
  let ?s = "t + r div 2"
  have s: "uint ?s = uint t + uint r div 2"
    using assms(3) uint_add_lem[of t "r div 2"] by (simp add: uint_div)
  have "uint (?s - ?s mod r) = uint ?s - uint (?s mod r)"
    using uint_sub_lem[of "?s mod r" ?s] by (simp add: uint_mod zmod_le_nonneg_dividend)
  then show ?thesis using assms(1) s by (simp add: roundCloseTime_def uint_mod minus_mod_eq_div_mult)
qed

text \<open>The nearest multiple, the upper one of two that are equally near.\<close>

lemma nearest_multiple:
  fixes r :: int
  assumes "0 < r" and "r = 2 * k"
  shows "2 * ((a + k) div r * r - a) \<le> r" "- r < 2 * ((a + k) div r * r - a)"
proof -
  define m where "m = (a + k) mod r"
  have "0 \<le> m" "m < r" using assms(1) by (simp_all add: m_def)
  then have "2 * (k - m) \<le> r" "- r < 2 * (k - m)" using assms(2) by simp_all
  moreover have "(a + k) div r * r - a = k - m" by (simp add: m_def minus_mod_eq_div_mult [symmetric])
  ultimately show "2 * ((a + k) div r * r - a) \<le> r" "- r < 2 * ((a + k) div r * r - a)" by (simp_all only:)
qed

lemma effCloseTime_max:
  assumes "t \<noteq> 0" and "uint prior + 1 < 2 ^ 32"
  shows "uint (effCloseTime t r prior) = max (uint (roundCloseTime t r)) (uint prior + 1)"
proof -
  have "uint (prior + 1) = uint prior + 1" using assms(2) uint_add_lem[of prior 1] by simp
  then show ?thesis using assms(1) by (simp add: effCloseTime_def max_def word_le_def)
qed

lemma resolution_values:
  "i < 6 \<Longrightarrow> ledgerPossibleTimeResolutions ! i \<in> {10, 20, 30, 60, 90, 120}"
  using nth_mem[of i ledgerPossibleTimeResolutions] by (simp add: ledgerPossibleTimeResolutions_def)

text \<open>
  C32: Close times.  From one ledger to the next the resolution moves through its six values by at most
  one step: a coarser one after a disagreement, a finer one at every eighth ledger after an agreement,
  and it stays within them.  A close time is rounded to the nearest multiple of the resolution, up from
  the middle.  The effective close time is the rounded one, or one second after the close time of the
  prior ledger if that is later, so it comes after the prior one.  The close time 0, which stands for
  none, is neither rounded nor moved.
\<close>

theorem close_times:
  assumes "i < 6" and "seq \<noteq> 0" and "uint t + 60 < 2 ^ 32" and "uint prior + 1 < 2 ^ 32"
  shows "getNextLedgerTimeResolution (ledgerPossibleTimeResolutions ! i) agree seq = ledgerPossibleTimeResolutions !
      (if \<not> agree then min (i + 1) 5 else if seq mod 8 = 0 then i - 1 else i) \<and>
    (if t = 0 then roundCloseTime t (ledgerPossibleTimeResolutions ! i) = 0 \<and>
        effCloseTime t (ledgerPossibleTimeResolutions ! i) prior = 0
     else uint (ledgerPossibleTimeResolutions ! i) dvd uint (roundCloseTime t (ledgerPossibleTimeResolutions ! i)) \<and>
        2 * (uint (roundCloseTime t (ledgerPossibleTimeResolutions ! i)) - uint t) \<le> uint (ledgerPossibleTimeResolutions ! i) \<and>
        - uint (ledgerPossibleTimeResolutions ! i) < 2 * (uint (roundCloseTime t (ledgerPossibleTimeResolutions ! i)) - uint t) \<and>
        uint (effCloseTime t (ledgerPossibleTimeResolutions ! i) prior) =
          max (uint (roundCloseTime t (ledgerPossibleTimeResolutions ! i))) (uint prior + 1) \<and>
        prior < effCloseTime t (ledgerPossibleTimeResolutions ! i) prior)"
proof (cases "t = 0")
  case True
  then show ?thesis using nextResolution[OF assms(1)] by (simp add: roundCloseTime_def effCloseTime_def)
next
  case False
  let ?r = "ledgerPossibleTimeResolutions ! i"
  have r: "?r \<noteq> 0" "uint ?r \<le> 120" "uint ?r = 2 * (uint ?r div 2)" "0 < uint ?r"
    using resolution_values[OF assms(1)] by auto
  have round: "uint (roundCloseTime t ?r) = (uint t + uint ?r div 2) div uint ?r * uint ?r"
    using roundCloseTime_nearest[OF False r(1)] assms(3) r(2,3) by linarith
  note near = nearest_multiple[OF r(4,3), of "uint t", folded round]
  have "uint ?r dvd uint (roundCloseTime t ?r)" unfolding round by simp
  moreover note eff = effCloseTime_max[OF False assms(4), of ?r]
  moreover have "prior < effCloseTime t ?r prior" unfolding word_less_alt eff by simp
  ultimately show ?thesis using nextResolution[OF assms(1)] near False by simp
qed

theorem close_times_witness:
  "getNextLedgerTimeResolution (ledgerPossibleTimeResolutions ! 2) True 16 = ledgerPossibleTimeResolutions ! 1 \<and>
   uint (effCloseTime 45 (ledgerPossibleTimeResolutions ! 2) 10) = 60 \<and>
   effCloseTime 0 (ledgerPossibleTimeResolutions ! 2) 10 = 0"
proof -
  have r: "ledgerPossibleTimeResolutions ! 2 = 30" by (simp add: ledgerPossibleTimeResolutions_def)
  define c where "c = uint (roundCloseTime 45 30)"
  have "30 dvd c \<and> 2 * (c - 45) \<le> 30 \<and> - 30 < 2 * (c - 45) \<and> uint (effCloseTime 45 30 10) = max c 11"
    using close_times[of 2 16 45 10 True] by (simp add: r c_def)
  then obtain k where "c = 30 * k" "30 * k \<le> 60" "30 < 30 * k" "uint (effCloseTime 45 30 10) = max c 11" by (auto elim!: dvdE)
  moreover from this have "k = 2" by linarith
  ultimately show ?thesis using close_times[of 2 16 0 10 True] by (simp add: r)
qed

end
