(* ===== verification/LedgerClose.thy ===== *)
theory LedgerClose
  imports LedgerHeader
begin

text \<open>
  The life of a ledger (\<^verbatim>\<open>app/ledger/Ledger.cpp\<close>): the ledger that follows another one, its fees and rules
  (\<^verbatim>\<open>ledger/impl/ReadView.cpp\<close>), the record of past ledger hashes in its state, the conversion of its maps,
  and the acceptance that seals it.

  The maps are complete in memory, so the exception for a missing node does not occur and \<open>setup\<close>
  returns true unless it throws.  The lemmas show what the skip list holds after an update and what
  the header of a sealed ledger says about its maps.
\<close>

section \<open>Rules and fees\<close>

record Config =
  FEE_DEFAULT :: u64
  TRANSACTION_FEE_BASE :: int
  FEE_ACCOUNT_RESERVE :: u64
  FEE_OWNER_RESERVE :: u64
  features :: "uint256 set"

definition Rules_presets :: "uint256 set \<Rightarrow> Rules" where
  "Rules_presets presets = \<lparr>rules_set = {}, rules_digest = None, rules_presets = presets\<rparr>"

definition Rules_make :: "hasher \<Rightarrow> Ledger \<Rightarrow> uint256 set \<Rightarrow> Rules res" where
  "Rules_make h l presets =
     (let k = keylet_amendments h; r = Rules_presets presets in
      bindE (Ledger_digest l (kl_key k)) (\<lambda>digest.
        if digest = None then Inr r
        else
          bindE (Ledger_read l k) (\<lambda>sle.
            case sle of
              None \<Rightarrow> Inr (r\<lparr>rules_digest := digest\<rparr>)
            | Some sle \<Rightarrow>
                bindE (getFieldV256 (sle_obj sle) sfAmendments) (\<lambda>items.
                  Inr (r\<lparr>rules_digest := digest, rules_set := set items\<rparr>)))))"

definition Rules_enabled :: "Rules \<Rightarrow> uint256 \<Rightarrow> bool" where
  "Rules_enabled r feature = (if feature \<in> rules_presets r then True else feature \<in> rules_set r)"

definition Rules_changed :: "hasher \<Rightarrow> Rules \<Rightarrow> Ledger \<Rightarrow> bool res" where
  "Rules_changed h r l =
     bindE (Ledger_digest l (kl_key (keylet_amendments h))) (\<lambda>digest.
       Inr (if digest = None \<and> rules_digest r = None then False
            else if digest = None \<or> rules_digest r = None then True
            else digest \<noteq> rules_digest r))"

definition Rules_eq :: "Rules \<Rightarrow> Rules \<Rightarrow> bool" where
  "Rules_eq r other =
     (if rules_digest r = None \<and> rules_digest other = None then True
      else if rules_digest r = None \<or> rules_digest other = None then False
      else rules_digest r = rules_digest other)"

definition fee_field :: "(STObject \<Rightarrow> SField \<Rightarrow> 'a res) \<Rightarrow> SField \<Rightarrow> STObject \<Rightarrow> 'a \<Rightarrow> 'a res" where
  "fee_field get f obj dflt = (if getFieldIndex obj f \<noteq> None then get obj f else Inr dflt)"

definition setup_fees :: "hasher \<Rightarrow> Config \<Rightarrow> Ledger \<Rightarrow> Fees res" where
  "setup_fees h config l =
     (let fees = \<lparr>fees_base = FEE_DEFAULT config, fees_units = word_of_int (TRANSACTION_FEE_BASE config),
            fees_reserve = ucast (FEE_ACCOUNT_RESERVE config), fees_increment = ucast (FEE_OWNER_RESERVE config)\<rparr> in
      bindE (Ledger_read l (keylet_fees h)) (\<lambda>sle.
        case sle of
          None \<Rightarrow> Inr fees
        | Some sle \<Rightarrow>
            bindE (fee_field getFieldU64 sfBaseFee (sle_obj sle) (fees_base fees)) (\<lambda>base.
            bindE (fee_field getFieldU32 sfReferenceFeeUnits (sle_obj sle) (fees_units fees)) (\<lambda>units.
            bindE (fee_field getFieldU32 sfReserveBase (sle_obj sle) (fees_reserve fees)) (\<lambda>reserve.
            bindE (fee_field getFieldU32 sfReserveIncrement (sle_obj sle) (fees_increment fees)) (\<lambda>increment.
              Inr \<lparr>fees_base = base, fees_units = units, fees_reserve = reserve, fees_increment = increment\<rparr>))))))"

definition Ledger_setup :: "hasher \<Rightarrow> Config \<Rightarrow> Ledger \<Rightarrow> (bool \<times> Ledger) res" where
  "Ledger_setup h config l =
     bindE (setup_fees h config l) (\<lambda>fees.
     bindE (Rules_make h (l\<lparr>lg_fees := fees\<rparr>) (features config)) (\<lambda>rules.
       Inr (True, l\<lparr>lg_fees := fees, lg_rules := rules\<rparr>)))"

section \<open>Construction\<close>

text \<open>The ledger that follows \<open>prev\<close>.\<close>

definition Ledger_next :: "hasher \<Rightarrow> Ledger \<Rightarrow> u32 \<Rightarrow> Ledger" where
  "Ledger_next h prev closeTime =
     (let state = snapShot h True (stateMap prev);
          pinfo = lg_info prev;
          seq = li_seq pinfo + 1;
          resolution = getNextLedgerTimeResolution (li_closeTimeResolution pinfo) (getCloseAgree pinfo) seq
      in \<lparr>mImmutable = False, txMap = SHAMap_new (is_v2 (stateMap prev)), stateMap = state,
          lg_fees = lg_fees prev, lg_rules = lg_rules prev,
          lg_info = LedgerInfo_new\<lparr>li_seq := seq, li_parentCloseTime := li_closeTime pinfo, li_hash := li_hash pinfo + 1,
            li_drops := li_drops pinfo, li_parentHash := li_hash pinfo, li_closeTimeResolution := resolution,
            li_closeFlags := (if is_v2 state then 0 OR sLCF_SHAMapV2 else 0),
            li_closeTime := (if li_closeTime pinfo = 0 then roundCloseTime closeTime resolution
                             else li_closeTime pinfo + resolution)\<rparr>\<rparr>)"

text \<open>A ledger with given number and no entries.\<close>

definition Ledger_empty :: "hasher \<Rightarrow> u32 \<Rightarrow> u32 \<Rightarrow> Config \<Rightarrow> Ledger res" where
  "Ledger_empty h ledgerSeq closeTime config =
     bindE (Ledger_setup h config
       \<lparr>mImmutable = False, txMap = SHAMap_new False, stateMap = SHAMap_new False,
        lg_fees = \<lparr>fees_base = 0, fees_units = 0, fees_reserve = 0, fees_increment = 0\<rparr>,
        lg_rules = Rules_presets (features config),
        lg_info = LedgerInfo_new\<lparr>li_seq := ledgerSeq, li_closeTime := closeTime,
          li_closeTimeResolution := ledgerDefaultTimeResolution\<rparr>\<rparr>) (\<lambda>(_, l). Inr l)"

section \<open>Sealing\<close>

definition Ledger_setImmutable :: "hasher \<Rightarrow> Config \<Rightarrow> Ledger \<Rightarrow> Ledger res" where
  "Ledger_setImmutable h config l =
     (let l = (if \<not> mImmutable l then
                 let (txHash, txm) = getHash h (txMap l);
                     (accountHash, sm) = getHash h (stateMap l)
                 in l\<lparr>txMap := txm, stateMap := sm, lg_info := (lg_info l)\<lparr>li_txHash := txHash, li_accountHash := accountHash\<rparr>\<rparr>
               else l);
          l = l\<lparr>lg_info := (lg_info l)\<lparr>li_hash := calculateLedgerHash h (lg_info l)\<rparr>\<rparr>;
          l = l\<lparr>mImmutable := True, txMap := SHAMap_setImmutable (txMap l), stateMap := SHAMap_setImmutable (stateMap l)\<rparr>
      in bindE (Ledger_setup h config l) (\<lambda>(_, l). Inr l))"

definition Ledger_setAccepted :: "hasher \<Rightarrow> u32 \<Rightarrow> u32 \<Rightarrow> bool \<Rightarrow> Config \<Rightarrow> Ledger \<Rightarrow> Ledger res" where
  "Ledger_setAccepted h closeTime closeResolution correctCloseTime config l =
     Ledger_setImmutable h config
       (l\<lparr>lg_info := (lg_info l)\<lparr>li_closeTime := closeTime, li_closeTimeResolution := closeResolution,
          li_closeFlags := (if correctCloseTime then 0 else sLCF_NoConsensusTime)\<rparr>\<rparr>)"

definition Ledger_assertSane :: "hasher \<Rightarrow> Ledger \<Rightarrow> bool" where
  "Ledger_assertSane h l \<longleftrightarrow> li_hash (lg_info l) \<noteq> 0 \<and> li_accountHash (lg_info l) \<noteq> 0 \<and>
     li_accountHash (lg_info l) = fst (getHash h (stateMap l)) \<and> li_txHash (lg_info l) = fst (getHash h (txMap l))"

section \<open>Genesis\<close>

definition SYSTEM_CURRENCY_START :: int where
  "SYSTEM_CURRENCY_START = 1000 * 100000000 * 1000000"

text \<open>
  The first ledger: one account, derived from a fixed passphrase, holds all the currency.  The
  derivation is a parameter, \<open>acc\<close> is its result.  The second result is what is written to the node store.
\<close>

definition genesis_account :: "hasher \<Rightarrow> uint160 \<Rightarrow> int \<Rightarrow> SLE res" where
  "genesis_account h acc drops =
     bindE (SLE_make (keylet_account h acc)) (\<lambda>sle.
     bindE (setFieldU32 sfSequence 1 (sle_obj sle)) (\<lambda>obj.
     bindE (setAccountID sfAccount acc obj) (\<lambda>obj.
     bindE (ST_of_sfc drops) (\<lambda>amount.
     bindE (setFieldAmount sfBalance amount obj) (\<lambda>obj. Inr (sle\<lparr>sle_obj := obj\<rparr>))))))"

definition genesis_amendments :: "hasher \<Rightarrow> uint256 list \<Rightarrow> SLE res" where
  "genesis_amendments h amendments =
     bindE (SLE_make (keylet_amendments h)) (\<lambda>sle.
     bindE (setFieldV256 sfAmendments amendments (sle_obj sle)) (\<lambda>obj. Inr (sle\<lparr>sle_obj := obj\<rparr>)))"

definition Ledger_genesis :: "hasher \<Rightarrow> Config \<Rightarrow> uint256 list \<Rightarrow> uint160 \<Rightarrow> (Ledger \<times> (uint256 \<times> Blob) list) res" where
  "Ledger_genesis h config amendments acc =
     (let l = \<lparr>mImmutable = False, txMap = SHAMap_new False, stateMap = SHAMap_new False,
            lg_fees = \<lparr>fees_base = 0, fees_units = 0, fees_reserve = 0, fees_increment = 0\<rparr>,
            lg_rules = Rules_presets (features config),
            lg_info = LedgerInfo_new\<lparr>li_seq := 1, li_drops := SYSTEM_CURRENCY_START,
              li_closeTimeResolution := ledgerDefaultTimeResolution\<rparr>\<rparr> in
      bindE (genesis_account h acc (ledger_drops l)) (\<lambda>sle.
      bindE (Ledger_rawInsert h sle l) (\<lambda>l.
      bindE (if amendments \<noteq> [] then bindE (genesis_amendments h amendments) (\<lambda>sle. Ledger_rawInsert h sle l) else Inr l) (\<lambda>l.
      let (_, m, written) = flushDirty h (stateMap l) in
      bindE (Ledger_setImmutable h config (l\<lparr>stateMap := m\<rparr>)) (\<lambda>l. Inr (l, written))))))"

section \<open>Changing the version\<close>

text \<open>The second result is what is written to the node store.\<close>

definition Ledger_make_v2 :: "hasher \<Rightarrow> Ledger \<Rightarrow> (Ledger \<times> (uint256 \<times> Blob) list) res" where
  "Ledger_make_v2 h l =
     bindE (make_v2 h (stateMap l)) (\<lambda>(sm, w1).
     bindE (make_v2 h (txMap l)) (\<lambda>(tm, w2).
       let (accountHash, sm) = getHash h sm;
           (txHash, tm) = getHash h tm;
           info = (lg_info l)\<lparr>li_validated := False, li_accountHash := accountHash, li_txHash := txHash\<rparr>;
           info = info\<lparr>li_hash := calculateLedgerHash h info\<rparr>;
           info = info\<lparr>li_closeFlags := li_closeFlags info OR sLCF_SHAMapV2\<rparr>
       in Inr (l\<lparr>stateMap := sm, txMap := tm, lg_info := info\<rparr>, w1 @ w2)))"

definition Ledger_unshare :: "hasher \<Rightarrow> Ledger \<Rightarrow> Ledger" where
  "Ledger_unshare h l = l\<lparr>stateMap := unshare h (stateMap l), txMap := unshare h (txMap l)\<rparr>"

section \<open>The skip list\<close>

text \<open>The record of hashes as it is found, or a new one.\<close>

definition skip_peek :: "Keylet \<Rightarrow> Ledger \<Rightarrow> (bool \<times> SLE \<times> uint256 list) res" where
  "skip_peek k l =
     bindE (Ledger_peek l k) (\<lambda>sle.
       case sle of
         None \<Rightarrow> bindE (SLE_make k) (\<lambda>sle. Inr (True, sle, []))
       | Some sle \<Rightarrow> bindE (getFieldV256 (sle_obj sle) sfHashes) (\<lambda>hashes. Inr (False, sle, hashes)))"

definition skip_fill :: "u32 \<Rightarrow> uint256 list \<Rightarrow> SLE \<Rightarrow> SLE res" where
  "skip_fill prevIndex hashes sle =
     bindE (setFieldV256 sfHashes hashes (sle_obj sle)) (\<lambda>obj.
     bindE (setFieldU32 sfLastLedgerSequence prevIndex obj) (\<lambda>obj.
       Inr (sle\<lparr>sle_obj := obj\<rparr>)))"

definition skip_store :: "hasher \<Rightarrow> bool \<Rightarrow> SLE \<Rightarrow> Ledger \<Rightarrow> Ledger res" where
  "skip_store h created sle l = (if created then Ledger_rawInsert h sle l else Ledger_rawReplace h sle l)"

definition skip_every :: "hasher \<Rightarrow> u32 \<Rightarrow> Ledger \<Rightarrow> Ledger res" where
  "skip_every h prevIndex l =
     (if prevIndex AND 0xff = 0 then
        bindE (skip_peek (keylet_skip_of h prevIndex) l) (\<lambda>(created, sle, hashes).
        bindE (skip_fill prevIndex (hashes @ [li_parentHash (lg_info l)]) sle) (\<lambda>sle.
          skip_store h created sle l))
      else Inr l)"

definition skip_past :: "hasher \<Rightarrow> u32 \<Rightarrow> Ledger \<Rightarrow> Ledger res" where
  "skip_past h prevIndex l =
     bindE (skip_peek (keylet_skip h) l) (\<lambda>(created, sle, hashes).
     let hashes = (if length hashes = 256 then tl hashes else hashes) in
     bindE (skip_fill prevIndex (hashes @ [li_parentHash (lg_info l)]) sle) (\<lambda>sle.
       skip_store h created sle l))"

definition Ledger_updateSkipList :: "hasher \<Rightarrow> Ledger \<Rightarrow> Ledger res" where
  "Ledger_updateSkipList h l =
     (if li_seq (lg_info l) = 0 then Inr l
      else
        let prevIndex = li_seq (lg_info l) - 1
        in bindE (skip_every h prevIndex l) (skip_past h prevIndex))"


section \<open>Fields of entries\<close>

lemma SLE_set_field:
  assumes "SLE_valid sle" and "findByType LedgerFormats (sle_type sle) = Some t" and "(f, style) \<in> set t"
    and "f \<noteq> sfLedgerEntryType" and "wire_value 10 f u" and "element_ok style u"
  shows "\<exists>obj. setFieldUsingSetValue f u (sle_obj sle) = Inr obj \<and> SLE_valid (sle\<lparr>sle_obj := obj\<rparr>) \<and>
     (\<forall>g. peekAtPField obj g = (if g = f then Inr (Some u) else peekAtPField (sle_obj sle) g))"
proof -
  have t: "templated t (sle_obj sle)" "distinct (map fst t)" and w: "fields_wire (obj_v (sle_obj sle))"
    using assms(1,2) SLE_valid_template(1)[OF assms(1)] by (auto simp: SLE_valid_def)
  note ty = wire_value_type[OF assms(5)]
  obtain obj where o: "setFieldUsingSetValue f u (sle_obj sle) = Inr obj" "field_set f u (sle_obj sle) obj"
    using setField_ok[OF templated_aligned[OF t(1)] fields_wire_typed[OF w], of f u] ty
      names_in[OF templated_names[OF t(1)] assms(3)] by auto
  note t' = templated_field_set[OF t assms(3) o(2) assms(6)]
  have "fields_wire (obj_v obj)"
    using t(2) templated_names[OF t'] assms(5) by (intro fields_wire_set[OF w o(2)]) auto
  moreover have "map_of (obj_v obj) sfLedgerEntryType = map_of (obj_v (sle_obj sle)) sfLedgerEntryType"
    using o(2) assms(4) by (auto simp: field_set_def)
  ultimately have "SLE_valid (sle\<lparr>sle_obj := obj\<rparr>)"
    using assms(1,2) t' by (simp add: SLE_valid_def SLE_ok_def)
  moreover have "peekAtPField obj g = (if g = f then Inr (Some u) else peekAtPField (sle_obj sle) g)" for g
    using o(2) by (simp add: peekAtPField_aligned templated_aligned[OF t'] templated_aligned[OF t(1)] field_set_def)
  ultimately show ?thesis using o(1) by blast
qed

lemma SLE_field_type:
  assumes "findByType LedgerFormats ty = Some t" and "(f, style) \<in> set t"
  shows "sf_type (SField_info f) = f div 65536"
  using field_ok_type[OF template_field_ok[OF ledger_format(1,3)[OF assms(1)] assms(2)]] by simp

text \<open>A required field of a valid entry is there, with a value of its type.\<close>

lemma SLE_required_field:
  assumes "SLE_valid sle" and "findByType LedgerFormats (sle_type sle) = Some t" and "(f, soeREQUIRED) \<in> set t"
  shows "\<exists>v. peekAtPField (sle_obj sle) f = Inr (Some v) \<and> wire_value 10 f v"
proof -
  have t: "templated t (sle_obj sle)" and w: "fields_wire (obj_v (sle_obj sle))"
    using assms(1,2) SLE_valid_template(1)[OF assms(1)] by (auto simp: SLE_valid_def)
  obtain i where i: "i < length t" "t ! i = (f, soeREQUIRED)" using assms(3) by (auto simp: in_set_conv_nth)
  have rel: "list_all2 (\<lambda>(f, style) (g, v). f = g \<and> element_ok style v) t (obj_v (sle_obj sle))" using t by (simp add: templated_def)
  obtain v where v: "obj_v (sle_obj sle) ! i = (f, v)" "v \<noteq> V_NotPresent" "i < length (obj_v (sle_obj sle))"
    using list_all2_nthD[OF rel i(1)] i list_all2_lengthD[OF rel]
    by (cases "obj_v (sle_obj sle) ! i") (simp add: element_ok_def)
  have "distinct (map fst (obj_v (sle_obj sle)))" using templated_names[OF t] ledger_format(2)[OF assms(2)] by simp
  moreover have "(f, v) \<in> set (obj_v (sle_obj sle))" using v by (metis nth_mem)
  ultimately show ?thesis using v(2) w by (force simp: peekAtPField_aligned[OF templated_aligned[OF t]] fields_wire_def)
qed

section \<open>What the skip list holds\<close>

lemma hashes_format: "findByType LedgerFormats ltLEDGER_HASHES = Some lf_LedgerHashes"
  by (simp add: findByType_def LedgerFormats_def)

lemma hashes_fields: "(sfHashes, soeREQUIRED) \<in> set lf_LedgerHashes" "(sfLastLedgerSequence, soeOPTIONAL) \<in> set lf_LedgerHashes"
  by (simp_all add: lf_LedgerHashes_def)

definition sle_hashes :: "SLE \<Rightarrow> uint256 list" where
  "sle_hashes sle = projr (getFieldV256 (sle_obj sle) sfHashes)"

lemma getFieldV256_peek: "peekAtPField obj f = Inr (Some (V_Vector256 xs)) \<Longrightarrow> getFieldV256 obj f = Inr xs"
  by (simp add: getFieldV256_def getFieldByConstRef_def getSType_def)

lemma sle_hashes_read:
  assumes "SLE_valid sle" and "sle_type sle = ltLEDGER_HASHES"
  shows "getFieldV256 (sle_obj sle) sfHashes = Inr (sle_hashes sle)"
proof -
  obtain v where v: "peekAtPField (sle_obj sle) sfHashes = Inr (Some v)" "wire_value 10 sfHashes v"
    using SLE_required_field[OF assms(1) _ hashes_fields(1)] assms(2) hashes_format by auto
  have "getSType v = STI_VECTOR256" using wire_value_type[OF v(2)] SLE_field_type[OF hashes_format hashes_fields(1)] by simp
  then obtain xs where "v = V_Vector256 xs" by (cases v) (simp_all add: getSType_def)
  then show ?thesis using getFieldV256_peek v(1) by (simp add: sle_hashes_def)
qed

lemma skip_fill_ok:
  assumes "SLE_valid sle" and "sle_type sle = ltLEDGER_HASHES" and "length hashes \<le> 257"
  shows "\<exists>sle'. skip_fill prevIndex hashes sle = Inr sle' \<and> SLE_valid sle' \<and> sle_key sle' = sle_key sle \<and>
    sle_type sle' = ltLEDGER_HASHES \<and> sle_hashes sle' = hashes \<and>
    getFieldU32 (sle_obj sle') sfLastLedgerSequence = Inr prevIndex"
proof -
  have t: "findByType LedgerFormats (sle_type sle) = Some lf_LedgerHashes" using hashes_format assms(2) by simp
  have w: "wire_value 10 sfHashes (V_Vector256 hashes)" "wire_value 10 sfLastLedgerSequence (V_UInt32 prevIndex)"
    using assms(3) SLE_field_type[OF hashes_format hashes_fields(1)] SLE_field_type[OF hashes_format hashes_fields(2)]
    by (simp_all add: wire_value_step[of 10] wire_construct_def getSType_def)
  obtain obj where o: "setFieldV256 sfHashes hashes (sle_obj sle) = Inr obj" "SLE_valid (sle\<lparr>sle_obj := obj\<rparr>)"
    "peekAtPField obj sfHashes = Inr (Some (V_Vector256 hashes))"
    using SLE_set_field[OF assms(1) t hashes_fields(1) _ w(1)] by (auto simp: setFieldV256_def element_ok_def)
  obtain obj' where o': "setFieldU32 sfLastLedgerSequence prevIndex obj = Inr obj'" "SLE_valid (sle\<lparr>sle_obj := obj'\<rparr>)"
    "peekAtPField obj' sfHashes = Inr (Some (V_Vector256 hashes))"
    "peekAtPField obj' sfLastLedgerSequence = Inr (Some (V_UInt32 prevIndex))"
    using SLE_set_field[OF o(2) _ hashes_fields(2) _ w(2)] t o(3) by (auto simp: setFieldU32_def element_ok_def)
  then show ?thesis using o(1) assms(2) getFieldV256_peek[OF o'(3)]
    by (auto simp: skip_fill_def sle_hashes_def getFieldU32_def getFieldByValue_def getSType_def)
qed

text \<open>The records of a map of entries before and after an update, as functions of the map.\<close>

definition skip_list :: "(key256 \<rightharpoonup> SLE) \<Rightarrow> Keylet \<Rightarrow> uint256 list" where
  "skip_list M k = (case M (kl_key k) of None \<Rightarrow> [] | Some sle \<Rightarrow> sle_hashes sle)"

definition skip_slot :: "(key256 \<rightharpoonup> SLE) \<Rightarrow> Keylet \<Rightarrow> bool" where
  "skip_slot M k \<longleftrightarrow> kl_key k \<noteq> 0 \<and> length (skip_list M k) \<le> 256 \<and>
     (case M (kl_key k) of None \<Rightarrow> True | Some sle \<Rightarrow> sle_type sle = ltLEDGER_HASHES)"

definition skip_sle :: "(key256 \<rightharpoonup> SLE) \<Rightarrow> Keylet \<Rightarrow> u32 \<Rightarrow> uint256 list \<Rightarrow> SLE" where
  "skip_sle M k prevIndex hashes =
     projr (skip_fill prevIndex hashes (case M (kl_key k) of None \<Rightarrow> projr (SLE_make k) | Some sle \<Rightarrow> sle))"

definition skip_map_every :: "hasher \<Rightarrow> u32 \<Rightarrow> uint256 \<Rightarrow> (key256 \<rightharpoonup> SLE) \<Rightarrow> (key256 \<rightharpoonup> SLE)" where
  "skip_map_every h prevIndex parent M =
     (let k = keylet_skip_of h prevIndex in
      if prevIndex AND 0xff = 0 then M(kl_key k \<mapsto> skip_sle M k prevIndex (skip_list M k @ [parent])) else M)"

definition last256 :: "uint256 list \<Rightarrow> uint256 list" where
  "last256 xs = drop (length xs - 256) xs"

definition skip_map :: "hasher \<Rightarrow> u32 \<Rightarrow> uint256 \<Rightarrow> (key256 \<rightharpoonup> SLE) \<Rightarrow> (key256 \<rightharpoonup> SLE)" where
  "skip_map h prevIndex parent M =
     (let M = skip_map_every h prevIndex parent M; k = keylet_skip h
      in M(kl_key k \<mapsto> skip_sle M k prevIndex (last256 (skip_list M k @ [parent]))))"

lemma skip_keylets [simp]: "kl_type (keylet_skip h) = ltLEDGER_HASHES" "kl_type (keylet_skip_of h i) = ltLEDGER_HASHES"
  by (simp_all add: keylet_skip_def keylet_skip_of_def)

text \<open>One record of a ledger is updated.\<close>

lemma skip_update:
  assumes "ledger_ok h l" and "kl_type k = ltLEDGER_HASHES" and "skip_slot (ledger_map l) k" and "length hashes \<le> 257"
    and "tells_apart h (insert (skip_sle (ledger_map l) k prevIndex hashes) (ran (ledger_map l)))"
  shows "\<exists>created sle0 m. let sle = skip_sle (ledger_map l) k prevIndex hashes; l' = l\<lparr>stateMap := m\<rparr> in
    skip_peek k l = Inr (created, sle0, skip_list (ledger_map l) k) \<and> skip_fill prevIndex hashes sle0 = Inr sle \<and>
    skip_store h created sle l = Inr l' \<and> ledger_ok h l' \<and> ledger_map l' = (ledger_map l)(kl_key k \<mapsto> sle) \<and>
    is_v2 m = is_v2 (stateMap l) \<and> sle_type sle = ltLEDGER_HASHES \<and> sle_hashes sle = hashes \<and>
    getFieldU32 (sle_obj sle) sfLastLedgerSequence = Inr prevIndex"
proof -
  let ?M = "ledger_map l" and ?sle = "skip_sle (ledger_map l) k prevIndex hashes"
  have key: "kl_key k \<noteq> 0" using assms(3) by (simp add: skip_slot_def)
  have fill: "skip_fill prevIndex hashes sle0 = Inr ?sle \<and> SLE_valid ?sle \<and> sle_key ?sle = kl_key k \<and> sle_type ?sle = ltLEDGER_HASHES \<and>
      sle_hashes ?sle = hashes \<and> getFieldU32 (sle_obj ?sle) sfLastLedgerSequence = Inr prevIndex"
    if "SLE_valid sle0" "sle_type sle0 = ltLEDGER_HASHES" "sle_key sle0 = kl_key k"
      "sle0 = (case ?M (kl_key k) of None \<Rightarrow> projr (SLE_make k) | Some sle \<Rightarrow> sle)" for sle0
    using skip_fill_ok[OF that(1,2) assms(4), of prevIndex] that(3) unfolding skip_sle_def that(4)[symmetric] by auto
  show ?thesis
  proof (cases "?M (kl_key k)")
    case None
    obtain sle0 where s: "SLE_make k = Inr sle0" "SLE_valid sle0" "sle_key sle0 = kl_key k" "sle_type sle0 = ltLEDGER_HASHES"
      using SLE_make_valid[of k lf_LedgerHashes] hashes_format assms(2) by auto
    have f: "skip_fill prevIndex hashes sle0 = Inr ?sle \<and> SLE_valid ?sle \<and> sle_key ?sle = kl_key k \<and> sle_type ?sle = ltLEDGER_HASHES \<and>
        sle_hashes ?sle = hashes \<and> getFieldU32 (sle_obj ?sle) sfLastLedgerSequence = Inr prevIndex"
      using s None by (intro fill) simp_all
    have "skip_peek k l = Inr (True, sle0, skip_list ?M k)"
      using Ledger_read_map(1)[OF assms(1), of k] None s(1) by (simp add: skip_peek_def read_map_def skip_list_def)
    then show ?thesis using rawInsert_ok[OF assms(1), of ?sle] f key None unfolding Let_def skip_store_def by fastforce
  next
    case (Some sle0)
    note s = peek_item(2)[OF assms(1) Some]
    have ty: "sle_type sle0 = ltLEDGER_HASHES" using assms(3) Some by (simp add: skip_slot_def)
    have f: "skip_fill prevIndex hashes sle0 = Inr ?sle \<and> SLE_valid ?sle \<and> sle_key ?sle = kl_key k \<and> sle_type ?sle = ltLEDGER_HASHES \<and>
        sle_hashes ?sle = hashes \<and> getFieldU32 (sle_obj ?sle) sfLastLedgerSequence = Inr prevIndex"
      using s ty Some by (intro fill) simp_all
    have "Keylet_check k sle0" using ty assms(2) s by (simp add: Keylet_check_def)
    then have "skip_peek k l = Inr (False, sle0, skip_list ?M k)"
      using Ledger_read_map(1)[OF assms(1), of k] Some sle_hashes_read[of sle0] s ty
      by (simp add: skip_peek_def read_map_def skip_list_def)
    moreover have "ledger_in h (insert ?sle (ran ?M)) l" using assms(1,5) by (auto simp: ledger_in_def)
    ultimately show ?thesis using rawReplace_ok[of h "insert ?sle (ran ?M)" l ?sle] f Some unfolding Let_def skip_store_def by fastforce
  qed
qed

text \<open>When both records can be updated.\<close>

definition skip_ready :: "hasher \<Rightarrow> u32 \<Rightarrow> uint256 \<Rightarrow> (key256 \<rightharpoonup> SLE) \<Rightarrow> bool" where
  "skip_ready h prevIndex parent M \<longleftrightarrow> skip_slot M (keylet_skip h) \<and> skip_slot M (keylet_skip_of h prevIndex) \<and>
     kl_key (keylet_skip h) \<noteq> kl_key (keylet_skip_of h prevIndex) \<and>
     tells_apart h (ran M \<union> ran (skip_map h prevIndex parent M))"

lemma tells_apart_mono: "tells_apart h U \<Longrightarrow> V \<subseteq> U \<Longrightarrow> tells_apart h V"
  unfolding tells_apart_def by blast

lemma ran_upd: "ran (M(k \<mapsto> x)) \<subseteq> insert x (ran M)" "x \<in> ran (M(k \<mapsto> x))"
  by (auto simp: ran_def)

lemma last256_push: "length hs \<le> 256 \<Longrightarrow> (if length hs = 256 then tl hs else hs) @ [x] = last256 (hs @ [x])"
  by (cases hs) (auto simp: last256_def)

lemma last256_length: "length (last256 hs) \<le> 256"
  by (simp add: last256_def)

lemma skip_every_ok:
  assumes "ledger_ok h l" and "skip_ready h prevIndex (li_parentHash (lg_info l)) (ledger_map l)"
  shows "\<exists>m. let l' = l\<lparr>stateMap := m\<rparr>; k = keylet_skip_of h prevIndex; parent = li_parentHash (lg_info l) in
    skip_every h prevIndex l = Inr l' \<and> ledger_ok h l' \<and>
    ledger_map l' = skip_map_every h prevIndex parent (ledger_map l) \<and> is_v2 m = is_v2 (stateMap l) \<and>
    (prevIndex AND 0xff = 0 \<longrightarrow> skip_list (ledger_map l') k = skip_list (ledger_map l) k @ [parent])"
proof (cases "prevIndex AND 0xff = 0")
  case True
  let ?k = "keylet_skip_of h prevIndex" and ?M = "ledger_map l" and ?parent = "li_parentHash (lg_info l)"
  let ?sle = "skip_sle ?M ?k prevIndex (skip_list ?M ?k @ [?parent])"
  have slot: "skip_slot ?M ?k" using assms(2) by (simp add: skip_ready_def)
  have "?sle \<in> ran (skip_map h prevIndex ?parent ?M)"
    using assms(2) True ran_upd(2)[of ?sle ?M "kl_key ?k"]
    by (auto simp: skip_map_def skip_map_every_def Let_def skip_ready_def ran_def)
  then have "tells_apart h (insert ?sle (ran ?M))" using assms(2) by (auto simp: skip_ready_def intro: tells_apart_mono)
  from skip_update[OF assms(1) _ slot _ this] slot
  obtain created sle0 m where u: "skip_peek ?k l = Inr (created, sle0, skip_list ?M ?k)"
    "skip_fill prevIndex (skip_list ?M ?k @ [?parent]) sle0 = Inr ?sle" "skip_store h created ?sle l = Inr (l\<lparr>stateMap := m\<rparr>)"
    "ledger_ok h (l\<lparr>stateMap := m\<rparr>)" "ledger_map (l\<lparr>stateMap := m\<rparr>) = ?M(kl_key ?k \<mapsto> ?sle)" "is_v2 m = is_v2 (stateMap l)"
    "sle_hashes ?sle = skip_list ?M ?k @ [?parent]"
    by (auto simp: Let_def skip_slot_def)
  show ?thesis using True u by (intro exI[of _ m]) (simp add: skip_every_def skip_map_every_def skip_list_def)
next
  case False
  then show ?thesis using assms(1) by (intro exI[of _ "stateMap l"]) (simp add: skip_every_def skip_map_every_def)
qed

lemma skip_map_every_other: "k \<noteq> kl_key (keylet_skip_of h prevIndex) \<Longrightarrow> skip_map_every h prevIndex parent M k = M k"
  by (simp add: skip_map_every_def Let_def)

lemma skip_past_ok:
  assumes "ledger_ok h l" and "skip_slot (ledger_map l) (keylet_skip h)"
    and "tells_apart h (insert (skip_sle (ledger_map l) (keylet_skip h) prevIndex
      (last256 (skip_list (ledger_map l) (keylet_skip h) @ [li_parentHash (lg_info l)]))) (ran (ledger_map l)))"
  shows "\<exists>m. let l' = l\<lparr>stateMap := m\<rparr>; k = keylet_skip h; hashes = last256 (skip_list (ledger_map l) k @ [li_parentHash (lg_info l)]) in
    skip_past h prevIndex l = Inr l' \<and> ledger_ok h l' \<and>
    ledger_map l' = (ledger_map l)(kl_key k \<mapsto> skip_sle (ledger_map l) k prevIndex hashes) \<and> is_v2 m = is_v2 (stateMap l) \<and>
    skip_list (ledger_map l') k = hashes"
proof -
  let ?k = "keylet_skip h" and ?M = "ledger_map l"
  let ?hs = "last256 (skip_list ?M ?k @ [li_parentHash (lg_info l)])"
  have len: "length (skip_list ?M ?k) \<le> 256" using assms(2) by (simp add: skip_slot_def)
  have "length ?hs \<le> 257" using last256_length[of "skip_list ?M ?k @ [li_parentHash (lg_info l)]"] by simp
  from skip_update[OF assms(1) _ assms(2) this assms(3)]
  obtain created sle0 m where u: "skip_peek ?k l = Inr (created, sle0, skip_list ?M ?k)"
    "skip_fill prevIndex ?hs sle0 = Inr (skip_sle ?M ?k prevIndex ?hs)" "skip_store h created (skip_sle ?M ?k prevIndex ?hs) l = Inr (l\<lparr>stateMap := m\<rparr>)"
    "ledger_ok h (l\<lparr>stateMap := m\<rparr>)" "ledger_map (l\<lparr>stateMap := m\<rparr>) = ?M(kl_key ?k \<mapsto> skip_sle ?M ?k prevIndex ?hs)" "is_v2 m = is_v2 (stateMap l)"
    "sle_hashes (skip_sle ?M ?k prevIndex ?hs) = ?hs"
    by (auto simp: Let_def)
  have "skip_past h prevIndex l = Inr (l\<lparr>stateMap := m\<rparr>)"
    using u(1-3) last256_push[OF len, of "li_parentHash (lg_info l)"] by (simp add: skip_past_def Let_def)
  then show ?thesis using u by (intro exI[of _ m]) (simp add: skip_list_def)
qed

lemma updateSkipList_ok:
  assumes "ledger_ok h l" and "li_seq (lg_info l) \<noteq> 0"
    and "skip_ready h (li_seq (lg_info l) - 1) (li_parentHash (lg_info l)) (ledger_map l)"
  shows "\<exists>m. let l' = l\<lparr>stateMap := m\<rparr>; prevIndex = li_seq (lg_info l) - 1; parent = li_parentHash (lg_info l) in
    Ledger_updateSkipList h l = Inr l' \<and> ledger_ok h l' \<and> is_v2 m = is_v2 (stateMap l) \<and>
    ledger_map l' = skip_map h prevIndex parent (ledger_map l) \<and>
    skip_list (ledger_map l') (keylet_skip h) = last256 (skip_list (ledger_map l) (keylet_skip h) @ [parent]) \<and>
    (prevIndex AND 0xff = 0 \<longrightarrow> skip_list (ledger_map l') (keylet_skip_of h prevIndex) =
       skip_list (ledger_map l) (keylet_skip_of h prevIndex) @ [parent])"
proof -
  let ?i = "li_seq (lg_info l) - 1" and ?parent = "li_parentHash (lg_info l)" and ?k = "keylet_skip h"
  obtain m1 where m1: "skip_every h ?i l = Inr (l\<lparr>stateMap := m1\<rparr>)" "ledger_ok h (l\<lparr>stateMap := m1\<rparr>)"
    "ledger_map (l\<lparr>stateMap := m1\<rparr>) = skip_map_every h ?i ?parent (ledger_map l)" "is_v2 m1 = is_v2 (stateMap l)"
    "?i AND 0xff = 0 \<longrightarrow> skip_list (ledger_map (l\<lparr>stateMap := m1\<rparr>)) (keylet_skip_of h ?i) = skip_list (ledger_map l) (keylet_skip_of h ?i) @ [?parent]"
    using skip_every_ok[OF assms(1,3)] unfolding Let_def by blast
  let ?M1 = "skip_map_every h ?i ?parent (ledger_map l)"
  have ne: "kl_key ?k \<noteq> kl_key (keylet_skip_of h ?i)" using assms(3) by (simp add: skip_ready_def)
  note same = skip_map_every_other[OF ne, of ?parent "ledger_map l"]
  have list: "skip_list ?M1 ?k = skip_list (ledger_map l) ?k" using same by (simp add: skip_list_def)
  then have slot: "skip_slot ?M1 ?k" using assms(3) same by (simp add: skip_slot_def skip_ready_def)
  let ?sle = "skip_sle ?M1 ?k ?i (last256 (skip_list ?M1 ?k @ [?parent]))"
  have map: "skip_map h ?i ?parent (ledger_map l) = ?M1(kl_key ?k \<mapsto> ?sle)" by (simp add: skip_map_def Let_def)
  have "ran ?M1 \<subseteq> ran (ledger_map l) \<union> ran (?M1(kl_key ?k \<mapsto> ?sle))"
    using same by (auto simp: ran_def) (metis)
  then have "insert ?sle (ran ?M1) \<subseteq> ran (ledger_map l) \<union> ran (skip_map h ?i ?parent (ledger_map l))"
    unfolding map using ran_upd(2)[of ?sle ?M1 "kl_key ?k"] by auto
  then have apart: "tells_apart h (insert ?sle (ran ?M1))" using assms(3) tells_apart_mono unfolding skip_ready_def by blast
  obtain m where "skip_past h ?i (l\<lparr>stateMap := m1\<rparr>) = Inr (l\<lparr>stateMap := m\<rparr>)" "ledger_ok h (l\<lparr>stateMap := m\<rparr>)" "is_v2 m = is_v2 m1"
    "ledger_map (l\<lparr>stateMap := m\<rparr>) = ?M1(kl_key ?k \<mapsto> ?sle)"
    "skip_list (ledger_map (l\<lparr>stateMap := m\<rparr>)) ?k = last256 (skip_list ?M1 ?k @ [?parent])"
    using skip_past_ok[OF m1(2), of ?i] slot apart unfolding m1(3) Let_def by auto
  moreover from this(4) have "skip_list (ledger_map (l\<lparr>stateMap := m\<rparr>)) (keylet_skip_of h ?i) = skip_list ?M1 (keylet_skip_of h ?i)"
    using ne by (simp add: skip_list_def)
  ultimately show ?thesis using m1 assms(2) map list unfolding Let_def Ledger_updateSkipList_def by (intro exI[of _ m]) auto
qed

section \<open>Fees and rules of a ledger\<close>

definition sle_amendments :: "SLE \<Rightarrow> uint256 list" where
  "sle_amendments sle = projr (getFieldV256 (sle_obj sle) sfAmendments)"

definition config_fees :: "Config \<Rightarrow> Fees" where
  "config_fees config = \<lparr>fees_base = FEE_DEFAULT config, fees_units = word_of_int (TRANSACTION_FEE_BASE config),
     fees_reserve = ucast (FEE_ACCOUNT_RESERVE config), fees_increment = ucast (FEE_OWNER_RESERVE config)\<rparr>"

definition sle_fees :: "SLE \<Rightarrow> Fees" where
  "sle_fees sle = \<lparr>fees_base = projr (getFieldU64 (sle_obj sle) sfBaseFee), fees_units = projr (getFieldU32 (sle_obj sle) sfReferenceFeeUnits),
     fees_reserve = projr (getFieldU32 (sle_obj sle) sfReserveBase), fees_increment = projr (getFieldU32 (sle_obj sle) sfReserveIncrement)\<rparr>"

lemma fee_formats: "findByType LedgerFormats ltFEE_SETTINGS = Some lf_FeeSettings" "findByType LedgerFormats ltAMENDMENTS = Some lf_Amendments"
  by (simp_all add: findByType_def LedgerFormats_def)

lemma fee_fields: "(sfBaseFee, soeREQUIRED) \<in> set lf_FeeSettings" "(sfReferenceFeeUnits, soeREQUIRED) \<in> set lf_FeeSettings"
  "(sfReserveBase, soeREQUIRED) \<in> set lf_FeeSettings" "(sfReserveIncrement, soeREQUIRED) \<in> set lf_FeeSettings"
  "(sfAmendments, soeOPTIONAL) \<in> set lf_Amendments"
  by (simp_all add: lf_FeeSettings_def lf_Amendments_def)

lemma getSType_uint: "getSType v = STI_UINT32 \<Longrightarrow> \<exists>x. v = V_UInt32 x" "getSType v = STI_UINT64 \<Longrightarrow> \<exists>x. v = V_UInt64 x"
  by (cases v; simp add: getSType_def)+

lemma peek_present_index: "peekAtPField obj f = Inr (Some v) \<Longrightarrow> getFieldIndex obj f \<noteq> None"
  by (auto simp: peekAtPField_def split: option.splits)

lemma fee_field_read:
  assumes "SLE_valid sle" and "sle_type sle = ltFEE_SETTINGS" and "(f, soeREQUIRED) \<in> set lf_FeeSettings"
  shows "f div 65536 = STI_UINT32 \<Longrightarrow> fee_field getFieldU32 f (sle_obj sle) d = Inr (projr (getFieldU32 (sle_obj sle) f))"
    and "f div 65536 = STI_UINT64 \<Longrightarrow> fee_field getFieldU64 f (sle_obj sle) d' = Inr (projr (getFieldU64 (sle_obj sle) f))"
proof -
  obtain v where v: "peekAtPField (sle_obj sle) f = Inr (Some v)" "wire_value 10 f v"
    using SLE_required_field[OF assms(1) _ assms(3)] assms(2) fee_formats(1) by auto
  have ty: "getSType v = f div 65536" using wire_value_type[OF v(2)] SLE_field_type[OF fee_formats(1) assms(3)] by simp
  note i = peek_present_index[OF v(1)]
  show "fee_field getFieldU32 f (sle_obj sle) d = Inr (projr (getFieldU32 (sle_obj sle) f))" if "f div 65536 = STI_UINT32"
    using getSType_uint(1)[of v] that ty i v(1) by (auto simp: fee_field_def getFieldU32_def getFieldByValue_def getSType_def)
  show "fee_field getFieldU64 f (sle_obj sle) d' = Inr (projr (getFieldU64 (sle_obj sle) f))" if "f div 65536 = STI_UINT64"
    using getSType_uint(2)[of v] that ty i v(1) by (auto simp: fee_field_def getFieldU64_def getFieldByValue_def getSType_def)
qed

lemma read_map_typed:
  assumes "read_map M k = Some sle" and "kl_type k \<notin> {ltANY, ltINVALID, ltCHILD}"
  shows "sle_type sle = kl_type k" and "M (kl_key k) = Some sle"
  using assms by (auto simp: read_map_def Keylet_check_def split: option.splits if_splits)

lemma special_keylets [simp]: "kl_type (keylet_fees h) = ltFEE_SETTINGS" "kl_type (keylet_amendments h) = ltAMENDMENTS"
  by (simp_all add: keylet_fees_def keylet_amendments_def)

lemma setup_fees_ok:
  assumes "ledger_ok h l"
  shows "setup_fees h config l =
    Inr (case read_map (ledger_map l) (keylet_fees h) of None \<Rightarrow> config_fees config | Some sle \<Rightarrow> sle_fees sle)"
proof (cases "read_map (ledger_map l) (keylet_fees h)")
  case None
  then show ?thesis using Ledger_read_map(2)[OF assms] by (simp add: setup_fees_def config_fees_def)
next
  case (Some sle)
  have s: "sle_type sle = ltFEE_SETTINGS" "SLE_valid sle"
    using read_map_typed[OF Some] peek_item(2)[OF assms] by (auto simp: keylet_fees_def)
  note f = fee_field_read[OF s(2,1)]
  show ?thesis using Ledger_read_map(2)[OF assms] Some f(2)[OF fee_fields(1)] f(1)[OF fee_fields(2)] f(1)[OF fee_fields(3)] f(1)[OF fee_fields(4)]
    by (simp add: setup_fees_def sle_fees_def)
qed

lemma sle_amendments_read:
  assumes "SLE_valid sle" and "sle_type sle = ltAMENDMENTS"
  shows "getFieldV256 (sle_obj sle) sfAmendments = Inr (sle_amendments sle)"
proof -
  have t: "templated lf_Amendments (sle_obj sle)" and w: "fields_wire (obj_v (sle_obj sle))"
    using assms SLE_valid_template(1)[OF assms(1)] fee_formats(2) by (auto simp: SLE_valid_def)
  obtain v where v: "map_of (obj_v (sle_obj sle)) sfAmendments = Some v"
    using names_in[OF templated_names[OF t] fee_fields(5)] map_of_eq_None_iff[of "obj_v (sle_obj sle)" sfAmendments] by blast
  then have p: "peekAtPField (sle_obj sle) sfAmendments = Inr (Some v)" by (simp add: peekAtPField_aligned[OF templated_aligned[OF t]])
  have "v = V_NotPresent \<or> getSType v = STI_VECTOR256"
    using w v wire_value_type[of 10 sfAmendments v] SLE_field_type[OF fee_formats(2) fee_fields(5)]
    by (auto simp: fields_wire_def dest!: map_of_SomeD)
  then show ?thesis using p
    by (cases v) (simp_all add: sle_amendments_def getFieldV256_def getFieldByConstRef_def getSType_def)
qed

definition ledger_amendments :: "hasher \<Rightarrow> (key256 \<rightharpoonup> SLE) \<Rightarrow> uint256 set" where
  "ledger_amendments h M = (case read_map M (keylet_amendments h) of None \<Rightarrow> {} | Some sle \<Rightarrow> set (sle_amendments sle))"

lemma Rules_make_ok:
  assumes "ledger_ok h l"
  shows "\<exists>d. Rules_make h l presets = Inr \<lparr>rules_set = ledger_amendments h (ledger_map l), rules_digest = d, rules_presets = presets\<rparr> \<and>
    Ledger_digest l (kl_key (keylet_amendments h)) = Inr d"
proof -
  let ?k = "keylet_amendments h"
  have inv: "sham_inv h tnACCOUNT_STATE (stateMap l)" using assms by (simp add: ledger_ok_def)
  note c = peekItem_hash_content[OF inv, of "kl_key ?k"]
  then obtain d where d: "Ledger_digest l (kl_key ?k) = Inr d" "d = None \<longleftrightarrow> ledger_map l (kl_key ?k) = None"
    using peek_item(3)[OF assms, of "kl_key ?k"] by (auto simp: Ledger_digest_def)
  have "getFieldV256 (sle_obj sle) sfAmendments = Inr (sle_amendments sle)" if "read_map (ledger_map l) ?k = Some sle" for sle
    using read_map_typed[OF that] peek_item(2)[OF assms] sle_amendments_read[of sle] by (auto simp: keylet_amendments_def)
  moreover have "read_map (ledger_map l) ?k = None" if "d = None" using that d(2) by (simp add: read_map_def)
  ultimately have "Rules_make h l presets = Inr \<lparr>rules_set = ledger_amendments h (ledger_map l), rules_digest = d, rules_presets = presets\<rparr>"
    using d(1) Ledger_read_map(2)[OF assms, of ?k]
    by (cases "read_map (ledger_map l) ?k") (auto simp: Rules_make_def Rules_presets_def ledger_amendments_def Let_def)
  then show ?thesis using d(1) by blast
qed

lemma setup_ok:
  assumes "ledger_ok h l"
  shows "\<exists>d. Ledger_setup h config l = Inr (True, l\<lparr>
    lg_fees := (case read_map (ledger_map l) (keylet_fees h) of None \<Rightarrow> config_fees config | Some sle \<Rightarrow> sle_fees sle),
    lg_rules := \<lparr>rules_set = ledger_amendments h (ledger_map l), rules_digest = d, rules_presets = features config\<rparr>\<rparr>)"
proof -
  let ?fees = "case read_map (ledger_map l) (keylet_fees h) of None \<Rightarrow> config_fees config | Some sle \<Rightarrow> sle_fees sle"
  have "ledger_ok h (l\<lparr>lg_fees := ?fees\<rparr>)" using assms by simp
  from Rules_make_ok[OF this, of "features config"] setup_fees_ok[OF assms, of config] show ?thesis
    by (auto simp: Ledger_setup_def)
qed

section \<open>Sealed ledgers\<close>

text \<open>A sealed ledger: the header names the hashes of the two maps, and the ledger hash is that of the header.\<close>

definition sealed :: "hasher \<Rightarrow> Ledger \<Rightarrow> bool" where
  "sealed h l \<longleftrightarrow> ledger_ok h l \<and> mImmutable l \<and> li_accountHash (lg_info l) = fst (getHash h (stateMap l)) \<and>
     li_txHash (lg_info l) = fst (getHash h (txMap l)) \<and> li_hash (lg_info l) = calculateLedgerHash h (lg_info l)"

lemma ledger_ok_maps:
  assumes "ledger_ok h l" and "sham_inv h tnACCOUNT_STATE s" and "sham_inv h tnTRANSACTION_MD t" and "is_v2 t = is_v2 s"
    and "content s = content (stateMap l)"
  shows "ledger_ok h (l\<lparr>stateMap := s, txMap := t\<rparr>)" and "ledger_map (l\<lparr>stateMap := s, txMap := t\<rparr>) = ledger_map l"
  using assms by (simp_all add: ledger_ok_def ledger_map_def)

lemma getHash_maps:
  assumes "sham_inv h ty m"
  shows "sham_inv h ty (snd (getHash h m))" and "content (snd (getHash h m)) = content m" and "is_v2 (snd (getHash h m)) = is_v2 m"
    and "fst (getHash h (snd (getHash h m))) = fst (getHash h m)"
proof -
  show inv: "sham_inv h ty (snd (getHash h m))" "content (snd (getHash h m)) = content m" "is_v2 (snd (getHash h m)) = is_v2 m"
    using getHash_inv[OF assms, of "fst (getHash h m)" "snd (getHash h m)"] by simp_all
  show "fst (getHash h (snd (getHash h m))) = fst (getHash h m)"
    using getHash_content[of h ty "is_v2 m" "snd (getHash h m)" ty m] inv assms by (simp add: sham_at_def)
qed

lemma getHash_immutable [simp]: "fst (getHash h (SHAMap_setImmutable m)) = fst (getHash h m)"
  by (simp add: getHash_def unshare_def walkSubTree_def SHAMap_setImmutable_def is_v2_def Let_def split: prod.split)

lemma calculateLedgerHash_hash [simp]: "calculateLedgerHash h (info\<lparr>li_hash := x\<rparr>) = calculateLedgerHash h info"
  by (simp add: calculateLedgerHash_def)

lemma setImmutable_ok:
  assumes "ledger_ok h l" and "\<not> mImmutable l"
  shows "\<exists>l'. Ledger_setImmutable h config l = Inr l' \<and> sealed h l' \<and> ledger_map l' = ledger_map l \<and>
    content (txMap l') = content (txMap l) \<and> is_v2 (stateMap l') = is_v2 (stateMap l) \<and>
    (\<exists>x. lg_info l' = (lg_info l)\<lparr>li_txHash := fst (getHash h (txMap l)), li_accountHash := fst (getHash h (stateMap l)), li_hash := x\<rparr>) \<and>
    lg_fees l' = (case read_map (ledger_map l) (keylet_fees h) of None \<Rightarrow> config_fees config | Some sle \<Rightarrow> sle_fees sle) \<and>
    rules_set (lg_rules l') = ledger_amendments h (ledger_map l) \<and> rules_presets (lg_rules l') = features config"
proof -
  have inv: "sham_inv h tnACCOUNT_STATE (stateMap l)" "sham_inv h tnTRANSACTION_MD (txMap l)" "is_v2 (txMap l) = is_v2 (stateMap l)"
    using assms(1) by (simp_all add: ledger_ok_def)
  note gs = getHash_maps[OF inv(1)] and gt = getHash_maps[OF inv(2)]
  let ?info = "(lg_info l)\<lparr>li_txHash := fst (getHash h (txMap l)), li_accountHash := fst (getHash h (stateMap l))\<rparr>"
  let ?l = "l\<lparr>stateMap := SHAMap_setImmutable (snd (getHash h (stateMap l))), txMap := SHAMap_setImmutable (snd (getHash h (txMap l))),
    mImmutable := True, lg_info := ?info\<lparr>li_hash := calculateLedgerHash h ?info\<rparr>\<rparr>"
  have ok: "ledger_ok h ?l" "ledger_map ?l = ledger_map l"
    using ledger_ok_maps[OF assms(1), of "SHAMap_setImmutable (snd (getHash h (stateMap l)))" "SHAMap_setImmutable (snd (getHash h (txMap l)))"]
      gs gt inv by simp_all
  have set: "Ledger_setImmutable h config l = bindE (Ledger_setup h config ?l) (\<lambda>(_, l). Inr l)"
    using assms(2) by (cases l) (simp add: Ledger_setImmutable_def case_prod_unfold Let_def)
  obtain d where eq: "Ledger_setup h config ?l = Inr (True, ?l\<lparr>
    lg_fees := (case read_map (ledger_map l) (keylet_fees h) of None \<Rightarrow> config_fees config | Some sle \<Rightarrow> sle_fees sle),
    lg_rules := \<lparr>rules_set = ledger_amendments h (ledger_map l), rules_digest = d, rules_presets = features config\<rparr>\<rparr>)"
    using setup_ok[OF ok(1), of config] unfolding ok(2) by blast
  have "Ledger_setImmutable h config l = Inr (?l\<lparr>
    lg_fees := (case read_map (ledger_map l) (keylet_fees h) of None \<Rightarrow> config_fees config | Some sle \<Rightarrow> sle_fees sle),
    lg_rules := \<lparr>rules_set = ledger_amendments h (ledger_map l), rules_digest = d, rules_presets = features config\<rparr>\<rparr>)"
    unfolding set eq by simp
  then show ?thesis using ok gs gt inv by (auto simp: sealed_def)
qed

lemma next_ok:
  assumes "ledger_ok h prev" and "sm_seq (stateMap prev) + 1 \<noteq> 0"
  shows "ledger_ok h (Ledger_next h prev closeTime)" and "ledger_map (Ledger_next h prev closeTime) = ledger_map prev"
    and "content (txMap (Ledger_next h prev closeTime)) = []" and "is_v2 (stateMap (Ledger_next h prev closeTime)) = is_v2 (stateMap prev)"
    and "sm_seq (stateMap (Ledger_next h prev closeTime)) = sm_seq (stateMap prev) + 1" and "sm_seq (txMap (Ledger_next h prev closeTime)) = 1"
proof -
  have inv: "sham_inv h tnACCOUNT_STATE (stateMap prev)" using assms(1) by (simp add: ledger_ok_def)
  let ?s = "snapShot h True (stateMap prev)"
  note s = snapShot_inv[OF inv assms(2), of True]
  have seq: "sm_seq ?s = sm_seq (stateMap prev) + 1"
    by (auto simp: snapShot_def unshare_def walkSubTree_def Let_def split: prod.split)
  have new: "sham_inv h tnTRANSACTION_MD (SHAMap_new (is_v2 (stateMap prev)))" "is_v2 (SHAMap_new (is_v2 (stateMap prev))) = is_v2 (stateMap prev)"
    using SHAMap_new_at[of h tnTRANSACTION_MD "is_v2 (stateMap prev)"] by (simp_all add: sham_at_def)
  show "ledger_ok h (Ledger_next h prev closeTime)" "ledger_map (Ledger_next h prev closeTime) = ledger_map prev"
    "content (txMap (Ledger_next h prev closeTime)) = []" "is_v2 (stateMap (Ledger_next h prev closeTime)) = is_v2 (stateMap prev)"
    "sm_seq (stateMap (Ledger_next h prev closeTime)) = sm_seq (stateMap prev) + 1" "sm_seq (txMap (Ledger_next h prev closeTime)) = 1"
    using assms(1) s new SHAMap_new_content[of "is_v2 (stateMap prev)"] seq
    by (simp_all add: Ledger_next_def Let_def ledger_ok_def ledger_map_def SHAMap_new_def)
qed

lemma make_v2_ok:
  assumes "ledger_ok h l" and "sm_seq (stateMap l) + 1 \<noteq> 0" and "sm_seq (txMap l) + 1 \<noteq> 0"
  shows "\<exists>l' w. Ledger_make_v2 h l = Inr (l', w) \<and> ledger_ok h l' \<and> ledger_map l' = ledger_map l \<and> content (txMap l') = content (txMap l) \<and>
    is_v2 (stateMap l') \<and> is_v2 (txMap l') \<and> addressed h w \<and> mImmutable l' = mImmutable l \<and> lg_fees l' = lg_fees l \<and> lg_rules l' = lg_rules l \<and>
    (\<exists>x y z. lg_info l' = (lg_info l)\<lparr>li_validated := False, li_accountHash := x, li_txHash := y,
      li_hash := z, li_closeFlags := li_closeFlags (lg_info l) OR sLCF_SHAMapV2\<rparr>)"
proof -
  have inv: "sham_inv h tnACCOUNT_STATE (stateMap l)" "sham_inv h tnTRANSACTION_MD (txMap l)" using assms(1) by (simp_all add: ledger_ok_def)
  obtain s ws where s: "make_v2 h (stateMap l) = Inr (s, ws)" "sham_at h tnACCOUNT_STATE True s" "content s = content (stateMap l)" "addressed h ws"
    using make_version_inv[OF inv(1) assms(2), of True] by (auto simp: make_v2_def)
  obtain t wt where t: "make_v2 h (txMap l) = Inr (t, wt)" "sham_at h tnTRANSACTION_MD True t" "content t = content (txMap l)" "addressed h wt"
    using make_version_inv[OF inv(2) assms(3), of True] by (auto simp: make_v2_def)
  have si: "sham_inv h tnACCOUNT_STATE s" "is_v2 s" and ti: "sham_inv h tnTRANSACTION_MD t" "is_v2 t"
    using s(2) t(2) by (simp_all add: sham_at_def)
  note gs = getHash_maps[OF si(1)] and gt = getHash_maps[OF ti(1)]
  have ok: "ledger_ok h (l\<lparr>stateMap := snd (getHash h s), txMap := snd (getHash h t)\<rparr>)"
    "ledger_map (l\<lparr>stateMap := snd (getHash h s), txMap := snd (getHash h t)\<rparr>) = ledger_map l"
    using ledger_ok_maps[OF assms(1) gs(1) gt(1)] gs gt si ti s(3) by simp_all
  have a: "addressed h (ws @ wt)" using s(4) t(4) by (auto simp: addressed_def)
  show ?thesis using s(1) t(1,3) ok gs gt si ti a by (auto simp: Ledger_make_v2_def Let_def case_prod_unfold)
qed

lemma flush_ok:
  assumes "sham_inv h ty m" and "flushDirty h m = (n, m', w)"
  shows "sham_inv h ty m'" and "content m' = content m" and "is_v2 m' = is_v2 m" and "addressed h w"
  using walkSubTree_inv[OF assms(1), of True] assms(2) by (auto simp: flushDirty_def)

section \<open>The first ledger\<close>

lemma genesis_formats: "findByType LedgerFormats ltACCOUNT_ROOT = Some lf_AccountRoot"
  by (simp add: findByType_def LedgerFormats_def)

lemma genesis_fields: "(sfSequence, soeREQUIRED) \<in> set lf_AccountRoot" "(sfAccount, soeREQUIRED) \<in> set lf_AccountRoot"
  "(sfBalance, soeREQUIRED) \<in> set lf_AccountRoot"
  by (simp_all add: lf_AccountRoot_def)

definition genesis_balance :: STAmount where
  "genesis_balance = ST_native 100000000000000000 False"

lemma genesis_balance_ok: "ST_of_sfc SYSTEM_CURRENCY_START = Inr genesis_balance" "ST_wire genesis_balance"
  by (simp_all add: ST_of_sfc_def SYSTEM_CURRENCY_START_def genesis_balance_def ST_native_def ST_canonicalize_def ST_unchecked_def
      ST_wire_parts ST_canonical_def sfcIssue_def isSFC_def ST_nativeDown.simps ST_nativeUp.simps cMaxNativeN_def)

lemma genesis_account_ok:
  assumes "length acc = 20"
  shows "\<exists>sle. genesis_account h acc SYSTEM_CURRENCY_START = Inr sle \<and> SLE_valid sle \<and> sle_key sle = kl_key (keylet_account h acc) \<and>
    sle_type sle = ltACCOUNT_ROOT \<and> getFieldU32 (sle_obj sle) sfSequence = Inr 1 \<and> getAccountID (sle_obj sle) sfAccount = Inr acc \<and>
    getFieldAmount (sle_obj sle) sfBalance = Inr genesis_balance"
proof -
  obtain sle where s: "SLE_make (keylet_account h acc) = Inr sle" "SLE_valid sle" "sle_key sle = kl_key (keylet_account h acc)" "sle_type sle = ltACCOUNT_ROOT"
    using SLE_make_valid[of "keylet_account h acc" lf_AccountRoot] genesis_formats by (auto simp: keylet_account_def)
  have t: "findByType LedgerFormats (sle_type sle) = Some lf_AccountRoot" using genesis_formats s(4) by simp
  note ty = SLE_field_type[OF genesis_formats genesis_fields(1)] SLE_field_type[OF genesis_formats genesis_fields(2)] SLE_field_type[OF genesis_formats genesis_fields(3)]
  have w: "wire_value 10 sfSequence (V_UInt32 1)" "wire_value 10 sfAccount (V_Account acc False)" "wire_value 10 sfBalance (V_Amount genesis_balance)"
    using ty assms genesis_balance_ok(2) by (simp_all add: wire_value_step[of 10] wire_construct_def getSType_def)
  obtain o1 where o1: "setFieldU32 sfSequence 1 (sle_obj sle) = Inr o1" "SLE_valid (sle\<lparr>sle_obj := o1\<rparr>)"
    "peekAtPField o1 sfSequence = Inr (Some (V_UInt32 1))"
    using SLE_set_field[OF s(2) t genesis_fields(1) _ w(1)] by (auto simp: setFieldU32_def element_ok_def)
  obtain o2 where o2: "setAccountID sfAccount acc o1 = Inr o2" "SLE_valid (sle\<lparr>sle_obj := o2\<rparr>)"
    "peekAtPField o2 sfSequence = Inr (Some (V_UInt32 1))" "peekAtPField o2 sfAccount = Inr (Some (V_Account acc False))"
    using SLE_set_field[OF o1(2) _ genesis_fields(2) _ w(2)] t o1(3) by (auto simp: setAccountID_def element_ok_def)
  obtain o3 where o3: "setFieldAmount sfBalance genesis_balance o2 = Inr o3" "SLE_valid (sle\<lparr>sle_obj := o3\<rparr>)"
    "peekAtPField o3 sfSequence = Inr (Some (V_UInt32 1))" "peekAtPField o3 sfAccount = Inr (Some (V_Account acc False))"
    "peekAtPField o3 sfBalance = Inr (Some (V_Amount genesis_balance))"
    using SLE_set_field[OF o2(2) _ genesis_fields(3) _ w(3)] t o2(3,4) by (auto simp: setFieldAmount_def setFieldUsingAssignment_eq element_ok_def)
  show ?thesis using s o1 o2 o3 genesis_balance_ok(1)
    by (auto simp: genesis_account_def getFieldU32_def getAccountID_def getFieldAmount_def getFieldByValue_def getFieldByConstRef_def getSType_def)
qed

lemma genesis_amendments_ok:
  assumes "32 * length amendments \<le> 918744"
  shows "\<exists>sle. genesis_amendments h amendments = Inr sle \<and> SLE_valid sle \<and> sle_key sle = kl_key (keylet_amendments h) \<and>
    sle_type sle = ltAMENDMENTS \<and> sle_amendments sle = amendments"
proof -
  obtain sle where s: "SLE_make (keylet_amendments h) = Inr sle" "SLE_valid sle" "sle_key sle = kl_key (keylet_amendments h)" "sle_type sle = ltAMENDMENTS"
    using SLE_make_valid[of "keylet_amendments h" lf_Amendments] fee_formats(2) by auto
  have t: "findByType LedgerFormats (sle_type sle) = Some lf_Amendments" using fee_formats(2) s(4) by simp
  have w: "wire_value 10 sfAmendments (V_Vector256 amendments)"
    using assms SLE_field_type[OF fee_formats(2) fee_fields(5)] by (simp add: wire_value_step[of 10] wire_construct_def getSType_def)
  obtain obj where o: "setFieldV256 sfAmendments amendments (sle_obj sle) = Inr obj" "SLE_valid (sle\<lparr>sle_obj := obj\<rparr>)"
    "peekAtPField obj sfAmendments = Inr (Some (V_Vector256 amendments))"
    using SLE_set_field[OF s(2) t fee_fields(5) _ w] by (auto simp: setFieldV256_def element_ok_def)
  show ?thesis using s o getFieldV256_peek[OF o(3)] by (auto simp: genesis_amendments_def sle_amendments_def)
qed

lemma genesis_ok:
  assumes "length acc = 20" and "32 * length amendments \<le> 918744"
    and "kl_key (keylet_account h acc) \<noteq> 0" and "kl_key (keylet_amendments h) \<noteq> 0"
    and "kl_key (keylet_account h acc) \<noteq> kl_key (keylet_amendments h)"
  shows "\<exists>l w a b. Ledger_genesis h config amendments acc = Inr (l, w) \<and> sealed h l \<and> addressed h w \<and>
    genesis_account h acc SYSTEM_CURRENCY_START = Inr a \<and> genesis_amendments h amendments = Inr b \<and>
    ledger_map l = (if amendments = [] then [kl_key (keylet_account h acc) \<mapsto> a]
      else [kl_key (keylet_account h acc) \<mapsto> a, kl_key (keylet_amendments h) \<mapsto> b]) \<and>
    content (txMap l) = [] \<and> ledger_drops l = SYSTEM_CURRENCY_START \<and> li_seq (lg_info l) = 1 \<and>
    rules_set (lg_rules l) = ledger_amendments h (ledger_map l) \<and> rules_presets (lg_rules l) = features config"
proof -
  let ?l0 = "\<lparr>mImmutable = False, txMap = SHAMap_new False, stateMap = SHAMap_new False,
            lg_fees = \<lparr>fees_base = 0, fees_units = 0, fees_reserve = 0, fees_increment = 0\<rparr>,
            lg_rules = Rules_presets (features config),
            lg_info = LedgerInfo_new\<lparr>li_seq := 1, li_drops := SYSTEM_CURRENCY_START,
              li_closeTimeResolution := ledgerDefaultTimeResolution\<rparr>\<rparr>"
  have l0: "ledger_ok h ?l0" "ledger_map ?l0 = Map.empty"
    using SHAMap_new_at[of h tnACCOUNT_STATE False] SHAMap_new_at[of h tnTRANSACTION_MD False]
    by (simp_all add: ledger_ok_def ledger_map_def sham_at_def state_ok_def SHAMap_new_content)
  obtain a where a: "genesis_account h acc SYSTEM_CURRENCY_START = Inr a" "SLE_valid a" "sle_key a = kl_key (keylet_account h acc)"
    using genesis_account_ok[OF assms(1)] by blast
  obtain b where b: "genesis_amendments h amendments = Inr b" "SLE_valid b" "sle_key b = kl_key (keylet_amendments h)"
    using genesis_amendments_ok[OF assms(2)] by blast
  obtain m1 where m1: "Ledger_rawInsert h a ?l0 = Inr (?l0\<lparr>stateMap := m1\<rparr>)" "ledger_ok h (?l0\<lparr>stateMap := m1\<rparr>)"
    "ledger_map (?l0\<lparr>stateMap := m1\<rparr>) = [sle_key a \<mapsto> a]"
    using rawInsert_ok[OF l0(1) a(2)] a(3) assms(3) l0(2) by auto
  obtain m2 where m2: "Ledger_rawInsert h b (?l0\<lparr>stateMap := m1\<rparr>) = Inr (?l0\<lparr>stateMap := m2\<rparr>)" "ledger_ok h (?l0\<lparr>stateMap := m2\<rparr>)"
    "ledger_map (?l0\<lparr>stateMap := m2\<rparr>) = [sle_key a \<mapsto> a, sle_key b \<mapsto> b]"
    using rawInsert_ok[OF m1(2) b(2)] a(3) b(3) assms(4,5) m1(3) by auto
  let ?m = "if amendments = [] then m1 else m2"
  let ?M = "if amendments = [] then [sle_key a \<mapsto> a] else [sle_key a \<mapsto> a, sle_key b \<mapsto> b]"
  have m: "ledger_ok h (?l0\<lparr>stateMap := ?m\<rparr>)" "ledger_map (?l0\<lparr>stateMap := ?m\<rparr>) = ?M" using m1 m2 by auto
  obtain n m' w where f: "flushDirty h ?m = (n, m', w)" by (cases "flushDirty h ?m")
  have inv: "sham_inv h tnACCOUNT_STATE ?m" using m(1) by (simp add: ledger_ok_def)
  note fl = flush_ok[OF inv f]
  have ok: "ledger_ok h (?l0\<lparr>stateMap := m'\<rparr>)" "ledger_map (?l0\<lparr>stateMap := m'\<rparr>) = ?M"
    using m fl by (simp_all add: ledger_ok_def ledger_map_def)
  obtain l where l: "Ledger_setImmutable h config (?l0\<lparr>stateMap := m'\<rparr>) = Inr l" "sealed h l" "ledger_map l = ?M"
    "content (txMap l) = []" "ledger_drops l = SYSTEM_CURRENCY_START" "li_seq (lg_info l) = 1"
    "rules_set (lg_rules l) = ledger_amendments h ?M" "rules_presets (lg_rules l) = features config"
    using setImmutable_ok[OF ok(1), of config] unfolding ok(2)
    by (auto simp: SHAMap_new_content LedgerInfo_new_def)
  have "Ledger_genesis h config amendments acc = Inr (l, w)"
    using a(1) b(1) m1(1) m2(1) f l(1) by (simp add: Ledger_genesis_def Let_def split: if_splits)
  then show ?thesis using l a b fl(4) by (intro exI[of _ l] exI[of _ w] exI[of _ a] exI[of _ b]) simp
qed

section \<open>What the hash of a ledger says\<close>

lemma header_bytes_wire: "header_bytes a = header_bytes b \<Longrightarrow> wire_info a = wire_info b"
  using deserializeHeader_bytes(1)[of a] deserializeHeader_bytes(1)[of b] by simp

text \<open>The byte strings that are hashed in a ledger.\<close>

definition ledger_hashed :: "hasher \<Rightarrow> Ledger \<Rightarrow> Blob list" where
  "ledger_hashed h l = (be_bytes HashPrefix_ledgerMaster @ header_bytes (lg_info l)) #
     hashed h (sm_root (stateMap l)) @ hashed h (sm_root (txMap l))"

lemma content_determined:
  assumes "sham_inv h ty m" and "sham_inv h ty m'" and "ty \<noteq> tnTRANSACTION_NM" and "fst (getHash h m) = fst (getHash h m')"
    and "collision_free h (hashed h (sm_root m) @ hashed h (sm_root m'))"
  shows "content m = content m'"
proof -
  note ok = sham_invD[OF assms(1)] and ok' = sham_invD[OF assms(2)]
  have k: "hash_keyed h (sm_root m)" "hash_keyed h (sm_root m')"
    using ok(3) ok'(3) assms(3) by (auto simp: hash_keyed_def one_type_def)
  have wf: "wf_node (is_v2 m) True 0 0 (sm_root m)" "wf_node (is_v2 m') True 0 0 (sm_root m')"
    using ok(1) ok'(1) by (simp_all add: sham_ok_def)
  have "merkle h (sm_root m) = merkle h (sm_root m')"
    using assms(4) getHash_merkle[OF assms(1)] getHash_merkle[OF assms(2)] by simp
  then show ?thesis using items_determined[OF wf k assms(5)] by simp
qed

lemma sealed_same:
  assumes "sealed h l" and "sealed h l'" and "li_hash (lg_info l) = li_hash (lg_info l')"
    and "collision_free h (ledger_hashed h l @ ledger_hashed h l')"
  shows "wire_info (lg_info l) = wire_info (lg_info l')" and "content (stateMap l) = content (stateMap l')"
    and "content (txMap l) = content (txMap l')"
proof -
  let ?p = "be_bytes HashPrefix_ledgerMaster"
  have "h (?p @ header_bytes (lg_info l)) = h (?p @ header_bytes (lg_info l'))"
    using assms(1-3) by (simp add: sealed_def calculateLedgerHash_bytes)
  moreover have "?p @ header_bytes (lg_info l) \<in> set (ledger_hashed h l @ ledger_hashed h l')"
    "?p @ header_bytes (lg_info l') \<in> set (ledger_hashed h l @ ledger_hashed h l')" by (simp_all add: ledger_hashed_def)
  ultimately have "?p @ header_bytes (lg_info l) = ?p @ header_bytes (lg_info l')"
    using assms(4) unfolding collision_free_def by blast
  then show w: "wire_info (lg_info l) = wire_info (lg_info l')" by (intro header_bytes_wire) simp
  have roots: "fst (getHash h (stateMap l)) = fst (getHash h (stateMap l'))" "fst (getHash h (txMap l)) = fst (getHash h (txMap l'))"
    using arg_cong[OF w, of li_accountHash] arg_cong[OF w, of li_txHash] assms(1,2) by (simp_all add: wire_info_def sealed_def)
  have free: "collision_free h (hashed h (sm_root (stateMap l)) @ hashed h (sm_root (stateMap l')))"
    "collision_free h (hashed h (sm_root (txMap l)) @ hashed h (sm_root (txMap l')))"
    by (rule collision_free_mono[OF assms(4)]; auto simp: ledger_hashed_def)+
  have inv: "sham_inv h tnACCOUNT_STATE (stateMap l)" "sham_inv h tnTRANSACTION_MD (txMap l)"
    "sham_inv h tnACCOUNT_STATE (stateMap l')" "sham_inv h tnTRANSACTION_MD (txMap l')"
    using assms(1,2) by (simp_all add: sealed_def ledger_ok_def)
  show "content (stateMap l) = content (stateMap l')" "content (txMap l) = content (txMap l')"
    using content_determined[OF inv(1,3) _ roots(1) free(1)] content_determined[OF inv(2,4) _ roots(2) free(2)] by simp_all
qed

section \<open>Properties\<close>

text \<open>
  C6: The hash of a ledger identifies it: two sealed ledgers with the same hash have the same header and show
  the same entries and transactions, if the hash function has no collisions among the byte strings
  that are hashed in the two ledgers.
\<close>

theorem ledger_hash_identifies:
  assumes "sealed h l" and "sealed h l'" and "collision_free h (ledger_hashed h l @ ledger_hashed h l')"
    and "li_hash (lg_info l) = li_hash (lg_info l')"
  shows "deserializeHeader (mData (addRaw_info (lg_info l) Serializer_empty)) False =
      deserializeHeader (mData (addRaw_info (lg_info l') Serializer_empty)) False \<and>
    (\<forall>k. Ledger_read l k = Ledger_read l' k) \<and> Ledger_sles l = Ledger_sles l' \<and>
    (\<forall>key. peekItem (txMap l) key = peekItem (txMap l') key)"
proof -
  have ok: "ledger_ok h l" "ledger_ok h l'" using assms(1,2) by (simp_all add: sealed_def)
  note s = sealed_same[OF assms(1,2,4,3)]
  have map: "ledger_map l = ledger_map l'" using s(2) by (simp add: ledger_map_def)
  have "deserializeHeader (header_bytes (lg_info l)) False = deserializeHeader (header_bytes (lg_info l')) False"
    unfolding deserializeHeader_bytes(1) using s(1) by simp
  moreover have "Ledger_read l k = Ledger_read l' k" for k using Ledger_read_map(2)[OF ok(1)] Ledger_read_map(2)[OF ok(2)] map by simp
  moreover have "Ledger_sles l = Ledger_sles l'"
    using ledger_view.sles[OF ok(1)] ledger_view.sles[OF ok(2)] map by (simp add: Ledger_view_def)
  moreover have "peekItem (txMap l) key = peekItem (txMap l') key" for key
    using peekItem_content[OF ledger_okD(2)[OF ok(1)]] peekItem_content[OF ledger_okD(2)[OF ok(2)]] s(3) by simp
  ultimately show ?thesis by (simp add: header_bytes_def)
qed

definition sealed_example :: "hasher \<Rightarrow> u32 \<Rightarrow> Ledger" where
  "sealed_example h seq =
     (let info = empty_info\<lparr>li_seq := seq, li_accountHash := fst (getHash h (SHAMap_new False)), li_txHash := fst (getHash h (SHAMap_new False))\<rparr>
      in empty_ledger\<lparr>mImmutable := True, lg_info := info\<lparr>li_hash := calculateLedgerHash h info\<rparr>\<rparr>)"

lemma sealed_example_ok: "sealed h (sealed_example h seq)"
  using empty_ledger_ok by (simp add: sealed_def sealed_example_def Let_def) (simp add: empty_ledger_def)

lemma sealed_example_hashed:
  "ledger_hashed h (sealed_example h seq) =
     [be_bytes HashPrefix_ledgerMaster @ header_bytes (lg_info (sealed_example h seq)), inner_bytes (replicate 16 0) None, inner_bytes (replicate 16 0) None]"
  by (simp add: ledger_hashed_def sealed_example_def empty_ledger_def Let_def hashed.simps[of _ "fresh 1 None"] SHAMap_new_fresh[of False, simplified]
      child_hashes_def map_replicate_const)

lemma sum_hash_eq: "sum_hash x = sum_hash y \<longleftrightarrow> take 32 (x @ replicate 32 0) = take 32 (y @ replicate 32 0)"
  unfolding sum_hash_def uint256_bytes_inj[symmetric] by (subst (1 2) uint256_bytes_of) simp_all

lemma sum_hash_nth: "sum_hash x = sum_hash y \<Longrightarrow> i < 32 \<Longrightarrow> (x @ replicate 32 0) ! i = (y @ replicate 32 0) ! i"
  using nth_take[of i 32 "x @ replicate 32 0"] nth_take[of i 32 "y @ replicate 32 0"] by (simp add: sum_hash_eq)

lemma sum_hash_nil: "sum_hash [] = 0"
proof -
  have "(push_bit 8 ^^ n) 0 = (0 :: uint256)" for n by (induction n) simp_all
  then show ?thesis by (simp add: sum_hash_def uint256_of_bytes_def)
qed

lemma example_prefixes:
  "be_bytes HashPrefix_ledgerMaster = [76, 87, 82, 0]" "be_bytes HashPrefix_innerNode = [77, 73, 78, 0]" "be_bytes (1 :: u32) = [0, 0, 0, 1]" "be_bytes (2 :: u32) = [0, 0, 0, 2]"
  by (simp_all add: be_bytes_def HashPrefix_ledgerMaster_def HashPrefix_innerNode_def HashPrefix_make_def)

lemma sealed_example_free: "collision_free sum_hash (ledger_hashed sum_hash (sealed_example sum_hash 1) @ ledger_hashed sum_hash (sealed_example sum_hash 2))"
proof -
  obtain r where a: "be_bytes HashPrefix_ledgerMaster @ header_bytes (lg_info (sealed_example sum_hash 1)) = 76 # 87 # 82 # 0 # 0 # 0 # 0 # 1 # r"
    by (simp add: header_bytes_parts sealed_example_def empty_info_def Let_def example_prefixes)
  obtain r' where b: "be_bytes HashPrefix_ledgerMaster @ header_bytes (lg_info (sealed_example sum_hash 2)) = 76 # 87 # 82 # 0 # 0 # 0 # 0 # 2 # r'"
    by (simp add: header_bytes_parts sealed_example_def empty_info_def Let_def example_prefixes)
  obtain r'' where c: "inner_bytes (replicate 16 0) None = 77 # r''" by (simp add: inner_bytes_def example_prefixes)
  have nz: "sum_hash (x # xs) \<noteq> 0" if "x \<noteq> 0" for x xs using sum_hash_nth[of "x # xs" "[]" 0] that by (auto simp: sum_hash_nil)
  have n1: "sum_hash (76 # xs) \<noteq> sum_hash (77 # ys)" for xs ys
    using sum_hash_nth[of "76 # xs" "77 # ys" 0] by (intro notI) simp
  have n2: "sum_hash (76 # 87 # 82 # 0 # 0 # 0 # 0 # 1 # r) \<noteq> sum_hash (76 # 87 # 82 # 0 # 0 # 0 # 0 # 2 # r')"
    using sum_hash_nth[of "76 # 87 # 82 # 0 # 0 # 0 # 0 # 1 # r" "76 # 87 # 82 # 0 # 0 # 0 # 0 # 2 # r'" 7] by (intro notI) simp
  show ?thesis unfolding sealed_example_hashed a b c
    by (simp add: collision_free_def nz n1 n1[symmetric] n2 n2[symmetric])
qed

theorem ledger_hash_identifies_witness:
  "li_hash (lg_info (sealed_example sum_hash 1)) \<noteq> li_hash (lg_info (sealed_example sum_hash 2))"
proof
  let ?l = "sealed_example sum_hash 1" and ?l' = "sealed_example sum_hash 2"
  assume same: "li_hash (lg_info ?l) = li_hash (lg_info ?l')"
  have "wire_info (lg_info ?l) = wire_info (lg_info ?l')"
    using ledger_hash_identifies[OF sealed_example_ok sealed_example_ok sealed_example_free same] deserializeHeader_bytes(1)
    by (simp add: header_bytes_def)
  from arg_cong[OF this, of li_seq] show False by (simp add: wire_info_def sealed_example_def Let_def)
qed

text \<open>
  C8: Updating the skip list of a ledger succeeds: the record of recent ledgers holds the last 256 of the hashes it
  had with the parent's appended; if the parent's number is a multiple of 256 its hash is also appended to the
  record of its range; and no other entry of the ledger changes.  The entries at the two keys, if any, must
  be such records with at most 256 hashes, and the hash function must tell old and new records apart.
\<close>

theorem updateSkipList_exact:
  assumes "ledger_ok h l" and "li_seq (lg_info l) \<noteq> 0"
    and "skip_ready h (li_seq (lg_info l) - 1) (li_parentHash (lg_info l)) (ledger_map l)"
  shows "\<exists>l'. Ledger_updateSkipList h l = Inr l' \<and> ledger_ok h l' \<and> txMap l' = txMap l \<and> lg_info l' = lg_info l \<and>
    skip_list (ledger_map l') (keylet_skip h) = last256 (skip_list (ledger_map l) (keylet_skip h) @ [li_parentHash (lg_info l)]) \<and>
    ((li_seq (lg_info l) - 1) AND 0xff = 0 \<longrightarrow> skip_list (ledger_map l') (keylet_skip_of h (li_seq (lg_info l) - 1)) =
       skip_list (ledger_map l) (keylet_skip_of h (li_seq (lg_info l) - 1)) @ [li_parentHash (lg_info l)]) \<and>
    (\<forall>k. kl_key k \<noteq> kl_key (keylet_skip h) \<and>
       ((li_seq (lg_info l) - 1) AND 0xff = 0 \<longrightarrow> kl_key k \<noteq> kl_key (keylet_skip_of h (li_seq (lg_info l) - 1))) \<longrightarrow>
       Ledger_read l' k = Ledger_read l k)"
proof -
  let ?i = "li_seq (lg_info l) - 1"
  obtain m where m: "Ledger_updateSkipList h l = Inr (l\<lparr>stateMap := m\<rparr>)" "ledger_ok h (l\<lparr>stateMap := m\<rparr>)"
    "ledger_map (l\<lparr>stateMap := m\<rparr>) = skip_map h ?i (li_parentHash (lg_info l)) (ledger_map l)"
    "skip_list (ledger_map (l\<lparr>stateMap := m\<rparr>)) (keylet_skip h) = last256 (skip_list (ledger_map l) (keylet_skip h) @ [li_parentHash (lg_info l)])"
    "?i AND 0xff = 0 \<longrightarrow> skip_list (ledger_map (l\<lparr>stateMap := m\<rparr>)) (keylet_skip_of h ?i) =
       skip_list (ledger_map l) (keylet_skip_of h ?i) @ [li_parentHash (lg_info l)]"
    using updateSkipList_ok[OF assms] unfolding Let_def by blast
  have "Ledger_read (l\<lparr>stateMap := m\<rparr>) k = Ledger_read l k"
    if "kl_key k \<noteq> kl_key (keylet_skip h)" "?i AND 0xff = 0 \<longrightarrow> kl_key k \<noteq> kl_key (keylet_skip_of h ?i)" for k
    using that Ledger_read_map(2)[OF m(2)] Ledger_read_map(2)[OF assms(1)]
    by (auto simp: m(3) read_map_def skip_map_def skip_map_every_def Let_def)
  then show ?thesis using m by (intro exI[of _ "l\<lparr>stateMap := m\<rparr>"]) simp
qed

lemma tells_apart_keys: "inj_on sle_key U \<Longrightarrow> tells_apart h U"
  by (auto simp: tells_apart_def inj_on_def)

lemma skip_sle_key:
  assumes "skip_slot M k" and "M (kl_key k) = None" and "kl_type k = ltLEDGER_HASHES" and "length hs \<le> 257"
  shows "sle_key (skip_sle M k i hs) = kl_key k"
proof -
  obtain sle where s: "SLE_make k = Inr sle" "SLE_valid sle" "sle_key sle = kl_key k" "sle_type sle = ltLEDGER_HASHES"
    using SLE_make_valid[of k lf_LedgerHashes] hashes_format assms(3) by auto
  show ?thesis using skip_fill_ok[OF s(2,4) assms(4), of i] s(1,3) assms(2) by (auto simp: skip_sle_def)
qed

lemma example_skip_keys: "kl_key (keylet_skip example_hash) = 3" "kl_key (keylet_skip_of example_hash i) = 7"
  by (simp_all add: keylet_skip_def keylet_skip_of_def getLedgerHashIndex_def getLedgerHashIndex_of_def example_hash_def space_values)

lemma example_skip_ready: "skip_ready example_hash i parent Map.empty"
proof -
  let ?k = "keylet_skip example_hash" and ?k' = "keylet_skip_of example_hash i"
  let ?M = "skip_map_every example_hash i parent Map.empty"
  let ?a = "skip_sle Map.empty ?k' i [parent]" and ?b = "skip_sle ?M ?k i [parent]"
  have slots: "skip_slot Map.empty ?k" "skip_slot Map.empty ?k'" by (simp_all add: skip_slot_def skip_list_def example_skip_keys)
  have e: "ran ?M \<subseteq> {?a}"
    by (cases "i AND 0xff = 0") (simp_all add: skip_map_every_def Let_def skip_list_def)
  have M: "?M (kl_key ?k) = None" by (simp add: skip_map_every_def Let_def example_skip_keys)
  then have M': "skip_slot ?M ?k" "skip_list ?M ?k = []" by (simp_all add: skip_slot_def skip_list_def example_skip_keys(1))
  have "skip_map example_hash i parent Map.empty = ?M(kl_key ?k \<mapsto> ?b)" unfolding skip_map_def Let_def M'(2) by (simp add: last256_def)
  then have sub: "ran (skip_map example_hash i parent Map.empty) \<subseteq> {?a, ?b}" using e ran_upd(1)[of ?M "kl_key ?k" ?b] by auto
  have "sle_key ?a = kl_key ?k'" by (rule skip_sle_key[OF slots(2)]) simp_all
  moreover have "sle_key ?b = kl_key ?k" by (rule skip_sle_key[OF M'(1) M]) simp_all
  ultimately have "inj_on sle_key {?a, ?b}" by (auto simp: example_skip_keys)
  from tells_apart_keys[OF inj_on_subset[OF this sub]] show ?thesis using slots by (simp add: skip_ready_def example_skip_keys)
qed

theorem updateSkipList_exact_witness:
  "\<exists>l'. Ledger_updateSkipList example_hash (empty_ledger\<lparr>lg_info := empty_info\<lparr>li_parentHash := 9\<rparr>\<rparr>) = Inr l' \<and>
     skip_list (ledger_map l') (keylet_skip example_hash) = [9] \<and> skip_list (ledger_map l') (keylet_skip_of example_hash 0) = [9]"
proof -
  let ?l = "empty_ledger\<lparr>lg_info := empty_info\<lparr>li_parentHash := 9\<rparr>\<rparr>"
  have l: "ledger_ok example_hash ?l" "ledger_map ?l = Map.empty" using empty_ledger_ok by simp_all
  have i: "li_seq (lg_info ?l) \<noteq> 0" "li_seq (lg_info ?l) - 1 = 0" "li_parentHash (lg_info ?l) = 9" by (simp_all add: empty_info_def)
  have nil: "skip_list Map.empty k = []" for k by (simp add: skip_list_def)
  have "last256 ([] @ [9]) = [9]" "(0 :: u32) AND 0xff = 0" by (simp_all add: last256_def)
  then show ?thesis using updateSkipList_exact[OF l(1) i(1), unfolded l(2) i(2,3) nil, OF example_skip_ready] by (metis append_Nil)
qed

text \<open>
  C15: The first ledger is constructed without an error and is sealed.  All the currency is the balance of the
  one account it has, and its rules enable exactly the configured features and the given amendments.
\<close>

theorem genesis_state:
  assumes "length acc = 20" and "32 * length amendments \<le> 918744"
    and "kl_key (keylet_account h acc) \<noteq> 0" and "kl_key (keylet_amendments h) \<noteq> 0"
    and "kl_key (keylet_account h acc) \<noteq> kl_key (keylet_amendments h)"
  shows "\<exists>l w sle. Ledger_genesis h config amendments acc = Inr (l, w) \<and> sealed h l \<and> addressed h w \<and>
    Ledger_read l (keylet_account h acc) = Inr (Some sle) \<and> getAccountID (sle_obj sle) sfAccount = Inr acc \<and>
    bindE (getFieldAmount (sle_obj sle) sfBalance) ST_sfc = Inr (ledger_drops l) \<and>
    (\<forall>k. kl_key k \<notin> {kl_key (keylet_account h acc), kl_key (keylet_amendments h)} \<longrightarrow> Ledger_read l k = Inr None) \<and>
    (\<forall>f. Rules_enabled (lg_rules l) f \<longleftrightarrow> f \<in> features config \<or> f \<in> set amendments)"
proof -
  let ?k = "keylet_account h acc" and ?k' = "keylet_amendments h"
  obtain l w a b where l: "Ledger_genesis h config amendments acc = Inr (l, w)" "sealed h l" "addressed h w"
    "genesis_account h acc SYSTEM_CURRENCY_START = Inr a" "genesis_amendments h amendments = Inr b"
    "ledger_map l = (if amendments = [] then [kl_key ?k \<mapsto> a] else [kl_key ?k \<mapsto> a, kl_key ?k' \<mapsto> b])"
    "ledger_drops l = SYSTEM_CURRENCY_START" "rules_set (lg_rules l) = ledger_amendments h (ledger_map l)"
    "rules_presets (lg_rules l) = features config"
    using genesis_ok[OF assms, of config] by blast
  have a: "sle_type a = ltACCOUNT_ROOT" "getAccountID (sle_obj a) sfAccount = Inr acc" "getFieldAmount (sle_obj a) sfBalance = Inr genesis_balance"
    using genesis_account_ok[OF assms(1), of h] l(4) by auto
  have b: "sle_type b = ltAMENDMENTS" "sle_amendments b = amendments" using genesis_amendments_ok[OF assms(2), of h] l(5) by auto
  have ok: "ledger_ok h l" using l(2) by (simp add: sealed_def)
  note r = Ledger_read_map(2)[OF ok]
  have read: "Ledger_read l ?k = Inr (Some a)" using r[of ?k] l(6) a(1) assms(5) by (simp add: read_map_def Keylet_check_def keylet_account_def)
  have none: "Ledger_read l k = Inr None" if "kl_key k \<notin> {kl_key ?k, kl_key ?k'}" for k using r[of k] l(6) that by (simp add: read_map_def)
  have "read_map (ledger_map l) ?k' = (if amendments = [] then None else Some b)"
    using l(6) b(1) assms(5) by (simp add: read_map_def Keylet_check_def)
  then have am: "ledger_amendments h (ledger_map l) = set amendments" using b(2) by (simp add: ledger_amendments_def)
  have "ST_sfc genesis_balance = Inr (ledger_drops l)"
    using l(7) by (simp add: signed64_def ST_sfc_def genesis_balance_def ST_native_def ST_unchecked_def SYSTEM_CURRENCY_START_def)
  moreover have "Rules_enabled (lg_rules l) f \<longleftrightarrow> f \<in> features config \<or> f \<in> set amendments" for f
    using l(8,9) am by (simp add: Rules_enabled_def)
  ultimately show ?thesis using l(1-3) a read none by (intro exI[of _ l] exI[of _ w] exI[of _ a]) simp
qed

definition example_config :: Config where
  "example_config = \<lparr>FEE_DEFAULT = 10, TRANSACTION_FEE_BASE = 10, FEE_ACCOUNT_RESERVE = 200000000, FEE_OWNER_RESERVE = 50000000, features = {}\<rparr>"

theorem genesis_state_witness:
  "\<exists>l w. Ledger_genesis example_hash example_config [8] (replicate 20 1) = Inr (l, w) \<and> Rules_enabled (lg_rules l) 8 \<and>
     \<not> Rules_enabled (lg_rules l) 9"
proof -
  have k: "kl_key (keylet_account example_hash (replicate 20 1)) = 23" "kl_key (keylet_amendments example_hash) = 3"
    by (simp_all add: keylet_account_def keylet_amendments_def getAccountRootIndex_def getLedgerAmendmentIndex_def example_hash_def space_values)
  have n: "length (replicate 20 (1 :: u8)) = 20" "32 * length [8 :: uint256] \<le> 918744"
    "kl_key (keylet_account example_hash (replicate 20 1)) \<noteq> 0" "kl_key (keylet_amendments example_hash) \<noteq> 0"
    "kl_key (keylet_account example_hash (replicate 20 1)) \<noteq> kl_key (keylet_amendments example_hash)"
    unfolding k by simp_all
  from genesis_state[OF n, of example_config] obtain l w where
    "Ledger_genesis example_hash example_config [8] (replicate 20 1) = Inr (l, w)"
    "\<forall>f. Rules_enabled (lg_rules l) f \<longleftrightarrow> f \<in> features example_config \<or> f \<in> set [8]" by blast
  then show ?thesis by (simp add: example_config_def)
qed

end
