(* ===== verification/Transactions.thy ===== *)
theory Transactions
  imports Indexes
begin

text \<open>
  Transactions (\<^verbatim>\<open>protocol/STTx.h\<close>, \<^verbatim>\<open>protocol/impl/STTx.cpp\<close>, \<^verbatim>\<open>protocol/impl/Sign.cpp\<close>): construction from bytes and
  from a type, the transaction identifier, and single and multiple signatures.

  Signing and verifying rest on libraries; they and their wrappers in \<^verbatim>\<open>protocol/impl/PublicKey.cpp\<close> and
  \<^verbatim>\<open>SecretKey.cpp\<close> are the parameter \<open>crypto\<close>.  The encoding of an account in a message is a parameter too.  The lemmas show that a valid transaction survives its serialization, that
  its identifier and its signing data determine it, and that signing does not disturb what is signed.
\<close>

section \<open>Transactions\<close>

record STTx =
  tx_obj :: STObject
  tx_type :: int
  tid :: uint256

definition txMinSizeBytes :: nat where "txMinSizeBytes = 32"
definition txMaxSizeBytes :: nat where "txMaxSizeBytes = 1024 * 1024"

definition getTxFormat :: "int \<Rightarrow> SOTemplate res" where
  "getTxFormat ty =
     (case findByType TxFormats ty of
        None \<Rightarrow> Inl (RuntimeError ''Invalid transaction type'')
      | Some t \<Rightarrow> Inr t)"

definition STObject_getHash :: "hasher \<Rightarrow> u32 \<Rightarrow> STObject \<Rightarrow> uint256 res" where
  "STObject_getHash h prefix obj =
     bindE (STObject_add True obj (snd (Serializer_add32 prefix Serializer_empty))) (\<lambda>s. Inr (h (mData s)))"

definition STObject_getSigningHash :: "hasher \<Rightarrow> u32 \<Rightarrow> STObject \<Rightarrow> uint256 res" where
  "STObject_getSigningHash h prefix obj =
     bindE (STObject_add False obj (snd (Serializer_add32 prefix Serializer_empty))) (\<lambda>s. Inr (h (mData s)))"

definition STTx_of_object :: "hasher \<Rightarrow> STObject \<Rightarrow> STTx res" where
  "STTx_of_object h obj =
     bindE (getFieldU16 obj sfTransactionType) (\<lambda>ty.
     bindE (getTxFormat (uint ty)) (\<lambda>t.
     bindE (applyTemplate t obj) (\<lambda>obj.
     bindE (STObject_getHash h HashPrefix_transactionID obj) (\<lambda>hash.
       Inr \<lparr>tx_obj = obj, tx_type = uint ty, tid = hash\<rparr>))))"

definition STTx_read :: "hasher \<Rightarrow> SerialIter \<Rightarrow> STTx res" where
  "STTx_read h sit =
     (let length = sit_remain sit in
      if length < txMinSizeBytes \<or> length > txMaxSizeBytes then Inl (RuntimeError ''Transaction length invalid'')
      else
        bindE (STObject_make sit) (\<lambda>((obj, terminator), _).
          if terminator then Inl (RuntimeError ''Transaction contains an object terminator'')
          else STTx_of_object h obj))"

definition STTx_make :: "hasher \<Rightarrow> int \<Rightarrow> (STObject \<Rightarrow> STObject res) \<Rightarrow> STTx res" where
  "STTx_make h type assembler =
     bindE (getTxFormat type) (\<lambda>t.
     bindE (STObject_set_template t) (\<lambda>obj.
     bindE (setFieldU16 sfTransactionType (word_of_int type) obj) (\<lambda>obj.
     bindE (assembler obj) (\<lambda>obj.
     bindE (getFieldU16 obj sfTransactionType) (\<lambda>ty.
       if uint ty \<noteq> type then Inl (LogicError ''Transaction type was mutated during assembly'')
       else
         bindE (STObject_getHash h HashPrefix_transactionID obj) (\<lambda>hash.
           Inr \<lparr>tx_obj = obj, tx_type = uint ty, tid = hash\<rparr>))))))"

definition sterilize :: "hasher \<Rightarrow> STTx \<Rightarrow> STTx res" where
  "sterilize h stx =
     bindE (STObject_add True (tx_obj stx) Serializer_empty) (\<lambda>s. STTx_read h (SerialIter_make (mData s)))"

definition getSequence :: "STTx \<Rightarrow> u32 res" where
  "getSequence tx = getFieldU32 (tx_obj tx) sfSequence"

definition isAccountFieldOkay :: "STObject \<Rightarrow> bool" where
  "isAccountFieldOkay st = list_all (\<lambda>(_, v). case v of V_Account x dflt \<Rightarrow> \<not> STAccount_isDefault x dflt | _ \<Rightarrow> True) (obj_v st)"

section \<open>Signatures\<close>

record crypto =
  publicKeyType :: "Blob \<Rightarrow> bool"
  verify :: "Blob \<Rightarrow> Blob \<Rightarrow> Blob \<Rightarrow> bool \<Rightarrow> bool res"
  sign :: "Blob \<Rightarrow> Blob \<Rightarrow> Blob \<Rightarrow> Blob"

definition HashPrefix_txSign :: u32 where
  "HashPrefix_txSign = HashPrefix_make CHR ''S'' CHR ''T'' CHR ''X''"

definition HashPrefix_txMultiSign :: u32 where
  "HashPrefix_txMultiSign = HashPrefix_make CHR ''S'' CHR ''M'' CHR ''T''"

definition tfFullyCanonicalSig :: u32 where "tfFullyCanonicalSig = 0x80000000"
definition minMultiSigners :: nat where "minMultiSigners = 1"
definition maxMultiSigners :: nat where "maxMultiSigners = 8"

definition getSigningData :: "STTx \<Rightarrow> Blob res" where
  "getSigningData that =
     bindE (STObject_add False (tx_obj that) (snd (Serializer_add32 HashPrefix_txSign Serializer_empty))) (\<lambda>s. Inr (mData s))"

definition getSigningHash :: "hasher \<Rightarrow> STTx \<Rightarrow> uint256 res" where
  "getSigningHash h tx = STObject_getSigningHash h HashPrefix_txSign (tx_obj tx)"

definition getSignature :: "STTx \<Rightarrow> Blob" where
  "getSignature tx = (case getFieldVL (tx_obj tx) sfTxnSignature of Inl _ \<Rightarrow> [] | Inr sig \<Rightarrow> sig)"

definition STTx_sign :: "crypto \<Rightarrow> hasher \<Rightarrow> Blob \<Rightarrow> Blob \<Rightarrow> STTx \<Rightarrow> STTx res" where
  "STTx_sign c h publicKey secretKey tx =
     bindE (getSigningData tx) (\<lambda>data.
     bindE (setFieldVL sfTxnSignature (sign c publicKey secretKey data) (tx_obj tx)) (\<lambda>obj.
     bindE (STObject_getHash h HashPrefix_transactionID obj) (\<lambda>hash.
       Inr (tx\<lparr>tx_obj := obj, tid := hash\<rparr>))))"

definition startMultiSigningData :: "STObject \<Rightarrow> Serializer res" where
  "startMultiSigningData obj = STObject_add False obj (snd (Serializer_add32 HashPrefix_txMultiSign Serializer_empty))"

definition finishMultiSigningData :: "uint160 \<Rightarrow> Serializer \<Rightarrow> Serializer" where
  "finishMultiSigningData signingID s = snd (Serializer_addBitString signingID s)"

definition buildMultiSigningData :: "STObject \<Rightarrow> uint160 \<Rightarrow> Serializer res" where
  "buildMultiSigningData obj signingID = bindE (startMultiSigningData obj) (\<lambda>s. Inr (finishMultiSigningData signingID s))"

text \<open>The blocks that catch every exception and take it for an invalid signature.\<close>

definition valid_single :: "crypto \<Rightarrow> STTx \<Rightarrow> bool res" where
  "valid_single c tx =
     bindE (getFlags (tx_obj tx)) (\<lambda>flags.
     let fullyCanonical = flags AND tfFullyCanonicalSig \<noteq> 0 in
     bindE (getFieldVL (tx_obj tx) sfSigningPubKey) (\<lambda>spk.
       if publicKeyType c spk then
         bindE (getFieldVL (tx_obj tx) sfTxnSignature) (\<lambda>signature.
         bindE (getSigningData tx) (\<lambda>data.
           verify c spk data signature fullyCanonical))
       else Inr False))"

definition checkSingleSign :: "crypto \<Rightarrow> STTx \<Rightarrow> (bool \<times> string) res" where
  "checkSingleSign c tx =
     bindE (isFieldPresent (tx_obj tx) sfSigners) (\<lambda>present.
       if present then Inr (False, ''Cannot both single- and multi-sign.'')
       else if valid_single c tx \<noteq> Inr True then Inr (False, ''Invalid signature.'')
       else Inr (True, []))"

definition valid_signer :: "crypto \<Rightarrow> Serializer \<Rightarrow> bool \<Rightarrow> uint160 \<Rightarrow> STObject \<Rightarrow> bool res" where
  "valid_signer c dataStart fullyCanonical accountID signer =
     (let s = finishMultiSigningData accountID dataStart in
      bindE (getFieldVL signer sfSigningPubKey) (\<lambda>spk.
        if publicKeyType c spk then
          bindE (getFieldVL signer sfTxnSignature) (\<lambda>signature. verify c spk (mData s) signature fullyCanonical)
        else Inr False))"

fun check_signers :: "crypto \<Rightarrow> (uint160 \<Rightarrow> string) \<Rightarrow> Serializer \<Rightarrow> bool \<Rightarrow> uint160 \<Rightarrow> uint160 \<Rightarrow> (SField \<times> STObject) list \<Rightarrow>
    (bool \<times> string) res" where
  "check_signers c toBase58 dataStart fullyCanonical txnAccountID lastAccountID [] = Inr (True, [])"
| "check_signers c toBase58 dataStart fullyCanonical txnAccountID lastAccountID ((_, signer) # signers) =
     bindE (getAccountID signer sfAccount) (\<lambda>accountID.
       if accountID = txnAccountID then Inr (False, ''Invalid multisigner.'')
       else if lastAccountID = accountID then Inr (False, ''Duplicate Signers not allowed.'')
       else if uint160_less accountID lastAccountID then Inr (False, ''Unsorted Signers array.'')
       else if valid_signer c dataStart fullyCanonical accountID signer \<noteq> Inr True
         then Inr (False, ''Invalid signature on account '' @ toBase58 accountID @ ''.'')
       else check_signers c toBase58 dataStart fullyCanonical txnAccountID accountID signers)"

definition checkMultiSign :: "crypto \<Rightarrow> (uint160 \<Rightarrow> string) \<Rightarrow> STTx \<Rightarrow> (bool \<times> string) res" where
  "checkMultiSign c toBase58 tx =
     bindE (isFieldPresent (tx_obj tx) sfSigners) (\<lambda>present.
       if \<not> present then Inr (False, ''Empty SigningPubKey.'')
       else
         bindE (isFieldPresent (tx_obj tx) sfTxnSignature) (\<lambda>present.
           if present then Inr (False, ''Cannot both single- and multi-sign.'')
           else
             bindE (getFieldArray (tx_obj tx) sfSigners) (\<lambda>signers.
               if length signers < minMultiSigners \<or> length signers > maxMultiSigners
               then Inr (False, ''Invalid Signers array size.'')
               else
                 bindE (startMultiSigningData (tx_obj tx)) (\<lambda>dataStart.
                 bindE (getAccountID (tx_obj tx) sfAccount) (\<lambda>txnAccountID.
                 bindE (getFlags (tx_obj tx)) (\<lambda>flags.
                   check_signers c toBase58 dataStart (flags AND tfFullyCanonicalSig \<noteq> 0) txnAccountID zero160 signers))))))"

definition checkSign :: "crypto \<Rightarrow> (uint160 \<Rightarrow> string) \<Rightarrow> bool \<Rightarrow> STTx \<Rightarrow> bool \<times> string" where
  "checkSign c toBase58 allowMultiSign tx =
     (case (if allowMultiSign then
              bindE (getFieldVL (tx_obj tx) sfSigningPubKey) (\<lambda>signingPubKey.
                if signingPubKey = [] then checkMultiSign c toBase58 tx else checkSingleSign c tx)
            else checkSingleSign c tx) of
        Inl _ \<Rightarrow> (False, ''Internal signature check failure.'')
      | Inr ret \<Rightarrow> ret)"


section \<open>Valid transactions\<close>

lemma tx_formats_shape:
  "list_all (\<lambda>(ty, t). 0 \<le> ty \<and> ty \<le> 65535 \<and> (sfTransactionType, soeREQUIRED) \<in> set t \<and> (sfTxnSignature, soeOPTIONAL) \<in> set t \<and>
     (sfSigningPubKey, soeREQUIRED) \<in> set t \<and> (sfSigners, soeOPTIONAL) \<in> set t \<and> (sfFlags, soeOPTIONAL) \<in> set t \<and>
     list_all (\<lambda>(f, _). f mod 65536 < 256) t) TxFormats"
  by (simp add: TxFormats_def tf_defs)

lemma tx_format:
  assumes "findByType TxFormats ty = Some t"
  shows "template_ok t" and "distinct (map fst t)" and "\<forall>(f, _) \<in> set t. shouldInclude f True"
    and "(sfTransactionType, soeREQUIRED) \<in> set t" and "(sfTxnSignature, soeOPTIONAL) \<in> set t" and "(sfSigningPubKey, soeREQUIRED) \<in> set t"
    and "(sfSigners, soeOPTIONAL) \<in> set t" and "(sfFlags, soeOPTIONAL) \<in> set t" and "0 \<le> ty" and "ty \<le> 65535"
proof -
  have t: "(ty, t) \<in> set TxFormats" using assms by (auto simp: findByType_def dest: map_of_SomeD)
  then show ok: "template_ok t" using tx_formats_ok by (auto simp: list_all_iff)
  then show "distinct (map fst t)" by (simp add: template_ok_def)
  have s: "0 \<le> ty \<and> ty \<le> 65535 \<and> (sfTransactionType, soeREQUIRED) \<in> set t \<and> (sfTxnSignature, soeOPTIONAL) \<in> set t \<and>
     (sfSigningPubKey, soeREQUIRED) \<in> set t \<and> (sfSigners, soeOPTIONAL) \<in> set t \<and> (sfFlags, soeOPTIONAL) \<in> set t \<and>
     list_all (\<lambda>(f, _). f mod 65536 < 256) t"
    using tx_formats_shape t unfolding list_all_iff by blast
  then show "(sfTransactionType, soeREQUIRED) \<in> set t" "(sfTxnSignature, soeOPTIONAL) \<in> set t" "(sfSigningPubKey, soeREQUIRED) \<in> set t"
    "(sfSigners, soeOPTIONAL) \<in> set t" "(sfFlags, soeOPTIONAL) \<in> set t" "0 \<le> ty" "ty \<le> 65535" by blast+
  show "\<forall>(f, _) \<in> set t. shouldInclude f True"
    using known_code(4) ok s by (fastforce simp: list_all_iff template_ok_def)
qed

text \<open>A transaction in the shape of its format, with values that can be serialized and the identifier of its bytes.\<close>

definition tx_shape :: "STTx \<Rightarrow> bool" where
  "tx_shape tx \<longleftrightarrow>
     (case findByType TxFormats (tx_type tx) of
        None \<Rightarrow> False
      | Some t \<Rightarrow> templated t (tx_obj tx) \<and>
          map_of (obj_v (tx_obj tx)) sfTransactionType = Some (V_UInt16 (word_of_int (tx_type tx)))) \<and>
     fields_wire (obj_v (tx_obj tx))"

definition tx_bytes :: "STTx \<Rightarrow> Blob" where
  "tx_bytes tx = fields_bytes (getSortedFields True (tx_obj tx))"

definition tx_valid :: "hasher \<Rightarrow> STTx \<Rightarrow> bool" where
  "tx_valid h tx \<longleftrightarrow> tx_shape tx \<and> tid tx = h (be_bytes HashPrefix_transactionID @ tx_bytes tx) \<and>
     txMinSizeBytes \<le> length (tx_bytes tx) \<and> length (tx_bytes tx) \<le> txMaxSizeBytes"

lemma tx_shapeD:
  assumes "tx_shape tx"
  obtains t where "findByType TxFormats (tx_type tx) = Some t" and "templated t (tx_obj tx)"
    and "map_of (obj_v (tx_obj tx)) sfTransactionType = Some (V_UInt16 (word_of_int (tx_type tx)))" and "fields_wire (obj_v (tx_obj tx))"
  using assms by (auto simp: tx_shape_def split: option.splits)

lemma tx_wire:
  assumes "tx_shape tx"
  shows "wire_top (tx_obj tx)"
proof -
  obtain t where t: "findByType TxFormats (tx_type tx) = Some t" "templated t (tx_obj tx)" "fields_wire (obj_v (tx_obj tx))"
    using assms by (rule tx_shapeD)
  show ?thesis by (rule wire_top_fields[OF tx_format(1,3)[OF t(1)] templated_names[OF t(2)] t(3)])
qed

lemma tx_add:
  assumes "tx_shape tx"
  shows "STObject_add True (tx_obj tx) s = Inr (s\<lparr>mData := mData s @ tx_bytes tx\<rparr>)"
    and "STObject_getHash h prefix (tx_obj tx) = Inr (h (be_bytes prefix @ tx_bytes tx))"
  using object_appends[OF tx_wire[OF assms]]
  by (simp_all add: appends_def tx_bytes_def STObject_getHash_def)

lemma tx_read_back:
  assumes "tx_valid h tx"
  shows "STTx_read h (SerialIter_make (tx_bytes tx)) = Inr tx"
proof -
  have shape: "tx_shape tx" using assms by (simp add: tx_valid_def)
  obtain t where t: "findByType TxFormats (tx_type tx) = Some t" "templated t (tx_obj tx)"
    "map_of (obj_v (tx_obj tx)) sfTransactionType = Some (V_UInt16 (word_of_int (tx_type tx)))"
    using shape by (rule tx_shapeD)
  note f = tx_format[OF t(1)] and n = templated_names[OF t(2)]
  have inc: "\<forall>(f, v) \<in> set (obj_v (tx_obj tx)). v \<noteq> V_NotPresent \<longrightarrow> shouldInclude f True"
    using f(3) arg_cong[OF n, of set] by (auto simp: set_eq_iff image_iff) (metis (mono_tags, lifting) case_prod_unfold fst_conv)
  have u16: "getFieldU16 (STObject (getSortedFields True (tx_obj tx)) None) sfTransactionType = Inr (word_of_int (tx_type tx))"
    using getFieldU16_sorted[OF templated_aligned[OF t(2)] _ inc t(3)] f(2) n by simp
  have ty: "uint (word_of_int (tx_type tx) :: u16) = tx_type tx"
    using f(9,10) by (simp add: uint_word_of_int take_bit_int_eq_self)
  have make: "STObject_make (SerialIter_make (tx_bytes tx)) = Inr ((STObject (getSortedFields True (tx_obj tx)) None, False),
     SerialIter_advance (length (tx_bytes tx)) (SerialIter_make (tx_bytes tx)))"
    using object_read_back[OF tx_wire[OF shape] tx_add(1)[OF shape]] by (simp add: Serializer_empty_def)
  have len: "txMinSizeBytes \<le> sit_remain (SerialIter_make (tx_bytes tx))" "sit_remain (SerialIter_make (tx_bytes tx)) \<le> txMaxSizeBytes"
    using assms by (simp_all add: tx_valid_def SerialIter_make_def)
  show ?thesis using make len u16 ty t(1) applyTemplate_sorted[OF t(2) f(2) inc] tx_add(2)[OF shape, of h] assms
    by (simp add: STTx_read_def STTx_of_object_def getTxFormat_def tx_valid_def)
qed

lemma tx_bytes_inj: "tx_valid h tx \<Longrightarrow> tx_valid h tx' \<Longrightarrow> tx_bytes tx = tx_bytes tx' \<Longrightarrow> tx = tx'"
  using tx_read_back[of h tx] tx_read_back[of h tx'] by (metis sum.inject(2))

section \<open>What is signed\<close>

lemma signature_info: "\<not> sf_signing (SField_info sfTxnSignature)" "sf_type (SField_info sfTxnSignature) = STI_VL"
proof -
  have "SField_make STI_VL 4 ''TxnSignature'' sMD_Default False \<in> set knownCodeToField"
    by (simp add: knownCodeToField_def) (simp add: fields_vl_def)
  from known_info[OF this[unfolded SField_make_def]]
  show "\<not> sf_signing (SField_info sfTxnSignature)" "sf_type (SField_info sfTxnSignature) = STI_VL" by (simp_all add: field_code_sum)
qed

definition signing_fields :: "STObject \<Rightarrow> fields" where
  "signing_fields obj = getSortedFields False obj"

lemma signing_fields_filter: "signing_fields obj = filter (\<lambda>(f, _). sf_signing (SField_info f)) (getSortedFields True obj)"
  unfolding signing_fields_def getSortedFields_def filter_sort filter_filter
  by (intro arg_cong[where f = "sort_key fst"] filter_cong) (auto simp: shouldInclude_def)

definition signing_bytes :: "STTx \<Rightarrow> Blob" where
  "signing_bytes tx = fields_bytes (signing_fields (tx_obj tx))"

lemma signing_add:
  assumes "tx_shape tx"
  shows "STObject_add False (tx_obj tx) s = Inr (s\<lparr>mData := mData s @ signing_bytes tx\<rparr>)"
    and "getSigningData tx = Inr (be_bytes HashPrefix_txSign @ signing_bytes tx)"
proof -
  have "appends (STValue_add v) (value_bytes v)" if "(f, v) \<in> set (getSortedFields False (tx_obj tx))" for f v
    using that wire_top_codes[OF tx_wire[OF assms]] codesD(1)
    unfolding signing_fields_def[symmetric] signing_fields_filter by (auto simp: wire_fields_def)
  then have "appends (STObject_add False (tx_obj tx)) (signing_bytes tx)"
    unfolding signing_bytes_def signing_fields_def by (intro appends_object) blast
  then show "STObject_add False (tx_obj tx) s = Inr (s\<lparr>mData := mData s @ signing_bytes tx\<rparr>)"
    "getSigningData tx = Inr (be_bytes HashPrefix_txSign @ signing_bytes tx)"
    by (simp_all add: appends_def getSigningData_def)
qed

lemma sorted_sorted: "getSortedFields True (STObject (signing_fields obj) None) = signing_fields obj"
proof -
  have "filter (\<lambda>(f, v). getSType v \<noteq> STI_NOTPRESENT \<and> shouldInclude f True) (signing_fields obj) = signing_fields obj"
    by (auto simp: filter_id_conv signing_fields_def getSortedFields_def shouldInclude_def)
  moreover have "sort_key fst (signing_fields obj) = signing_fields obj"
    by (simp add: signing_fields_def getSortedFields_def sort_key_id_if_sorted)
  ultimately show ?thesis by (simp add: getSortedFields_def[of True])
qed

lemma signing_bytes_inj:
  assumes "tx_shape tx" and "tx_shape tx'" and "signing_bytes tx = signing_bytes tx'"
  shows "signing_fields (tx_obj tx) = signing_fields (tx_obj tx')"
proof -
  have w: "wire_top (STObject (signing_fields (tx_obj tx)) None)" if "tx_shape tx" for tx
    using tx_wire[OF that] unfolding wire_top_def sorted_sorted unfolding wire_fields_def signing_fields_filter
    by (auto simp: sorted_wrt_map sorted_wrt_filter)
  let ?o = "STObject (signing_fields (tx_obj tx)) None" and ?o' = "STObject (signing_fields (tx_obj tx')) None"
  have "STObject_add True ?o Serializer_empty = STObject_add True ?o' Serializer_empty"
    using object_appends[OF w[OF assms(1)]] object_appends[OF w[OF assms(2)]] assms(3)
    by (simp add: appends_def sorted_sorted signing_bytes_def)
  from STObject_add_inj[OF w[OF assms(1)] w[OF assms(2)] this] show ?thesis by (simp add: sorted_sorted)
qed

lemma signing_fields_value:
  assumes "tx_shape tx" and "sf_signing (SField_info f)"
  shows "value_of (signing_fields (tx_obj tx)) f = value_of (obj_v (tx_obj tx)) f"
proof -
  obtain t where t: "findByType TxFormats (tx_type tx) = Some t" "templated t (tx_obj tx)" using assms(1) by (rule tx_shapeD)
  note f = tx_format[OF t(1)] and n = templated_names[OF t(2)]
  have d: "distinct (map fst (obj_v (tx_obj tx)))" using f(2) n by simp
  have inc: "\<forall>(f, v) \<in> set (obj_v (tx_obj tx)). v \<noteq> V_NotPresent \<longrightarrow> shouldInclude f True"
    using f(3) arg_cong[OF n, of set] by (auto simp: set_eq_iff image_iff) (metis (mono_tags, lifting) case_prod_unfold fst_conv)
  have "map_of (filter (\<lambda>(f, _). sf_signing (SField_info f)) u) f = map_of u f" for u :: fields
    using assms(2) by (induction u) auto
  then show ?thesis using present_sorted(1)[OF d inc, of f] by (simp add: signing_fields_filter value_of_def)
qed

text \<open>Storing a signature leaves the other fields in place.\<close>

lemma field_set_fields:
  assumes "templated t obj" and "templated t obj'" and "distinct (map fst t)" and "field_set f u obj obj'"
  shows "filter (\<lambda>(g, _). g \<noteq> f) (obj_v obj') = filter (\<lambda>(g, _). g \<noteq> f) (obj_v obj)"
proof -
  have all: "v = map (\<lambda>g. (g, the (map_of v g))) (map fst v)" if "distinct (map fst v)" for v :: fields
    unfolding map_map comp_def by (rule map_idI[symmetric]) (metis map_of_is_SomeI[OF that] option.sel prod.collapse)
  have n: "map fst (obj_v obj) = map fst t" "map fst (obj_v obj') = map fst t" using templated_names assms(1,2) by auto
  have same: "map_of (obj_v obj') g = map_of (obj_v obj) g" if "g \<noteq> f" for g using assms(4) that by (simp add: field_set_def)
  have "filter (\<lambda>(g, _). g \<noteq> f) (obj_v obj') = map (\<lambda>g. (g, the (map_of (obj_v obj') g))) (filter (\<lambda>g. g \<noteq> f) (map fst t))"
    using all[of "obj_v obj'"] n(2) assms(3) by (metis (no_types, lifting) case_prod_conv comp_apply filter_cong filter_map)
  moreover have "filter (\<lambda>(g, _). g \<noteq> f) (obj_v obj) = map (\<lambda>g. (g, the (map_of (obj_v obj) g))) (filter (\<lambda>g. g \<noteq> f) (map fst t))"
    using all[of "obj_v obj"] n(1) assms(3) by (metis (no_types, lifting) case_prod_conv comp_apply filter_cong filter_map)
  ultimately show ?thesis using same by simp
qed

lemma signing_fields_set:
  assumes "templated t obj" and "templated t obj'" and "distinct (map fst t)" and "field_set f u obj obj'" and "\<not> sf_signing (SField_info f)"
  shows "signing_fields obj' = signing_fields obj"
proof -
  have e: "filter (\<lambda>(g, v). getSType v \<noteq> STI_NOTPRESENT \<and> shouldInclude g False) v =
      filter (\<lambda>(g, v). getSType v \<noteq> STI_NOTPRESENT \<and> shouldInclude g False) (filter (\<lambda>(g, _). g \<noteq> f) v)" for v :: fields
    using assms(5) by (auto simp: shouldInclude_def intro!: filter_cong)
  show ?thesis
    unfolding signing_fields_def getSortedFields_def e[of "obj_v obj"] e[of "obj_v obj'"] field_set_fields[OF assms(1-4)] ..
qed

lemma tx_tid [simp]:
  "tx_shape (tx\<lparr>tid := x\<rparr>) = tx_shape tx" "signing_bytes (tx\<lparr>tid := x\<rparr>) = signing_bytes tx" "tx_bytes (tx\<lparr>tid := x\<rparr>) = tx_bytes tx"
  by (simp_all add: tx_shape_def signing_bytes_def tx_bytes_def cong: option.case_cong)

lemma tx_peek:
  assumes "tx_shape tx"
  shows "peekAtPField (tx_obj tx) f = Inr (map_of (obj_v (tx_obj tx)) f)"
  using assms by (rule tx_shapeD) (rule peekAtPField_aligned[OF templated_aligned])

lemma peek_getFieldVL: "peekAtPField obj f = Inr (Some (V_VL x)) \<Longrightarrow> getFieldVL obj f = Inr x"
  by (simp add: getFieldVL_def getFieldByConstRef_def getSType_def)

text \<open>A valid transaction after it has been signed.\<close>

lemma sign_ok:
  assumes "tx_shape tx" and "length (sign c pk sk (be_bytes HashPrefix_txSign @ signing_bytes tx)) \<le> 918744"
  shows "\<exists>tx'. STTx_sign c h pk sk tx = Inr tx' \<and> tx_shape tx' \<and> signing_bytes tx' = signing_bytes tx \<and> tx_type tx' = tx_type tx \<and>
    tid tx' = h (be_bytes HashPrefix_transactionID @ tx_bytes tx') \<and>
    map_of (obj_v (tx_obj tx')) = (map_of (obj_v (tx_obj tx)))(sfTxnSignature \<mapsto> V_VL (sign c pk sk (be_bytes HashPrefix_txSign @ signing_bytes tx)))"
proof -
  let ?sig = "sign c pk sk (be_bytes HashPrefix_txSign @ signing_bytes tx)"
  obtain t where t: "findByType TxFormats (tx_type tx) = Some t" "templated t (tx_obj tx)"
    "map_of (obj_v (tx_obj tx)) sfTransactionType = Some (V_UInt16 (word_of_int (tx_type tx)))" "fields_wire (obj_v (tx_obj tx))"
    using assms(1) by (rule tx_shapeD)
  note f = tx_format[OF t(1)]
  have w: "wire_value 10 sfTxnSignature (V_VL ?sig)"
    using signature_info(2) assms(2) by (simp add: wire_value_step[of 10] wire_construct_def getSType_def)
  obtain obj where o: "setFieldVL sfTxnSignature ?sig (tx_obj tx) = Inr obj" "field_set sfTxnSignature (V_VL ?sig) (tx_obj tx) obj"
    using setField_ok[OF templated_aligned[OF t(2)] fields_wire_typed[OF t(4)], of sfTxnSignature "V_VL ?sig"] signature_info(2)
      names_in[OF templated_names[OF t(2)] f(5)] by (auto simp: setFieldVL_def getSType_def)
  have t': "templated t obj" using templated_field_set[OF t(2) f(2,5) o(2)] by (simp add: element_ok_def)
  have w': "fields_wire (obj_v obj)"
    using f(2) templated_names[OF t'] w by (intro fields_wire_set[OF t(4) o(2)]) auto
  have m: "map_of (obj_v obj) = (map_of (obj_v (tx_obj tx)))(sfTxnSignature \<mapsto> V_VL ?sig)" using o(2) by (simp add: field_set_def)
  let ?tx = "tx\<lparr>tx_obj := obj\<rparr>"
  have shape: "tx_shape ?tx" using t t' w' m by (simp add: tx_shape_def)
  have same: "signing_bytes ?tx = signing_bytes tx"
    using signing_fields_set[OF t(2) t' f(2) o(2) signature_info(1)] by (simp add: signing_bytes_def)
  let ?tx' = "?tx\<lparr>tid := h (be_bytes HashPrefix_transactionID @ tx_bytes ?tx)\<rparr>"
  have run: "STTx_sign c h pk sk tx = Inr ?tx'"
    using signing_add(2)[OF assms(1)] o(1) tx_add(2)[OF shape, of h] by (simp add: STTx_sign_def)
  show ?thesis
  proof (intro exI[of _ ?tx'] conjI run)
    show "tx_shape ?tx'" "signing_bytes ?tx' = signing_bytes tx" using shape same by simp_all
    show "map_of (obj_v (tx_obj ?tx')) = (map_of (obj_v (tx_obj tx)))(sfTxnSignature \<mapsto> V_VL ?sig)" using m by simp
  qed simp_all
qed

section \<open>Properties\<close>

text \<open>
  C17: A valid transaction is serialized and read back as it was, and its identifier is the hash of the prefixed bytes;
  so valid transactions with the same identifier are the same, unless the hash function collides on their bytes.
\<close>

theorem tx_roundtrip:
  assumes "tx_valid h tx"
  shows "sterilize h tx = Inr tx \<and>
    (\<forall>tx'. tx_valid h tx' \<and> tid tx' = tid tx \<and>
       (h (be_bytes HashPrefix_transactionID @ tx_bytes tx) = h (be_bytes HashPrefix_transactionID @ tx_bytes tx') \<longrightarrow> tx_bytes tx = tx_bytes tx') \<longrightarrow>
       tx' = tx)"
proof -
  have shape: "tx_shape tx" using assms by (simp add: tx_valid_def)
  have "sterilize h tx = Inr tx"
    using tx_add(1)[OF shape] tx_read_back[OF assms] by (simp add: sterilize_def Serializer_empty_def)
  moreover have "tx' = tx" if "tx_valid h tx'" "tid tx' = tid tx"
      "h (be_bytes HashPrefix_transactionID @ tx_bytes tx) = h (be_bytes HashPrefix_transactionID @ tx_bytes tx') \<longrightarrow> tx_bytes tx = tx_bytes tx'" for tx'
  proof -
    have "h (be_bytes HashPrefix_transactionID @ tx_bytes tx) = h (be_bytes HashPrefix_transactionID @ tx_bytes tx')"
      using that(1,2) assms unfolding tx_valid_def by metis
    then have "tx_bytes tx = tx_bytes tx'" using that(3) by blast
    then show ?thesis using tx_bytes_inj[OF assms that(1)] by blast
  qed
  ultimately show ?thesis by blast
qed

definition example_values :: "SField \<rightharpoonup> STValue" where
  "example_values = [sfTransactionType \<mapsto> V_UInt16 3, sfAccount \<mapsto> V_Account (replicate 20 1) False, sfSequence \<mapsto> V_UInt32 1,
     sfFee \<mapsto> V_Amount (ST_native 10 False), sfSigningPubKey \<mapsto> V_VL (replicate 33 2)]"

definition example_fields :: fields where
  "example_fields = map (\<lambda>(f, _). (f, case example_values f of None \<Rightarrow> V_NotPresent | Some v \<Rightarrow> v)) tf_AccountSet"

definition example_tx :: STTx where
  "example_tx = (let tx = \<lparr>tx_obj = STObject example_fields (Some tf_AccountSet), tx_type = ttACCOUNT_SET, tid = 0\<rparr>
     in tx\<lparr>tid := example_hash (be_bytes HashPrefix_transactionID @ tx_bytes tx)\<rparr>)"

lemma example_tx_obj [simp]: "tx_obj example_tx = STObject example_fields (Some tf_AccountSet)" "tx_type example_tx = ttACCOUNT_SET"
  by (simp_all add: example_tx_def Let_def)

lemma map_of_named: "map_of (map (\<lambda>(f, _). (f, g f)) t) f = (if f \<in> fst ` set t then Some (g f) else None)"
  by (induction t) auto

lemma example_field:
  "map_of example_fields f = (if f \<in> fst ` set tf_AccountSet then Some (case example_values f of None \<Rightarrow> V_NotPresent | Some v \<Rightarrow> v) else None)"
  unfolding example_fields_def by (rule map_of_named)

lemma accountset_format: "findByType TxFormats ttACCOUNT_SET = Some tf_AccountSet"
  by (simp add: findByType_def TxFormats_def)

lemma example_tx_shape: "tx_shape example_tx"
proof -
  note f = tx_format[OF accountset_format]
  have ty: "sf_type (SField_info g) = g div 65536" if "(g, s) \<in> set tf_AccountSet" for g s
    using field_ok_type[OF template_field_ok[OF f(1,3) that]] .
  have "templated tf_AccountSet (tx_obj example_tx)"
    by (simp add: templated_def example_fields_def example_values_def tf_AccountSet_def tf_commonFields_def element_ok_def)
  moreover have "ST_wire (ST_native 10 False)" by (simp add: ST_wire_parts ST_canonical_def ST_native_def ST_unchecked_def sfcIssue_def isSFC_def)
  then have "wire_value 10 g v" if "example_values g = Some v" "(g, s) \<in> set tf_AccountSet" for g v s
    using that(1) ty[OF that(2)]
    by (auto simp: example_values_def wire_value_step[of 10] wire_construct_def getSType_def split: if_splits)
  then have "fields_wire example_fields" by (fastforce simp: fields_wire_def example_fields_def split: option.splits)
  moreover have "map_of example_fields sfTransactionType = Some (V_UInt16 3)"
    by (simp add: example_field example_values_def tf_AccountSet_def tf_commonFields_def)
  ultimately show ?thesis using accountset_format by (simp add: tx_shape_def)
qed

lemma example_tx_sorted:
  "getSortedFields True (STObject example_fields t) =
     [(sfTransactionType, V_UInt16 3), (sfSequence, V_UInt32 1), (sfFee, V_Amount (ST_native 10 False)),
      (sfSigningPubKey, V_VL (replicate 33 2)), (sfAccount, V_Account (replicate 20 1) False)]"
proof -
  have inc: "shouldInclude g True" if "g \<in> fst ` set tf_AccountSet" for g using tx_format(3)[OF accountset_format] that by auto
  have "filter (\<lambda>(f, v). getSType v \<noteq> STI_NOTPRESENT \<and> shouldInclude f True) example_fields =
     [(sfTransactionType, V_UInt16 3), (sfAccount, V_Account (replicate 20 1) False), (sfSequence, V_UInt32 1),
      (sfFee, V_Amount (ST_native 10 False)), (sfSigningPubKey, V_VL (replicate 33 2))]"
    using inc by (simp add: example_fields_def example_values_def tf_AccountSet_def tf_commonFields_def getSType_def)
  then show ?thesis by (simp add: getSortedFields_def)
qed

lemma header_length: "1 \<le> length (field_header f)" "length (field_header f) \<le> 3"
  by (auto simp: field_header_def encoding_def Serializer_addFieldID_def push_bytes_def Serializer_empty_def case_prod_unfold)

lemma example_tx_valid: "tx_valid example_hash example_tx"
proof -
  have v: "length (value_bytes (V_UInt16 3)) = 2" "length (value_bytes (V_UInt32 1)) = 4" "length (value_bytes (V_Amount (ST_native 10 False))) = 8"
    "length (value_bytes (V_VL (replicate 33 2))) = 34" "length (value_bytes (V_Account (replicate 20 1) False)) = 21"
    by (simp_all add: value_bytes_def STValue_add.simps Serializer_add16_def Serializer_add32_def Serializer_add64_def push_bytes_def
        Serializer_empty_def ST_serialize_def STBlob_add_def STAccount_add_def STAccount_isDefault_def Serializer_addVL_def
        Serializer_addEncoded_def addEncoded_bytes_def Serializer_addRaw_def size_to_int_small ST_native_def ST_unchecked_def)
  note h = header_length[of sfTransactionType] header_length[of sfSequence] header_length[of sfFee] header_length[of sfSigningPubKey] header_length[of sfAccount]
  have "32 \<le> length (tx_bytes example_tx) \<and> length (tx_bytes example_tx) \<le> 1024"
    using h v by (simp add: tx_bytes_def example_tx_sorted fields_bytes_def field_bytes_def end_marker_def getSType_def)
  moreover have "tid example_tx = example_hash (be_bytes HashPrefix_transactionID @ tx_bytes example_tx)" by (simp add: example_tx_def Let_def tx_bytes_def)
  ultimately show ?thesis using example_tx_shape by (simp add: tx_valid_def txMinSizeBytes_def txMaxSizeBytes_def)
qed

theorem tx_roundtrip_witness: "sterilize example_hash example_tx = Inr example_tx"
  using tx_roundtrip[OF example_tx_valid] by blast

text \<open>
  C19: What is signed is the transaction: storing the signature does not change the signing data, so a signed
  transaction passes the check if \<open>verify\<close> accepts what \<open>sign\<close> signs; and two transactions with the same
  signing data agree in every field that is not itself a signature.
\<close>

theorem tx_signature:
  assumes "tx_shape tx" and "isFieldPresent (tx_obj tx) sfSigners = Inr False" and "getFieldVL (tx_obj tx) sfSigningPubKey = Inr pk"
    and "pk \<noteq> []" and "publicKeyType c pk" and "\<And>data full. verify c pk data (sign c pk sk data) full = Inr True"
    and "\<And>data. length (sign c pk sk data) \<le> 918744"
  shows "(\<exists>tx'. STTx_sign c h pk sk tx = Inr tx' \<and> getSigningData tx' = getSigningData tx \<and> checkSign c toBase58 multi tx' = (True, [])) \<and>
    (\<forall>tx'. tx_shape tx' \<and> getSigningData tx' = getSigningData tx \<longrightarrow>
       (\<forall>f. sf_signing (SField_info f) \<longrightarrow> value_of (obj_v (tx_obj tx')) f = value_of (obj_v (tx_obj tx)) f))"
proof -
  let ?sig = "sign c pk sk (be_bytes HashPrefix_txSign @ signing_bytes tx)"
  obtain tx' where s: "STTx_sign c h pk sk tx = Inr tx'" "tx_shape tx'" "signing_bytes tx' = signing_bytes tx"
    "map_of (obj_v (tx_obj tx')) = (map_of (obj_v (tx_obj tx)))(sfTxnSignature \<mapsto> V_VL ?sig)"
    using sign_ok[OF assms(1,7)] by blast
  note p = tx_peek[OF assms(1)] and p' = tx_peek[OF s(2)]
  have other: "peekAtPField (tx_obj tx') f = peekAtPField (tx_obj tx) f" if "f \<noteq> sfTxnSignature" for f
    using p[of f] p'[of f] s(4) that by simp
  have "getFieldVL (tx_obj tx') sfTxnSignature = Inr ?sig" using p' s(4) by (intro peek_getFieldVL) simp
  moreover have pk: "getFieldVL (tx_obj tx') sfSigningPubKey = Inr pk" using assms(3) other by (simp add: getFieldVL_def getFieldByConstRef_def)
  moreover have data: "getSigningData tx' = Inr (be_bytes HashPrefix_txSign @ signing_bytes tx)"
    using signing_add(2)[OF s(2)] s(3) by simp
  moreover obtain flags where "getFlags (tx_obj tx') = Inr flags" using p' by (simp add: getFlags_def)
  ultimately have "valid_single c tx' = Inr True" using assms(5,6) by (simp add: valid_single_def Let_def)
  moreover have "isFieldPresent (tx_obj tx') sfSigners = Inr False"
  proof -
    have "isFieldPresent obj f = Inr False \<longleftrightarrow> peekAtPField obj f \<in> {Inr None, Inr (Some V_NotPresent)}" for obj f
      by (auto simp: isFieldPresent_def peekAtPField_def bindE_def getSType_present split: option.splits sum.splits)
    then show ?thesis using assms(2) other[of sfSigners] by simp
  qed
  ultimately have "checkSign c toBase58 multi tx' = (True, [])" using pk assms(4) by (simp add: checkSign_def checkSingleSign_def)
  moreover have "value_of (obj_v (tx_obj tx')) f = value_of (obj_v (tx_obj tx)) f"
    if "tx_shape tx'" "getSigningData tx' = getSigningData tx" "sf_signing (SField_info f)" for tx' f
    using signing_bytes_inj[OF that(1) assms(1)] signing_add(2)[OF that(1)] signing_add(2)[OF assms(1)] that(2)
      signing_fields_value[OF that(1,3)] signing_fields_value[OF assms(1) that(3)] by simp
  ultimately show ?thesis using s(1) data signing_add(2)[OF assms(1)] by auto
qed

definition example_crypto :: crypto where
  "example_crypto = \<lparr>publicKeyType = (\<lambda>pk. length pk = 33), verify = (\<lambda>pk data sig full. Inr (sig = take 64 data)),
     sign = (\<lambda>pk sk data. take 64 data)\<rparr>"

theorem tx_signature_witness:
  "\<exists>tx'. STTx_sign example_crypto example_hash (replicate 33 2) [] example_tx = Inr tx' \<and>
     checkSign example_crypto (\<lambda>_. []) True tx' = (True, [])"
proof -
  note p = tx_peek[OF example_tx_shape]
  have in_format: "sfSigners \<in> fst ` set tf_AccountSet" "sfSigningPubKey \<in> fst ` set tf_AccountSet" by (simp_all add: tf_AccountSet_def tf_commonFields_def)
  have "peekAtPField (tx_obj example_tx) sfSigners = Inr (Some V_NotPresent)"
    using p[of sfSigners] in_format(1) by (simp add: example_field example_values_def)
  then have signers: "isFieldPresent (tx_obj example_tx) sfSigners = Inr False"
    by (auto simp: isFieldPresent_def peekAtPField_def bindE_def getSType_def split: option.splits sum.splits)
  have key: "getFieldVL (tx_obj example_tx) sfSigningPubKey = Inr (replicate 33 2)"
    using p[of sfSigningPubKey] in_format(2) by (intro peek_getFieldVL) (simp add: example_field example_values_def)
  have c: "replicate 33 2 \<noteq> ([] :: Blob)" "publicKeyType example_crypto (replicate 33 2)"
    "\<And>data full. verify example_crypto (replicate 33 2) data (sign example_crypto (replicate 33 2) [] data) full = Inr True"
    "\<And>data. length (sign example_crypto (replicate 33 2) [] data) \<le> 918744"
    by (simp_all add: example_crypto_def)
  show ?thesis using tx_signature[OF example_tx_shape signers key c, of example_hash] by blast
qed

end
