(* ===== verification/BuildLedger.thy ===== *)
theory BuildLedger
  imports LedgerClose Transactions "HOL-Library.Sublist"
begin

text \<open>
  Building a ledger (\<^verbatim>\<open>app/ledger/impl/BuildLedger.cpp\<close>) from its parent and a set of transactions in
  canonical order (\<^verbatim>\<open>app/misc/CanonicalTXSet.cpp\<close>).

  The effect of one transaction, \<^verbatim>\<open>apply\<close>, is the parameter of the model: a function from the open view,
  the transaction and the flags to the new view and either an exception or the result code and
  whether it was applied.  The lemmas show what becomes of each transaction of a set, that the passes
  end with every remaining transaction tried in a final pass, and what the built ledger holds.
\<close>

section \<open>Transactions in canonical order\<close>

datatype CanonicalKey = Key (mAccount: uint256) (mSeqNo: u32) (mTXid: uint256)

definition Key_less :: "CanonicalKey \<Rightarrow> CanonicalKey \<Rightarrow> bool" where
  "Key_less lhs rhs =
     (if mAccount lhs < mAccount rhs then True
      else if mAccount lhs > mAccount rhs then False
      else if mSeqNo lhs < mSeqNo rhs then True
      else if mSeqNo lhs > mSeqNo rhs then False
      else mTXid lhs < mTXid rhs)"

definition Key_greater :: "CanonicalKey \<Rightarrow> CanonicalKey \<Rightarrow> bool" where
  "Key_greater lhs rhs =
     (if mAccount lhs > mAccount rhs then True
      else if mAccount lhs < mAccount rhs then False
      else if mSeqNo lhs > mSeqNo rhs then True
      else if mSeqNo lhs < mSeqNo rhs then False
      else mTXid lhs > mTXid rhs)"

definition Key_less_eq :: "CanonicalKey \<Rightarrow> CanonicalKey \<Rightarrow> bool" where
  "Key_less_eq lhs rhs =
     (if mAccount lhs < mAccount rhs then True
      else if mAccount lhs > mAccount rhs then False
      else if mSeqNo lhs < mSeqNo rhs then True
      else if mSeqNo lhs > mSeqNo rhs then False
      else mTXid lhs \<le> mTXid rhs)"

definition Key_greater_eq :: "CanonicalKey \<Rightarrow> CanonicalKey \<Rightarrow> bool" where
  "Key_greater_eq lhs rhs =
     (if mAccount lhs > mAccount rhs then True
      else if mAccount lhs < mAccount rhs then False
      else if mSeqNo lhs > mSeqNo rhs then True
      else if mSeqNo lhs < mSeqNo rhs then False
      else mTXid lhs \<ge> mTXid rhs)"

instantiation CanonicalKey :: linorder
begin
definition less_CanonicalKey :: "CanonicalKey \<Rightarrow> CanonicalKey \<Rightarrow> bool" where
  "less_CanonicalKey = Key_less"
definition less_eq_CanonicalKey :: "CanonicalKey \<Rightarrow> CanonicalKey \<Rightarrow> bool" where
  "less_eq_CanonicalKey = Key_less_eq"
instance
  by standard
    (auto simp: less_CanonicalKey_def less_eq_CanonicalKey_def Key_less_def Key_less_eq_def intro: CanonicalKey.expand split: if_splits)
end

record CanonicalTXSet =
  txs_map :: "(CanonicalKey, STTx) stdmap"
  salt :: uint256

definition CanonicalTXSet_new :: "uint256 \<Rightarrow> CanonicalTXSet" where
  "CanonicalTXSet_new saltHash = \<lparr>txs_map = [], salt = saltHash\<rparr>"

definition accountKey :: "uint160 \<Rightarrow> CanonicalTXSet \<Rightarrow> uint256" where
  "accountKey acc txns = uint256_of_bytes (acc @ replicate 12 0) XOR salt txns"

definition canonical_key :: "STTx \<Rightarrow> CanonicalTXSet \<Rightarrow> CanonicalKey res" where
  "canonical_key txn txns =
     bindE (getAccountID (tx_obj txn) sfAccount) (\<lambda>acc.
     bindE (getSequence txn) (\<lambda>seq.
       Inr (Key (accountKey acc txns) seq (tid txn))))"

definition CanonicalTXSet_insert :: "STTx \<Rightarrow> CanonicalTXSet \<Rightarrow> CanonicalTXSet res" where
  "CanonicalTXSet_insert txn txns =
     bindE (canonical_key txn txns) (\<lambda>key.
       Inr (if smap_find key (txs_map txns) = None then txns\<lparr>txs_map := smap_set key txn (txs_map txns)\<rparr> else txns))"

text \<open>The range from one lower bound to another; it is invalid if the second comes before the first.\<close>

definition CanonicalTXSet_prune :: "uint160 \<Rightarrow> u32 \<Rightarrow> CanonicalTXSet \<Rightarrow> (STTx list \<times> CanonicalTXSet) res" where
  "CanonicalTXSet_prune acc seq txns =
     (let effectiveAccount = accountKey acc txns;
          keyLow = Key effectiveAccount seq 0;
          keyHigh = Key effectiveAccount (seq + 1) 0;
          first = dropWhile (\<lambda>(k, _). k < keyLow) (txs_map txns);
          last1 = dropWhile (\<lambda>(k, _). k < keyHigh) (txs_map txns)
      in if length last1 > length first then Inl OutOfBounds
         else
           let n = length first - length last1
           in Inr (map snd (take n first),
                txns\<lparr>txs_map := take (length (txs_map txns) - length first) (txs_map txns) @ drop n first\<rparr>))"

definition CanonicalTXSet_reset :: "uint256 \<Rightarrow> CanonicalTXSet \<Rightarrow> CanonicalTXSet" where
  "CanonicalTXSet_reset saltHash txns = txns\<lparr>salt := saltHash, txs_map := []\<rparr>"

section \<open>Applying transactions\<close>

definition telLOCAL_ERROR :: int where "telLOCAL_ERROR = -399"
definition temMALFORMED :: int where "temMALFORMED = -299"
definition tefFAILURE :: int where "tefFAILURE = -199"
definition terRETRY :: int where "terRETRY = -99"
definition isTelLocal :: "int \<Rightarrow> bool" where "isTelLocal x \<longleftrightarrow> x \<ge> telLOCAL_ERROR \<and> x < temMALFORMED"
definition isTemMalformed :: "int \<Rightarrow> bool" where "isTemMalformed x \<longleftrightarrow> x \<ge> temMALFORMED \<and> x < tefFAILURE"
definition isTefFailure :: "int \<Rightarrow> bool" where "isTefFailure x \<longleftrightarrow> x \<ge> tefFAILURE \<and> x < terRETRY"

definition tapNONE :: u32 where "tapNONE = 0x00"
definition tapRETRY :: u32 where "tapRETRY = 0x20"

datatype ApplyResult = Success | Fail | Retry

type_synonym apply_fun = "OpenView \<Rightarrow> STTx \<Rightarrow> u32 \<Rightarrow> OpenView \<times> (int \<times> bool) res"

definition applyTransaction :: "apply_fun \<Rightarrow> OpenView \<Rightarrow> STTx \<Rightarrow> bool \<Rightarrow> u32 \<Rightarrow> OpenView \<times> ApplyResult" where
  "applyTransaction apply1 view txn retryAssured flags =
     (let flags = (if retryAssured then flags OR tapRETRY else flags) in
      case apply1 view txn flags of
        (view, Inl _) \<Rightarrow> (view, Fail)
      | (view, Inr (ter, applied)) \<Rightarrow>
          if applied then (view, Success)
          else if isTefFailure ter \<or> isTemMalformed ter \<or> isTelLocal ter then (view, Fail)
          else (view, Retry))"

definition LEDGER_TOTAL_PASSES :: nat where "LEDGER_TOTAL_PASSES = 3"
definition LEDGER_RETRY_PASSES :: nat where "LEDGER_RETRY_PASSES = 1"

record apply_state =
  as_txns :: "(CanonicalKey \<times> STTx) list"
  as_failed :: "uint256 set"
  as_view :: OpenView
  as_changes :: nat

text \<open>
  One pass over the set.  The transactions that are kept are collected in \<open>as_txns\<close>.  \<open>txExists\<close> is
  looked at in the first pass only.
\<close>

definition pass_step :: "apply_fun \<Rightarrow> Ledger \<Rightarrow> nat \<Rightarrow> bool \<Rightarrow> CanonicalKey \<times> STTx \<Rightarrow> apply_state \<Rightarrow> apply_state" where
  "pass_step apply1 built pass certainRetry it st =
     (let txid = mTXid (fst it) in
      case (if pass = 0 then Ledger_txExists built txid else Inr False) of
        Inl _ \<Rightarrow> st\<lparr>as_failed := insert txid (as_failed st)\<rparr>
      | Inr True \<Rightarrow> st
      | Inr False \<Rightarrow>
          (case applyTransaction apply1 (as_view st) (snd it) certainRetry tapNONE of
             (view, Success) \<Rightarrow> st\<lparr>as_view := view, as_changes := as_changes st + 1\<rparr>
           | (view, Fail) \<Rightarrow> st\<lparr>as_view := view, as_failed := insert txid (as_failed st)\<rparr>
           | (view, Retry) \<Rightarrow> st\<lparr>as_view := view, as_txns := as_txns st @ [it]\<rparr>))"

definition run_pass :: "apply_fun \<Rightarrow> Ledger \<Rightarrow> nat \<Rightarrow> bool \<Rightarrow> apply_state \<Rightarrow> apply_state" where
  "run_pass apply1 built pass certainRetry st =
     fold (pass_step apply1 built pass certainRetry) (as_txns st) (st\<lparr>as_txns := [], as_changes := 0\<rparr>)"

fun passes :: "apply_fun \<Rightarrow> Ledger \<Rightarrow> nat list \<Rightarrow> bool \<Rightarrow> apply_state \<Rightarrow> bool \<times> apply_state" where
  "passes apply1 built [] certainRetry st = (certainRetry, st)"
| "passes apply1 built (pass # rest) certainRetry st =
     (let st = run_pass apply1 built pass certainRetry st in
      if as_changes st = 0 \<and> \<not> certainRetry then (certainRetry, st)
      else passes apply1 built rest (if as_changes st = 0 \<or> pass \<ge> LEDGER_RETRY_PASSES then False else certainRetry) st)"

definition applyTransactions ::
  "apply_fun \<Rightarrow> Ledger \<Rightarrow> CanonicalTXSet \<Rightarrow> uint256 set \<Rightarrow> OpenView \<Rightarrow> (nat \<times> CanonicalTXSet \<times> uint256 set \<times> OpenView) res" where
  "applyTransactions apply1 built txns failed view =
     (let (certainRetry, st) = passes apply1 built [0..<LEDGER_TOTAL_PASSES] True
            \<lparr>as_txns = txs_map txns, as_failed = failed, as_view = view, as_changes = 0\<rparr>
      in if as_txns st = [] \<or> \<not> certainRetry
         then Inr (0, txns\<lparr>txs_map := as_txns st\<rparr>, as_failed st, as_view st)
         else Inl (LogicError ''assert''))"

section \<open>Building\<close>

definition featureSHAMapV2 :: "hasher \<Rightarrow> uint256" where
  "featureSHAMapV2 h = h (map of_char ''SHAMapV2'')"

definition OpenView_new :: OpenView where
  "OpenView_new = \<lparr>ov_items = \<lparr>raw_items = [], raw_dropsDestroyed = 0\<rparr>, ov_txs = []\<rparr>"

text \<open>The third component of the result of \<open>applyTxs\<close> is whatever else it changes, such as the set of transactions.\<close>

definition buildLedgerImpl ::
  "hasher \<Rightarrow> Config \<Rightarrow> Ledger \<Rightarrow> u32 \<Rightarrow> bool \<Rightarrow> u32 \<Rightarrow> (OpenView \<Rightarrow> Ledger \<Rightarrow> (OpenView \<times> 'a) res) \<Rightarrow>
     (Ledger \<times> 'a \<times> (uint256 \<times> Blob) list) res" where
  "buildLedgerImpl h config parent closeTime closeTimeCorrect closeResolution applyTxs =
     (let built = Ledger_next h parent closeTime in
      bindE (if Rules_enabled (lg_rules built) (featureSHAMapV2 h) \<and> \<not> is_v2 (stateMap built)
             then Ledger_make_v2 h built else Inr (built, [])) (\<lambda>(built, w0).
      bindE (applyTxs OpenView_new built) (\<lambda>(accum, x).
      bindE (OpenView_apply (Ledger_raw h) accum built) (\<lambda>built.
      bindE (Ledger_updateSkipList h built) (\<lambda>built.
      let (_, sm, w1) = flushDirty h (stateMap built);
          (_, tm, w2) = flushDirty h (txMap built);
          built = Ledger_unshare h (built\<lparr>stateMap := sm, txMap := tm\<rparr>)
      in bindE (Ledger_setAccepted h closeTime closeResolution closeTimeCorrect config built) (\<lambda>built.
           Inr (built, x, w0 @ w1 @ w2)))))))"

definition buildLedger ::
  "hasher \<Rightarrow> Config \<Rightarrow> apply_fun \<Rightarrow> Ledger \<Rightarrow> u32 \<Rightarrow> bool \<Rightarrow> u32 \<Rightarrow> CanonicalTXSet \<Rightarrow> uint256 set \<Rightarrow>
     (Ledger \<times> (CanonicalTXSet \<times> uint256 set) \<times> (uint256 \<times> Blob) list) res" where
  "buildLedger h config apply1 parent closeTime closeTimeCorrect closeResolution txns failedTxns =
     buildLedgerImpl h config parent closeTime closeTimeCorrect closeResolution
       (\<lambda>accum built. bindE (applyTransactions apply1 built txns failedTxns accum)
          (\<lambda>(_, txns, failed, accum). Inr (accum, (txns, failed))))"

definition buildLedger_replay ::
  "hasher \<Rightarrow> Config \<Rightarrow> apply_fun \<Rightarrow> Ledger \<Rightarrow> Ledger \<Rightarrow> STTx list \<Rightarrow> u32 \<Rightarrow> (Ledger \<times> unit \<times> (uint256 \<times> Blob) list) res" where
  "buildLedger_replay h config apply1 parent replayLedger orderedTxns applyFlags =
     buildLedgerImpl h config parent (li_closeTime (lg_info replayLedger))
       (li_closeFlags (lg_info replayLedger) AND sLCF_NoConsensusTime = 0) (li_closeTimeResolution (lg_info replayLedger))
       (\<lambda>accum built. Inr (fold (\<lambda>tx view. fst (applyTransaction apply1 view tx False applyFlags)) orderedTxns accum, ()))"

section \<open>The canonical set\<close>

lemma Key_order: "Key_greater a b = (b < a)" "Key_greater_eq a b = (b \<le> a)"
  by (auto simp: less_CanonicalKey_def less_eq_CanonicalKey_def Key_less_def Key_less_eq_def Key_greater_def Key_greater_eq_def)

lemma Key_less_iff: "Key a s t < Key a' s' t' \<longleftrightarrow> a < a' \<or> a = a' \<and> (s < s' \<or> s = s' \<and> t < t')"
  by (auto simp: less_CanonicalKey_def Key_less_def)

definition canonical_ok :: "CanonicalTXSet \<Rightarrow> bool" where
  "canonical_ok txns \<longleftrightarrow> smap_wf (txs_map txns) \<and> (\<forall>(key, txn) \<in> set (txs_map txns). canonical_key txn txns = Inr key)"

lemma canonical_key_salt: "salt txns' = salt txns \<Longrightarrow> canonical_key txn txns' = canonical_key txn txns"
  by (simp add: canonical_key_def accountKey_def)

lemma insert_ok:
  assumes "canonical_ok txns" and "CanonicalTXSet_insert txn txns = Inr txns'"
  shows "canonical_ok txns'" and "salt txns' = salt txns"
    and "\<exists>key. canonical_key txn txns = Inr key \<and> (\<forall>k. smap_find k (txs_map txns') =
      (if k = key \<and> smap_find key (txs_map txns) = None then Some txn else smap_find k (txs_map txns)))"
proof -
  obtain key where key: "canonical_key txn txns = Inr key"
    "txns' = (if smap_find key (txs_map txns) = None then txns\<lparr>txs_map := smap_set key txn (txs_map txns)\<rparr> else txns)"
    using assms(2) by (auto simp: CanonicalTXSet_insert_def elim: bindE_eq_InrE)
  then show salt: "salt txns' = salt txns" by simp
  have "\<forall>(k, t) \<in> set (txs_map txns'). canonical_key t txns = Inr k"
    using assms(1) key by (auto simp: canonical_ok_def smap_set_set split: if_splits)
  then show "canonical_ok txns'" using assms(1) key(2) canonical_key_salt[OF salt] by (simp add: canonical_ok_def)
  show "\<exists>key. canonical_key txn txns = Inr key \<and> (\<forall>k. smap_find k (txs_map txns') =
      (if k = key \<and> smap_find key (txs_map txns) = None then Some txn else smap_find k (txs_map txns)))"
    using key by (auto simp: smap_find_set)
qed

lemma inserts_ok:
  "canonical_ok txns \<Longrightarrow> forE CanonicalTXSet_insert txs txns = Inr txns' \<Longrightarrow>
     canonical_ok txns' \<and> salt txns' = salt txns \<and> (\<forall>txn \<in> set txs. \<exists>key. canonical_key txn txns = Inr key \<and> smap_find key (txs_map txns') \<noteq> None)
     \<and> (\<forall>k v. smap_find k (txs_map txns') = Some v \<longrightarrow> smap_find k (txs_map txns) = Some v \<or> v \<in> set txs) \<and>
     (\<forall>k. smap_find k (txs_map txns) \<noteq> None \<longrightarrow> smap_find k (txs_map txns') \<noteq> None)"
proof (induction txs arbitrary: txns)
  case (Cons txn txs)
  obtain t1 where t1: "CanonicalTXSet_insert txn txns = Inr t1" "forE CanonicalTXSet_insert txs t1 = Inr txns'"
    using Cons.prems(2) by (auto elim: bindE_eq_InrE)
  note i = insert_ok[OF Cons.prems(1) t1(1)]
  obtain key where key: "canonical_key txn txns = Inr key" "\<And>k. smap_find k (txs_map t1) =
      (if k = key \<and> smap_find key (txs_map txns) = None then Some txn else smap_find k (txs_map txns))" using i(3) by blast
  note ih = Cons.IH[OF i(1) t1(2)]
  have "smap_find key (txs_map t1) \<noteq> None" using key(2)[of key] by auto
  then have in': "smap_find key (txs_map txns') \<noteq> None" using ih by blast
  have "\<exists>k. canonical_key x txns = Inr k \<and> smap_find k (txs_map txns') \<noteq> None" if "x \<in> set (txn # txs)" for x
    using that ih key(1) in' canonical_key_salt[OF i(2)] by auto
  moreover have "smap_find k (txs_map txns) = Some v \<or> v \<in> set (txn # txs)" if "smap_find k (txs_map txns') = Some v" for k v
  proof -
    have "smap_find k (txs_map t1) = Some v \<or> v \<in> set txs" using that ih by blast
    then show ?thesis using key(2)[of k] by (auto split: if_splits)
  qed
  moreover have "smap_find k (txs_map txns') \<noteq> None" if "smap_find k (txs_map txns) \<noteq> None" for k
  proof -
    have "smap_find k (txs_map t1) \<noteq> None" using key(2)[of k] that by auto
    then show ?thesis using ih by blast
  qed
  ultimately show ?case using ih i(2) by auto
qed simp

text \<open>The range of one account and sequence number.\<close>

lemma dropWhile_sorted:
  "smap_wf m \<Longrightarrow> dropWhile (\<lambda>(k, _). k < b) m = filter (\<lambda>(k, _). b \<le> k) m"
proof (induction m)
  case (Cons e m)
  obtain k v where e: "e = (k, v)" by (cases e)
  have wf: "smap_wf m" "\<forall>k' \<in> fst ` set m. k < k'" using Cons.prems by (auto simp: smap_wf_def e)
  show ?case
  proof (cases "k < b")
    case False
    then have "filter (\<lambda>(k, _). b \<le> k) m = m" using wf(2) by (fastforce simp: filter_id_conv)
    then show ?thesis using False by (simp add: e)
  qed (use Cons.IH[OF wf(1)] in \<open>simp add: e\<close>)
qed simp

lemma sorted_parts: "smap_wf m \<Longrightarrow> filter (\<lambda>(k, _). k < b) m @ filter (\<lambda>(k, _). b \<le> k) m = m"
proof (induction m)
  case (Cons e m)
  obtain k v where e: "e = (k, v)" by (cases e)
  have wf: "smap_wf m" "\<forall>k' \<in> fst ` set m. k < k'" using Cons.prems by (auto simp: smap_wf_def e)
  show ?case
  proof (cases "k < b")
    case True
    then show ?thesis using Cons.IH[OF wf(1)] by (simp add: e)
  next
    case False
    then have "filter (\<lambda>(k, _). k < b) m = []" using wf(2) by (fastforce simp: filter_empty_conv)
    moreover have "filter (\<lambda>(k, _). b \<le> k) m = m" using False wf(2) by (fastforce simp: filter_id_conv)
    ultimately show ?thesis using False by (simp add: e)
  qed
qed simp

text \<open>The range between two lower bounds is the part of the map between the keys.\<close>

lemma prune_range:
  assumes "smap_wf m" and "lo \<le> hi"
  shows "filter (\<lambda>(k, _). lo \<le> k) m = filter (\<lambda>(k, _). lo \<le> k \<and> k < hi) m @ filter (\<lambda>(k, _). hi \<le> k) m"
proof -
  let ?lo = "filter (\<lambda>(k, _). lo \<le> k) m"
  have "filter (\<lambda>(k, _). k < hi) ?lo = filter (\<lambda>(k, _). lo \<le> k \<and> k < hi) m" by (simp add: case_prod_unfold)
  moreover have "filter (\<lambda>(k, _). hi \<le> k) ?lo = filter (\<lambda>(k, _). hi \<le> k) m"
    unfolding filter_filter by (rule filter_cong) (use assms(2) in auto)
  ultimately show ?thesis using sorted_parts[OF smap_wf_filter[OF assms(1)], of hi "\<lambda>(k, _). lo \<le> k"] by simp
qed

lemma prune_take: "xs = ys @ zs \<Longrightarrow> take (length xs - length zs) xs = ys \<and> drop (length xs - length zs) xs = zs \<and> length zs \<le> length xs"
  by simp

lemma Key_bounds: "Key a s 0 \<le> Key a' s' t' \<longleftrightarrow> a < a' \<or> a = a' \<and> s \<le> s'" "Key a' s' t' < Key a s 0 \<longleftrightarrow> a' < a \<or> a' = a \<and> s' < s"
  by (auto simp: less_eq_CanonicalKey_def Key_less_eq_def less_CanonicalKey_def Key_less_def)

lemma less_Suc_word:
  fixes s t :: u32
  assumes "s + 1 \<noteq> 0"
  shows "t < s + 1 \<longleftrightarrow> t \<le> s"
proof -
  have "1 + s \<noteq> 0" using assms by (simp add: add.commute)
  from unatSuc[OF this] show ?thesis by (simp add: word_less_nat_alt word_le_nat_alt less_Suc_eq_le add.commute)
qed

lemma in_range:
  assumes "s + 1 \<noteq> 0"
  shows "Key a s 0 \<le> k \<and> k < Key a (s + 1) 0 \<longleftrightarrow> mAccount k = a \<and> mSeqNo k = s"
proof (cases k)
  case (Key a' s' t')
  show ?thesis unfolding Key Key_bounds less_Suc_word[OF assms] CanonicalKey.sel
    by (metis less_asym order.antisym order.refl)
qed

lemma prune_ok:
  assumes "smap_wf (txs_map txns)" and "seq + 1 \<noteq> 0"
  shows "CanonicalTXSet_prune acc seq txns =
    Inr (map snd (filter (\<lambda>(k, _). mAccount k = accountKey acc txns \<and> mSeqNo k = seq) (txs_map txns)),
      txns\<lparr>txs_map := filter (\<lambda>(k, _). \<not> (mAccount k = accountKey acc txns \<and> mSeqNo k = seq)) (txs_map txns)\<rparr>)"
proof -
  let ?a = "accountKey acc txns" and ?m = "txs_map txns"
  let ?lo = "Key ?a seq 0" and ?hi = "Key ?a (seq + 1) 0"
  have le: "?lo \<le> ?hi" using less_Suc_word[OF assms(2), of seq] by (simp add: Key_bounds order.strict_implies_order)
  note r = prune_range[OF assms(1) le]
  note t = prune_take[OF r]
  have e: "filter (\<lambda>(k, _). ?lo \<le> k \<and> k < ?hi) ?m = filter (\<lambda>(k, _). mAccount k = ?a \<and> mSeqNo k = seq) ?m"
    by (rule filter_cong) (use in_range[OF assms(2)] in auto)
  have low: "take (length ?m - length (filter (\<lambda>(k, _). ?lo \<le> k) ?m)) ?m = filter (\<lambda>(k, _). k < ?lo) ?m"
    using prune_take[OF sorted_parts[OF assms(1), of ?lo, symmetric]] by simp
  define A where "A = filter (\<lambda>(k, _). k < ?lo) ?m"
  define B where "B = filter (\<lambda>(k, _). ?lo \<le> k \<and> k < ?hi) ?m"
  define C where "C = filter (\<lambda>(k, _). ?hi \<le> k) ?m"
  have "?m = A @ B @ C" using sorted_parts[OF assms(1), of ?lo] r by (simp add: A_def B_def C_def)
  moreover have "filter (\<lambda>(k, _). \<not> (?lo \<le> k \<and> k < ?hi)) A = A" "filter (\<lambda>(k, _). \<not> (?lo \<le> k \<and> k < ?hi)) B = []"
    "filter (\<lambda>(k, _). \<not> (?lo \<le> k \<and> k < ?hi)) C = C"
    unfolding filter_id_conv filter_empty_conv by (auto simp: A_def B_def C_def)
  ultimately have "filter (\<lambda>(k, _). k < ?lo) ?m @ filter (\<lambda>(k, _). ?hi \<le> k) ?m = filter (\<lambda>(k, _). \<not> (?lo \<le> k \<and> k < ?hi)) ?m"
    unfolding A_def[symmetric] C_def[symmetric] by simp
  moreover have "filter (\<lambda>(k, _). \<not> (?lo \<le> k \<and> k < ?hi)) ?m = filter (\<lambda>(k, _). \<not> (mAccount k = ?a \<and> mSeqNo k = seq)) ?m"
    by (rule filter_cong) (use in_range[OF assms(2)] in auto)
  ultimately show ?thesis using t e low
    by (simp add: CanonicalTXSet_prune_def Let_def dropWhile_sorted[OF assms(1)] not_less)
qed

text \<open>The salted key of an account is not that of another.\<close>

lemma accountKey_inj:
  assumes "length acc = 20" and "length acc' = 20" and "salt txns = salt txns'"
  shows "accountKey acc txns = accountKey acc' txns' \<longleftrightarrow> acc = acc'"
proof -
  have "acc @ replicate 12 0 = acc' @ replicate 12 0"
    if "uint256_of_bytes (acc @ replicate 12 0) = uint256_of_bytes (acc' @ replicate 12 0)"
    using arg_cong[OF that, of uint256_bytes] assms(1,2) by simp
  moreover have "a = b" if "a XOR c = b XOR c" for a b c :: uint256
    using arg_cong[OF that, of "\<lambda>x. x XOR c"] by (simp add: xor.assoc)
  ultimately show ?thesis using assms(3) by (auto simp: accountKey_def)
qed

lemma canonical_keyD:
  assumes "canonical_key txn txns = Inr key"
  shows "\<exists>a n. getAccountID (tx_obj txn) sfAccount = Inr a \<and> getSequence txn = Inr n \<and>
    key = Key (uint256_of_bytes (a @ replicate 12 0) XOR salt txns) n (tid txn)"
  using assms by (auto simp: canonical_key_def accountKey_def bindE_eq_Inr)

lemma canonical_key_of:
  assumes "canonical_key txn txns = Inr key" and "\<And>a. getAccountID (tx_obj txn) sfAccount = Inr a \<Longrightarrow> length a = 20"
    and "length acc = 20" and "salt txns' = salt txns"
  shows "mAccount key = accountKey acc txns' \<and> mSeqNo key = seq \<longleftrightarrow>
    getAccountID (tx_obj txn) sfAccount = Inr acc \<and> getSequence txn = Inr seq"
proof -
  obtain a n where "getAccountID (tx_obj txn) sfAccount = Inr a" "getSequence txn = Inr n" "key = Key (accountKey a txns) n (tid txn)"
    using assms(1) by (auto simp: canonical_key_def bindE_eq_Inr)
  then show ?thesis using accountKey_inj[of a acc txns txns'] assms(2-4) by auto
qed

lemma prune_filter:
  assumes "smap_wf (txs_map txns)" and "seq + 1 \<noteq> 0"
    and "\<And>key txn. (key, txn) \<in> set (txs_map txns) \<Longrightarrow> mAccount key = accountKey acc txns \<and> mSeqNo key = seq \<longleftrightarrow> P txn"
  shows "CanonicalTXSet_prune acc seq txns =
    Inr (filter P (map snd (txs_map txns)), txns\<lparr>txs_map := filter (\<lambda>(_, txn). \<not> P txn) (txs_map txns)\<rparr>)"
proof -
  have "filter (\<lambda>(k, _). mAccount k = accountKey acc txns \<and> mSeqNo k = seq) (txs_map txns) = filter (\<lambda>(_, txn). P txn) (txs_map txns)"
    "filter (\<lambda>(k, _). \<not> (mAccount k = accountKey acc txns \<and> mSeqNo k = seq)) (txs_map txns) = filter (\<lambda>(_, txn). \<not> P txn) (txs_map txns)"
    by (rule filter_cong; use assms(3) in auto)+
  then show ?thesis using prune_ok[OF assms(1,2), of acc] by (simp add: filter_map comp_def case_prod_unfold)
qed

text \<open>With the largest sequence number the second bound wraps around and comes first.\<close>

lemma prune_wraps:
  assumes "smap_wf (txs_map txns)" and "seq + 1 = 0"
  shows "CanonicalTXSet_prune acc seq txns =
    (if \<exists>(k, _) \<in> set (txs_map txns). mAccount k = accountKey acc txns \<and> mSeqNo k \<noteq> seq then Inl OutOfBounds else Inr ([], txns))"
proof -
  let ?a = "accountKey acc txns" and ?m = "txs_map txns"
  let ?lo = "Key ?a seq 0" and ?hi = "Key ?a 0 0"
  have le: "?hi \<le> ?lo" by (simp add: Key_bounds)
  have mx: "t < seq \<longleftrightarrow> t \<noteq> seq" for t :: u32
  proof -
    have "seq = - 1" using assms(2) by (simp add: eq_neg_iff_add_eq_0)
    then show ?thesis by (simp add: word_order.not_eq_extremum)
  qed
  note r = prune_range[OF assms(1) le]
  have b: "?hi \<le> k \<and> k < ?lo \<longleftrightarrow> mAccount k = ?a \<and> mSeqNo k \<noteq> seq" for k
    by (cases k) (auto simp: Key_bounds mx)
  let ?r = "filter (\<lambda>(k, _). ?hi \<le> k \<and> k < ?lo) ?m"
  have e: "?r = [] \<longleftrightarrow> \<not> (\<exists>(k, _) \<in> set ?m. mAccount k = ?a \<and> mSeqNo k \<noteq> seq)"
    using b by (auto simp: filter_empty_conv)
  have len: "length (filter (\<lambda>(k, _). ?lo \<le> k) ?m) < length (filter (\<lambda>(k, _). ?hi \<le> k) ?m) \<longleftrightarrow> ?r \<noteq> []"
    unfolding r by simp
  have low: "take (length ?m - length (filter (\<lambda>(k, _). ?lo \<le> k) ?m)) ?m @ filter (\<lambda>(k, _). ?lo \<le> k) ?m = ?m"
    using prune_take[OF sorted_parts[OF assms(1), of ?lo, symmetric]] sorted_parts[OF assms(1), of ?lo] by simp
  have "length (filter (\<lambda>(k, _). ?lo \<le> k) ?m) \<le> length (filter (\<lambda>(k, _). ?hi \<le> k) ?m)" unfolding r by simp
  then show ?thesis using e len low assms(2)
    by (simp add: CanonicalTXSet_prune_def Let_def dropWhile_sorted[OF assms(1)])
qed

section \<open>The passes\<close>

text \<open>A sequence of attempts, each a transaction, whether a retry is assured, and the outcome, from one view to another.\<close>

fun attempts :: "apply_fun \<Rightarrow> (STTx \<times> bool \<times> ApplyResult) list \<Rightarrow> OpenView \<Rightarrow> OpenView \<Rightarrow> bool" where
  "attempts apply1 [] view view' \<longleftrightarrow> view' = view"
| "attempts apply1 ((tx, retry, res) # tr) view view' \<longleftrightarrow>
     snd (applyTransaction apply1 view tx retry tapNONE) = res \<and>
     attempts apply1 tr (fst (applyTransaction apply1 view tx retry tapNONE)) view'"

lemma attempts_append: "attempts apply1 tr v v1 \<Longrightarrow> attempts apply1 tr' v1 v2 \<Longrightarrow> attempts apply1 (tr @ tr') v v2"
  by (induction apply1 tr v v1 rule: attempts.induct) auto

abbreviation it_id :: "CanonicalKey \<times> STTx \<Rightarrow> uint256" where
  "it_id it \<equiv> mTXid (fst it)"

text \<open>
  What attempts \<open>tr\<close> on the transactions \<open>xs\<close> leave: the view is their result, those that remain are \<open>ys\<close>,
  in the same order, and each other one was applied, has failed or is in the ledger already.
\<close>

definition tried ::
  "apply_fun \<Rightarrow> Ledger \<Rightarrow> (STTx \<times> bool \<times> ApplyResult) list \<Rightarrow> (CanonicalKey \<times> STTx) list \<Rightarrow> apply_state \<Rightarrow> (CanonicalKey \<times> STTx) list \<Rightarrow> apply_state \<Rightarrow> bool" where
  "tried apply1 built tr xs st ys st' \<longleftrightarrow>
     attempts apply1 tr (as_view st) (as_view st') \<and> subseq ys xs \<and> fst ` set tr \<subseteq> snd ` set xs \<and>
     as_failed st \<subseteq> as_failed st' \<and> as_failed st' \<subseteq> as_failed st \<union> it_id ` set xs \<and>
     (\<forall>it \<in> set xs. it \<in> set ys \<or> (\<exists>retry. (snd it, retry, Success) \<in> set tr) \<or> it_id it \<in> as_failed st' \<or> Ledger_txExists built (it_id it) = Inr True) \<and>
     (distinct (map it_id xs) \<longrightarrow> (\<forall>it \<in> set ys. it_id it \<in> as_failed st' \<longrightarrow> it_id it \<in> as_failed st))"

lemma triedD:
  assumes "tried apply1 built tr xs st ys st'"
  shows "attempts apply1 tr (as_view st) (as_view st')" and "subseq ys xs" and "fst ` set tr \<subseteq> snd ` set xs" and "as_failed st \<subseteq> as_failed st'"
    and "as_failed st' \<subseteq> as_failed st \<union> it_id ` set xs"
    and "it \<in> set xs \<Longrightarrow> it \<in> set ys \<or> (\<exists>retry. (snd it, retry, Success) \<in> set tr) \<or> it_id it \<in> as_failed st' \<or> Ledger_txExists built (it_id it) = Inr True"
    and "distinct (map it_id xs) \<Longrightarrow> it \<in> set ys \<Longrightarrow> it_id it \<in> as_failed st' \<Longrightarrow> it_id it \<in> as_failed st"
  using assms unfolding tried_def by blast+

lemma subseq_set: "subseq ys xs \<Longrightarrow> set ys \<subseteq> set xs"
  using list_emb_set[of "(=)" ys xs] by blast

lemma subseq_distinct: "subseq ys xs \<Longrightarrow> distinct xs \<Longrightarrow> distinct ys"
  by (auto simp: subseq_conv_nths intro: distinct_nthsI)

lemma step_tried:
  "\<exists>tr ys. tried apply1 built tr [it] st ys (pass_step apply1 built pass retry it st) \<and>
     as_txns (pass_step apply1 built pass retry it st) = as_txns st @ ys \<and> (\<forall>it \<in> set ys. (snd it, retry, Retry) \<in> set tr)"
proof -
  let ?e = "if pass = 0 then Ledger_txExists built (it_id it) else Inr False"
  obtain view res where a: "applyTransaction apply1 (as_view st) (snd it) retry tapNONE = (view, res)"
    by (cases "applyTransaction apply1 (as_view st) (snd it) retry tapNONE")
  consider e where "?e = Inl e" | "?e = Inr True" | "?e = Inr False" by (cases ?e) auto
  then show ?thesis
  proof cases
    case (1 e)
    then show ?thesis by (intro exI[of _ "[]"]) (auto simp: pass_step_def tried_def)
  next
    case 2
    then show ?thesis by (intro exI[of _ "[]"]) (auto simp: pass_step_def tried_def split: if_splits)
  next
    case 3
    have "tried apply1 built [(snd it, retry, res)] [it] st (if res = Retry then [it] else []) (pass_step apply1 built pass retry it st) \<and>
        as_txns (pass_step apply1 built pass retry it st) = as_txns st @ (if res = Retry then [it] else [])"
      using 3 a by (cases res) (auto simp: pass_step_def tried_def)
    then show ?thesis by (intro exI[of _ "[(snd it, retry, res)]"] exI[of _ "if res = Retry then [it] else []"]) auto
  qed
qed

text \<open>Attempts on one part of the transactions and then on another.\<close>

lemma tried_append:
  assumes "tried apply1 built tr xs st ys st1" and "tried apply1 built tr' xs' st1 ys' st2"
  shows "tried apply1 built (tr @ tr') (xs @ xs') st (ys @ ys') st2"
proof -
  note a = triedD[OF assms(1)] and b = triedD[OF assms(2)]
  have "it_id it \<in> as_failed st" if d: "distinct (map it_id (xs @ xs'))" and it: "it \<in> set (ys @ ys')" and f: "it_id it \<in> as_failed st2" for it
  proof (cases "it \<in> set ys")
    case True
    then have "it \<in> set xs" using subseq_set[OF a(2)] by blast
    then have "it_id it \<notin> it_id ` set xs'" using d by auto
    then have "it_id it \<in> as_failed st1" using f b(5) by blast
    then show ?thesis using a(7)[OF _ True] d by simp
  next
    case False
    then have y: "it \<in> set ys'" using it by simp
    then have "it \<in> set xs'" using subseq_set[OF b(2)] by blast
    then have "it_id it \<notin> it_id ` set xs" using d by auto
    moreover have "it_id it \<in> as_failed st1" using b(7)[OF _ y f] d by simp
    ultimately show ?thesis using a(5) by blast
  qed
  moreover have "it \<in> set (ys @ ys') \<or> (\<exists>retry. (snd it, retry, Success) \<in> set (tr @ tr')) \<or> it_id it \<in> as_failed st2 \<or> Ledger_txExists built (it_id it) = Inr True"
    if "it \<in> set (xs @ xs')" for it
    using that a(6)[of it] b(4) b(6)[of it] by auto
  moreover have "subseq (ys @ ys') (xs @ xs')" using a(2) b(2) by (rule list_emb_append_mono)
  moreover have "as_failed st2 \<subseteq> as_failed st \<union> it_id ` set (xs @ xs')" using a(5) b(5) by (simp add: image_Un) blast
  moreover have "fst ` set (tr @ tr') \<subseteq> snd ` set (xs @ xs')" using a(3) b(3) by (simp add: image_Un) blast
  moreover have "as_failed st \<subseteq> as_failed st2" using a(4) b(4) by (rule subset_trans)
  ultimately show ?thesis using attempts_append[OF a(1) b(1)] unfolding tried_def by blast
qed

text \<open>Attempts on the transactions and then again on those that remain.\<close>

lemma tried_again:
  assumes "tried apply1 built tr xs st ys st1" and "tried apply1 built tr' ys st1 zs st2"
  shows "tried apply1 built (tr @ tr') xs st zs st2"
proof -
  note a = triedD[OF assms(1)] and b = triedD[OF assms(2)]
  note sub = subseq_set[OF a(2)]
  have "it_id it \<in> as_failed st" if d: "distinct (map it_id xs)" and it: "it \<in> set zs" and f: "it_id it \<in> as_failed st2" for it
  proof -
    have "distinct (map it_id ys)" using d subseq_distinct[OF subseq_map[OF a(2)]] by blast
    from b(7)[OF this it f] show ?thesis using a(7)[OF d] it subseq_set[OF b(2)] by blast
  qed
  moreover have "it \<in> set zs \<or> (\<exists>retry. (snd it, retry, Success) \<in> set (tr @ tr')) \<or> it_id it \<in> as_failed st2 \<or> Ledger_txExists built (it_id it) = Inr True"
    if "it \<in> set xs" for it
    using a(6)[OF that] b(4) b(6)[of it] by auto
  moreover have "subseq zs xs" using b(2) a(2) by (rule subseq_order.order_trans)
  moreover have "as_failed st2 \<subseteq> as_failed st \<union> it_id ` set xs" using a(5) b(5) image_mono[OF sub, of it_id] by blast
  moreover have "fst ` set (tr @ tr') \<subseteq> snd ` set xs" using a(3) b(3) image_mono[OF sub, of snd] unfolding set_append image_Un by blast
  moreover have "as_failed st \<subseteq> as_failed st2" using a(4) b(4) by (rule subset_trans)
  ultimately show ?thesis using attempts_append[OF a(1) b(1)] unfolding tried_def by blast
qed

lemma fold_tried:
  "\<exists>tr ys. tried apply1 built tr its st ys (fold (pass_step apply1 built pass retry) its st) \<and>
     as_txns (fold (pass_step apply1 built pass retry) its st) = as_txns st @ ys \<and> (\<forall>it \<in> set ys. (snd it, retry, Retry) \<in> set tr)"
proof (induction its arbitrary: st)
  case Nil
  show ?case by (intro exI[of _ "[]"]) (simp add: tried_def)
next
  case (Cons it its)
  obtain tr ys where 1: "tried apply1 built tr [it] st ys (pass_step apply1 built pass retry it st)"
    "as_txns (pass_step apply1 built pass retry it st) = as_txns st @ ys" "\<forall>it \<in> set ys. (snd it, retry, Retry) \<in> set tr"
    using step_tried by blast
  obtain tr' ys' where 2: "tried apply1 built tr' its (pass_step apply1 built pass retry it st) ys' (fold (pass_step apply1 built pass retry) its (pass_step apply1 built pass retry it st))"
    "as_txns (fold (pass_step apply1 built pass retry) its (pass_step apply1 built pass retry it st)) = as_txns (pass_step apply1 built pass retry it st) @ ys'"
    "\<forall>it \<in> set ys'. (snd it, retry, Retry) \<in> set tr'"
    using Cons.IH[of "pass_step apply1 built pass retry it st"] by blast
  show ?case using tried_append[OF 1(1) 2(1)] 1(2,3) 2(2,3) by (intro exI[of _ "tr @ tr'"] exI[of _ "ys @ ys'"]) auto
qed

text \<open>A pass: each transaction that remains was tried in it and is to be retried.\<close>

lemma run_pass_tried:
  obtains tr where "tried apply1 built tr (as_txns st) st (as_txns (run_pass apply1 built pass retry st)) (run_pass apply1 built pass retry st)"
    and "\<forall>it \<in> set (as_txns (run_pass apply1 built pass retry st)). (snd it, retry, Retry) \<in> set tr"
proof -
  let ?st = "st\<lparr>as_txns := [], as_changes := 0\<rparr>"
  obtain tr ys where "tried apply1 built tr (as_txns st) ?st ys (run_pass apply1 built pass retry st)"
    "as_txns (run_pass apply1 built pass retry st) = ys" "\<forall>it \<in> set ys. (snd it, retry, Retry) \<in> set tr"
    using fold_tried[of apply1 built "as_txns st" ?st pass retry] by (auto simp: run_pass_def)
  moreover have "tried apply1 built tr (as_txns st) ?st ys st' = tried apply1 built tr (as_txns st) st ys st'" for tr ys st'
    by (simp add: tried_def)
  ultimately show ?thesis using that by blast
qed

text \<open>The three passes.  The last one that runs has no retry assured, so the assertion after the loop holds.\<close>

lemma passes_tried:
  assumes "passes apply1 built [0..<LEDGER_TOTAL_PASSES] True st = (certainRetry, st')"
  shows "\<not> certainRetry \<and> (\<exists>tr. tried apply1 built tr (as_txns st) st (as_txns st') st' \<and> (\<forall>it \<in> set (as_txns st'). (snd it, False, Retry) \<in> set tr))"
proof -
  let ?p = "run_pass apply1 built"
  define st1 where "st1 = ?p 0 True st"
  define r1 where "r1 \<longleftrightarrow> as_changes st1 \<noteq> 0"
  define st2 where "st2 = ?p 1 r1 st1"
  define st3 where "st3 = ?p 2 False st2"
  have upt: "[0..<LEDGER_TOTAL_PASSES] = [0, 1, 2]" by (simp add: LEDGER_TOTAL_PASSES_def upt_rec)
  have p: "passes apply1 built [0..<LEDGER_TOTAL_PASSES] True st = (False, if as_changes st2 = 0 \<and> \<not> r1 then st2 else st3)"
    unfolding upt by (simp add: LEDGER_RETRY_PASSES_def st1_def[symmetric] r1_def Let_def st2_def st3_def)
  obtain tr1 where 1: "tried apply1 built tr1 (as_txns st) st (as_txns st1) st1" using run_pass_tried unfolding st1_def by blast
  obtain tr2 where 2: "tried apply1 built tr2 (as_txns st1) st1 (as_txns st2) st2" "\<forall>it \<in> set (as_txns st2). (snd it, r1, Retry) \<in> set tr2"
    using run_pass_tried unfolding st2_def by blast
  obtain tr3 where 3: "tried apply1 built tr3 (as_txns st2) st2 (as_txns st3) st3" "\<forall>it \<in> set (as_txns st3). (snd it, False, Retry) \<in> set tr3"
    using run_pass_tried unfolding st3_def by blast
  note 12 = tried_again[OF 1 2(1)]
  note 123 = tried_again[OF 12 3(1)]
  show ?thesis
  proof (cases "as_changes st2 = 0 \<and> \<not> r1")
    case True
    then have "st' = st2" "\<not> certainRetry" using assms p by auto
    moreover have "\<forall>it \<in> set (as_txns st2). (snd it, False, Retry) \<in> set (tr1 @ tr2)" using 2(2) True by simp
    ultimately show ?thesis using 12 by blast
  next
    case False
    then have "st' = st3" "\<not> certainRetry" using assms p by auto
    moreover have "\<forall>it \<in> set (as_txns st3). (snd it, False, Retry) \<in> set ((tr1 @ tr2) @ tr3)" using 3(2) by simp
    ultimately show ?thesis using 123 by blast
  qed
qed

lemma applyTransactions_tried:
  obtains tr txns' failed' view' where "applyTransactions apply1 built txns failed view = Inr (0, txns', failed', view')"
    and "salt txns' = salt txns" and "\<forall>it \<in> set (txs_map txns'). (snd it, False, Retry) \<in> set tr"
    and "tried apply1 built tr (txs_map txns) \<lparr>as_txns = [], as_failed = failed, as_view = view, as_changes = 0\<rparr> (txs_map txns')
      \<lparr>as_txns = [], as_failed = failed', as_view = view', as_changes = 0\<rparr>"
proof -
  let ?st = "\<lparr>as_txns = txs_map txns, as_failed = failed, as_view = view, as_changes = 0\<rparr>"
  obtain r st' where r: "passes apply1 built [0..<LEDGER_TOTAL_PASSES] True ?st = (r, st')" by (cases "passes apply1 built [0..<LEDGER_TOTAL_PASSES] True ?st")
  obtain tr where tr: "\<not> r" "tried apply1 built tr (txs_map txns) ?st (as_txns st') st'" "\<forall>it \<in> set (as_txns st'). (snd it, False, Retry) \<in> set tr"
    using passes_tried[OF r] by auto
  have "applyTransactions apply1 built txns failed view = Inr (0, txns\<lparr>txs_map := as_txns st'\<rparr>, as_failed st', as_view st')"
    using r tr(1) by (simp add: applyTransactions_def)
  then show ?thesis using tr(2,3) by (intro that[of "txns\<lparr>txs_map := as_txns st'\<rparr>" "as_failed st'" "as_view st'" tr]) (simp_all add: tried_def)
qed

section \<open>The built ledger\<close>

lemma passes_txExists:
  assumes "\<And>key. Ledger_txExists b key = Ledger_txExists b' key"
  shows "applyTransactions apply1 b txns failed view = applyTransactions apply1 b' txns failed view"
proof -
  have "pass_step apply1 b = pass_step apply1 b'" unfolding pass_step_def Let_def assms ..
  then have run: "run_pass apply1 b = run_pass apply1 b'" by (intro ext) (simp add: run_pass_def)
  have "passes apply1 b ps r st = passes apply1 b' ps r st" for ps r st
    by (induction ps arbitrary: r st) (simp_all only: passes.simps run Let_def)
  then show ?thesis by (simp add: applyTransactions_def)
qed

lemma no_transactions: "ledger_ok h b \<Longrightarrow> content (txMap b) = [] \<Longrightarrow> Ledger_txExists b key = Inr False"
  using hasItem_content[OF ledger_okD(2)] by (simp add: Ledger_txExists_def)

text \<open>The ledger that the transactions are applied to.\<close>

definition started :: "hasher \<Rightarrow> Ledger \<Rightarrow> Ledger \<Rightarrow> bool" where
  "started h parent b \<longleftrightarrow> ledger_ok h b \<and> ledger_map b = ledger_map parent \<and> content (txMap b) = [] \<and> \<not> mImmutable b \<and>
     li_seq (lg_info b) = li_seq (lg_info parent) + 1 \<and> li_parentHash (lg_info b) = li_hash (lg_info parent) \<and>
     li_parentCloseTime (lg_info b) = li_closeTime (lg_info parent) \<and> ledger_drops b = ledger_drops parent"

lemma next_started:
  assumes "ledger_ok h parent" and "sm_seq (stateMap parent) + 1 \<noteq> 0"
  shows "started h parent (Ledger_next h parent closeTime)"
  using next_ok[OF assms, of closeTime] unfolding started_def by (simp add: Ledger_next_def Let_def LedgerInfo_new_def)

lemma convert_started:
  assumes "ledger_ok h parent" and "sm_seq (stateMap parent) + 1 \<noteq> 0" and "sm_seq (stateMap parent) + 1 + 1 \<noteq> 0"
  obtains b w where "(let built = Ledger_next h parent closeTime in
      if Rules_enabled (lg_rules built) f \<and> \<not> is_v2 (stateMap built) then Ledger_make_v2 h built else Inr (built, [])) = Inr (b, w)"
    and "started h parent b" and "addressed h w"
proof -
  let ?n = "Ledger_next h parent closeTime"
  note n = next_started[OF assms(1,2), of closeTime]
  show ?thesis
  proof (cases "Rules_enabled (lg_rules ?n) f \<and> \<not> is_v2 (stateMap ?n)")
    case True
    have "ledger_ok h ?n" "sm_seq (stateMap ?n) + 1 \<noteq> 0" "sm_seq (txMap ?n) + 1 \<noteq> 0" using next_ok[OF assms(1,2), of closeTime] assms(3) by simp_all
    from make_v2_ok[OF this] obtain b w where b: "Ledger_make_v2 h ?n = Inr (b, w)" "ledger_ok h b" "ledger_map b = ledger_map ?n"
      "content (txMap b) = content (txMap ?n)" "addressed h w" "mImmutable b = mImmutable ?n"
      "\<exists>x y z. lg_info b = (lg_info ?n)\<lparr>li_validated := False, li_accountHash := x, li_txHash := y, li_hash := z, li_closeFlags := li_closeFlags (lg_info ?n) OR sLCF_SHAMapV2\<rparr>"
      by blast
    then have "started h parent b" using n by (auto simp: started_def)
    then show ?thesis using True b(1,5) that by simp
  next
    case False
    show ?thesis by (rule that[of ?n "[]"]) (use n False in \<open>simp_all only: Let_def if_False simp_thms addressed_def list.set ball_simps\<close>)
  qed
qed

text \<open>The last steps: what was changed is written out, and the ledger is accepted.\<close>

lemma accept_ok:
  assumes "ledger_ok h l" and "\<not> mImmutable l"
  obtains l' sm tm n n' w w' where "flushDirty h (stateMap l) = (n, sm, w)" and "flushDirty h (txMap l) = (n', tm, w')" and "addressed h (w @ w')"
    and "Ledger_setAccepted h closeTime resolution correct config (Ledger_unshare h (l\<lparr>stateMap := sm, txMap := tm\<rparr>)) = Inr l'"
    and "sealed h l'" and "ledger_map l' = ledger_map l" and "content (txMap l') = content (txMap l)"
    and "li_seq (lg_info l') = li_seq (lg_info l)" and "li_parentHash (lg_info l') = li_parentHash (lg_info l)"
    and "li_parentCloseTime (lg_info l') = li_parentCloseTime (lg_info l)" and "ledger_drops l' = ledger_drops l"
    and "li_closeTime (lg_info l') = closeTime" and "li_closeTimeResolution (lg_info l') = resolution"
    and "li_closeFlags (lg_info l') = (if correct then 0 else sLCF_NoConsensusTime)"
proof -
  obtain n sm w where s: "flushDirty h (stateMap l) = (n, sm, w)" by (cases "flushDirty h (stateMap l)")
  obtain n' tm w' where t: "flushDirty h (txMap l) = (n', tm, w')" by (cases "flushDirty h (txMap l)")
  have inv: "sham_inv h tnACCOUNT_STATE (stateMap l)" "sham_inv h tnTRANSACTION_MD (txMap l)" "is_v2 (txMap l) = is_v2 (stateMap l)"
    using assms(1) by (simp_all add: ledger_ok_def)
  note fs = flush_ok[OF inv(1) s] and ft = flush_ok[OF inv(2) t]
  note us = unshare_inv[OF fs(1)] and ut = unshare_inv[OF ft(1)]
  let ?l = "(l\<lparr>stateMap := unshare h sm, txMap := unshare h tm\<rparr>)"
  let ?i = "(lg_info l)\<lparr>li_closeTime := closeTime, li_closeTimeResolution := resolution,
      li_closeFlags := (if correct then 0 else sLCF_NoConsensusTime)\<rparr>"
  have ok: "ledger_ok h ?l" "ledger_map ?l = ledger_map l"
    using ledger_ok_maps[OF assms(1) us(1) ut(1)] fs ft us ut inv by simp_all
  then have ok': "ledger_ok h (?l\<lparr>lg_info := ?i\<rparr>)" "\<not> mImmutable (?l\<lparr>lg_info := ?i\<rparr>)" "ledger_map (?l\<lparr>lg_info := ?i\<rparr>) = ledger_map l"
    using assms(2) by (simp_all add: ledger_ok_def ledger_map_def)
  obtain l' x where l': "Ledger_setImmutable h config (?l\<lparr>lg_info := ?i\<rparr>) = Inr l'" "sealed h l'" "ledger_map l' = ledger_map l"
    "content (txMap l') = content (txMap l)"
    "lg_info l' = ?i\<lparr>li_txHash := fst (getHash h (unshare h tm)), li_accountHash := fst (getHash h (unshare h sm)), li_hash := x\<rparr>"
    using setImmutable_ok[OF ok'(1,2), of config] ok'(3) ut(2) ft(2) by auto
  have a: "Ledger_setAccepted h closeTime resolution correct config (Ledger_unshare h (l\<lparr>stateMap := sm, txMap := tm\<rparr>)) = Inr l'"
    using l'(1) by (simp add: Ledger_setAccepted_def Ledger_unshare_def)
  have w: "addressed h (w @ w')" using fs(4) ft(4) by (auto simp: addressed_def)
  show ?thesis by (rule that[OF s t w a l'(2-4)]) (simp_all add: l'(5))
qed

text \<open>What a view must be like so that a ledger can be built from it.\<close>

definition buildable :: "hasher \<Rightarrow> Ledger \<Rightarrow> OpenView \<Rightarrow> bool" where
  "buildable h parent v \<longleftrightarrow> open_ok (ledger_map parent) v \<and> txs_fit [] (ov_txs v) \<and> items_valid (raw_items (ov_items v)) \<and>
     tells_apart h (entries_of parent (raw_items (ov_items v))) \<and>
     skip_ready h (li_seq (lg_info parent)) (li_hash (lg_info parent)) (open_abs (ledger_map parent) v)"

text \<open>The ledger that is built from the view \<open>v\<close> over \<open>parent\<close>.\<close>

definition built_from :: "hasher \<Rightarrow> Ledger \<Rightarrow> OpenView \<Rightarrow> Ledger \<Rightarrow> bool" where
  "built_from h parent v l \<longleftrightarrow>
     ledger_map l = skip_map h (li_seq (lg_info parent)) (li_hash (lg_info parent)) (open_abs (ledger_map parent) v) \<and>
     skip_list (ledger_map l) (keylet_skip h) = last256 (skip_list (open_abs (ledger_map parent) v) (keylet_skip h) @ [li_hash (lg_info parent)]) \<and>
     (\<forall>key. map_of (content (txMap l)) key = map_option (\<lambda>x. (tnTRANSACTION_MD, item_data (tx_item (key, x)))) (map_of (ov_txs v) key)) \<and>
     li_seq (lg_info l) = li_seq (lg_info parent) + 1 \<and> li_parentHash (lg_info l) = li_hash (lg_info parent) \<and>
     li_parentCloseTime (lg_info l) = li_closeTime (lg_info parent) \<and> ledger_drops l = ledger_drops parent - raw_dropsDestroyed (ov_items v)"

text \<open>The changes of the view and the skip list.\<close>

lemma changes_ok:
  assumes "started h parent b" and "buildable h parent v" and "li_seq (lg_info parent) + 1 \<noteq> 0"
  obtains l1 l2 where "OpenView_apply (Ledger_raw h) v b = Inr l1" and "Ledger_updateSkipList h l1 = Inr l2" and "ledger_ok h l2" and "\<not> mImmutable l2"
    and "built_from h parent v l2"
proof -
  note b = assms(1)[unfolded started_def] and v = assms(2)[unfolded buildable_def]
  have e: "entries_of b items = entries_of parent items" for items using b by (simp add: entries_of_def)
  have "ledger_ok h b" "open_ok (ledger_map b) v" "txs_fit (content (txMap b)) (ov_txs v)" "items_valid (raw_items (ov_items v))"
    "tells_apart h (entries_of b (raw_items (ov_items v)))" using b v by (simp_all add: e)
  from commit_ok[OF this] obtain l1 where l1: "OpenView_apply (Ledger_raw h) v b = Inr l1" "ledger_ok h l1" "same_frame b l1"
    "ledger_map l1 = open_abs (ledger_map parent) v" "ledger_drops l1 = ledger_drops parent - raw_dropsDestroyed (ov_items v)"
    "\<And>key. map_of (content (txMap l1)) key = map_option (\<lambda>x. (tnTRANSACTION_MD, item_data (tx_item (key, x)))) (map_of (ov_txs v) key)"
    using b by (auto simp: map_option_case cong: option.case_cong)
  have "\<exists>d. lg_info l1 = (lg_info b)\<lparr>li_drops := d\<rparr>" using l1(3) unfolding same_frame_def by blast
  then have i: "li_seq (lg_info l1) = li_seq (lg_info parent) + 1" "li_parentHash (lg_info l1) = li_hash (lg_info parent)"
    "li_parentCloseTime (lg_info l1) = li_closeTime (lg_info parent)" "\<not> mImmutable l1"
    using l1(3) b by (auto simp: same_frame_def)
  have s: "li_seq (lg_info l1) \<noteq> 0" "li_seq (lg_info l1) - 1 = li_seq (lg_info parent)" using i(1) assms(3) by simp_all
  have r: "skip_ready h (li_seq (lg_info l1) - 1) (li_parentHash (lg_info l1)) (ledger_map l1)" unfolding s(2) i(2) l1(4) using v by blast
  obtain m where m: "Ledger_updateSkipList h l1 = Inr (l1\<lparr>stateMap := m\<rparr>)" "ledger_ok h (l1\<lparr>stateMap := m\<rparr>)"
    "ledger_map (l1\<lparr>stateMap := m\<rparr>) = skip_map h (li_seq (lg_info parent)) (li_hash (lg_info parent)) (open_abs (ledger_map parent) v)"
    "skip_list (ledger_map (l1\<lparr>stateMap := m\<rparr>)) (keylet_skip h) =
      last256 (skip_list (open_abs (ledger_map parent) v) (keylet_skip h) @ [li_hash (lg_info parent)])"
    using updateSkipList_ok[OF l1(2) s(1) r] unfolding Let_def s(2) i(2) l1(4) by blast
  show ?thesis by (rule that[OF l1(1) m(1,2)]) (use i m(3,4) l1(5,6) in \<open>simp_all add: built_from_def\<close>)
qed

lemma buildLedgerImpl_ok:
  assumes "ledger_ok h parent" and "sm_seq (stateMap parent) + 1 \<noteq> 0" and "sm_seq (stateMap parent) + 1 + 1 \<noteq> 0"
    and "li_seq (lg_info parent) + 1 \<noteq> 0" and "buildable h parent v"
    and "\<And>b. started h parent b \<Longrightarrow> applyTxs OpenView_new b = Inr (v, x)"
  obtains l w where "buildLedgerImpl h config parent closeTime correct resolution applyTxs = Inr (l, x, w)" and "addressed h w"
    and "sealed h l" and "built_from h parent v l" and "li_closeTime (lg_info l) = closeTime" and "li_closeTimeResolution (lg_info l) = resolution"
    and "li_closeFlags (lg_info l) = (if correct then 0 else sLCF_NoConsensusTime)"
proof -
  obtain b w0 where b: "(let built = Ledger_next h parent closeTime in
      if Rules_enabled (lg_rules built) (featureSHAMapV2 h) \<and> \<not> is_v2 (stateMap built) then Ledger_make_v2 h built else Inr (built, [])) = Inr (b, w0)"
    "started h parent b" "addressed h w0" by (rule convert_started[OF assms(1-3)])
  obtain l1 l2 where l: "OpenView_apply (Ledger_raw h) v b = Inr l1" "Ledger_updateSkipList h l1 = Inr l2" "ledger_ok h l2" "\<not> mImmutable l2"
    and fin: "built_from h parent v l2"
    by (rule changes_ok[OF b(2) assms(5,4)])
  obtain l3 sm tm n n' w w' where a: "flushDirty h (stateMap l2) = (n, sm, w)" "flushDirty h (txMap l2) = (n', tm, w')" "addressed h (w @ w')"
    "Ledger_setAccepted h closeTime resolution correct config (Ledger_unshare h (l2\<lparr>stateMap := sm, txMap := tm\<rparr>)) = Inr l3"
    "sealed h l3" "ledger_map l3 = ledger_map l2" "content (txMap l3) = content (txMap l2)"
    "li_seq (lg_info l3) = li_seq (lg_info l2)" "li_parentHash (lg_info l3) = li_parentHash (lg_info l2)"
    "li_parentCloseTime (lg_info l3) = li_parentCloseTime (lg_info l2)" "ledger_drops l3 = ledger_drops l2"
    "li_closeTime (lg_info l3) = closeTime" "li_closeTimeResolution (lg_info l3) = resolution"
    "li_closeFlags (lg_info l3) = (if correct then 0 else sLCF_NoConsensusTime)"
    by (rule accept_ok[OF l(3,4)])
  have "buildLedgerImpl h config parent closeTime correct resolution applyTxs = Inr (l3, x, w0 @ w @ w')"
    using b(1) assms(6)[OF b(2)] l(1,2) a(1,2,4) by (simp add: buildLedgerImpl_def Let_def)
  moreover have "addressed h (w0 @ w @ w')" using b(3) a(3) by (auto simp: addressed_def)
  moreover have "built_from h parent v l3" using fin unfolding built_from_def a(6-11) .
  ultimately show ?thesis using a(5,12-14) by (intro that)
qed

section \<open>Properties\<close>

text \<open>
  C33: The canonical set holds a transaction for the key of each one that was inserted into it and nothing else.
  It is ordered by the account padded to 256 bits and combined with the salt, then by sequence number,
  then by identifier.  The salt keeps accounts apart: pruning takes out exactly the transactions of the given
  account and sequence number, in order, and leaves the others, for every sequence number but the largest.
\<close>

theorem canonical_set:
  assumes "forE CanonicalTXSet_insert txs (CanonicalTXSet_new s) = Inr txns" and "seq + 1 \<noteq> 0"
    and "length acc = 20" and "\<forall>txn \<in> set txs. \<forall>a. getAccountID (tx_obj txn) sfAccount = Inr a \<longrightarrow> length a = 20"
  shows "sorted_wrt Key_less (map fst (txs_map txns)) \<and>
    (\<forall>txn \<in> set txs. \<exists>key. canonical_key txn (CanonicalTXSet_new s) = Inr key \<and> key \<in> fst ` set (txs_map txns)) \<and>
    (\<forall>(key, txn) \<in> set (txs_map txns). txn \<in> set txs \<and> canonical_key txn (CanonicalTXSet_new s) = Inr key \<and>
       (\<exists>a n. getAccountID (tx_obj txn) sfAccount = Inr a \<and> getSequence txn = Inr n \<and>
         key = Key (uint256_of_bytes (a @ replicate 12 0) XOR s) n (tid txn))) \<and>
    (\<exists>txns'. CanonicalTXSet_prune acc seq txns =
       Inr (filter (\<lambda>txn. getAccountID (tx_obj txn) sfAccount = Inr acc \<and> getSequence txn = Inr seq) (map snd (txs_map txns)), txns') \<and>
       txs_map txns' = filter (\<lambda>(_, txn). \<not> (getAccountID (tx_obj txn) sfAccount = Inr acc \<and> getSequence txn = Inr seq)) (txs_map txns))"
proof -
  have new: "canonical_ok (CanonicalTXSet_new s)" "txs_map (CanonicalTXSet_new s) = []" by (simp_all add: canonical_ok_def CanonicalTXSet_new_def)
  note i = inserts_ok[OF new(1) assms(1), unfolded new(2)]
  then have wf: "smap_wf (txs_map txns)" and salt: "salt txns = salt (CanonicalTXSet_new s)" by (simp_all add: canonical_ok_def)
  let ?P = "\<lambda>txn. getAccountID (tx_obj txn) sfAccount = Inr acc \<and> getSequence txn = Inr seq"
  have sorted: "sorted_wrt Key_less (map fst (txs_map txns))" using wf by (simp add: smap_wf_def less_CanonicalKey_def)
  have held: "txn \<in> set txs \<and> canonical_key txn (CanonicalTXSet_new s) = Inr key" if "(key, txn) \<in> set (txs_map txns)" for key txn
  proof -
    have "canonical_key txn txns = Inr key" using i that by (auto simp: canonical_ok_def)
    moreover have "smap_find key (txs_map txns) = Some txn" using that smap_wf_distinct[OF wf] by simp
    ultimately show ?thesis using i canonical_key_salt[OF salt] by auto
  qed
  have all: "\<exists>key. canonical_key txn (CanonicalTXSet_new s) = Inr key \<and> key \<in> fst ` set (txs_map txns)" if "txn \<in> set txs" for txn
    using i that by (auto simp: map_of_eq_None_iff)
  have "mAccount key = accountKey acc txns \<and> mSeqNo key = seq \<longleftrightarrow> ?P txn" if "(key, txn) \<in> set (txs_map txns)" for key txn
  proof -
    have "\<And>a. getAccountID (tx_obj txn) sfAccount = Inr a \<Longrightarrow> length a = 20" using held[OF that] assms(4) by blast
    then show ?thesis by (rule canonical_key_of[OF conjunct2[OF held[OF that]] _ assms(3) salt])
  qed
  from prune_filter[OF wf assms(2), of acc ?P, OF this]
  have p: "\<exists>txns'. CanonicalTXSet_prune acc seq txns = Inr (filter ?P (map snd (txs_map txns)), txns') \<and>
      txs_map txns' = filter (\<lambda>(_, txn). \<not> ?P txn) (txs_map txns)" by simp
  show ?thesis
  proof (intro conjI sorted p ballI, goal_cases)
    case (2 it)
    then show ?case using held[of "fst it" "snd it"] canonical_keyD[of "snd it" "CanonicalTXSet_new s" "fst it"]
      by (simp add: case_prod_unfold CanonicalTXSet_new_def)
  qed (rule all)
qed

text \<open>
  C9: Applying a set of transactions always ends without an error.  The view that results comes from a sequence of
  attempts on transactions of the set.  Each transaction of the set was applied, has failed, was in
  the ledger before, or remains in the set; one that remains was tried in a final pass with no retry assured,
  asked to be retried, and has not failed.  The number that is returned is always zero.
\<close>

theorem applyTransactions_exact:
  assumes "distinct (map (\<lambda>it. mTXid (fst it)) (txs_map txns))"
  shows "\<exists>tr txns' failed' view'. applyTransactions apply1 built txns failed view = Inr (0, txns', failed', view') \<and>
    attempts apply1 tr view view' \<and> fst ` set tr \<subseteq> snd ` set (txs_map txns) \<and>
    subseq (txs_map txns') (txs_map txns) \<and> salt txns' = salt txns \<and>
    failed \<subseteq> failed' \<and> failed' \<subseteq> failed \<union> (\<lambda>it. mTXid (fst it)) ` set (txs_map txns) \<and>
    (\<forall>(key, tx) \<in> set (txs_map txns).
       if (key, tx) \<in> set (txs_map txns') then (tx, False, Retry) \<in> set tr \<and> (mTXid key \<in> failed' \<longrightarrow> mTXid key \<in> failed)
       else (\<exists>retry. (tx, retry, Success) \<in> set tr) \<or> mTXid key \<in> failed' \<or> Ledger_txExists built (mTXid key) = Inr True)"
proof -
  obtain tr txns' failed' view' where a: "applyTransactions apply1 built txns failed view = Inr (0, txns', failed', view')"
    "salt txns' = salt txns" "\<forall>it \<in> set (txs_map txns'). (snd it, False, Retry) \<in> set tr"
    and t: "tried apply1 built tr (txs_map txns) \<lparr>as_txns = [], as_failed = failed, as_view = view, as_changes = 0\<rparr> (txs_map txns')
      \<lparr>as_txns = [], as_failed = failed', as_view = view', as_changes = 0\<rparr>" by (rule applyTransactions_tried)
  note d = triedD[OF t, simplified]
  have "if (key, tx) \<in> set (txs_map txns') then (tx, False, Retry) \<in> set tr \<and> (mTXid key \<in> failed' \<longrightarrow> mTXid key \<in> failed)
       else (\<exists>retry. (tx, retry, Success) \<in> set tr) \<or> mTXid key \<in> failed' \<or> Ledger_txExists built (mTXid key) = Inr True"
    if "(key, tx) \<in> set (txs_map txns)" for key tx
    using d(6)[OF that] d(7)[OF assms, of "(key, tx)"] bspec[OF a(3), of "(key, tx)"] by auto
  then show ?thesis using a(1,2) d(1-5) by blast
qed

text \<open>
  C1: A ledger is built without an error from a parent and a set of transactions, if the view that the
  transactions result in can be committed and the skip list has room.  The new ledger is
  sealed and follows the parent: its number is the next one, it names the hash of the parent, and the fees that were
  destroyed are taken off.  It shows the entries of the view but for the two skip list records, the record of recent
  ledgers ends with the parent's hash, its transactions are exactly those of the view, and every
  node written to the store is written under its hash.
\<close>

theorem buildLedger_exact:
  assumes "ledger_ok h parent" and "sm_seq (stateMap parent) + 1 \<noteq> 0" and "sm_seq (stateMap parent) + 1 + 1 \<noteq> 0" and "li_seq (lg_info parent) + 1 \<noteq> 0"
    and "applyTransactions apply1 (Ledger_next h parent closeTime) txns failed OpenView_new = Inr (n, txns', failed', v)" and "buildable h parent v"
  shows "\<exists>l w. buildLedger h config apply1 parent closeTime correct resolution txns failed = Inr (l, (txns', failed'), w) \<and> sealed h l \<and> addressed h w \<and>
    (\<forall>k. kl_key k \<notin> {kl_key (keylet_skip h), kl_key (keylet_skip_of h (li_seq (lg_info parent)))} \<longrightarrow>
       Ledger_read l k = rv_read (OpenView_view (Ledger_view parent) v) k) \<and>
    skip_list (ledger_map l) (keylet_skip h) = last256 (skip_list (open_abs (ledger_map parent) v) (keylet_skip h) @ [li_hash (lg_info parent)]) \<and>
    (\<forall>key. peekItem (txMap l) key = Inr (map_option (\<lambda>x. tx_item (key, x)) (smap_find key (ov_txs v)))) \<and>
    li_seq (lg_info l) = li_seq (lg_info parent) + 1 \<and> li_parentHash (lg_info l) = li_hash (lg_info parent) \<and>
    li_parentCloseTime (lg_info l) = li_closeTime (lg_info parent) \<and> li_closeTime (lg_info l) = closeTime \<and>
    li_closeTimeResolution (lg_info l) = resolution \<and> li_closeFlags (lg_info l) = (if correct then 0 else sLCF_NoConsensusTime) \<and>
    ledger_drops l = ledger_drops parent - raw_dropsDestroyed (ov_items v)"
proof -
  have next': "started h parent (Ledger_next h parent closeTime)" by (rule next_started[OF assms(1,2)])
  have "bindE (applyTransactions apply1 b txns failed OpenView_new) (\<lambda>(_, txns, failed, accum). Inr (accum, (txns, failed))) = Inr (v, (txns', failed'))"
    if "started h parent b" for b
  proof -
    have "Ledger_txExists b key = Ledger_txExists (Ledger_next h parent closeTime) key" for key
      using that next' no_transactions unfolding started_def by metis
    from passes_txExists[OF this] show ?thesis using assms(5) by simp
  qed
  then obtain l w where l: "buildLedger h config apply1 parent closeTime correct resolution txns failed = Inr (l, (txns', failed'), w)" "addressed h w"
    "sealed h l" "built_from h parent v l" "li_closeTime (lg_info l) = closeTime" "li_closeTimeResolution (lg_info l) = resolution"
    "li_closeFlags (lg_info l) = (if correct then 0 else sLCF_NoConsensusTime)"
    unfolding buildLedger_def by (rule buildLedgerImpl_ok[OF assms(1-4,6)])
  note b = l(4)[unfolded built_from_def]
  have ok: "ledger_ok h l" using l(3) by (simp add: sealed_def)
  have "Ledger_read l k = rv_read (OpenView_view (Ledger_view parent) v) k"
    if "kl_key k \<notin> {kl_key (keylet_skip h), kl_key (keylet_skip_of h (li_seq (lg_info parent)))}" for k
  proof -
    have "ledger_map l (kl_key k) = open_abs (ledger_map parent) v (kl_key k)"
      using b that by (simp add: skip_map_def skip_map_every_def Let_def)
    then show ?thesis using Ledger_read_map(2)[OF ok] open_ledger.read[of h "(parent, v)" k] assms(1,6) by (simp add: read_map_def buildable_def)
  qed
  moreover have "peekItem (txMap l) key = Inr (map_option (\<lambda>x. tx_item (key, x)) (smap_find key (ov_txs v)))" for key
  proof -
    have "map_of (content (txMap l)) key = map_option (\<lambda>x. (tnTRANSACTION_MD, item_data (tx_item (key, x)))) (map_of (ov_txs v) key)" using b by blast
    then show ?thesis using peekItem_content[OF ledger_okD(2)[OF ok], of key] by (cases "map_of (ov_txs v) key") (simp_all add: tx_item_def case_prod_unfold)
  qed
  ultimately show ?thesis using l(1-3,5-7) b by blast
qed

section \<open>Examples\<close>

lemma example_key:
  "getAccountID (tx_obj example_tx) sfAccount = Inr (replicate 20 1)" "getSequence example_tx = Inr 1"
  "canonical_key example_tx txns = Inr (Key (accountKey (replicate 20 1) txns) 1 (tid example_tx))"
proof -
  note p = tx_peek[OF example_tx_shape]
  have "peekAtPField (tx_obj example_tx) sfAccount = Inr (Some (V_Account (replicate 20 1) False))"
    "peekAtPField (tx_obj example_tx) sfSequence = Inr (Some (V_UInt32 1))"
    using p[of sfAccount] p[of sfSequence] by (simp_all add: example_field example_values_def tf_AccountSet_def tf_commonFields_def)
  then show "getAccountID (tx_obj example_tx) sfAccount = Inr (replicate 20 1)" "getSequence example_tx = Inr 1"
    by (simp_all add: getAccountID_def getSequence_def getFieldU32_def getFieldByValue_def getSType_def)
  then show "canonical_key example_tx txns = Inr (Key (accountKey (replicate 20 1) txns) 1 (tid example_tx))" by (simp add: canonical_key_def)
qed

theorem canonical_set_witness:
  "\<exists>txns txns' txns''. forE CanonicalTXSet_insert [example_tx] (CanonicalTXSet_new 7) = Inr txns \<and>
     CanonicalTXSet_prune (replicate 20 1) 1 txns = Inr ([example_tx], txns') \<and> txs_map txns' = [] \<and>
     CanonicalTXSet_prune (replicate 20 2) 1 txns = Inr ([], txns'') \<and> map snd (txs_map txns'') = [example_tx]"
proof -
  let ?k = "Key (accountKey (replicate 20 1) (CanonicalTXSet_new 7)) 1 (tid example_tx)"
  let ?s = "\<lparr>txs_map = [(?k, example_tx)], salt = 7\<rparr>"
  have i: "forE CanonicalTXSet_insert [example_tx] (CanonicalTXSet_new 7) = Inr ?s"
    by (simp add: CanonicalTXSet_insert_def example_key) (simp add: CanonicalTXSet_new_def)
  have l: "\<forall>txn \<in> set [example_tx]. \<forall>a. getAccountID (tx_obj txn) sfAccount = Inr a \<longrightarrow> length a = 20" using example_key(1) by simp
  have ne: "replicate 20 (1 :: u8) \<noteq> replicate 20 2" by simp
  note p = conjunct2[OF conjunct2[OF conjunct2[OF canonical_set[OF i _ _ l]]]]
  have "\<exists>txns'. CanonicalTXSet_prune (replicate 20 1) 1 ?s = Inr ([example_tx], txns') \<and> txs_map txns' = []"
    using p[of 1 "replicate 20 1"] example_key(1,2) by simp
  moreover have "\<exists>txns'. CanonicalTXSet_prune (replicate 20 2) 1 ?s = Inr ([], txns') \<and> map snd (txs_map txns') = [example_tx]"
    using p[of 1 "replicate 20 2"] example_key(1,2) ne by (simp; elim exE conjE; simp)
  ultimately show ?thesis using i by (elim exE conjE) (intro exI conjI, assumption+)
qed

text \<open>An application that records the transaction in the view.\<close>

definition example_apply :: apply_fun where
  "example_apply view tx flags = (view\<lparr>ov_txs := smap_set (tid tx) ([1], Some []) (ov_txs view)\<rparr>, Inr (0, True))"

definition example_txns :: CanonicalTXSet where
  "example_txns = \<lparr>txs_map = [(Key 0 1 5, example_tx\<lparr>tid := 5\<rparr>)], salt = 0\<rparr>"

definition example_view :: OpenView where
  "example_view = OpenView_new\<lparr>ov_txs := [(5, [1], Some [])]\<rparr>"

lemma example_passes:
  assumes "Ledger_txExists b 5 = Inr False"
  shows "applyTransactions example_apply b example_txns {} OpenView_new = Inr (0, example_txns\<lparr>txs_map := []\<rparr>, {}, example_view)"
  using assms by (simp add: applyTransactions_def LEDGER_TOTAL_PASSES_def LEDGER_RETRY_PASSES_def upt_rec example_txns_def run_pass_def pass_step_def
      applyTransaction_def example_apply_def Let_def OpenView_new_def example_view_def)

theorem applyTransactions_exact_witness:
  "\<exists>tr txns' failed' view'. applyTransactions example_apply empty_ledger example_txns {} OpenView_new = Inr (0, txns', failed', view') \<and>
     attempts example_apply tr OpenView_new view'"
proof -
  have "distinct (map (\<lambda>it. mTXid (fst it)) (txs_map example_txns))" by (simp add: example_txns_def)
  from applyTransactions_exact[OF this, of example_apply empty_ledger "{}" OpenView_new] show ?thesis
    by (elim exE conjE) (intro exI conjI, assumption+)
qed

theorem buildLedger_exact_witness:
  "\<exists>l w. buildLedger example_hash example_config example_apply (sealed_example example_hash 1) 30 True 30 example_txns {} =
       Inr (l, (example_txns\<lparr>txs_map := []\<rparr>, {}), w) \<and> sealed example_hash l \<and> li_seq (lg_info l) = 2 \<and>
     peekItem (txMap l) 5 = Inr (Some (tx_item (5, [1], Some [])))"
proof -
  let ?p = "sealed_example example_hash 1"
  have ok: "ledger_ok example_hash ?p" using sealed_example_ok by (simp add: sealed_def)
  have seq: "sm_seq (stateMap ?p) + 1 \<noteq> 0" "sm_seq (stateMap ?p) + 1 + 1 \<noteq> 0" "li_seq (lg_info ?p) = 1"
    by (simp_all add: sealed_example_def Let_def empty_ledger_def SHAMap_new_def)
  have m: "ledger_map ?p = Map.empty" using empty_ledger_ok by (simp add: sealed_example_def Let_def)
  have view: "raw_items (ov_items example_view) = []" "ov_txs example_view = [(5, [1], Some [])]" by (simp_all add: example_view_def OpenView_new_def)
  have "open_ok Map.empty example_view" by (simp add: open_ok_def view raw_ok_def keyed_def smap_wf_def)
  moreover have "open_abs Map.empty example_view = Map.empty" by (intro ext) (simp add: open_abs_def view raw_overlay_def)
  moreover have "tells_apart example_hash (entries_of ?p [])" by (simp add: entries_of_def tells_apart_def m)
  ultimately have b: "buildable example_hash ?p example_view"
    unfolding buildable_def m view using example_skip_ready by (simp add: items_valid_def)
  have "started example_hash ?p (Ledger_next example_hash ?p 30)" by (rule next_started[OF ok seq(1)])
  then have "Ledger_txExists (Ledger_next example_hash ?p 30) 5 = Inr False" using no_transactions unfolding started_def by blast
  note e = example_passes[OF this]
  have "li_seq (lg_info ?p) + 1 \<noteq> 0" unfolding seq(3) by simp
  from buildLedger_exact[OF ok seq(1,2) this e b, of example_config True 30] obtain l w where
    "buildLedger example_hash example_config example_apply ?p 30 True 30 example_txns {} = Inr (l, (example_txns\<lparr>txs_map := []\<rparr>, {}), w)"
    "sealed example_hash l" "li_seq (lg_info l) = li_seq (lg_info ?p) + 1"
    "peekItem (txMap l) 5 = Inr (map_option (\<lambda>x. tx_item (5, x)) (smap_find 5 (ov_txs example_view)))" by (elim exE conjE) (rule that, assumption+, erule spec)
  then show ?thesis unfolding seq(3) view(2) by (intro exI[of _ l] exI[of _ w]) simp
qed

end
