(* ===== verification/Spec2Isabelle.thy ===== *)
theory Spec2Isabelle
  imports BuildLedger
begin

text \<open>
  Verification of the ledger core of the server under \<^verbatim>\<open>src/SupplyFinanceChain/src/SupplyFinanceChain\<close>.
  File names below are relative to that directory.

  \<^bold>\<open>The program.\<close>  The server keeps a chain of ledgers.  A ledger has a header and two maps, one with the state
  entries and one with the transactions; each map is a Merkle radix tree, a \<open>SHAMap\<close>.  An entry is a serialized object
  with typed fields whose format depends on its type, stored under a key that is the hash of what it is about.  Amounts
  in the fields are native drops or issued amounts in decimal floating point.  Transactions are serialized objects
  as well, with an identifier and signatures.  A new ledger is built from its parent: an open view collects
  the changes that a set of transactions makes, in a table over the parent, the table is applied to the new
  ledger, the record of earlier ledger hashes is brought up to date, and the ledger is sealed with its hash.  The
  development follows that path from bytes to built ledgers.

  \<^bold>\<open>Theories.\<close>
  \<^item> \<open>Prelude\<close>: machine integers, exceptions as \<open>exn + 'a\<close> with sequencing, loops over lists.  \<open>Stdmap\<close>: ordered
    association lists for \<open>std::map\<close>.  \<open>Uint256\<close>: 256-bit keys, their order and bytes.
  \<^item> \<open>Serializer\<close> (\<^verbatim>\<open>protocol/Serializer.h\<close>, \<^verbatim>\<open>protocol/impl/Serializer.cpp\<close>): writer and reader, field headers and length
    prefixes.
  \<^item> \<open>IOU\<close>, \<open>Amount\<close> (\<^verbatim>\<open>protocol/impl/IOUAmount.cpp\<close>, \<^verbatim>\<open>protocol/impl/STAmount.cpp\<close>, \<^verbatim>\<open>protocol/impl/Rate2.cpp\<close>):
    amounts.  Mantissas of \<open>STAmount\<close> are 64-bit words.  Those of \<open>IOUAmount\<close> are integers that a signed 64-bit
    integer holds; negating the least one is the value \<open>SignedOverflow\<close>, and on
    normalized amounts the operations stay within the range.
  \<^item> \<open>SFields\<close> (\<^verbatim>\<open>protocol/impl/SField.cpp\<close>, \<^verbatim>\<open>LedgerFormats.cpp\<close>, \<^verbatim>\<open>TxFormats.cpp\<close>, \<^verbatim>\<open>InnerObjectFormats.cpp\<close>): all
    registered fields and all formats.
  \<^item> \<open>Objects\<close>, \<open>ObjectWire\<close>, \<open>Entries\<close> (\<^verbatim>\<open>protocol/impl/STObject.cpp\<close>, \<^verbatim>\<open>STVar.cpp\<close>, \<^verbatim>\<open>STPathSet.cpp\<close>,
    \<^verbatim>\<open>STLedgerEntry.cpp\<close> and the value classes): objects, access to fields, the wire form, and ledger entries.
  \<^item> \<open>Indexes\<close> (\<^verbatim>\<open>protocol/impl/Indexes.cpp\<close>): the keys of ledger entries.
  \<^item> \<open>View\<close>, \<open>RawTable\<close> (\<^verbatim>\<open>ledger/ReadView.h\<close>, \<^verbatim>\<open>ledger/RawView.h\<close>, \<^verbatim>\<open>ledger/impl/RawStateTable.cpp\<close>,
    \<^verbatim>\<open>ledger/impl/OpenView.cpp\<close>): the view interfaces as records of operations with locales for their
    contracts, the table of changes and the open view.
  \<^item> \<open>SHAMapNode\<close>, \<open>SHAMapTree\<close>, \<open>SHAMapWalk\<close>, \<open>SHAMapModify\<close>, \<open>SHAMapIter\<close>, \<open>SHAMapWire\<close>, \<open>SHAMapHash\<close>, \<open>SHAMapSpec\<close>,
    \<open>SHAMapConvert\<close> (\<^verbatim>\<open>shamap/impl/SHAMap.cpp\<close>, \<^verbatim>\<open>SHAMapTreeNode.cpp\<close>, \<^verbatim>\<open>SHAMapNodeID.cpp\<close>): the tree in both of its
    versions, lookup, insertion, deletion, iteration, serialized nodes, hashes, snapshots and conversion.
  \<^item> \<open>Ledger\<close>, \<open>Commit\<close>, \<open>LedgerHeader\<close>, \<open>LedgerClose\<close> (\<^verbatim>\<open>app/ledger/Ledger.cpp\<close>, \<^verbatim>\<open>consensus/LedgerTiming.h\<close>,
    \<^verbatim>\<open>ledger/impl/ReadView.cpp\<close>, \<^verbatim>\<open>ledger/impl/View.cpp\<close>, \<^verbatim>\<open>app/ledger/impl/InboundLedger.cpp\<close>): a ledger over its two
    maps, committing an open view, header and close times, rules and fees, the first and the following
    ledger, sealing and the skip list.
  \<^item> \<open>Transactions\<close> (\<^verbatim>\<open>protocol/impl/STTx.cpp\<close>, \<^verbatim>\<open>protocol/impl/Sign.cpp\<close>): transactions, identifiers and signatures.
  \<^item> \<open>BuildLedger\<close> (\<^verbatim>\<open>app/misc/CanonicalTXSet.cpp\<close>, \<^verbatim>\<open>app/ledger/impl/BuildLedger.cpp\<close>, \<^verbatim>\<open>app/tx/impl/apply.cpp\<close>): transactions
    in canonical order, the passes over them, and the built ledger.

  \<^bold>\<open>What is shown.\<close>
  \<^item> Wire forms: amounts, objects, entries, transactions, tree nodes, headers and length prefixes are read back as
    they were written; reading an object returns on every input.  The reader of amounts takes nothing but what the writer
    writes for amounts that \<open>canonicalize\<close> leaves alone, and native amounts above the maximum that it does not check.
  \<^item> Objects: setting a field directly and assigning to it through a proxy, with the fields of default style.
  \<^item> Arithmetic: normalization is exact, sums, products, quotients and ratios are accurate to a stated
    error, and the cases where the source rounds the wrong way are proved as such.
  \<^item> Trees: a map refines an ordered map from keys to bytes under every sequence of operations, its hash is a
    function of the contents, and equal hashes mean equal contents unless the hash function collides.
  \<^item> Views: an open view reads and iterates as the base with its table laid over it, and committing it
    gives exactly the state it showed; a table that does not fit the ledger is refused.
  \<^item> Ledgers: the first ledger, the skip list, the identification of a sealed ledger by its hash, and that
    a ledger built from a parent follows it and holds exactly what the view of the transactions showed.
  \<^item> Transactions: what is signed determines every field that is not a signature, a set of transactions is tried in
    a canonical order that keeps accounts apart, and no transaction is lost in the passes.

  \<^bold>\<open>Parameters.\<close>  The hash function is an argument \<open>h\<close> of type \<open>hasher\<close>.  Nothing is assumed of it except where a
  theorem says that it has no collision among given byte strings.  Signing, verifying and the test for the type of
  a public key, with the wrappers around the libraries in \<^verbatim>\<open>protocol/impl/PublicKey.cpp\<close> and \<^verbatim>\<open>SecretKey.cpp\<close>, are a
  record \<open>crypto\<close>.  The effect of one transaction is an argument \<open>apply1\<close> of the functions of \<open>BuildLedger\<close>.  The conversion
  of a wide integer by Boost is an argument of the ratio of drops.

  \<^bold>\<open>Conventions.\<close>  A throw is a value \<open>Inl e\<close>.  A loop whose end is not evident is a \<open>partial_function\<close> into
  options, where \<open>None\<close> means that it does not return, and that it returns is proved.  No fuel is used;
  the only depth is the limit of ten nested objects that the reader of the source has itself.  Shared pointers
  are values: a map is copied where the source shares nodes, and the sequence numbers that decide whether a
  node is cloned are part of the model.  An assertion is checked where the text of a theory says so and otherwise left out,
  as in a release build: an update of an absent key returns false, an item of a map may be shorter than twelve
  bytes, and the number of a ledger may be zero where a theorem does not exclude it.  Undefined behaviour that a release
  build runs into is an error value, \<open>NullDereference\<close>, \<open>OutOfBounds\<close> or \<open>SignedOverflow\<close>.  Drops are integers without a
  bound, where the source has signed 64-bit integers: the first ledger has \<open>10 ^ 17\<close> of them, later ones destroy some, and
  an overflow of this difference is not modelled.  Sequence numbers of maps and ledgers are 32-bit words; theorems state where they must not
  wrap.

  \<^bold>\<open>Not modelled.\<close>  The types of transactions and the payment engine with its sandboxes, consensus, the open ledger and
  the transaction queue, acquisition of ledgers and synchronization of maps, the node store, the
  databases, the network, RPC, JSON and text, and cryptography: they are input and
  output, concurrent services, third-party code, or need the transaction engine.
\<close>

end
